(* ===== verification/Js_Prelude.thy ===== *)
theory Js_Prelude
  imports Main "HOL-Library.Word"
begin

text \<open>
  Shared ground of the development: the JavaScript number operations the modelled code uses,
  counted loops, and lists of bits.

  Every number the modelled code computes with is an integer, so a JavaScript number is an
  \<open>int\<close>.  The bitwise operators first convert their operands with ToInt32 (ToUint32 for the
  left operand of the unsigned shift), and take the shift count modulo 32; they are written out
  here exactly so, because the compressor shifts values past bit 31 on purpose.
\<close>

unbundle bit_operations_syntax

section \<open>JavaScript's 32-bit operators\<close>

definition to_int32 :: "int \<Rightarrow> int" where
  "to_int32 x = signed_take_bit 31 x"

definition to_uint32 :: "int \<Rightarrow> int" where
  "to_uint32 x = take_bit 32 x"

definition js_and :: "int \<Rightarrow> int \<Rightarrow> int" where
  "js_and a b = to_int32 a AND to_int32 b"

definition js_or :: "int \<Rightarrow> int \<Rightarrow> int" where
  "js_or a b = to_int32 a OR to_int32 b"

definition js_xor :: "int \<Rightarrow> int \<Rightarrow> int" where
  "js_xor a b = to_int32 a XOR to_int32 b"

definition js_not :: "int \<Rightarrow> int" where
  "js_not a = NOT (to_int32 a)"

definition js_shl :: "int \<Rightarrow> int \<Rightarrow> int" where
  "js_shl a n = to_int32 (push_bit (nat (n mod 32)) (to_int32 a))"

definition js_shr :: "int \<Rightarrow> int \<Rightarrow> int" where
  "js_shr a n = drop_bit (nat (n mod 32)) (to_int32 a)"

definition js_ushr :: "int \<Rightarrow> int \<Rightarrow> int" where
  "js_ushr a n = drop_bit (nat (n mod 32)) (to_uint32 a)"

lemma to_int32_id [simp]: "- (2 ^ 31) \<le> x \<Longrightarrow> x < 2 ^ 31 \<Longrightarrow> to_int32 x = x"
  unfolding to_int32_def by (rule signed_take_bit_int_eq_self) simp_all

lemma to_int32_nonneg [simp]: "0 \<le> x \<Longrightarrow> x < 2147483648 \<Longrightarrow> to_int32 x = x"
  by (rule to_int32_id) simp_all

lemma to_uint32_id [simp]: "0 \<le> x \<Longrightarrow> x < 4294967296 \<Longrightarrow> to_uint32 x = x"
  unfolding to_uint32_def by (simp add: take_bit_int_eq_self_iff)

lemma bit_to_int32: "bit (to_int32 x) k = bit x (min k 31)"
  by (simp add: to_int32_def bit_signed_take_bit_iff min.commute)

lemma bit_to_int32_low [simp]: "k < 32 \<Longrightarrow> bit (to_int32 x) k = bit x k"
  by (simp add: bit_to_int32 min_def)

lemma take_bit_to_int32 [simp]: "n \<le> 32 \<Longrightarrow> take_bit n (to_int32 x) = take_bit n x"
  by (rule bit_eqI) (auto simp: bit_take_bit_iff)

lemma js_and_mask:
  assumes "n \<le> 31"
  shows "js_and x (2 ^ n - 1) = take_bit n x"
proof -
  have "(2::int) ^ n - 1 < 2 ^ 31"
    using power_increasing [OF assms, of "2::int"] by simp
  then have "to_int32 (2 ^ n - 1) = mask n"
    by (simp add: mask_eq_exp_minus_1)
  then show ?thesis
    using assms by (simp add: js_and_def take_bit_eq_mask [symmetric])
qed

lemma js_and_ffff: "js_and x 65535 = x mod 65536"
  using js_and_mask [of 16 x] by (simp add: take_bit_eq_mod)

lemma js_and_ff: "js_and x 255 = x mod 256"
  using js_and_mask [of 8 x] by (simp add: take_bit_eq_mod)

lemma js_and_1fff: "js_and x 8191 = x mod 8192"
  using js_and_mask [of 13 x] by (simp add: take_bit_eq_mod)

lemma js_and_7fff: "js_and x 32767 = x mod 32768"
  using js_and_mask [of 15 x] by (simp add: take_bit_eq_mod)

lemma js_and_7: "js_and x 7 = x mod 8"
  using js_and_mask [of 3 x] by (simp add: take_bit_eq_mod)

lemma js_and_1: "js_and x 1 = x mod 2"
  using js_and_mask [of 1 x] by (simp add: take_bit_eq_mod)

lemma js_shl_small:
  assumes "0 \<le> a" "0 \<le> n" "n < 32" "a * 2 ^ nat n < 2 ^ 31"
  shows "js_shl a n = a * 2 ^ nat n"
proof -
  have "a * 1 \<le> a * 2 ^ nat n"
    using assms(1) by (intro mult_left_mono) simp_all
  with assms have "a < 2 ^ 31" by simp
  with assms show ?thesis
    by (simp add: js_shl_def push_bit_eq_mult)
qed

lemma js_shr_nonneg:
  "0 \<le> a \<Longrightarrow> a < 2 ^ 31 \<Longrightarrow> 0 \<le> n \<Longrightarrow> n < 32 \<Longrightarrow> js_shr a n = a div 2 ^ nat n"
  by (simp add: js_shr_def drop_bit_eq_div)

lemma js_ushr_nonneg:
  "0 \<le> a \<Longrightarrow> a < 2 ^ 32 \<Longrightarrow> 0 \<le> n \<Longrightarrow> n < 32 \<Longrightarrow> js_ushr a n = a div 2 ^ nat n"
  by (simp add: js_ushr_def drop_bit_eq_div)

lemma less_pow2_mono:
  assumes "(x::int) < 2 ^ m" "m \<le> n"
  shows "x < 2 ^ n"
  by (rule less_le_trans [OF assms(1)]) (rule power_increasing, use assms(2) in simp_all)

lemma int_div_less:
  assumes "(v::int) < m * d" "0 < d"
  shows "v div d < m"
proof -
  have "v div d * d \<le> v"
    using assms(2) by (simp add: minus_mod_eq_div_mult [symmetric])
  with assms(1) have "v div d * d < m * d" by linarith
  with assms(2) show ?thesis by simp
qed

section \<open>Counted loops\<close>

text \<open>
  \<open>for (i = a; i < b; i++) body\<close> over a state that the body does not use to change \<open>i\<close> or
  \<open>b\<close>, and the descending \<open>for (i = a; i >= b; i--) body\<close>.
\<close>

definition for_up :: "int \<Rightarrow> int \<Rightarrow> (int \<Rightarrow> 's \<Rightarrow> 's) \<Rightarrow> 's \<Rightarrow> 's" where
  "for_up a b body s = fold body [a..b - 1] s"

definition for_down :: "int \<Rightarrow> int \<Rightarrow> (int \<Rightarrow> 's \<Rightarrow> 's) \<Rightarrow> 's \<Rightarrow> 's" where
  "for_down a b body s = fold body (rev [b..a]) s"

lemma for_up_empty [simp]: "b \<le> a \<Longrightarrow> for_up a b body s = s"
  by (simp add: for_up_def)

lemma for_up_step: "a < b \<Longrightarrow> for_up a b body s = for_up (a + 1) b body (body a s)"
  by (simp add: for_up_def upto_rec1)

lemma for_up_last:
  "a < b \<Longrightarrow> for_up a b body s = body (b - 1) (for_up a (b - 1) body s)"
  by (simp add: for_up_def upto_rec2)

lemma for_down_step: "b \<le> a \<Longrightarrow> for_down a b body s = for_down (a - 1) b body (body a s)"
  by (simp add: for_down_def upto_rec2)

lemma for_down_empty [simp]: "a < b \<Longrightarrow> for_down a b body s = s"
  by (simp add: for_down_def)

text \<open>The invariant rule of a counted loop.\<close>

lemma for_up_invariant:
  assumes "a \<le> b" and "P a s"
    and "\<And>i s. a \<le> i \<Longrightarrow> i < b \<Longrightarrow> P i s \<Longrightarrow> P (i + 1) (body i s)"
  shows "P b (for_up a b body s)"
  using assms
proof (induction "nat (b - a)" arbitrary: a s)
  case 0
  then show ?case by simp
next
  case (Suc n)
  then have "a < b" by linarith
  moreover have "P b (for_up (a + 1) b body (body a s))"
    using Suc.hyps(2) Suc.prems \<open>a < b\<close> by (intro Suc.hyps(1)) auto
  ultimately show ?case by (simp add: for_up_step)
qed

lemma for_up_preserves:
  assumes "P s" and "\<And>i s. a \<le> i \<Longrightarrow> i < b \<Longrightarrow> P s \<Longrightarrow> P (body i s)"
  shows "P (for_up a b body s)"
proof (cases "a \<le> b")
  case True
  then show ?thesis
    using for_up_invariant [where P = "\<lambda>_. P"] assms by blast
next
  case False
  with assms(1) show ?thesis by simp
qed

lemma for_down_preserves:
  assumes "P s" and "\<And>i s. b \<le> i \<Longrightarrow> i \<le> a \<Longrightarrow> P s \<Longrightarrow> P (body i s)"
  shows "P (for_down a b body s)"
proof -
  have "P (fold body xs s)" if "set xs \<subseteq> {b..a}" "P s" for xs s
    using that by (induction xs arbitrary: s) (auto intro: assms(2))
  from this [OF _ assms(1)] show ?thesis
    by (simp add: for_down_def)
qed

text \<open>A loop that stores into one array, at an offset, reading nothing it writes.\<close>

lemma for_up_store:
  "for_up 0 n (\<lambda>j a. a(d + j := f j)) a =
     (\<lambda>i. if d \<le> i \<and> i < d + n then f (i - d) else a i)"
proof (cases "0 \<le> n")
  case True
  show ?thesis
    by (rule for_up_invariant
        [where P = "\<lambda>k b. b = (\<lambda>i. if d \<le> i \<and> i < d + k then f (i - d) else a i)"])
      (use True in \<open>auto simp: fun_eq_iff\<close>)
qed (auto simp: fun_eq_iff)

lemma for_up_store0:
  "for_up 0 n (\<lambda>j a. a(j := f j)) a = (\<lambda>i. if 0 \<le> i \<and> i < n then f i else a i)"
  using for_up_store [where d = 0] by (simp cong: if_cong)

lemma take_upto: "0 \<le> i \<Longrightarrow> a + i \<le> b + 1 \<Longrightarrow> take (nat i) [a..b] = [a..a + i - 1]"
  by (rule nth_equalityI) auto

lemma drop_upto: "0 \<le> i \<Longrightarrow> a + i \<le> b + 1 \<Longrightarrow> drop (nat i) [a..b] = [a + i..b]"
  by (rule nth_equalityI) auto

text \<open>Storing a list into an array from an index on, and the loop that does it.\<close>

definition arr_store :: "int \<Rightarrow> 'v list \<Rightarrow> (int \<Rightarrow> 'v) \<Rightarrow> int \<Rightarrow> 'v" where
  "arr_store d xs a = (\<lambda>i. if d \<le> i \<and> i < d + int (length xs) then xs ! nat (i - d) else a i)"

lemma arr_store_Nil [simp]: "arr_store d [] a = a"
  by (auto simp: arr_store_def fun_eq_iff)

lemma arr_store_append:
  "arr_store (d + int (length xs)) ys (arr_store d xs a) = arr_store d (xs @ ys) a"
  by (auto simp: arr_store_def fun_eq_iff nth_append nat_diff_distrib' intro!: arg_cong [where f = "nth ys"])

lemma arr_store_map:
  "map (arr_store d xs a) [d..d + int (length xs) - 1] = xs"
  by (rule nth_equalityI) (auto simp: arr_store_def)

lemma for_up_arr_store:
  assumes "0 \<le> n"
  shows "for_up 0 n (\<lambda>j a. a(d + j := f (e + j))) a = arr_store d (map f [e..e + n - 1]) a"
  using assms by (auto simp: for_up_store arr_store_def fun_eq_iff)

section \<open>Lists of bits\<close>

text \<open>The low \<open>n\<close> bits of an integer, least significant first, and the value of such a list.\<close>

definition bits_lsb :: "nat \<Rightarrow> int \<Rightarrow> bool list" where
  "bits_lsb n v = map (bit v) [0..<n]"

definition val_lsb :: "bool list \<Rightarrow> int" where
  "val_lsb = horner_sum of_bool 2"

lemma length_bits_lsb [simp]: "length (bits_lsb n v) = n"
  by (simp add: bits_lsb_def)

lemma nth_bits_lsb [simp]: "k < n \<Longrightarrow> bits_lsb n v ! k = bit v k"
  by (simp add: bits_lsb_def)

lemma bits_lsb_0 [simp]: "bits_lsb 0 v = []"
  by (simp add: bits_lsb_def)

lemma bits_lsb_eqI:
  assumes "\<And>k. k < n \<Longrightarrow> bit v k = bit w k"
  shows "bits_lsb n v = bits_lsb n w"
  using assms by (simp add: bits_lsb_def)

lemma bits_lsb_take_bit [simp]: "n \<le> m \<Longrightarrow> bits_lsb n (take_bit m v) = bits_lsb n v"
  by (rule bits_lsb_eqI) (simp add: bit_take_bit_iff)

lemma bits_lsb_append: "bits_lsb (m + n) v = bits_lsb m v @ bits_lsb n (drop_bit m v)"
  by (rule nth_equalityI) (auto simp: nth_append bit_drop_bit_eq)

lemma val_bits_lsb: "val_lsb (bits_lsb n v) = take_bit n v"
  unfolding val_lsb_def bits_lsb_def by (rule horner_sum_bit_eq_take_bit)

lemma val_bits_lsb_id [simp]: "0 \<le> v \<Longrightarrow> v < 2 ^ n \<Longrightarrow> val_lsb (bits_lsb n v) = v"
  by (simp add: val_bits_lsb take_bit_int_eq_self_iff)

lemma bits_lsb_inj:
  assumes "bits_lsb n v = bits_lsb n w" and "0 \<le> v" "v < 2 ^ n" and "0 \<le> w" "w < 2 ^ n"
  shows "v = w"
  using assms val_bits_lsb_id by metis

lemma bits_lsb_or_push:
  assumes "0 \<le> b" "b < 2 ^ m"
  shows "bits_lsb (m + n) (b OR push_bit m v) = bits_lsb m b @ bits_lsb n v"
proof (rule nth_equalityI)
  fix k assume "k < length (bits_lsb (m + n) (b OR push_bit m v))"
  then have k: "k < m + n" by simp
  have b: "\<not> bit b k" if "m \<le> k"
  proof -
    have "take_bit m b = b"
      using assms by (simp add: take_bit_int_eq_self_iff)
    then have "bit b k = bit (take_bit m b) k" by simp
    with that show ?thesis by (simp add: bit_take_bit_iff)
  qed
  show "bits_lsb (m + n) (b OR push_bit m v) ! k = (bits_lsb m b @ bits_lsb n v) ! k"
  proof (cases "k < m")
    case True
    with k show ?thesis by (simp add: nth_append bit_or_iff bit_push_bit_iff)
  next
    case False
    with k b show ?thesis by (simp add: nth_append bit_or_iff bit_push_bit_iff)
  qed
qed simp

lemma bits_lsb_pad:
  assumes "0 \<le> v" "v < 2 ^ m"
  shows "bits_lsb (m + n) v = bits_lsb m v @ replicate n False"
proof -
  have "bits_lsb n 0 = replicate n False"
    by (rule nth_equalityI) simp_all
  with bits_lsb_or_push [OF assms, of n 0] show ?thesis by simp
qed

lemma bits_lsb_Suc: "bits_lsb (Suc n) v = odd v # bits_lsb n (v div 2)"
  by (rule nth_equalityI) (auto simp: nth_Cons bit_0 bit_Suc split: nat.splits)

lemma val_lsb_append: "val_lsb (xs @ ys) = val_lsb xs + 2 ^ length xs * val_lsb ys"
  by (induction xs) (simp_all add: val_lsb_def algebra_simps)

lemma val_lsb_simps [simp]: "val_lsb [] = 0" "val_lsb (x # xs) = of_bool x + 2 * val_lsb xs"
  by (simp_all add: val_lsb_def)

lemma val_lsb_bounds: "0 \<le> val_lsb xs \<and> val_lsb xs < 2 ^ length xs"
  by (induction xs) (auto simp: of_bool_def)

lemma bits_val_lsb [simp]: "bits_lsb (length xs) (val_lsb xs) = xs"
proof (induction xs)
  case (Cons x xs)
  then show ?case
    by (cases x) (simp_all add: bits_lsb_Suc)
qed simp

end
