(* ===== verification/Deflate_Output.thy ===== *)
theory Deflate_Output
  imports Js_Prelude
begin

text \<open>
  The output side of \<open>deflate.js\<close>: the 16-bit accumulator \<open>zip_bi_buf\<close>, the byte buffer
  \<open>zip_outbuf\<close>, the queue of filled buffers that \<open>zip_qoutbuf\<close> appends to and \<open>zip_qcopy\<close>
  drains, and the free list the queue's buffers go back to.

  The linked list from \<open>zip_qhead\<close> to \<open>zip_qtail\<close> is a list of buffers (\<open>zip_qtail\<close> is its last
  element whenever \<open>zip_qhead\<close> is not null, and is only read then), and so is the list from
  \<open>zip_free_queue\<close>; a buffer is on one of the two lists only, so no aliasing is lost.  An array
  whose elements are written before they are read is a total function of its index.

  The abstraction is the bit string \<open>out_stream\<close> that has been produced and not yet been copied
  out; every operation is shown to append to its end or to remove from its front.
\<close>

section \<open>State\<close>

abbreviation (input) zip_OUTBUFSIZ :: int where "zip_OUTBUFSIZ \<equiv> 8192"
abbreviation (input) zip_Buf_size :: int where "zip_Buf_size \<equiv> 16"

record zip_DeflateBuffer =
  qb_len :: int
  qb_ptr :: "int \<Rightarrow> int"
  qb_off :: int

record out_state =
  zip_free_queue :: "zip_DeflateBuffer list"
  zip_qhead :: "zip_DeflateBuffer list"
  zip_outbuf :: "int \<Rightarrow> int"
  zip_outcnt :: int
  zip_outoff :: int
  zip_bi_buf :: int
  zip_bi_valid :: int

section \<open>Operations\<close>

definition zip_reuse_queue :: "zip_DeflateBuffer \<Rightarrow> 'a out_state_scheme \<Rightarrow> 'a out_state_scheme" where
  "zip_reuse_queue p s = s\<lparr>zip_free_queue := p # zip_free_queue s\<rparr>"

definition zip_new_queue :: "'a out_state_scheme \<Rightarrow> zip_DeflateBuffer \<times> 'a out_state_scheme" where
  "zip_new_queue s =
     (let (p, s) =
        (case zip_free_queue s of
           p # rest \<Rightarrow> (p, s\<lparr>zip_free_queue := rest\<rparr>)
         | [] \<Rightarrow> (\<lparr>qb_len = 0, qb_ptr = (\<lambda>_. 0), qb_off = 0\<rparr>, s))
      in (p\<lparr>qb_len := 0, qb_off := 0\<rparr>, s))"

definition zip_qoutbuf :: "'a out_state_scheme \<Rightarrow> 'a out_state_scheme" where
  "zip_qoutbuf s =
     (if zip_outcnt s \<noteq> 0 then
        let (q, s) = zip_new_queue s;
            q = q\<lparr>qb_len := zip_outcnt s - zip_outoff s\<rparr>;
            q = q\<lparr>qb_ptr := for_up 0 (qb_len q)
                    (\<lambda>i ptr. ptr(i := zip_outbuf s (zip_outoff s + i))) (qb_ptr q)\<rparr>
        in s\<lparr>zip_qhead := zip_qhead s @ [q], zip_outcnt := 0, zip_outoff := 0\<rparr>
      else s)"

definition zip_put_byte :: "int \<Rightarrow> 'a out_state_scheme \<Rightarrow> 'a out_state_scheme" where
  "zip_put_byte c s =
     (let s = s\<lparr>zip_outbuf := (zip_outbuf s)(zip_outoff s + zip_outcnt s := c),
                zip_outcnt := zip_outcnt s + 1\<rparr>
      in if zip_outoff s + zip_outcnt s = zip_OUTBUFSIZ then zip_qoutbuf s else s)"

definition zip_put_short :: "int \<Rightarrow> 'a out_state_scheme \<Rightarrow> 'a out_state_scheme" where
  "zip_put_short w s =
     (let w = js_and w 65535 in
      if zip_outoff s + zip_outcnt s < zip_OUTBUFSIZ - 2 then
        let s = s\<lparr>zip_outbuf := (zip_outbuf s)(zip_outoff s + zip_outcnt s := js_and w 255),
                  zip_outcnt := zip_outcnt s + 1\<rparr>
        in s\<lparr>zip_outbuf := (zip_outbuf s)(zip_outoff s + zip_outcnt s := js_ushr w 8),
             zip_outcnt := zip_outcnt s + 1\<rparr>
      else zip_put_byte (js_ushr w 8) (zip_put_byte (js_and w 255) s))"

definition zip_send_bits :: "int \<Rightarrow> int \<Rightarrow> 'a out_state_scheme \<Rightarrow> 'a out_state_scheme" where
  "zip_send_bits val len s =
     (if zip_bi_valid s > zip_Buf_size - len then
        let s = s\<lparr>zip_bi_buf := js_or (zip_bi_buf s) (js_shl val (zip_bi_valid s))\<rparr>;
            s = zip_put_short (zip_bi_buf s) s;
            s = s\<lparr>zip_bi_buf := js_shr val (zip_Buf_size - zip_bi_valid s)\<rparr>
        in s\<lparr>zip_bi_valid := zip_bi_valid s + (len - zip_Buf_size)\<rparr>
      else
        let s = s\<lparr>zip_bi_buf := js_or (zip_bi_buf s) (js_shl val (zip_bi_valid s))\<rparr>
        in s\<lparr>zip_bi_valid := zip_bi_valid s + len\<rparr>)"

definition zip_bi_windup :: "'a out_state_scheme \<Rightarrow> 'a out_state_scheme" where
  "zip_bi_windup s =
     (let s = (if zip_bi_valid s > 8 then zip_put_short (zip_bi_buf s) s
               else if zip_bi_valid s > 0 then zip_put_byte (zip_bi_buf s) s
               else s)
      in s\<lparr>zip_bi_buf := 0, zip_bi_valid := 0\<rparr>)"

text \<open>
  \<open>zip_bi_reverse\<close>: the loop takes the low bit off \<open>code\<close> and shifts it into \<open>res\<close>, \<open>len\<close> times
  for \<open>len > 0\<close> (a \<open>do ... while\<close> runs once for \<open>len \<le> 0\<close> too).
\<close>

function zip_bi_reverse_loop :: "int \<Rightarrow> int \<Rightarrow> int \<Rightarrow> int" where
  "zip_bi_reverse_loop res code len =
     (let res = js_or res (js_and code 1);
          code = js_shr code 1;
          res = js_shl res 1;
          len = len - 1
      in if len > 0 then zip_bi_reverse_loop res code len else res)"
  by pat_completeness auto
termination
  by (relation "measure (\<lambda>(_, _, len). nat len)") auto

declare zip_bi_reverse_loop.simps [simp del]

definition zip_bi_reverse :: "int \<Rightarrow> int \<Rightarrow> int" where
  "zip_bi_reverse code len = js_shr (zip_bi_reverse_loop 0 code len) 1"

text \<open>
  \<open>zip_qcopy\<close>: the first loop drains queued buffers into \<open>buff\<close>; when it has not filled the
  request, the rest comes from \<open>zip_outbuf\<close>.
\<close>

function zip_qcopy_queue ::
  "int \<Rightarrow> int \<Rightarrow> (int \<Rightarrow> int) \<Rightarrow> int \<Rightarrow> 'a out_state_scheme
   \<Rightarrow> (int \<Rightarrow> int) \<times> int \<times> 'a out_state_scheme" where
  "zip_qcopy_queue off buff_size buff n s =
     (case zip_qhead s of
        [] \<Rightarrow> (buff, n, s)
      | q # rest \<Rightarrow>
          if n < buff_size then
            let i = buff_size - n;
                i = (if i > qb_len q then qb_len q else i);
                buff = for_up 0 i (\<lambda>j b. b(off + n + j := qb_ptr q (qb_off q + j))) buff;
                q = q\<lparr>qb_off := qb_off q + i, qb_len := qb_len q - i\<rparr>;
                n = n + i
            in if qb_len q = 0
               then zip_qcopy_queue off buff_size buff n (zip_reuse_queue q (s\<lparr>zip_qhead := rest\<rparr>))
               else zip_qcopy_queue off buff_size buff n (s\<lparr>zip_qhead := q # rest\<rparr>)
          else (buff, n, s))"
  by pat_completeness auto
termination
  by (relation "measures [\<lambda>(_, _, _, _, s). length (zip_qhead s),
                          \<lambda>(_, buff_size, _, n, _). nat (buff_size - n)]")
    (auto simp: zip_reuse_queue_def split: if_splits)

declare zip_qcopy_queue.simps [simp del]

definition zip_qcopy ::
  "(int \<Rightarrow> int) \<Rightarrow> int \<Rightarrow> int \<Rightarrow> 'a out_state_scheme \<Rightarrow> (int \<Rightarrow> int) \<times> int \<times> 'a out_state_scheme" where
  "zip_qcopy buff off buff_size s =
     (let (buff, n, s) = zip_qcopy_queue off buff_size buff 0 s in
      if n = buff_size then (buff, n, s)
      else if zip_outoff s < zip_outcnt s then
        let i = buff_size - n;
            i = (if i > zip_outcnt s - zip_outoff s then zip_outcnt s - zip_outoff s else i);
            buff = for_up 0 i (\<lambda>j b. b(off + n + j := zip_outbuf s (zip_outoff s + j))) buff;
            s = s\<lparr>zip_outoff := zip_outoff s + i\<rparr>;
            n = n + i;
            s = (if zip_outcnt s = zip_outoff s then s\<lparr>zip_outcnt := 0, zip_outoff := 0\<rparr> else s)
        in (buff, n, s)
      else (buff, n, s))"


section \<open>Abstraction and invariant\<close>

text \<open>
  \<open>out_bytes\<close> are the bytes produced and not copied out yet; \<open>out_stream\<close> adds the bits still in
  the accumulator.  \<open>out_inv\<close> holds between any two operations; \<open>zip_outoff s = 0\<close> holds in
  addition whenever the compressor writes (\<open>zip_put_byte\<close> writes at \<open>zip_outoff + zip_outcnt\<close> but
  \<open>zip_qcopy\<close> reads up to \<open>zip_outcnt\<close>, which agree only then).
\<close>

definition qb_bytes :: "zip_DeflateBuffer \<Rightarrow> int list" where
  "qb_bytes q = map (qb_ptr q) [qb_off q..qb_off q + qb_len q - 1]"

definition out_bytes :: "'a out_state_scheme \<Rightarrow> int list" where
  "out_bytes s = concat (map qb_bytes (zip_qhead s)) @
                 map (zip_outbuf s) [zip_outoff s..zip_outcnt s - 1]"

definition byte_bits :: "int list \<Rightarrow> bool list" where
  "byte_bits bs = concat (map (bits_lsb 8) bs)"

definition out_stream :: "'a out_state_scheme \<Rightarrow> bool list" where
  "out_stream s = byte_bits (out_bytes s) @ bits_lsb (nat (zip_bi_valid s)) (zip_bi_buf s)"

definition is_byte :: "int \<Rightarrow> bool" where
  "is_byte b \<longleftrightarrow> 0 \<le> b \<and> b < 256"

definition buf_inv :: "'a out_state_scheme \<Rightarrow> bool" where
  "buf_inv s \<longleftrightarrow>
     0 \<le> zip_outoff s \<and> zip_outoff s \<le> zip_outcnt s \<and> zip_outcnt s < zip_OUTBUFSIZ \<and>
     (zip_outoff s = zip_outcnt s \<longrightarrow> zip_outoff s = 0) \<and>
     (\<forall>q \<in> set (zip_qhead s). 0 \<le> qb_off q \<and> 0 < qb_len q \<and> qb_off q + qb_len q \<le> zip_OUTBUFSIZ) \<and>
     (\<forall>b \<in> set (out_bytes s). is_byte b)"

definition bi_inv :: "'a out_state_scheme \<Rightarrow> bool" where
  "bi_inv s \<longleftrightarrow>
     0 \<le> zip_bi_valid s \<and> zip_bi_valid s \<le> 16 \<and>
     0 \<le> zip_bi_buf s \<and> zip_bi_buf s < 2 ^ nat (zip_bi_valid s)"

definition out_inv :: "'a out_state_scheme \<Rightarrow> bool" where
  "out_inv s \<longleftrightarrow> buf_inv s \<and> bi_inv s"

definition buf_ready :: "'a out_state_scheme \<Rightarrow> bool" where
  "buf_ready s \<longleftrightarrow> buf_inv s \<and> zip_outoff s = 0"

definition out_ready :: "'a out_state_scheme \<Rightarrow> bool" where
  "out_ready s \<longleftrightarrow> buf_ready s \<and> bi_inv s"

lemma byte_bits_append [simp]: "byte_bits (xs @ ys) = byte_bits xs @ byte_bits ys"
  by (simp add: byte_bits_def)

lemma byte_bits_Nil [simp]: "byte_bits [] = []"
  by (simp add: byte_bits_def)

lemma byte_bits_Cons [simp]: "byte_bits (b # bs) = bits_lsb 8 b @ byte_bits bs"
  by (simp add: byte_bits_def)

lemma length_byte_bits: "length (byte_bits bs) = 8 * length bs"
  by (induction bs) simp_all

text \<open>The two bytes of a 16-bit value, low byte first, carry its 16 bits.\<close>

lemma byte_bits_short:
  "byte_bits [w mod 256, w div 256 mod 256] = bits_lsb 16 w"
proof -
  have "bits_lsb 16 w = bits_lsb (8 + 8) w" by simp
  also have "\<dots> = bits_lsb 8 w @ bits_lsb 8 (drop_bit 8 w)"
    by (rule bits_lsb_append)
  also have "bits_lsb 8 w = bits_lsb 8 (w mod 256)"
    using bits_lsb_take_bit [of 8 8 w] by (simp add: take_bit_eq_mod)
  also have "bits_lsb 8 (drop_bit 8 w) = bits_lsb 8 (w div 256 mod 256)"
    using bits_lsb_take_bit [of 8 8 "drop_bit 8 w"]
    by (simp add: take_bit_eq_mod drop_bit_eq_div)
  finally show ?thesis by simp
qed

lemma map_upto_snoc: "a \<le> b \<Longrightarrow> map f [a..b] = map f [a..b - 1] @ [f b]"
  by (simp add: upto_rec2)

lemma map_upto_fun_upd_last: "map (f(b := x)) [a..b - 1] = map f [a..b - 1]"
  by simp

section \<open>Bytes\<close>

lemma zip_qoutbuf_bytes:
  assumes "zip_outoff s = 0" "0 < zip_outcnt s"
  shows "out_bytes (zip_qoutbuf s) = out_bytes s"
    and "zip_outcnt (zip_qoutbuf s) = 0" and "zip_outoff (zip_qoutbuf s) = 0"
    and "zip_bi_buf (zip_qoutbuf s) = zip_bi_buf s"
    and "zip_bi_valid (zip_qoutbuf s) = zip_bi_valid s"
    and "\<exists>q. zip_qhead (zip_qoutbuf s) = zip_qhead s @ [q] \<and> qb_off q = 0 \<and> qb_len q = zip_outcnt s"
  using assms
  by (auto simp: zip_qoutbuf_def zip_new_queue_def out_bytes_def qb_bytes_def Let_def for_up_store0
      split: list.splits prod.splits cong: map_cong)


lemma zip_put_byte_bytes:
  assumes "buf_ready s" "is_byte c"
  shows "out_bytes (zip_put_byte c s) = out_bytes s @ [c]"
    and "zip_bi_buf (zip_put_byte c s) = zip_bi_buf s"
    and "zip_bi_valid (zip_put_byte c s) = zip_bi_valid s"
    and "buf_ready (zip_put_byte c s)"
proof -
  let ?t = "s\<lparr>zip_outbuf := (zip_outbuf s)(zip_outcnt s := c), zip_outcnt := zip_outcnt s + 1\<rparr>"
  have r: "zip_outoff s = 0" "0 \<le> zip_outcnt s" "zip_outcnt s < 8192"
    using assms(1) by (auto simp: buf_ready_def buf_inv_def)
  have put: "zip_put_byte c s = (if zip_outcnt s = 8191 then zip_qoutbuf ?t else ?t)"
    using r by (simp add: zip_put_byte_def Let_def)
  have t: "out_bytes ?t = out_bytes s @ [c]"
    using r by (simp add: out_bytes_def map_upto_snoc)
  have t0: "zip_outoff ?t = 0" "0 < zip_outcnt ?t" using r by simp_all
  note q = zip_qoutbuf_bytes [OF t0]
  show b: "out_bytes (zip_put_byte c s) = out_bytes s @ [c]"
    and "zip_bi_buf (zip_put_byte c s) = zip_bi_buf s"
    and "zip_bi_valid (zip_put_byte c s) = zip_bi_valid s"
    by (auto simp only: put t q split: if_split) (simp_all add: q)
  show "buf_ready (zip_put_byte c s)"
  proof (cases "zip_outcnt s = 8191")
    case True
    with q(6) obtain p where p: "zip_qhead (zip_put_byte c s) = zip_qhead s @ [p]"
      "qb_off p = 0" "qb_len p = 8192"
      by (auto simp: put)
    moreover have "zip_outcnt (zip_put_byte c s) = 0" "zip_outoff (zip_put_byte c s) = 0"
      "zip_bi_buf (zip_put_byte c s) = zip_bi_buf s" "zip_bi_valid (zip_put_byte c s) = zip_bi_valid s"
      using True q by (simp_all add: put)
    ultimately show ?thesis
      using assms b unfolding buf_ready_def buf_inv_def by auto
  next
    case False
    with assms r b show ?thesis
      by (auto simp: buf_ready_def buf_inv_def put)
  qed
qed


lemma zip_put_short_bytes:
  assumes "buf_ready s"
  shows "out_bytes (zip_put_short w s) = out_bytes s @ [w mod 256, w div 256 mod 256]"
    and "zip_bi_buf (zip_put_short w s) = zip_bi_buf s"
    and "zip_bi_valid (zip_put_short w s) = zip_bi_valid s"
    and "buf_ready (zip_put_short w s)"
proof -
  let ?lo = "w mod 256" and ?hi = "w div 256 mod 256"
  let ?t = "s\<lparr>zip_outbuf := (zip_outbuf s)(zip_outcnt s := ?lo, zip_outcnt s + 1 := ?hi),
              zip_outcnt := zip_outcnt s + 2\<rparr>"
  have lo: "js_and (js_and w 65535) 255 = ?lo"
    by (simp add: js_and_ff js_and_ffff mod_mod_cancel)
  have hi: "js_ushr (js_and w 65535) 8 = ?hi"
  proof -
    have "w mod 65536 < 2 ^ 32"
      by (rule less_pow2_mono [where m = 16]) simp_all
    then have "js_ushr (js_and w 65535) 8 = w mod (256 * 256) div 256"
      by (subst js_ushr_nonneg) (simp_all add: js_and_ffff)
    also have "\<dots> = ?hi"
      using zmod_zmult2_eq [of 256 w 256] by simp
    finally show ?thesis .
  qed
  have bytes: "is_byte ?lo" "is_byte ?hi"
    by (simp_all add: is_byte_def)
  have r: "zip_outoff s = 0" "0 \<le> zip_outcnt s" "zip_outcnt s < 8192"
    using assms(1) by (auto simp: buf_ready_def buf_inv_def)
  have put: "zip_put_short w s =
      (if zip_outcnt s < 8190 then ?t else zip_put_byte ?hi (zip_put_byte ?lo s))"
    using r by (simp add: zip_put_short_def lo hi)
  have t: "out_bytes ?t = out_bytes s @ [?lo, ?hi]"
    using r by (simp add: out_bytes_def map_upto_snoc)
  note p = zip_put_byte_bytes [OF assms bytes(1)]
  note q = zip_put_byte_bytes [OF p(4) bytes(2)]
  show b: "out_bytes (zip_put_short w s) = out_bytes s @ [?lo, ?hi]"
    by (simp add: put t p q)
  show "zip_bi_buf (zip_put_short w s) = zip_bi_buf s"
    and "zip_bi_valid (zip_put_short w s) = zip_bi_valid s"
    by (simp_all add: put p q)
  show "buf_ready (zip_put_short w s)"
  proof (cases "zip_outcnt s < 8190")
    case True
    with assms r b bytes show ?thesis
      by (auto simp: buf_ready_def buf_inv_def put)
  next
    case False
    with q(4) show ?thesis by (simp add: put)
  qed
qed

section \<open>Bits\<close>

text \<open>
  The accumulator never loses a bit: a value of \<open>len\<close> bits is appended to the stream, whether it
  fits into the accumulator or spills over (where \<open>value << zip_bi_valid\<close> may exceed 31 bits and
  wraps, but \<open>zip_put_short\<close> only takes the low 16).
\<close>

lemma or_push_bound:
  assumes "0 \<le> (b::int)" "b < 2 ^ m" "0 \<le> v" "v < 2 ^ n"
  shows "0 \<le> b OR push_bit m v" "b OR push_bit m v < 2 ^ (m + n)"
proof -
  show "0 \<le> b OR push_bit m v" using assms by simp
  have "push_bit m v < 2 ^ (m + n)"
    using assms by (simp add: push_bit_eq_mult power_add)
  moreover have "b < 2 ^ (m + n)"
    using assms(2) by (rule less_pow2_mono) simp
  ultimately show "b OR push_bit m v < 2 ^ (m + n)"
    using assms by (intro OR_upper) simp_all
qed

lemma zip_send_bits_correct:
  assumes "out_ready s" and "0 \<le> v" "v < 2 ^ nat n" and "0 \<le> n" "n \<le> 16"
  shows "out_stream (zip_send_bits v n s) = out_stream s @ bits_lsb (nat n) v"
    and "out_ready (zip_send_bits v n s)"
proof -
  let ?k = "nat (zip_bi_valid s)" and ?b = "zip_bi_buf s"
  have inv: "0 \<le> zip_bi_valid s" "zip_bi_valid s \<le> 16" "0 \<le> ?b" "?b < 2 ^ ?k"
    using assms(1) by (auto simp: out_ready_def bi_inv_def)
  have v16: "v < 2 ^ 16"
    using assms(3) by (rule less_pow2_mono) (use assms(5) in simp)
  have b16: "?b < 2 ^ 16"
    using inv(4) by (rule less_pow2_mono) (use inv(2) in simp)
  define w where "w = js_or ?b (js_shl v (zip_bi_valid s))"
  have w: "bits_lsb 16 w = bits_lsb 16 (?b OR push_bit ?k v)"
    using inv v16 b16 assms(2) by (intro bits_lsb_eqI) (simp add: w_def js_or_def js_shl_def bit_or_iff)
  show "out_stream (zip_send_bits v n s) = out_stream s @ bits_lsb (nat n) v"
    and "out_ready (zip_send_bits v n s)"
  proof (atomize (full), cases "zip_bi_valid s > 16 - n")
    case True
    define hi where "hi = 16 - ?k"
    let ?s = "s\<lparr>zip_bi_buf := w\<rparr>"
    have r: "buf_ready ?s" "out_bytes ?s = out_bytes s"
      using assms(1) by (simp_all add: out_ready_def buf_ready_def buf_inv_def out_bytes_def)
    note p = zip_put_short_bytes [OF r(1), of w]
    have hi: "hi \<le> nat n" "?k + hi = 16" "nat (zip_bi_valid s + n - 16) = nat n - hi"
      using True inv assms(4) by (auto simp: hi_def)
    have dv: "0 \<le> drop_bit hi v" "drop_bit hi v < 2 ^ (nat n - hi)"
    proof -
      have "(2::int) ^ nat n = 2 ^ (nat n - hi) * 2 ^ hi"
        using hi(1) by (simp flip: power_add)
      with assms(2,3) show "0 \<le> drop_bit hi v" "drop_bit hi v < 2 ^ (nat n - hi)"
        by (simp_all add: drop_bit_eq_div int_div_less pos_imp_zdiv_nonneg_iff)
    qed
    have "js_shr v (16 - zip_bi_valid s) = drop_bit hi v"
      using inv v16 assms(2) by (simp add: js_shr_def hi_def nat_diff_distrib)
    with True p(3) have send: "zip_send_bits v n s =
        (zip_put_short w ?s)\<lparr>zip_bi_buf := drop_bit hi v, zip_bi_valid := zip_bi_valid s + n - 16\<rparr>"
      by (simp add: zip_send_bits_def Let_def w_def [symmetric] algebra_simps)
    have ready: "out_ready (zip_send_bits v n s)"
      using p(4) dv hi True inv assms(4,5)
      by (auto simp: send out_ready_def bi_inv_def buf_ready_def buf_inv_def out_bytes_def)
    have "out_stream (zip_send_bits v n s) =
        byte_bits (out_bytes s) @ bits_lsb 16 w @ bits_lsb (nat n - hi) (drop_bit hi v)"
      using p(1) r(2) byte_bits_short [of w] hi(3)
      by (simp add: send out_stream_def) (simp add: out_bytes_def)
    also have "bits_lsb 16 w = bits_lsb ?k ?b @ bits_lsb hi v"
      using w bits_lsb_or_push [OF inv(3,4), of hi v] hi(2) by simp
    also have "byte_bits (out_bytes s) @ (bits_lsb ?k ?b @ bits_lsb hi v)
        @ bits_lsb (nat n - hi) (drop_bit hi v) = out_stream s @ bits_lsb (nat n) v"
      using bits_lsb_append [of hi "nat n - hi" v] hi(1) by (simp add: out_stream_def)
    finally show "out_stream (zip_send_bits v n s) = out_stream s @ bits_lsb (nat n) v \<and>
        out_ready (zip_send_bits v n s)"
      using ready by blast
  next
    case False
    then have k: "?k + nat n \<le> 16" using inv assms(4) by linarith
    have "v * 2 ^ ?k < 2 ^ (nat n + ?k)"
      using assms(3) by (simp add: power_add)
    then have "v * 2 ^ ?k < 2 ^ 31"
      by (rule less_pow2_mono) (use k in simp)
    then have "w = ?b OR push_bit ?k v"
      using inv b16 assms(2) js_shl_small [of v "zip_bi_valid s"]
      by (simp add: w_def js_or_def push_bit_eq_mult)
    with False have send: "zip_send_bits v n s =
        s\<lparr>zip_bi_buf := ?b OR push_bit ?k v, zip_bi_valid := zip_bi_valid s + n\<rparr>"
      by (simp add: zip_send_bits_def Let_def w_def)
    have "nat (zip_bi_valid s + n) = ?k + nat n" "zip_bi_valid s + n \<le> 16"
      using inv assms(4) False by simp_all
    with inv assms k or_push_bound [OF inv(3,4) assms(2,3)] show
      "out_stream (zip_send_bits v n s) = out_stream s @ bits_lsb (nat n) v \<and>
        out_ready (zip_send_bits v n s)"
      by (auto simp: send out_stream_def out_ready_def bi_inv_def buf_ready_def buf_inv_def
          out_bytes_def bits_lsb_or_push)
  qed
qed


text \<open>\<open>zip_bi_windup\<close> pads with zero bits to the next byte boundary.\<close>

definition windup_pad :: "int \<Rightarrow> nat" where
  "windup_pad k = nat (- k mod 8)"

lemma zip_bi_windup_correct:
  assumes "out_ready s"
  shows "out_stream (zip_bi_windup s) = out_stream s @ replicate (windup_pad (zip_bi_valid s)) False"
    and "out_ready (zip_bi_windup s)" and "zip_bi_valid (zip_bi_windup s) = 0"
proof -
  let ?k = "nat (zip_bi_valid s)" and ?b = "zip_bi_buf s"
  have inv: "0 \<le> zip_bi_valid s" "zip_bi_valid s \<le> 16" "0 \<le> ?b" "?b < 2 ^ ?k"
    and r: "buf_ready s"
    using assms(1) by (auto simp: out_ready_def bi_inv_def)
  have *: "out_stream (zip_bi_windup s) = out_stream s @ replicate (windup_pad (zip_bi_valid s)) False \<and>
      out_ready (zip_bi_windup s)"
  proof -
    consider "zip_bi_valid s > 8" | "0 < zip_bi_valid s" "zip_bi_valid s \<le> 8" | "zip_bi_valid s = 0"
      using inv by linarith
    then show ?thesis
    proof cases
      case 1
      note p = zip_put_short_bytes [OF r, of ?b]
      have "bits_lsb 16 ?b = bits_lsb ?k ?b @ replicate (16 - ?k) False"
        using bits_lsb_pad [OF inv(3,4), of "16 - ?k"] inv by simp
      moreover have "windup_pad (zip_bi_valid s) = 16 - ?k"
        using 1 inv mod_add_self2 [of "- zip_bi_valid s + 8" 8]
        by (simp add: windup_pad_def nat_diff_distrib)
      ultimately show ?thesis
        using 1 p byte_bits_short [of ?b]
        by (simp add: zip_bi_windup_def Let_def out_stream_def out_ready_def bi_inv_def
            buf_ready_def buf_inv_def out_bytes_def)
    next
      case 2
      have "?b < 256"
        using less_pow2_mono [OF inv(4), of 8] 2 by simp
      with inv have byte: "is_byte ?b" by (simp add: is_byte_def)
      note p = zip_put_byte_bytes [OF r byte]
      have "bits_lsb 8 ?b = bits_lsb ?k ?b @ replicate (8 - ?k) False"
        using bits_lsb_pad [OF inv(3,4), of "8 - ?k"] 2 by simp
      moreover have "windup_pad (zip_bi_valid s) = 8 - ?k"
        using 2 by (cases "zip_bi_valid s = 8")
          (simp_all add: windup_pad_def nat_diff_distrib zmod_zminus1_eq_if)
      ultimately show ?thesis
        using 2 p
        by (simp add: zip_bi_windup_def Let_def out_stream_def out_ready_def bi_inv_def
            buf_ready_def buf_inv_def out_bytes_def)
    next
      case 3
      then show ?thesis
        using inv r
        by (simp add: zip_bi_windup_def Let_def out_stream_def out_ready_def bi_inv_def windup_pad_def
            buf_ready_def buf_inv_def out_bytes_def)
    qed
  qed
  then show "out_stream (zip_bi_windup s) = out_stream s @ replicate (windup_pad (zip_bi_valid s)) False"
    and "out_ready (zip_bi_windup s)"
    by simp_all
  show "zip_bi_valid (zip_bi_windup s) = 0"
    by (simp add: zip_bi_windup_def Let_def)
qed


section \<open>Bit reversal\<close>

text \<open>The value whose \<open>n\<close> low bits are those of \<open>v\<close> in the opposite order.\<close>

definition bit_rev :: "nat \<Rightarrow> int \<Rightarrow> int" where
  "bit_rev n v = val_lsb (rev (bits_lsb n v))"

lemma bit_rev_Suc: "bit_rev (Suc n) v = bit_rev n (v div 2) + 2 ^ n * (v mod 2)"
  by (simp add: bit_rev_def bits_lsb_Suc val_lsb_append odd_iff_mod_2_eq_one)

lemma bit_rev_bounds: "0 \<le> bit_rev n v" "bit_rev n v < 2 ^ n"
  using val_lsb_bounds [of "rev (bits_lsb n v)"] by (simp_all add: bit_rev_def)

lemma bits_bit_rev: "bits_lsb n (bit_rev n v) = rev (bits_lsb n v)"
  using bits_val_lsb [of "rev (bits_lsb n v)"] by (simp add: bit_rev_def)

lemma bit_rev_bit_rev: "0 \<le> v \<Longrightarrow> v < 2 ^ n \<Longrightarrow> bit_rev n (bit_rev n v) = v"
  by (simp add: bit_rev_def [of n "bit_rev n v"] bits_bit_rev)

lemma js_or_even_bit:
  assumes "0 \<le> r" "r < 2 ^ 29"
  shows "js_or (2 * r) (js_and c 1) = 2 * r + c mod 2"
proof -
  have c: "js_and c 1 = c mod 2" by (rule js_and_1)
  have "c mod 2 = 0 \<or> c mod 2 = 1" by auto
  then have "2 * r OR c mod 2 = 2 * r + c mod 2"
    by (auto simp: or_one_eq)
  with assms c show ?thesis
    by (auto simp: js_or_def)
qed

lemma zip_bi_reverse_loop_eq:
  assumes "0 \<le> r" "r < 2 ^ 14" "0 \<le> code" "code < 2 ^ 16" "n \<le> 14" "r < 2 ^ (14 - n)"
  shows "zip_bi_reverse_loop (2 * r) code (int (Suc n)) =
           2 * (r * 2 ^ Suc n + bit_rev (Suc n) code)"
  using assms
proof (induction n arbitrary: r code)
  case 0
  then show ?case
    by (subst zip_bi_reverse_loop.simps)
      (simp add: Let_def js_or_even_bit js_shl_small bit_rev_def bits_lsb_Suc odd_iff_mod_2_eq_one)
next
  case (Suc n)
  let ?r = "2 * r + code mod 2"
  have r: "r < 2 ^ (13 - n)" using Suc.prems(6) by simp
  have rn: "2 * (2::int) ^ (13 - n) = 2 ^ (14 - n)"
    using Suc.prems(5) by (simp flip: power_Suc add: Suc_diff_le)
  have r2: "?r < 2 ^ (14 - n)" using r rn by (smt (verit) pos_mod_bound)
  have r14: "?r < 2 ^ 14" using r2 by (rule less_pow2_mono) simp
  have c: "js_shr code 1 = code div 2"
    using Suc.prems by (simp add: js_shr_nonneg)
  have "js_shl ?r 1 = 2 * ?r"
    using Suc.prems(1) r14 by (subst js_shl_small) simp_all
  then have "zip_bi_reverse_loop (2 * r) code (int (Suc (Suc n))) =
      zip_bi_reverse_loop (2 * ?r) (code div 2) (int (Suc n))"
    using Suc.prems c by (subst zip_bi_reverse_loop.simps) (simp add: Let_def js_or_even_bit)
  also have "\<dots> = 2 * (?r * 2 ^ Suc n + bit_rev (Suc n) (code div 2))"
    using Suc.prems r2 r14 by (intro Suc.IH) auto
  also have "\<dots> = 2 * (r * 2 ^ Suc (Suc n) + bit_rev (Suc (Suc n)) code)"
    by (subst bit_rev_Suc [of "Suc n"]) (simp add: algebra_simps)
  finally show ?case .
qed

lemma zip_bi_reverse_eq:
  assumes "0 \<le> code" "code < 2 ^ 16" "1 \<le> len" "len \<le> 15"
  shows "zip_bi_reverse code len = bit_rev (nat len) code"
proof -
  have len: "len = int (Suc (nat len - 1))" using assms(3) by simp
  have "zip_bi_reverse_loop 0 code len = 2 * bit_rev (nat len) code"
    using zip_bi_reverse_loop_eq [of 0 code "nat len - 1"] assms len by simp
  moreover have "bit_rev (nat len) code < 2 ^ 15"
    using bit_rev_bounds(2) by (rule less_pow2_mono) (use assms(4) in simp)
  ultimately show ?thesis
    using bit_rev_bounds(1) [of "nat len" code]
    by (simp add: zip_bi_reverse_def js_shr_nonneg)
qed

section \<open>Copying out\<close>

definition queue_ok :: "zip_DeflateBuffer list \<Rightarrow> bool" where
  "queue_ok qs \<longleftrightarrow>
     (\<forall>q \<in> set qs. 0 \<le> qb_off q \<and> 0 < qb_len q \<and> qb_off q + qb_len q \<le> 8192)"

abbreviation queue_bytes :: "zip_DeflateBuffer list \<Rightarrow> int list" where
  "queue_bytes qs \<equiv> concat (map qb_bytes qs)"

lemma length_qb_bytes: "length (qb_bytes q) = nat (qb_len q)"
  by (simp add: qb_bytes_def)

lemma zip_qcopy_queue_stop:
  "bs \<le> n \<or> zip_qhead s = [] \<Longrightarrow> zip_qcopy_queue off bs buff n s = (buff, n, s)"
  by (subst zip_qcopy_queue.simps) (auto split: list.split)

lemma zip_qcopy_queue_whole:
  assumes "zip_qhead s = q # rest" "n < bs" "qb_len q \<le> bs - n" "0 < qb_len q"
  shows "zip_qcopy_queue off bs buff n s =
    zip_qcopy_queue off bs (arr_store (off + n) (qb_bytes q) buff) (n + qb_len q)
      (zip_reuse_queue (q\<lparr>qb_off := qb_off q + qb_len q, qb_len := 0\<rparr>) (s\<lparr>zip_qhead := rest\<rparr>))"
  using assms
  by (subst zip_qcopy_queue.simps)
    (auto simp: Let_def for_up_arr_store qb_bytes_def split: if_splits)

lemma zip_qcopy_queue_part:
  assumes "zip_qhead s = q # rest" "n < bs" "bs - n < qb_len q"
  shows "zip_qcopy_queue off bs buff n s =
    (arr_store (off + n) (take (nat (bs - n)) (qb_bytes q)) buff, bs,
     s\<lparr>zip_qhead := q\<lparr>qb_off := qb_off q + (bs - n), qb_len := qb_len q - (bs - n)\<rparr> # rest\<rparr>)"
proof -
  have "take (nat (bs - n)) [qb_off q..qb_off q + qb_len q - 1] = [qb_off q..qb_off q + (bs - n) - 1]"
    using assms(2,3) upto_split1 [of "qb_off q" "qb_off q + (bs - n)" "qb_off q + qb_len q - 1"] by simp
  with assms show ?thesis
    by (subst zip_qcopy_queue.simps)
      (simp add: Let_def for_up_arr_store qb_bytes_def take_map zip_qcopy_queue_stop)
qed

lemma zip_qcopy_queue_correct:
  assumes "queue_ok (zip_qhead s)" "n \<le> bs"
  shows "\<exists>k free qs. k \<le> length (queue_bytes (zip_qhead s)) \<and> n + int k \<le> bs \<and>
           zip_qcopy_queue off bs buff n s =
              (arr_store (off + n) (take k (queue_bytes (zip_qhead s))) buff, n + int k,
               s\<lparr>zip_qhead := qs, zip_free_queue := free\<rparr>) \<and>
           queue_bytes qs = drop k (queue_bytes (zip_qhead s)) \<and> queue_ok qs \<and>
           (n + int k < bs \<longrightarrow> qs = [])"
  using assms
proof (induction "zip_qhead s" arbitrary: n s buff)
  case Nil
  then show ?case
    by (intro exI [of _ 0] exI [of _ "zip_free_queue s"] exI [of _ "[]"])
      (simp add: zip_qcopy_queue_stop)
next
  case (Cons q rest)
  note s = Cons.hyps(2) [symmetric]
  have q: "0 \<le> qb_off q" "0 < qb_len q" "qb_off q + qb_len q \<le> 8192" "queue_ok rest"
    using Cons.prems(1) s by (auto simp: queue_ok_def)
  consider "n = bs" | "n < bs" "qb_len q \<le> bs - n" | "n < bs" "bs - n < qb_len q"
    using Cons.prems(2) by linarith
  then show ?case
  proof cases
    case 1
    with Cons.prems(1) show ?thesis
      by (intro exI [of _ 0] exI [of _ "zip_free_queue s"] exI [of _ "zip_qhead s"])
        (simp add: zip_qcopy_queue_stop)
  next
    case 2
    define s1 where "s1 = zip_reuse_queue (q\<lparr>qb_off := qb_off q + qb_len q, qb_len := 0\<rparr>)
        (s\<lparr>zip_qhead := rest\<rparr>)"
    define b1 where "b1 = arr_store (off + n) (qb_bytes q) buff"
    have s1: "zip_qhead s1 = rest" by (simp add: s1_def zip_reuse_queue_def)
    have step: "zip_qcopy_queue off bs buff n s = zip_qcopy_queue off bs b1 (n + qb_len q) s1"
      using zip_qcopy_queue_whole [OF s 2 q(2)] by (simp add: s1_def b1_def)
    from Cons.hyps(1) [OF s1 [symmetric], of "n + qb_len q" b1] s1 q(4) 2
    obtain k free qs where k: "k \<le> length (queue_bytes rest)" "n + qb_len q + int k \<le> bs"
      and res: "zip_qcopy_queue off bs b1 (n + qb_len q) s1 =
              (arr_store (off + (n + qb_len q)) (take k (queue_bytes rest)) b1, n + qb_len q + int k,
               s1\<lparr>zip_qhead := qs, zip_free_queue := free\<rparr>)"
      and qs: "queue_bytes qs = drop k (queue_bytes rest)" "queue_ok qs"
            "n + qb_len q + int k < bs \<longrightarrow> qs = []"
      by auto
    have len: "int (length (qb_bytes q)) = qb_len q"
      using q(2) by (simp add: length_qb_bytes)
    have store: "arr_store (off + (n + qb_len q)) (take k (queue_bytes rest)) b1 =
        arr_store (off + n) (qb_bytes q @ take k (queue_bytes rest)) buff"
      using arr_store_append [of "off + n" "qb_bytes q"] len by (simp add: b1_def add.assoc)
    have s1_upd: "s1\<lparr>zip_qhead := qs, zip_free_queue := free\<rparr> =
        s\<lparr>zip_qhead := qs, zip_free_queue := free\<rparr>"
      by (simp add: s1_def zip_reuse_queue_def)
    have "n + int (nat (qb_len q) + k) = n + qb_len q + int k" using q(2) by simp
    then show ?thesis
      using k res qs len store s1_upd
      by (intro exI [of _ "nat (qb_len q) + k"] exI [of _ free] exI [of _ qs])
        (simp add: step s length_qb_bytes)
  next
    case 3
    have "drop (nat (bs - n)) [qb_off q..qb_off q + qb_len q - 1] =
        [qb_off q + (bs - n)..qb_off q + qb_len q - 1]"
      using 3 upto_split1 [of "qb_off q" "qb_off q + (bs - n)" "qb_off q + qb_len q - 1"] by simp
    then show ?thesis
      using 3 q zip_qcopy_queue_part [OF s 3]
      by (intro exI [of _ "nat (bs - n)"] exI [of _ "zip_free_queue s"]
          exI [of _ "q\<lparr>qb_off := qb_off q + (bs - n), qb_len := qb_len q - (bs - n)\<rparr> # rest"])
        (auto simp: s length_qb_bytes queue_ok_def qb_bytes_def drop_map algebra_simps)
  qed
qed

text \<open>
  The shape of the buffers, whatever the bytes in them.  \<open>zip_qcopy\<close> moves the oldest pending bytes
  into \<open>buff\<close>: as many as are asked for or as there are.  When it could not fill the request nothing
  is pending and \<open>zip_outoff\<close> is 0 again, which is what lets the compressor go on writing.
\<close>

definition buf_shape :: "'a out_state_scheme \<Rightarrow> bool" where
  "buf_shape s \<longleftrightarrow> queue_ok (zip_qhead s) \<and> 0 \<le> zip_outoff s \<and> zip_outoff s \<le> zip_outcnt s \<and>
     zip_outcnt s < 8192 \<and> (zip_outoff s = zip_outcnt s \<longrightarrow> zip_outoff s = 0)"

lemma zip_qcopy_moves:
  assumes "buf_shape s" "0 \<le> bs"
  defines "n \<equiv> min (nat bs) (length (out_bytes s))"
  shows "\<exists>s'. zip_qcopy buff off bs s = (arr_store off (take n (out_bytes s)) buff, int n, s') \<and>
           out_bytes s' = drop n (out_bytes s) \<and> buf_shape s' \<and>
           zip_bi_buf s' = zip_bi_buf s \<and> zip_bi_valid s' = zip_bi_valid s \<and>
           out_state.more s' = out_state.more s \<and>
           (int n < bs \<longrightarrow> zip_outoff s' = 0 \<and> zip_qhead s' = [] \<and> out_bytes s' = [])"
proof -
  let ?Q = "queue_bytes (zip_qhead s)" and ?B = "map (zip_outbuf s) [zip_outoff s..zip_outcnt s - 1]"
  have inv: "queue_ok (zip_qhead s)" "0 \<le> zip_outoff s" "zip_outoff s \<le> zip_outcnt s"
    "zip_outcnt s < 8192" "zip_outoff s = zip_outcnt s \<longrightarrow> zip_outoff s = 0"
    using assms(1) by (auto simp: buf_shape_def)
  obtain k free qs where k: "k \<le> length ?Q" "int k \<le> bs"
    and res: "zip_qcopy_queue off bs buff 0 s =
        (arr_store off (take k ?Q) buff, int k, s\<lparr>zip_qhead := qs, zip_free_queue := free\<rparr>)"
    and qs: "queue_bytes qs = drop k ?Q" "queue_ok qs" "int k < bs \<longrightarrow> qs = []"
    using zip_qcopy_queue_correct [OF inv(1) assms(2), of off buff] by auto
  let ?s = "s\<lparr>zip_qhead := qs, zip_free_queue := free\<rparr>"
  have ob: "out_bytes s = ?Q @ ?B" by (simp add: out_bytes_def)
  show ?thesis
  proof (cases "int k = bs")
    case True
    then have "zip_qcopy buff off bs s = (arr_store off (take k ?Q) buff, int k, ?s)"
      by (simp add: zip_qcopy_def res)
    moreover have "n = k" using True k by (simp add: n_def ob)
    moreover have "out_bytes ?s = drop n (out_bytes s)"
      using k \<open>n = k\<close> qs(1) by (simp add: out_bytes_def)
    ultimately show ?thesis
      using k True inv qs(2) by (intro exI [of _ ?s]) (simp add: buf_shape_def ob)
  next
    case False
    with k qs have kQ: "qs = []" "k = length ?Q" "int k < bs" by auto
    let ?m = "zip_outcnt s - zip_outoff s"
    define i where "i = min (bs - int k) ?m"
    let ?t = "?s\<lparr>zip_outoff := zip_outoff s + i\<rparr>"
    let ?u = "if zip_outcnt s = zip_outoff s + i then ?t\<lparr>zip_outcnt := 0, zip_outoff := 0\<rparr> else ?t"
    have i: "0 \<le> i" "i \<le> ?m" "int k + i \<le> bs" using inv kQ(3) by (auto simp: i_def)
    have n: "int n = int k + i"
      using inv kQ(2,3) assms(2) by (auto simp: n_def ob i_def)
    have take: "take (nat i) ?B = map (zip_outbuf s) [zip_outoff s..zip_outoff s + i - 1]"
      and drop: "drop (nat i) ?B = map (zip_outbuf s) [zip_outoff s + i..zip_outcnt s - 1]"
      using i by (simp_all add: take_map drop_map take_upto drop_upto)
    have nk: "nat i = n - k" "k \<le> n" using n i by linarith+
    have store: "arr_store (off + int k) (map (zip_outbuf s) [zip_outoff s..zip_outoff s + i - 1])
        (arr_store off (take k ?Q) buff) = arr_store off (take n (out_bytes s)) buff"
      using arr_store_append [of off "?Q" _ buff] take kQ(2) nk by (simp add: ob flip: take)
    have "zip_qcopy buff off bs s = (arr_store off (take n (out_bytes s)) buff, int n, ?u)"
    proof (cases "zip_outoff s < zip_outcnt s")
      case True
      then show ?thesis
        using False i(1) store n kQ(1)
        by (cases "?m < bs - int k")
          (simp_all add: zip_qcopy_def res Let_def for_up_arr_store i_def)
    next
      case False
      then show ?thesis
        using kQ inv i n store by (simp add: zip_qcopy_def res)
    qed
    moreover have "out_bytes ?u = drop n (out_bytes s)"
      using i kQ(1,2) n drop nk inv by (auto simp: out_bytes_def)
    moreover have "buf_shape ?u"
      using i inv kQ(1) by (auto simp: buf_shape_def queue_ok_def)
    moreover have "int n < bs \<longrightarrow> zip_outoff ?u = 0 \<and> zip_qhead ?u = [] \<and> out_bytes ?u = []"
      using i n kQ(1) by (auto simp: out_bytes_def i_def min_def split: if_splits)
    ultimately show ?thesis
      by (intro exI [of _ ?u]) auto
  qed
qed

lemma zip_qcopy_correct:
  assumes "out_inv s" "0 \<le> bs"
  defines "n \<equiv> min (nat bs) (length (out_bytes s))"
  shows "\<exists>s'. zip_qcopy buff off bs s = (arr_store off (take n (out_bytes s)) buff, int n, s') \<and>
           out_bytes s' = drop n (out_bytes s) \<and> out_inv s' \<and>
           zip_bi_buf s' = zip_bi_buf s \<and> zip_bi_valid s' = zip_bi_valid s \<and>
           out_state.more s' = out_state.more s \<and>
           (int n < bs \<longrightarrow> out_ready s' \<and> out_bytes s' = [])"
proof -
  have inv: "\<forall>b \<in> set (out_bytes s). is_byte b" "bi_inv s" and "buf_shape s"
    using assms(1) by (auto simp: out_inv_def buf_inv_def buf_shape_def queue_ok_def)
  from zip_qcopy_moves [OF this(3) assms(2), of buff off, folded n_def] obtain s' where
    s': "zip_qcopy buff off bs s = (arr_store off (take n (out_bytes s)) buff, int n, s')"
    "out_bytes s' = drop n (out_bytes s)" "buf_shape s'"
    "zip_bi_buf s' = zip_bi_buf s" "zip_bi_valid s' = zip_bi_valid s"
    "out_state.more s' = out_state.more s" "int n < bs \<longrightarrow> zip_outoff s' = 0 \<and> out_bytes s' = []" by blast
  have "bi_inv s'" using inv(2) s'(4,5) by (simp add: bi_inv_def)
  moreover have "\<forall>b \<in> set (out_bytes s'). is_byte b" using inv(1) s'(2) by (auto dest: in_set_dropD)
  ultimately have "out_inv s'"
    using s'(3) by (auto simp: out_inv_def buf_inv_def buf_shape_def queue_ok_def)
  moreover from this have "int n < bs \<longrightarrow> out_ready s' \<and> out_bytes s' = []"
    using s'(7) by (auto simp: out_ready_def buf_ready_def out_inv_def)
  ultimately show ?thesis using s' by blast
qed

text \<open>Writing keeps the shape, as long as nothing has been copied out of \<open>zip_outbuf\<close>.\<close>

definition writable :: "'a out_state_scheme \<Rightarrow> bool" where
  "writable s \<longleftrightarrow> buf_shape s \<and> zip_outoff s = 0"

lemma writable_cong:
  assumes "zip_qhead s' = zip_qhead s" "zip_outoff s' = zip_outoff s" "zip_outcnt s' = zip_outcnt s"
  shows "writable s' = writable s"
  using assms by (simp add: writable_def buf_shape_def)

lemma writable_bi [simp]:
  "writable (s\<lparr>zip_bi_buf := x\<rparr>) = writable s" "writable (s\<lparr>zip_bi_valid := n\<rparr>) = writable s"
  by (simp_all add: writable_def buf_shape_def)

lemma writable_put_byte: "writable s \<Longrightarrow> writable (zip_put_byte c s)"
proof -
  assume "writable s"
  then have w: "queue_ok (zip_qhead s)" "zip_outoff s = 0" "0 \<le> zip_outcnt s" "zip_outcnt s < 8192"
    by (auto simp: writable_def buf_shape_def)
  define t where "t = s\<lparr>zip_outbuf := (zip_outbuf s)(zip_outcnt s := c), zip_outcnt := zip_outcnt s + 1\<rparr>"
  have put: "zip_put_byte c s = (if zip_outcnt s = 8191 then zip_qoutbuf t else t)"
    using w by (simp add: zip_put_byte_def Let_def t_def)
  have "zip_outoff t = 0" "0 < zip_outcnt t" using w by (simp_all add: t_def)
  note q = zip_qoutbuf_bytes(2,3,6) [OF this]
  from q(3) obtain p where "zip_qhead (zip_qoutbuf t) = zip_qhead s @ [p]" "qb_off p = 0"
    "qb_len p = zip_outcnt s + 1" by (auto simp: t_def)
  with w q(1,2) show ?thesis by (auto simp: put writable_def buf_shape_def queue_ok_def t_def)
qed

lemma writable_put_short: "writable s \<Longrightarrow> writable (zip_put_short w s)"
proof -
  assume s: "writable s"
  then have "writable (zip_put_short w s)" if "zip_outoff s + zip_outcnt s < 8190"
    using that by (auto simp: zip_put_short_def Let_def writable_def buf_shape_def)
  moreover from s have "writable (zip_put_byte d (zip_put_byte c s))" for c d
    by (intro writable_put_byte)
  ultimately show ?thesis by (cases "zip_outoff s + zip_outcnt s < 8190") (auto simp: zip_put_short_def Let_def)
qed

lemma writable_send_bits: "writable s \<Longrightarrow> writable (zip_send_bits v n s)"
proof -
  assume s: "writable s"
  have "writable (zip_put_short w (s\<lparr>zip_bi_buf := x\<rparr>))" for w x
    using s by (intro writable_put_short) simp
  with s show ?thesis by (simp add: zip_send_bits_def Let_def)
qed

lemma writable_bi_windup: "writable s \<Longrightarrow> writable (zip_bi_windup s)"
proof -
  assume s: "writable s"
  then have "writable (if zip_bi_valid s > 8 then zip_put_short (zip_bi_buf s) s
               else if zip_bi_valid s > 0 then zip_put_byte (zip_bi_buf s) s else s)"
    by (simp add: writable_put_short writable_put_byte)
  then show ?thesis by (simp add: zip_bi_windup_def Let_def writable_def buf_shape_def)
qed

lemmas writable_send = writable_put_byte writable_put_short writable_send_bits writable_bi_windup

section \<open>The interface the rest of the compressor uses\<close>

text \<open>
  The tree and block writers only ever append values of a given width.  What they rely on is stated
  as a locale: a readiness predicate that \<open>send\<close> keeps, and that \<open>send\<close> appends exactly the
  value's bits.  A run of sends then appends the concatenation, which is proved once here.
\<close>

definition sendable :: "int \<times> int \<Rightarrow> bool" where
  "sendable p \<longleftrightarrow> 0 \<le> fst p \<and> 0 \<le> snd p \<and> snd p \<le> 16 \<and> fst p < 2 ^ nat (snd p)"

definition pair_bits :: "int \<times> int \<Rightarrow> bool list" where
  "pair_bits p = bits_lsb (nat (snd p)) (fst p)"

definition pairs_bits :: "(int \<times> int) list \<Rightarrow> bool list" where
  "pairs_bits ps = concat (map pair_bits ps)"

lemma pairs_bits_simps [simp]:
  "pairs_bits [] = []" "pairs_bits (p # ps) = pair_bits p @ pairs_bits ps"
  "pairs_bits (ps @ qs) = pairs_bits ps @ pairs_bits qs"
  by (simp_all add: pairs_bits_def)

locale bit_sink =
  fixes ready :: "'s \<Rightarrow> bool"
    and stream :: "'s \<Rightarrow> bool list"
    and send :: "int \<Rightarrow> int \<Rightarrow> 's \<Rightarrow> 's"
  assumes send_stream:
      "ready s \<Longrightarrow> sendable (v, n) \<Longrightarrow> stream (send v n s) = stream s @ pair_bits (v, n)"
    and send_ready: "ready s \<Longrightarrow> sendable (v, n) \<Longrightarrow> ready (send v n s)"
begin

definition send_all :: "(int \<times> int) list \<Rightarrow> 's \<Rightarrow> 's" where
  "send_all ps s = fold (\<lambda>(v, n). send v n) ps s"

lemma send_all_simps [simp]:
  "send_all [] s = s"
  "send_all ((v, n) # ps) s = send_all ps (send v n s)"
  "send_all (ps @ qs) s = send_all qs (send_all ps s)"
  by (simp_all add: send_all_def)

lemma send_all_correct:
  assumes "ready s" "\<forall>p \<in> set ps. sendable p"
  shows "stream (send_all ps s) = stream s @ pairs_bits ps" and "ready (send_all ps s)"
proof -
  have "stream (send_all ps s) = stream s @ pairs_bits ps \<and> ready (send_all ps s)"
    using assms
  proof (induction ps arbitrary: s)
    case (Cons p ps)
    then show ?case
      by (cases p) (simp add: send_stream send_ready)
  qed simp
  then show "stream (send_all ps s) = stream s @ pairs_bits ps" and "ready (send_all ps s)"
    by simp_all
qed

end

interpretation zs: bit_sink out_ready out_stream zip_send_bits
  by unfold_locales (auto simp: sendable_def pair_bits_def intro: zip_send_bits_correct)

section \<open>Properties\<close>

text \<open>An empty output: nothing queued, nothing buffered.  The witnesses start from it.\<close>

definition empty_output :: out_state where
  "empty_output = \<lparr>zip_free_queue = [], zip_qhead = [], zip_outbuf = (\<lambda>_. 0), zip_outcnt = 0,
     zip_outoff = 0, zip_bi_buf = 0, zip_bi_valid = 0\<rparr>"

lemma empty_output_ready: "out_ready empty_output" "out_inv empty_output"
  by (simp_all add: out_ready_def out_inv_def buf_ready_def buf_inv_def bi_inv_def out_bytes_def
      empty_output_def)

lemma empty_output_bytes: "out_bytes empty_output = []"
  by (simp add: out_bytes_def empty_output_def)

text \<open>
  C31: sending a value of up to 16 bits appends exactly its bits, least significant first, to the bit
  stream of the output, whatever the fill of the accumulator and of the buffers.
\<close>

theorem send_bits_appends:
  assumes "out_ready s" "0 \<le> v" "v < 2 ^ nat n" "0 \<le> n" "n \<le> 16"
  shows "out_stream (zip_send_bits v n s) = out_stream s @ bits_lsb (nat n) v \<and>
    out_ready (zip_send_bits v n s)"
  using zip_send_bits_correct [OF assms] by simp

theorem send_bits_appends_witness:
  "out_stream (zip_send_bits 5 3 empty_output) = out_stream empty_output @ bits_lsb (nat 3) 5 \<and>
    out_ready (zip_send_bits 5 3 empty_output)"
  by (rule send_bits_appends) (simp_all add: empty_output_ready)

text \<open>
  C33: \<open>zip_bi_windup\<close> pads the stream with zero bits up to the next byte, loses none of the pending
  bits and leaves the accumulator empty.
\<close>

theorem bi_windup_aligns:
  assumes "out_ready s"
  shows "out_stream (zip_bi_windup s) =
      out_stream s @ replicate (windup_pad (zip_bi_valid s)) False \<and>
    zip_bi_valid (zip_bi_windup s) = 0 \<and> out_ready (zip_bi_windup s) \<and>
    8 dvd length (out_stream (zip_bi_windup s))"
proof -
  note w = zip_bi_windup_correct [OF assms]
  have "length (out_stream (zip_bi_windup s)) = 8 * length (out_bytes (zip_bi_windup s))"
    using w(3) by (simp add: out_stream_def length_byte_bits)
  with w show ?thesis by simp
qed

theorem bi_windup_aligns_witness:
  "out_stream (zip_bi_windup empty_output) =
      out_stream empty_output @ replicate (windup_pad (zip_bi_valid empty_output)) False \<and>
    zip_bi_valid (zip_bi_windup empty_output) = 0 \<and> out_ready (zip_bi_windup empty_output) \<and>
    8 dvd length (out_stream (zip_bi_windup empty_output))"
  by (rule bi_windup_aligns) (rule empty_output_ready)

text \<open>
  C32: \<open>zip_qcopy\<close> moves the oldest pending bytes, in order, to the caller's buffer: as many as were
  asked for or as there are.  The rest stays pending, the bit accumulator is untouched, and when the
  request could not be filled nothing is pending and the buffer is writable from its start again.
\<close>

theorem qcopy_drains:
  assumes "out_inv s" "0 \<le> bs"
  shows "\<exists>s'. zip_qcopy buff off bs s =
      (arr_store off (take (nat bs) (out_bytes s)) buff, int (min (nat bs) (length (out_bytes s))), s') \<and>
    out_bytes s' = drop (nat bs) (out_bytes s) \<and> out_inv s' \<and>
    zip_bi_buf s' = zip_bi_buf s \<and> zip_bi_valid s' = zip_bi_valid s \<and>
    (int (length (out_bytes s)) < bs \<longrightarrow> out_ready s' \<and> out_bytes s' = [])"
proof -
  let ?n = "min (nat bs) (length (out_bytes s))"
  have "take ?n (out_bytes s) = take (nat bs) (out_bytes s)"
    "drop ?n (out_bytes s) = drop (nat bs) (out_bytes s)"
    by (simp_all add: min_def)
  moreover have "int (length (out_bytes s)) < bs \<Longrightarrow> int ?n < bs" by simp
  ultimately show ?thesis
    using zip_qcopy_correct [OF assms, of buff off] by (metis (no_types, lifting))
qed

theorem qcopy_drains_witness:
  "\<exists>s'. zip_qcopy (\<lambda>_. 0) 0 4 empty_output =
      (arr_store 0 (take (nat 4) (out_bytes empty_output)) (\<lambda>_. 0),
       int (min (nat 4) (length (out_bytes empty_output))), s') \<and>
    out_bytes s' = [] \<and> out_inv s' \<and> out_ready s' \<and>
    zip_bi_buf s' = zip_bi_buf empty_output \<and> zip_bi_valid s' = zip_bi_valid empty_output"
  using qcopy_drains [of empty_output 4 "\<lambda>_. 0" 0]
  by (auto simp: empty_output_ready empty_output_bytes)

end
