(* ===== verification/Deflate_State.thy ===== *)
theory Deflate_State
  imports Deflate_Output
begin

text \<open>
  The constants, constant tables and tree variables of \<open>deflate.js\<close>, as an extension of the output
  state: a function over \<open>out_state\<close> runs on the larger state unchanged.

  A tree is an array of \<open>zip_DeflateCT\<close> objects.  Tree descriptors and the functions that take a
  tree refer to one of five arrays; the references are kept (\<open>tree_ref\<close>, \<open>desc_ref\<close>), because
  \<open>zip_build_tree\<close> mutates the array its descriptor points to and everybody else reads the array
  through its variable.
\<close>

section \<open>Constants\<close>

abbreviation (input) zip_STORED_BLOCK :: int where "zip_STORED_BLOCK \<equiv> 0"
abbreviation (input) zip_STATIC_TREES :: int where "zip_STATIC_TREES \<equiv> 1"
abbreviation (input) zip_DYN_TREES :: int where "zip_DYN_TREES \<equiv> 2"
abbreviation (input) zip_MIN_MATCH :: int where "zip_MIN_MATCH \<equiv> 3"
abbreviation (input) zip_MAX_MATCH :: int where "zip_MAX_MATCH \<equiv> 258"
abbreviation (input) zip_LIT_BUFSIZE :: int where "zip_LIT_BUFSIZE \<equiv> 8192"
abbreviation (input) zip_DIST_BUFSIZE :: int where "zip_DIST_BUFSIZE \<equiv> 8192"
abbreviation (input) zip_SMALLEST :: int where "zip_SMALLEST \<equiv> 1"
abbreviation (input) zip_MAX_BITS :: int where "zip_MAX_BITS \<equiv> 15"
abbreviation (input) zip_MAX_BL_BITS :: int where "zip_MAX_BL_BITS \<equiv> 7"
abbreviation (input) zip_LENGTH_CODES :: int where "zip_LENGTH_CODES \<equiv> 29"
abbreviation (input) zip_LITERALS :: int where "zip_LITERALS \<equiv> 256"
abbreviation (input) zip_END_BLOCK :: int where "zip_END_BLOCK \<equiv> 256"
abbreviation (input) zip_L_CODES :: int where "zip_L_CODES \<equiv> 286"
abbreviation (input) zip_D_CODES :: int where "zip_D_CODES \<equiv> 30"
abbreviation (input) zip_BL_CODES :: int where "zip_BL_CODES \<equiv> 19"
abbreviation (input) zip_REP_3_6 :: int where "zip_REP_3_6 \<equiv> 16"
abbreviation (input) zip_REPZ_3_10 :: int where "zip_REPZ_3_10 \<equiv> 17"
abbreviation (input) zip_REPZ_11_138 :: int where "zip_REPZ_11_138 \<equiv> 18"
abbreviation (input) zip_HEAP_SIZE :: int where "zip_HEAP_SIZE \<equiv> 573"

text \<open>A constant array; an index outside it is not read by the code.\<close>

definition js_table :: "int list \<Rightarrow> int \<Rightarrow> int" where
  "js_table xs i = (if 0 \<le> i \<and> i < int (length xs) then xs ! nat i else 0)"

definition zip_extra_lbits :: "int \<Rightarrow> int" where
  "zip_extra_lbits = js_table
     [0, 0, 0, 0, 0, 0, 0, 0, 1, 1, 1, 1, 2, 2, 2, 2, 3, 3, 3, 3, 4, 4, 4, 4, 5, 5, 5, 5, 0]"

definition zip_extra_dbits :: "int \<Rightarrow> int" where
  "zip_extra_dbits = js_table
     [0, 0, 0, 0, 1, 1, 2, 2, 3, 3, 4, 4, 5, 5, 6, 6, 7, 7, 8, 8, 9, 9, 10, 10, 11, 11, 12, 12, 13, 13]"

definition zip_extra_blbits :: "int \<Rightarrow> int" where
  "zip_extra_blbits = js_table [0, 0, 0, 0, 0, 0, 0, 0, 0, 0, 0, 0, 0, 0, 0, 0, 2, 3, 7]"

definition zip_bl_order :: "int \<Rightarrow> int" where
  "zip_bl_order = js_table [16, 17, 18, 0, 8, 7, 9, 6, 10, 5, 11, 4, 12, 3, 13, 2, 14, 1, 15]"

section \<open>Trees and descriptors\<close>

record zip_DeflateCT =
  fc :: int
  dl :: int

type_synonym ct_tree = "int \<Rightarrow> zip_DeflateCT"

datatype tree_ref = Dyn_ltree | Dyn_dtree | Static_ltree | Static_dtree | Bl_tree

datatype desc_ref = L_desc | D_desc | Bl_desc

record zip_DeflateTreeDesc =
  dyn_tree :: tree_ref
  static_tree :: "tree_ref option"
  extra_bits :: "int \<Rightarrow> int"
  extra_base :: int
  elems :: int
  max_length :: int
  max_code :: int

record tree_state = out_state +
  zip_dyn_ltree :: ct_tree
  zip_dyn_dtree :: ct_tree
  zip_static_ltree :: ct_tree
  zip_static_dtree :: ct_tree
  zip_bl_tree :: ct_tree
  zip_l_desc :: zip_DeflateTreeDesc
  zip_d_desc :: zip_DeflateTreeDesc
  zip_bl_desc :: zip_DeflateTreeDesc
  zip_bl_count :: "int \<Rightarrow> int"
  zip_heap :: "int \<Rightarrow> int"
  zip_heap_len :: int
  zip_heap_max :: int
  zip_depth :: "int \<Rightarrow> int"
  zip_length_code :: "int \<Rightarrow> int"
  zip_dist_code :: "int \<Rightarrow> int"
  zip_base_length :: "int \<Rightarrow> int"
  zip_base_dist :: "int \<Rightarrow> int"
  zip_opt_len :: int
  zip_static_len :: int

fun get_tree :: "tree_ref \<Rightarrow> 'a tree_state_scheme \<Rightarrow> ct_tree" where
  "get_tree Dyn_ltree s = zip_dyn_ltree s"
| "get_tree Dyn_dtree s = zip_dyn_dtree s"
| "get_tree Static_ltree s = zip_static_ltree s"
| "get_tree Static_dtree s = zip_static_dtree s"
| "get_tree Bl_tree s = zip_bl_tree s"

fun set_tree :: "tree_ref \<Rightarrow> ct_tree \<Rightarrow> 'a tree_state_scheme \<Rightarrow> 'a tree_state_scheme" where
  "set_tree Dyn_ltree t s = s\<lparr>zip_dyn_ltree := t\<rparr>"
| "set_tree Dyn_dtree t s = s\<lparr>zip_dyn_dtree := t\<rparr>"
| "set_tree Static_ltree t s = s\<lparr>zip_static_ltree := t\<rparr>"
| "set_tree Static_dtree t s = s\<lparr>zip_static_dtree := t\<rparr>"
| "set_tree Bl_tree t s = s\<lparr>zip_bl_tree := t\<rparr>"

fun get_desc :: "desc_ref \<Rightarrow> 'a tree_state_scheme \<Rightarrow> zip_DeflateTreeDesc" where
  "get_desc L_desc s = zip_l_desc s"
| "get_desc D_desc s = zip_d_desc s"
| "get_desc Bl_desc s = zip_bl_desc s"

fun set_desc :: "desc_ref \<Rightarrow> zip_DeflateTreeDesc \<Rightarrow> 'a tree_state_scheme \<Rightarrow> 'a tree_state_scheme" where
  "set_desc L_desc d s = s\<lparr>zip_l_desc := d\<rparr>"
| "set_desc D_desc d s = s\<lparr>zip_d_desc := d\<rparr>"
| "set_desc Bl_desc d s = s\<lparr>zip_bl_desc := d\<rparr>"

lemma get_set_tree [simp]: "get_tree r (set_tree r' t s) = (if r = r' then t else get_tree r s)"
  by (cases r; cases r') simp_all

lemma get_set_desc [simp]: "get_desc r (set_desc r' d s) = (if r = r' then d else get_desc r s)"
  by (cases r; cases r') simp_all

lemma get_desc_set_tree [simp]: "get_desc r (set_tree r' t s) = get_desc r s"
  by (cases r; cases r') simp_all

lemma get_tree_set_desc [simp]: "get_tree r (set_desc r' d s) = get_tree r s"
  by (cases r; cases r') simp_all

text \<open>Stores into one field of one element.\<close>

definition set_fc :: "int \<Rightarrow> int \<Rightarrow> ct_tree \<Rightarrow> ct_tree" where
  "set_fc n v t = t(n := (t n)\<lparr>fc := v\<rparr>)"

definition set_dl :: "int \<Rightarrow> int \<Rightarrow> ct_tree \<Rightarrow> ct_tree" where
  "set_dl n v t = t(n := (t n)\<lparr>dl := v\<rparr>)"

lemma set_fc_sel [simp]:
  "fc (set_fc n v t m) = (if m = n then v else fc (t m))" "dl (set_fc n v t m) = dl (t m)"
  by (simp_all add: set_fc_def)

lemma set_dl_sel [simp]:
  "dl (set_dl n v t m) = (if m = n then v else dl (t m))" "fc (set_dl n v t m) = fc (t m)"
  by (simp_all add: set_dl_def)

section \<open>Small operations\<close>

text \<open>\<open>zip_SEND_CODE\<close>, \<open>zip_D_CODE\<close> and \<open>zip_SMALLER\<close>.\<close>

definition zip_SEND_CODE :: "int \<Rightarrow> ct_tree \<Rightarrow> 'a out_state_scheme \<Rightarrow> 'a out_state_scheme" where
  "zip_SEND_CODE c tree s = zip_send_bits (fc (tree c)) (dl (tree c)) s"

definition zip_D_CODE :: "int \<Rightarrow> 'a tree_state_scheme \<Rightarrow> int" where
  "zip_D_CODE dist s =
     js_and (if dist < 256 then zip_dist_code s dist else zip_dist_code s (256 + js_shr dist 7)) 255"

definition zip_SMALLER :: "ct_tree \<Rightarrow> (int \<Rightarrow> int) \<Rightarrow> int \<Rightarrow> int \<Rightarrow> bool" where
  "zip_SMALLER tree depth n m \<longleftrightarrow>
     fc (tree n) < fc (tree m) \<or> (fc (tree n) = fc (tree m) \<and> depth n \<le> depth m)"

text \<open>
  Sending touches only the output fields: this frame fact is what lets the tree and block writers
  read tables while they send.
\<close>

lemma zip_put_byte_frame: "out_state.more (zip_put_byte c s) = out_state.more s"
  by (auto simp: zip_put_byte_def zip_qoutbuf_def zip_new_queue_def Let_def split: list.splits prod.splits)

lemma zip_put_short_frame: "out_state.more (zip_put_short w s) = out_state.more s"
  by (auto simp: zip_put_short_def Let_def zip_put_byte_frame)

lemma zip_send_bits_frame: "out_state.more (zip_send_bits v n s) = out_state.more s"
  by (auto simp: zip_send_bits_def Let_def zip_put_short_frame)

lemma zip_bi_windup_frame: "out_state.more (zip_bi_windup s) = out_state.more s"
  by (auto simp: zip_bi_windup_def Let_def zip_put_short_frame zip_put_byte_frame)

lemma tree_state_more_eq:
  assumes "out_state.more s = out_state.more s'"
  shows "zip_dyn_ltree s = zip_dyn_ltree s'" "zip_dyn_dtree s = zip_dyn_dtree s'"
    "zip_static_ltree s = zip_static_ltree s'" "zip_static_dtree s = zip_static_dtree s'"
    "zip_bl_tree s = zip_bl_tree s'" "zip_length_code s = zip_length_code s'"
    "zip_dist_code s = zip_dist_code s'" "zip_base_length s = zip_base_length s'"
    "zip_base_dist s = zip_base_dist s'" "get_desc d s = get_desc d s'" "get_tree r s = get_tree r s'"
    "tree_state.more s = tree_state.more s'"
  using assms by (cases s; cases s'; cases d; cases r; simp)+

end
