(* ===== verification/Deflate_Huffman.thy ===== *)
theory Deflate_Huffman
  imports Deflate_State "HOL-Library.Multiset"
begin

text \<open>
  Huffman tree construction in \<open>deflate.js\<close>: the heap (\<open>zip_pqdownheap\<close>), the code lengths
  (\<open>zip_gen_bitlen\<close>), the codes (\<open>zip_gen_codes\<close>) and \<open>zip_build_tree\<close>, which calls them.

  The loops are functions of the arrays they read and write; the functions of the source run them
  on the state.
\<close>

section \<open>The heap\<close>

text \<open>
  The loop of \<open>zip_pqdownheap\<close>; \<open>j\<close> is the left son of \<open>k\<close>.  The test \<open>k < j\<close> is not in the
  source: \<open>heap[0]\<close> is not used, so \<open>k\<close> is at least 1 and \<open>j = 2 k\<close> is larger
  (\<open>js_shl_twice\<close> below); it is what makes the function total.
\<close>

function pqdownheap_loop ::
  "ct_tree \<Rightarrow> (int \<Rightarrow> int) \<Rightarrow> int \<Rightarrow> int \<Rightarrow> (int \<Rightarrow> int) \<Rightarrow> int \<Rightarrow> int \<Rightarrow> (int \<Rightarrow> int) \<times> int" where
  "pqdownheap_loop tree depth heap_len v heap k j =
     (if j \<le> heap_len \<and> k < j then
        let j = (if j < heap_len \<and> zip_SMALLER tree depth (heap (j + 1)) (heap j) then j + 1 else j)
        in if zip_SMALLER tree depth v (heap j) then (heap, k)
           else pqdownheap_loop tree depth heap_len v (heap(k := heap j)) j (js_shl j 1)
      else (heap, k))"
  by pat_completeness auto
termination
  by (relation "measure (\<lambda>(_, _, heap_len, _, _, k, _). nat (heap_len - k))") (auto split: if_splits)

declare pqdownheap_loop.simps [simp del]

definition pqdownheap :: "ct_tree \<Rightarrow> (int \<Rightarrow> int) \<Rightarrow> int \<Rightarrow> (int \<Rightarrow> int) \<Rightarrow> int \<Rightarrow> int \<Rightarrow> int" where
  "pqdownheap tree depth heap_len heap k =
     (let v = heap k;
          (heap, k) = pqdownheap_loop tree depth heap_len v heap k (js_shl k 1)
      in heap(k := v))"

definition zip_pqdownheap :: "ct_tree \<Rightarrow> int \<Rightarrow> 'a tree_state_scheme \<Rightarrow> 'a tree_state_scheme" where
  "zip_pqdownheap tree k s =
     s\<lparr>zip_heap := pqdownheap tree (zip_depth s) (zip_heap_len s) (zip_heap s) k\<rparr>"

section \<open>Code lengths\<close>

text \<open>The variables \<open>zip_gen_bitlen\<close> updates.\<close>

record bitlen_state =
  gb_tree :: ct_tree
  gb_bl_count :: "int \<Rightarrow> int"
  gb_opt_len :: int
  gb_static_len :: int
  gb_overflow :: int

definition gen_bitlen_step ::
  "zip_DeflateTreeDesc \<Rightarrow> ct_tree option \<Rightarrow> (int \<Rightarrow> int) \<Rightarrow> int \<Rightarrow> bitlen_state \<Rightarrow> bitlen_state" where
  "gen_bitlen_step desc stree heap h g =
     (let n = heap h;
          bits = dl (gb_tree g (dl (gb_tree g n))) + 1;
          (bits, g) = (if bits > max_length desc
                       then (max_length desc, g\<lparr>gb_overflow := gb_overflow g + 1\<rparr>)
                       else (bits, g));
          g = g\<lparr>gb_tree := set_dl n bits (gb_tree g)\<rparr>
      in if n > max_code desc then g
         else
           let g = g\<lparr>gb_bl_count := (gb_bl_count g)(bits := gb_bl_count g bits + 1)\<rparr>;
               xbits = (if n \<ge> extra_base desc then extra_bits desc (n - extra_base desc) else 0);
               f = fc (gb_tree g n);
               g = g\<lparr>gb_opt_len := gb_opt_len g + f * (bits + xbits)\<rparr>
           in (case stree of
                 None \<Rightarrow> g
               | Some st \<Rightarrow> g\<lparr>gb_static_len := gb_static_len g + f * (dl (st n) + xbits)\<rparr>))"

text \<open>
  The search for a length that can grow: \<open>while (zip_bl_count[bits] == 0) bits--\<close>.  Below index 0
  the array has no element, and \<open>undefined == 0\<close> is false.
\<close>

function gen_bitlen_find :: "(int \<Rightarrow> int) \<Rightarrow> int \<Rightarrow> int" where
  "gen_bitlen_find bl_count bits =
     (if 0 \<le> bits \<and> bl_count bits = 0 then gen_bitlen_find bl_count (bits - 1) else bits)"
  by pat_completeness auto
termination
  by (relation "measure (\<lambda>(_, bits). nat (bits + 1))") auto

function gen_bitlen_overflow :: "int \<Rightarrow> (int \<Rightarrow> int) \<Rightarrow> int \<Rightarrow> int \<Rightarrow> int" where
  "gen_bitlen_overflow mlength bl_count overflow =
     (let bits = gen_bitlen_find bl_count (mlength - 1);
          bl_count = bl_count(bits := bl_count bits - 1);
          bl_count = bl_count(bits + 1 := bl_count (bits + 1) + 2);
          bl_count = bl_count(mlength := bl_count mlength - 1);
          overflow = overflow - 2
      in if overflow > 0 then gen_bitlen_overflow mlength bl_count overflow else bl_count)"
  by pat_completeness auto
termination
  by (relation "measure (\<lambda>(_, _, overflow). nat overflow)") auto

declare gen_bitlen_find.simps [simp del] gen_bitlen_overflow.simps [simp del]

text \<open>
  The second pass.  For each length, from the longest, the loop takes \<open>n\<close> leaves off the top of
  \<open>heap\<close>, skipping inner nodes.  (The test \<open>h > 0\<close> is the array's lower end, which the source
  relies on never to reach.)  The store is the source's: \<open>tree[m].fc = bits\<close>.
\<close>

function gen_bitlen_assign ::
  "(int \<Rightarrow> int) \<Rightarrow> int \<Rightarrow> int \<Rightarrow> int \<Rightarrow> int \<Rightarrow> bitlen_state \<Rightarrow> int \<times> bitlen_state" where
  "gen_bitlen_assign heap mcode bits n h g =
     (if n \<noteq> 0 \<and> h > 0 then
        let h = h - 1; m = heap h in
        if m > mcode then gen_bitlen_assign heap mcode bits n h g
        else
          let g = (if dl (gb_tree g m) \<noteq> bits
                   then g\<lparr>gb_opt_len := gb_opt_len g + (bits - dl (gb_tree g m)) * fc (gb_tree g m),
                          gb_tree := set_fc m bits (gb_tree g)\<rparr>
                   else g)
          in gen_bitlen_assign heap mcode bits (n - 1) h g
      else (h, g))"
  by pat_completeness auto
termination
  by (relation "measure (\<lambda>(_, _, _, _, h, _). nat h)") auto

declare gen_bitlen_assign.simps [simp del]

definition gen_bitlen_redo ::
  "(int \<Rightarrow> int) \<Rightarrow> int \<Rightarrow> int \<Rightarrow> bitlen_state \<Rightarrow> bitlen_state" where
  "gen_bitlen_redo heap mcode mlength g =
     snd (for_down mlength 1
            (\<lambda>bits (h, g). gen_bitlen_assign heap mcode bits (gb_bl_count g bits) h g)
            (zip_HEAP_SIZE, g))"

definition gen_bitlen ::
  "zip_DeflateTreeDesc \<Rightarrow> ct_tree option \<Rightarrow> (int \<Rightarrow> int) \<Rightarrow> int \<Rightarrow> bitlen_state \<Rightarrow> bitlen_state" where
  "gen_bitlen desc stree heap heap_max g =
     (let g = g\<lparr>gb_bl_count := for_up 0 (zip_MAX_BITS + 1) (\<lambda>bits c. c(bits := 0)) (gb_bl_count g),
                gb_overflow := 0\<rparr>;
          g = g\<lparr>gb_tree := set_dl (heap heap_max) 0 (gb_tree g)\<rparr>;
          g = for_up (heap_max + 1) zip_HEAP_SIZE (gen_bitlen_step desc stree heap) g
      in if gb_overflow g = 0 then g
         else
           let g = g\<lparr>gb_bl_count :=
                       gen_bitlen_overflow (max_length desc) (gb_bl_count g) (gb_overflow g)\<rparr>
           in gen_bitlen_redo heap (max_code desc) (max_length desc) g)"

definition zip_gen_bitlen :: "desc_ref \<Rightarrow> 'a tree_state_scheme \<Rightarrow> 'a tree_state_scheme" where
  "zip_gen_bitlen d s =
     (let desc = get_desc d s;
          g = gen_bitlen desc (map_option (\<lambda>r. get_tree r s) (static_tree desc))
                (zip_heap s) (zip_heap_max s)
                \<lparr>gb_tree = get_tree (dyn_tree desc) s, gb_bl_count = zip_bl_count s,
                 gb_opt_len = zip_opt_len s, gb_static_len = zip_static_len s, gb_overflow = 0\<rparr>
      in set_tree (dyn_tree desc) (gb_tree g)
           (s\<lparr>zip_bl_count := gb_bl_count g, zip_opt_len := gb_opt_len g,
              zip_static_len := gb_static_len g\<rparr>))"

section \<open>Codes\<close>

definition gen_next_code :: "(int \<Rightarrow> int) \<Rightarrow> int \<Rightarrow> int" where
  "gen_next_code bl_count =
     fst (for_up 1 (zip_MAX_BITS + 1)
            (\<lambda>bits (next_code, code).
               let code = js_shl (code + bl_count (bits - 1)) 1
               in (next_code(bits := code), code))
            ((\<lambda>_. 0), 0))"

definition gen_codes_step :: "int \<Rightarrow> ct_tree \<times> (int \<Rightarrow> int) \<Rightarrow> ct_tree \<times> (int \<Rightarrow> int)" where
  "gen_codes_step n = (\<lambda>(tree, next_code).
     let len = dl (tree n) in
     if len = 0 then (tree, next_code)
     else (set_fc n (zip_bi_reverse (next_code len) len) tree,
           next_code(len := next_code len + 1)))"

definition gen_codes :: "(int \<Rightarrow> int) \<Rightarrow> ct_tree \<Rightarrow> int \<Rightarrow> ct_tree" where
  "gen_codes bl_count tree mcode =
     fst (for_up 0 (mcode + 1) gen_codes_step (tree, gen_next_code bl_count))"

definition zip_gen_codes :: "tree_ref \<Rightarrow> int \<Rightarrow> 'a tree_state_scheme \<Rightarrow> 'a tree_state_scheme" where
  "zip_gen_codes r mcode s = set_tree r (gen_codes (zip_bl_count s) (get_tree r s) mcode) s"

section \<open>Building a tree\<close>

text \<open>The leaves that occur go into the heap, in order; \<open>max_code\<close> ends at the last of them.\<close>

record build_state =
  bt_tree :: ct_tree
  bt_heap :: "int \<Rightarrow> int"
  bt_heap_len :: int
  bt_heap_max :: int
  bt_depth :: "int \<Rightarrow> int"
  bt_opt_len :: int
  bt_static_len :: int
  bt_max_code :: int
  bt_node :: int

definition build_leaf :: "int \<Rightarrow> build_state \<Rightarrow> build_state" where
  "build_leaf n b =
     (if fc (bt_tree b n) \<noteq> 0 then
        b\<lparr>bt_heap_len := bt_heap_len b + 1, bt_heap := (bt_heap b)(bt_heap_len b + 1 := n),
          bt_max_code := n, bt_depth := (bt_depth b)(n := 0)\<rparr>
      else b\<lparr>bt_tree := set_dl n 0 (bt_tree b)\<rparr>)"

function build_force :: "ct_tree option \<Rightarrow> build_state \<Rightarrow> build_state" where
  "build_force stree b =
     (if bt_heap_len b < 2 then
        let (xnew, b) = (if bt_max_code b < 2
                         then (bt_max_code b + 1, b\<lparr>bt_max_code := bt_max_code b + 1\<rparr>)
                         else (0, b));
            b = b\<lparr>bt_heap_len := bt_heap_len b + 1, bt_heap := (bt_heap b)(bt_heap_len b + 1 := xnew)\<rparr>;
            b = b\<lparr>bt_tree := set_fc xnew 1 (bt_tree b), bt_depth := (bt_depth b)(xnew := 0),
                  bt_opt_len := bt_opt_len b - 1\<rparr>;
            b = (case stree of
                   None \<Rightarrow> b
                 | Some st \<Rightarrow> b\<lparr>bt_static_len := bt_static_len b - dl (st xnew)\<rparr>)
        in build_force stree b
      else b)"
  by pat_completeness auto
termination
  by (relation "measure (\<lambda>(_, b). nat (2 - bt_heap_len b))") (auto split: option.splits if_splits)

declare build_force.simps [simp del]

definition build_down :: "int \<Rightarrow> build_state \<Rightarrow> build_state" where
  "build_down k b =
     b\<lparr>bt_heap := pqdownheap (bt_tree b) (bt_depth b) (bt_heap_len b) (bt_heap b) k\<rparr>"

text \<open>One round of the combining loop: the two least frequent nodes get a common father.\<close>

definition build_combine :: "build_state \<Rightarrow> build_state" where
  "build_combine b =
     (let n = bt_heap b zip_SMALLEST;
          b = b\<lparr>bt_heap := (bt_heap b)(zip_SMALLEST := bt_heap b (bt_heap_len b)),
                bt_heap_len := bt_heap_len b - 1\<rparr>;
          b = build_down zip_SMALLEST b;
          m = bt_heap b zip_SMALLEST;
          b = b\<lparr>bt_heap_max := bt_heap_max b - 1, bt_heap := (bt_heap b)(bt_heap_max b - 1 := n)\<rparr>;
          b = b\<lparr>bt_heap_max := bt_heap_max b - 1, bt_heap := (bt_heap b)(bt_heap_max b - 1 := m)\<rparr>;
          b = b\<lparr>bt_tree := set_fc (bt_node b) (fc (bt_tree b n) + fc (bt_tree b m)) (bt_tree b)\<rparr>;
          b = b\<lparr>bt_depth := (bt_depth b)(bt_node b :=
                  (if bt_depth b n > bt_depth b m + 1 then bt_depth b n else bt_depth b m + 1))\<rparr>;
          b = b\<lparr>bt_tree := set_dl n (bt_node b) (set_dl m (bt_node b) (bt_tree b))\<rparr>;
          b = b\<lparr>bt_heap := (bt_heap b)(zip_SMALLEST := bt_node b), bt_node := bt_node b + 1\<rparr>
      in build_down zip_SMALLEST b)"

lemma build_combine_heap_len [simp]: "bt_heap_len (build_combine b) = bt_heap_len b - 1"
  by (simp add: build_combine_def build_down_def Let_def)

function build_combine_loop :: "build_state \<Rightarrow> build_state" where
  "build_combine_loop b =
     (let b = build_combine b in if bt_heap_len b \<ge> 2 then build_combine_loop b else b)"
  by pat_completeness auto
termination
  by (relation "measure (\<lambda>b. nat (bt_heap_len b))") auto

declare build_combine_loop.simps [simp del]

definition zip_build_tree :: "desc_ref \<Rightarrow> 'a tree_state_scheme \<Rightarrow> 'a tree_state_scheme" where
  "zip_build_tree d s =
     (let desc = get_desc d s;
          r = dyn_tree desc;
          stree = map_option (\<lambda>r. get_tree r s) (static_tree desc);
          b = \<lparr>bt_tree = get_tree r s, bt_heap = zip_heap s, bt_heap_len = 0,
               bt_heap_max = zip_HEAP_SIZE, bt_depth = zip_depth s, bt_opt_len = zip_opt_len s,
               bt_static_len = zip_static_len s, bt_max_code = -1, bt_node = elems desc\<rparr>;
          b = for_up 0 (elems desc) build_leaf b;
          b = build_force stree b;
          mcode = bt_max_code b;
          b = for_down (js_shr (bt_heap_len b) 1) 1 build_down b;
          b = build_combine_loop b;
          b = b\<lparr>bt_heap_max := bt_heap_max b - 1,
                bt_heap := (bt_heap b)(bt_heap_max b - 1 := bt_heap b zip_SMALLEST)\<rparr>;
          s = set_tree r (bt_tree b)
                (s\<lparr>zip_heap := bt_heap b, zip_heap_len := bt_heap_len b, zip_heap_max := bt_heap_max b,
                   zip_depth := bt_depth b, zip_opt_len := bt_opt_len b,
                   zip_static_len := bt_static_len b\<rparr>);
          s = set_desc d (desc\<lparr>max_code := mcode\<rparr>) s;
          s = zip_gen_bitlen d s
      in zip_gen_codes r mcode s)"


section \<open>The heap property\<close>

text \<open>
  \<open>zip_SMALLER\<close> is a total preorder on nodes: the lexicographic order of frequency and depth.
\<close>

lemma zip_SMALLER_total: "zip_SMALLER tree depth n m \<or> zip_SMALLER tree depth m n"
  by (auto simp: zip_SMALLER_def)

lemma zip_SMALLER_refl [simp]: "zip_SMALLER tree depth n n"
  by (simp add: zip_SMALLER_def)

lemma zip_SMALLER_trans:
  "zip_SMALLER tree depth a b \<Longrightarrow> zip_SMALLER tree depth b c \<Longrightarrow> zip_SMALLER tree depth a c"
  by (auto simp: zip_SMALLER_def)

text \<open>
  The interface the heap algorithms need of their order: a total preorder.  A heap over the indices
  \<open>1..len\<close> is ordered from \<open>lo\<close> on when every node whose father is at least \<open>lo\<close> is not smaller
  than its father.
\<close>

locale heap_order =
  fixes le :: "'n \<Rightarrow> 'n \<Rightarrow> bool"
  assumes le_total: "le a b \<or> le b a"
    and le_trans: "le a b \<Longrightarrow> le b c \<Longrightarrow> le a c"
begin

definition heap_from :: "int \<Rightarrow> int \<Rightarrow> (int \<Rightarrow> 'n) \<Rightarrow> bool" where
  "heap_from lo len h \<longleftrightarrow> (\<forall>i. lo \<le> i div 2 \<and> 2 \<le> i \<and> i \<le> len \<longrightarrow> le (h (i div 2)) (h i))"

text \<open>Ordered but for the node \<open>k\<close>, which holds a value being moved down.\<close>

definition heap_hole :: "int \<Rightarrow> int \<Rightarrow> 'n \<Rightarrow> int \<Rightarrow> (int \<Rightarrow> 'n) \<Rightarrow> bool" where
  "heap_hole lo len v k h \<longleftrightarrow>
     (\<forall>i. lo \<le> i div 2 \<and> 2 \<le> i \<and> i \<le> len \<and> i \<noteq> k \<and> i div 2 \<noteq> k \<longrightarrow> le (h (i div 2)) (h i)) \<and>
     (lo \<le> k div 2 \<longrightarrow> le (h (k div 2)) v \<and>
        (\<forall>i. i div 2 = k \<and> i \<le> len \<longrightarrow> le (h (k div 2)) (h i)))"

lemma le_refl: "le a a"
  using le_total by blast

lemma heap_hole_fill:
  assumes "heap_hole lo len v k h" "1 \<le> lo" "lo \<le> k"
    and "\<And>i. i div 2 = k \<Longrightarrow> i \<le> len \<Longrightarrow> le v (h i)"
  shows "heap_from lo len (h(k := v))"
  unfolding heap_from_def
proof (intro allI impI)
  fix i assume i: "lo \<le> i div 2 \<and> 2 \<le> i \<and> i \<le> len"
  consider "i = k" | "i div 2 = k" "i \<noteq> k" | "i \<noteq> k" "i div 2 \<noteq> k" by blast
  then show "le ((h(k := v)) (i div 2)) ((h(k := v)) i)"
  proof cases
    case 1
    with i have "k div 2 \<noteq> k" by auto
    with 1 i assms(1) show ?thesis by (simp add: heap_hole_def)
  next
    case 2
    with i assms(4) show ?thesis by simp
  next
    case 3
    with i assms(1) show ?thesis by (simp add: heap_hole_def)
  qed
qed

lemma heap_hole_down:
  assumes "heap_hole lo len v k h" "1 \<le> lo" "lo \<le> k" "j div 2 = k" "2 \<le> j" "j \<le> len"
    and "le (h j) v" and "\<And>i. i div 2 = k \<Longrightarrow> i \<le> len \<Longrightarrow> le (h j) (h i)"
  shows "heap_hole lo len v j (h(k := h j))"
proof -
  have jk: "j \<noteq> k" using assms(2-5) by auto
  have above: "le (h (i div 2)) (h i)"
    if "lo \<le> i div 2" "2 \<le> i" "i \<le> len" "i \<noteq> k" "i div 2 \<noteq> k" for i
    using assms(1) that by (simp add: heap_hole_def)
  have top: "le (h (k div 2)) (h j)" if "lo \<le> k div 2"
    using assms(1,4,6) that by (simp add: heap_hole_def)
  have sons: "le (h j) (h i)" if "i div 2 = j" "i \<le> len" for i
  proof -
    have "2 \<le> i" "i \<noteq> k" "j \<noteq> k" "lo \<le> j"
      using that(1) assms(2-5) jk by linarith+
    with that above [of i] show ?thesis by simp
  qed
  show ?thesis
    unfolding heap_hole_def
  proof (intro conjI allI impI; (elim conjE)?)
    fix i assume i: "lo \<le> i div 2" "2 \<le> i" "i \<le> len" "i \<noteq> j" "i div 2 \<noteq> j"
    show "le ((h(k := h j)) (i div 2)) ((h(k := h j)) i)"
    proof (cases "i = k")
      case True
      moreover from True i(2) have "k div 2 \<noteq> k" by linarith
      ultimately show ?thesis using i top by simp
    next
      case False
      then show ?thesis
        using i assms(8) [of i] above [of i] by (cases "i div 2 = k") simp_all
    qed
  next
    assume "lo \<le> j div 2"
    show "le ((h(k := h j)) (j div 2)) v" using assms(4,7) by simp
    fix i assume "i div 2 = j" "i \<le> len"
    moreover from this assms(4,5) have "i \<noteq> k" by linarith
    ultimately show "le ((h(k := h j)) (j div 2)) ((h(k := h j)) i)"
      using sons assms(4) by simp
  qed
qed

lemma heap_root_least:
  assumes "heap_from 1 len h" "1 \<le> i" "i \<le> len"
  shows "le (h 1) (h i)"
  using assms(2,3)
proof (induction "nat i" arbitrary: i rule: less_induct)
  case less
  show ?case
  proof (cases "i = 1")
    case True
    then show ?thesis by (simp add: le_refl)
  next
    case False
    with less.prems have "le (h 1) (h (i div 2))" by (intro less.hyps) auto
    moreover have "le (h (i div 2)) (h i)"
      using assms(1) False less.prems by (auto simp: heap_from_def)
    ultimately show ?thesis by (rule le_trans)
  qed
qed

end

interpretation ho: heap_order "zip_SMALLER tree depth" for tree depth
  by unfold_locales (use zip_SMALLER_total zip_SMALLER_trans in blast)+

lemma js_shl_twice: "0 \<le> k \<Longrightarrow> k < 2 ^ 30 \<Longrightarrow> js_shl k 1 = 2 * k"
  by (subst js_shl_small) simp_all

definition heap_elems :: "int \<Rightarrow> (int \<Rightarrow> 'n) \<Rightarrow> 'n multiset" where
  "heap_elems len h = image_mset h (mset_set {1..len})"

lemma heap_elems_swap:
  assumes "1 \<le> k" "k \<le> len" "1 \<le> j" "j \<le> len"
  shows "heap_elems len (h(k := h j, j := v)) = heap_elems len (h(k := v))"
proof (cases "j = k")
  case False
  have "mset_set {1..len} = mset_set (insert k (insert j ({1..len} - {k, j})))"
    using assms by (intro arg_cong [where f = mset_set]) auto
  also have "\<dots> = {#k, j#} + mset_set ({1..len} - {k, j})"
    using False by simp
  finally have "mset_set {1..len} = {#k, j#} + mset_set ({1..len} - {k, j})" .
  moreover have "image_mset (h(k := h j, j := v)) (mset_set ({1..len} - {k, j})) =
      image_mset (h(k := v)) (mset_set ({1..len} - {k, j}))"
    by (rule image_mset_cong) auto
  ultimately show ?thesis
    using False by (simp add: heap_elems_def)
qed simp

lemma pqdownheap_loop_correct:
  assumes "ho.heap_hole tree depth lo len v k h" "1 \<le> lo" "lo \<le> k" "k \<le> len" "len < 2 ^ 29"
    and "j = 2 * k"
    and "pqdownheap_loop tree depth len v h k j = (h', k')"
  shows "ho.heap_from tree depth lo len (h'(k' := v)) \<and>
         heap_elems len (h'(k' := v)) = heap_elems len (h(k := v)) \<and>
         (\<forall>i. i < k \<or> len < i \<longrightarrow> (h'(k' := v)) i = (h(k := v)) i)"
  using assms
proof (induction tree depth len v h k j rule: pqdownheap_loop.induct)
  case (1 tree depth len v h k j)
  note unf = pqdownheap_loop.simps [of tree depth len v h k j]
  let ?j = "if j < len \<and> zip_SMALLER tree depth (h (j + 1)) (h j) then j + 1 else j"
  show ?case
  proof (cases "j \<le> len")
    case False
    with "1.prems"(7) have "h' = h" "k' = k" by (simp_all add: unf)
    moreover have "ho.heap_from tree depth lo len (h(k := v))"
      by (rule ho.heap_hole_fill) (use "1.prems" False in auto)
    ultimately show ?thesis by (simp del: fun_upd_apply)
  next
    case True
    have kj: "k < j" using "1.prems" by simp
    have j: "?j div 2 = k" "2 \<le> ?j" "?j \<le> len" "k < ?j" "?j < 2 ^ 30"
      using "1.prems" True by auto
    have least: "zip_SMALLER tree depth (h ?j) (h i)" if "i div 2 = k" "i \<le> len" for i
    proof -
      have "i = j \<or> i = j + 1" using that(1) "1.prems"(6) by linarith
      with that(2) show ?thesis
        using zip_SMALLER_total [of tree depth "h (j + 1)" "h j"] by (auto split: if_splits)
    qed
    show ?thesis
    proof (cases "zip_SMALLER tree depth v (h ?j)")
      case True
      with \<open>j \<le> len\<close> kj "1.prems"(7) have "h' = h" "k' = k"
        by (simp_all add: unf Let_def split: if_splits)
      moreover have "ho.heap_from tree depth lo len (h(k := v))"
        by (rule ho.heap_hole_fill)
          (use "1.prems" least zip_SMALLER_trans [OF True] in auto)
      ultimately show ?thesis by (simp del: fun_upd_apply)
    next
      case False
      then have step: "pqdownheap_loop tree depth len v h k j =
          pqdownheap_loop tree depth len v (h(k := h ?j)) ?j (js_shl ?j 1)"
        using \<open>j \<le> len\<close> kj by (subst unf) (simp add: Let_def)
      have hole: "ho.heap_hole tree depth lo len v ?j (h(k := h ?j))"
        using "1.prems" j least False zip_SMALLER_total [of tree depth v "h ?j"]
        by (intro ho.heap_hole_down) auto
      have IH: "ho.heap_from tree depth lo len (h'(k' := v)) \<and>
         heap_elems len (h'(k' := v)) = heap_elems len (h(k := h ?j, ?j := v)) \<and>
         (\<forall>i. i < ?j \<or> len < i \<longrightarrow> (h'(k' := v)) i = (h(k := h ?j, ?j := v)) i)"
      proof (rule "1.IH" [OF _ refl False hole])
        show "j \<le> len \<and> k < j" using \<open>j \<le> len\<close> kj by simp
        show "js_shl ?j 1 = 2 * ?j" using j by (intro js_shl_twice) simp_all
        show "pqdownheap_loop tree depth len v (h(k := h ?j)) ?j (js_shl ?j 1) = (h', k')"
          using "1.prems"(7) step by simp
      qed (use "1.prems" j in auto)
      have "heap_elems len (h(k := h ?j, ?j := v)) = heap_elems len (h(k := v))"
        by (rule heap_elems_swap) (use "1.prems" j in auto)
      with IH have "heap_elems len (h'(k' := v)) = heap_elems len (h(k := v))"
        by (simp only:)
      moreover have "(h'(k' := v)) i = (h(k := v)) i" if "i < k \<or> len < i" for i
      proof -
        have "i < ?j \<or> len < i" "i \<noteq> ?j" "i \<noteq> k" using that j(3,4) by linarith+
        with IH have "(h'(k' := v)) i = (h(k := h ?j, ?j := v)) i" by blast
        also have "\<dots> = (h(k := v)) i"
          using \<open>i \<noteq> ?j\<close> \<open>i \<noteq> k\<close> by (simp only: fun_upd_apply if_False)
        finally show ?thesis .
      qed
      ultimately show ?thesis using IH by blast
    qed
  qed
qed

text \<open>
  \<open>zip_pqdownheap\<close> restores the heap property at \<open>k\<close>, keeps the nodes, and touches no cell
  outside \<open>k..len\<close>.
\<close>

lemma pqdownheap_correct:
  assumes "ho.heap_from tree depth (k + 1) len h" "1 \<le> k" "k \<le> len" "len < 2 ^ 29"
  shows "ho.heap_from tree depth k len (pqdownheap tree depth len h k)"
    and "heap_elems len (pqdownheap tree depth len h k) = heap_elems len h"
    and "i < k \<or> len < i \<Longrightarrow> pqdownheap tree depth len h k i = h i"
proof -
  obtain h' k' where loop: "pqdownheap_loop tree depth len (h k) h k (js_shl k 1) = (h', k')"
    by (cases "pqdownheap_loop tree depth len (h k) h k (js_shl k 1)") blast
  have twice: "js_shl k 1 = 2 * k" using assms by (intro js_shl_twice) simp_all
  have "ho.heap_hole tree depth k len (h k) k h"
    unfolding ho.heap_hole_def
  proof (intro conjI allI impI; (elim conjE)?)
    fix i assume "k \<le> i div 2" "2 \<le> i" "i \<le> len" "i \<noteq> k" "i div 2 \<noteq> k"
    with assms(1) show "zip_SMALLER tree depth (h (i div 2)) (h i)"
      by (simp add: ho.heap_from_def)
  qed (use assms(2) in auto)
  from pqdownheap_loop_correct [OF this assms(2) order_refl assms(3,4) twice loop]
  show "ho.heap_from tree depth k len (pqdownheap tree depth len h k)"
    and "heap_elems len (pqdownheap tree depth len h k) = heap_elems len h"
    and "i < k \<or> len < i \<Longrightarrow> pqdownheap tree depth len h k i = h i"
    by (auto simp: pqdownheap_def Let_def loop split: prod.splits)
qed

section \<open>Properties\<close>

text \<open>
  C29: \<open>zip_pqdownheap\<close> restores the heap order from node \<open>k\<close> on when it holds below \<open>k\<close>, keeps the
  nodes of the heap, and writes to no cell outside \<open>k..heap_len\<close>.
\<close>

theorem pqdownheap_restores:
  assumes "ho.heap_from tree (zip_depth s) (k + 1) (zip_heap_len s) (zip_heap s)"
    "1 \<le> k" "k \<le> zip_heap_len s" "zip_heap_len s < 2 ^ 29"
  shows "ho.heap_from tree (zip_depth s) k (zip_heap_len s) (zip_heap (zip_pqdownheap tree k s)) \<and>
    heap_elems (zip_heap_len s) (zip_heap (zip_pqdownheap tree k s)) =
      heap_elems (zip_heap_len s) (zip_heap s) \<and>
    (\<forall>i. i < k \<or> zip_heap_len s < i \<longrightarrow> zip_heap (zip_pqdownheap tree k s) i = zip_heap s i)"
  using pqdownheap_correct [OF assms] by (auto simp: zip_pqdownheap_def)

text \<open>A small tree with frequencies 5, 2, 3 whose root is out of place.\<close>

definition heap_example :: "tree_state \<Rightarrow> tree_state" where
  "heap_example s = s\<lparr>zip_heap := (\<lambda>i. if i = 1 then 0 else if i = 2 then 1 else 2),
     zip_heap_len := 3, zip_depth := (\<lambda>_. 0)\<rparr>"

definition example_freqs :: ct_tree where
  "example_freqs = (\<lambda>n. \<lparr>fc = (if n = 0 then 5 else if n = 1 then 2 else 3), dl = 0\<rparr>)"

theorem pqdownheap_restores_witness:
  "\<forall>s. ho.heap_from example_freqs (zip_depth (heap_example s)) 1 (zip_heap_len (heap_example s))
      (zip_heap (zip_pqdownheap example_freqs 1 (heap_example s))) \<and>
    heap_elems (zip_heap_len (heap_example s)) (zip_heap (zip_pqdownheap example_freqs 1 (heap_example s))) =
      heap_elems (zip_heap_len (heap_example s)) (zip_heap (heap_example s)) \<and>
    zip_heap (zip_pqdownheap example_freqs 1 (heap_example s)) 4 = 2"
proof (rule allI)
  fix s
  have "ho.heap_from example_freqs (zip_depth (heap_example s)) (1 + 1) (zip_heap_len (heap_example s))
      (zip_heap (heap_example s))"
    by (auto simp: ho.heap_from_def heap_example_def)
  from pqdownheap_restores [OF this]
  show "ho.heap_from example_freqs (zip_depth (heap_example s)) 1 (zip_heap_len (heap_example s))
      (zip_heap (zip_pqdownheap example_freqs 1 (heap_example s))) \<and>
    heap_elems (zip_heap_len (heap_example s)) (zip_heap (zip_pqdownheap example_freqs 1 (heap_example s))) =
      heap_elems (zip_heap_len (heap_example s)) (zip_heap (heap_example s)) \<and>
    zip_heap (zip_pqdownheap example_freqs 1 (heap_example s)) 4 = 2"
    by (simp add: heap_example_def)
qed

end
