(* ===== verification/Deflate_Codes.thy ===== *)
theory Deflate_Codes
  imports Deflate_Huffman "HOL-Library.Sublist"
begin

text \<open>
  What \<open>zip_gen_codes\<close> computes: from code lengths that satisfy Kraft's inequality, the canonical
  Huffman code.  The codes it stores are prefix free, whatever the lengths.
\<close>

section \<open>Lengths and first codes\<close>

text \<open>The symbols of one length, and the rank of a symbol among them.\<close>

definition len_syms :: "ct_tree \<Rightarrow> int \<Rightarrow> int \<Rightarrow> int set" where
  "len_syms tree n l = {m. 0 \<le> m \<and> m < n \<and> dl (tree m) = l}"

definition len_count :: "ct_tree \<Rightarrow> int \<Rightarrow> int \<Rightarrow> int" where
  "len_count tree n l = int (card (len_syms tree n l))"

text \<open>The lengths are in range and \<open>bl_count\<close> counts them.\<close>

definition lens_ok :: "(int \<Rightarrow> int) \<Rightarrow> ct_tree \<Rightarrow> int \<Rightarrow> bool" where
  "lens_ok cnt tree mcode \<longleftrightarrow>
     (\<forall>n \<in> {0..mcode}. 0 \<le> dl (tree n) \<and> dl (tree n) \<le> 15) \<and>
     cnt 0 = 0 \<and> (\<forall>l \<in> {1..15}. cnt l = len_count tree (mcode + 1) l)"

definition kraft :: "(int \<Rightarrow> int) \<Rightarrow> int" where
  "kraft cnt = (\<Sum>l \<in> {1..15::nat}. cnt (int l) * 2 ^ (15 - l))"

fun code_start :: "(int \<Rightarrow> int) \<Rightarrow> nat \<Rightarrow> int" where
  "code_start cnt 0 = 0"
| "code_start cnt (Suc l) = 2 * (code_start cnt l + cnt (int l))"

lemma finite_len_syms [simp]: "finite (len_syms tree n l)"
  by (rule finite_subset [of _ "{0..<n}"]) (auto simp: len_syms_def)

lemma len_count_nonneg [simp]: "0 \<le> len_count tree n l"
  by (simp add: len_count_def)

lemma len_count_step:
  "0 \<le> n \<Longrightarrow> len_count tree (n + 1) l = len_count tree n l + (if dl (tree n) = l then 1 else 0)"
proof -
  assume "0 \<le> n"
  then have "len_syms tree (n + 1) l =
      (if dl (tree n) = l then insert n (len_syms tree n l) else len_syms tree n l)"
    by (auto simp: len_syms_def less_le zless_add1_eq)
  moreover have "n \<notin> len_syms tree n l" by (simp add: len_syms_def)
  ultimately show ?thesis by (simp add: len_count_def)
qed

lemma len_count_0 [simp]: "len_count tree 0 l = 0"
proof -
  have "len_syms tree 0 l = {}" by (auto simp: len_syms_def)
  then show ?thesis by (simp add: len_count_def)
qed

lemma len_count_mono: "m \<le> n \<Longrightarrow> len_count tree m l \<le> len_count tree n l"
  unfolding len_count_def
  by (intro of_nat_mono card_mono finite_len_syms) (auto simp: len_syms_def)

lemma len_count_less:
  assumes "0 \<le> m" "m < n"
  shows "len_count tree m (dl (tree m)) < len_count tree n (dl (tree m))"
proof -
  have "len_count tree m (dl (tree m)) < len_count tree (m + 1) (dl (tree m))"
    using len_count_step [OF assms(1)] by simp
  also have "\<dots> \<le> len_count tree n (dl (tree m))"
    using assms(2) by (intro len_count_mono) simp
  finally show ?thesis .
qed

lemma len_count_inj:
  assumes "0 \<le> m" "0 \<le> n" "dl (tree m) = dl (tree n)"
    "len_count tree m (dl (tree m)) = len_count tree n (dl (tree n))"
  shows "m = n"
  using assms len_count_less [of m n tree] len_count_less [of n m tree]
  by (cases m n rule: linorder_cases) auto

lemma code_start_nonneg: "\<forall>l. 0 \<le> cnt (int l) \<Longrightarrow> 0 \<le> code_start cnt l"
  by (induction l) simp_all

lemma code_start_scaled:
  assumes "l \<le> 15"
  shows "code_start cnt l * 2 ^ (15 - l) = (\<Sum>b < l. cnt (int b) * 2 ^ (15 - b))"
  using assms
proof (induction l)
  case (Suc l)
  have "2 * (2::int) ^ (15 - Suc l) = 2 ^ (15 - l)"
    using Suc.prems by (simp flip: power_Suc add: Suc_diff_Suc)
  then have "code_start cnt (Suc l) * 2 ^ (15 - Suc l) =
      (code_start cnt l + cnt (int l)) * 2 ^ (15 - l)"
    by (simp add: algebra_simps)
  with Suc show ?case by (simp add: algebra_simps)
qed simp

text \<open>Each length starts behind the extensions of all shorter codes.\<close>

lemma code_start_extends:
  assumes "\<forall>l \<in> {1..15}. 0 \<le> cnt l" "cnt 0 = 0" "l < k" "k \<le> 15"
  shows "2 ^ (k - l) * (code_start cnt l + cnt (int l)) \<le> code_start cnt k"
  using assms(3,4)
proof (induction k)
  case (Suc k)
  show ?case
  proof (cases "l = k")
    case False
    with Suc have IH: "2 ^ (k - l) * (code_start cnt l + cnt (int l)) \<le> code_start cnt k" by simp
    have "0 \<le> cnt (int k)" using assms(1,2) Suc.prems by (cases "k = 0") auto
    moreover have "(2::int) ^ (Suc k - l) = 2 * 2 ^ (k - l)"
      using False Suc.prems by (simp add: Suc_diff_le)
    ultimately show ?thesis using IH by (simp add: mult.assoc)
  qed simp
qed simp

text \<open>Kraft's inequality bounds every code by its length.\<close>

lemma code_start_bound:
  assumes "kraft cnt \<le> 2 ^ 15" "\<forall>l \<in> {1..15}. 0 \<le> cnt l" "cnt 0 = 0" "l \<le> 15"
  shows "code_start cnt l + cnt (int l) \<le> 2 ^ l" and "0 \<le> code_start cnt l"
proof -
  let ?f = "\<lambda>b. cnt (int b) * 2 ^ (15 - b)"
  have nn: "0 \<le> ?f b" if "b \<le> 15" for b
    using that assms(2,3) by (cases "b = 0") auto
  have "(code_start cnt l + cnt (int l)) * 2 ^ (15 - l) = (\<Sum>b < Suc l. ?f b)"
    using code_start_scaled [OF assms(4), of cnt] by (simp add: algebra_simps)
  also have "\<dots> \<le> (\<Sum>b < 16. ?f b)"
    using assms(4) nn by (intro sum_mono2) auto
  also have "\<dots> = ?f 0 + (\<Sum>b \<in> {1..15}. ?f b)"
  proof -
    have "{..<16::nat} = insert 0 {1..15}" by auto
    then show ?thesis by simp
  qed
  also have "\<dots> \<le> 2 ^ 15" using assms(1,3) by (simp add: kraft_def)
  also have "(2::int) ^ 15 = 2 ^ l * 2 ^ (15 - l)" using assms(4) by (simp flip: power_add)
  finally show "code_start cnt l + cnt (int l) \<le> 2 ^ l" by simp
  have "0 \<le> code_start cnt l * 2 ^ (15 - l)"
    unfolding code_start_scaled [OF assms(4)] using assms(4) nn by (intro sum_nonneg) auto
  then show "0 \<le> code_start cnt l" by (simp add: zero_le_mult_iff)
qed


section \<open>The generated codes\<close>

lemma gen_next_code_eq:
  assumes "kraft cnt \<le> 2 ^ 15" "\<forall>l \<in> {1..15}. 0 \<le> cnt l" "cnt 0 = 0" "1 \<le> l" "l \<le> 15"
  shows "gen_next_code cnt l = code_start cnt (nat l)"
proof -
  let ?body = "\<lambda>bits (next_code, code).
      let code = js_shl (code + cnt (bits - 1)) 1 in (next_code(bits := code), code)"
  let ?P = "\<lambda>i (nc, code). code = code_start cnt (nat (i - 1)) \<and>
      (\<forall>l. 1 \<le> l \<and> l < i \<longrightarrow> nc l = code_start cnt (nat l))"
  have "?P 16 (for_up 1 16 ?body ((\<lambda>_. 0), 0))"
  proof (rule for_up_invariant [where P = ?P])
    fix i s assume i: "1 \<le> i" "i < (16::int)" and P: "?P i s"
    obtain nc code where s: "s = (nc, code)" by (cases s)
    define k where "k = nat (i - 1)"
    have k: "i - 1 = int k" "k \<le> 15" "nat i = Suc k" using i by (simp_all add: k_def)
    from P s have code: "code = code_start cnt k" by (simp add: k_def)
    note b = code_start_bound [OF assms(1-3) k(2)]
    have "cnt (int k) \<ge> 0" using assms(2,3) k(2) by (cases "k = 0") auto
    moreover have "code + cnt (int k) < 2 ^ 30"
      using b(1) code power_increasing [OF k(2), of "2::int"] by simp
    ultimately have "js_shl (code + cnt (int k)) 1 = code_start cnt (nat i)"
      using b(2) code k by (simp add: js_shl_twice)
    with P s k(1) i show "?P (i + 1) (?body i s)"
      by (auto simp: Let_def)
  qed simp_all
  with assms(4,5) show ?thesis
    by (auto simp: gen_next_code_def split: prod.splits)
qed

text \<open>The value of a symbol's code, most significant bit first.\<close>

definition code_val :: "(int \<Rightarrow> int) \<Rightarrow> ct_tree \<Rightarrow> int \<Rightarrow> int" where
  "code_val cnt tree n = code_start cnt (nat (dl (tree n))) + len_count tree n (dl (tree n))"

lemma code_val_bounds:
  assumes "kraft cnt \<le> 2 ^ 15" "lens_ok cnt tree mcode" "0 \<le> n" "n \<le> mcode" "dl (tree n) \<noteq> 0"
  defines "l \<equiv> nat (dl (tree n))"
  shows "code_start cnt l \<le> code_val cnt tree n"
    and "code_val cnt tree n < code_start cnt l + cnt (int l)"
    and "code_start cnt l + cnt (int l) \<le> 2 ^ l" "0 \<le> code_start cnt l" "1 \<le> l" "l \<le> 15"
proof -
  have d: "0 \<le> dl (tree n)" "dl (tree n) \<le> 15"
    using assms(2-4) by (auto simp: lens_ok_def)
  with assms(5) show l: "1 \<le> l" "l \<le> 15" by (auto simp: l_def)
  have cnt: "\<forall>l \<in> {1..15}. 0 \<le> cnt l" "cnt 0 = 0" using assms(2) by (auto simp: lens_ok_def)
  show "code_start cnt l + cnt (int l) \<le> 2 ^ l" "0 \<le> code_start cnt l"
    using code_start_bound [OF assms(1) cnt l(2)] by simp_all
  show "code_start cnt l \<le> code_val cnt tree n" by (simp add: code_val_def l_def)
  have "len_count tree n (dl (tree n)) + 1 = len_count tree (n + 1) (dl (tree n))"
    using len_count_step [OF assms(3), of tree "dl (tree n)"] by simp
  also have "\<dots> \<le> len_count tree (mcode + 1) (dl (tree n))"
    using assms(4) by (intro len_count_mono) simp
  also have "\<dots> = cnt (int l)" using assms(2) l d by (auto simp: lens_ok_def l_def)
  finally show "code_val cnt tree n < code_start cnt l + cnt (int l)"
    by (simp add: code_val_def l_def)
qed

lemma gen_codes_correct:
  assumes "kraft cnt \<le> 2 ^ 15" "lens_ok cnt tree mcode" "-1 \<le> mcode"
  shows "dl (gen_codes cnt tree mcode n) = dl (tree n)"
    and "fc (gen_codes cnt tree mcode n) =
      (if 0 \<le> n \<and> n \<le> mcode \<and> dl (tree n) \<noteq> 0
       then bit_rev (nat (dl (tree n))) (code_val cnt tree n) else fc (tree n))"
proof -
  let ?P = "\<lambda>i (t :: ct_tree, nc). (\<forall>n. dl (t n) = dl (tree n)) \<and>
      (\<forall>n. fc (t n) = (if 0 \<le> n \<and> n < i \<and> dl (tree n) \<noteq> 0
         then bit_rev (nat (dl (tree n))) (code_val cnt tree n) else fc (tree n))) \<and>
      (\<forall>l. 1 \<le> l \<and> l \<le> 15 \<longrightarrow> nc l = code_start cnt (nat l) + len_count tree i l)"
  have cnt: "\<forall>l \<in> {1..15}. 0 \<le> cnt l" "cnt 0 = 0" using assms(2) by (auto simp: lens_ok_def)
  have "?P (mcode + 1) (for_up 0 (mcode + 1) gen_codes_step (tree, gen_next_code cnt))"
  proof (rule for_up_invariant [where P = ?P])
    show "?P 0 (tree, gen_next_code cnt)"
      using gen_next_code_eq [OF assms(1) cnt] by auto
  next
    fix i s assume i: "0 \<le> i" "i < mcode + 1" and P: "?P i s"
    obtain t nc where s: "s = (t, nc)" by (cases s)
    have step: "len_count tree (i + 1) l = len_count tree i l + (if dl (tree i) = l then 1 else 0)"
      for l using len_count_step [OF i(1)] .
    show "?P (i + 1) (gen_codes_step i s)"
    proof (cases "dl (tree i) = 0")
      case True
      with P s show ?thesis
        by (auto simp: gen_codes_step_def step Let_def less_le zless_add1_eq)
    next
      case False
      let ?l = "dl (tree i)"
      from i have i': "i \<le> mcode" by simp
      note b = code_val_bounds [OF assms(1,2) i(1) i' False]
      have l: "1 \<le> ?l" "?l \<le> 15" using b(5,6) by auto
      have nc: "nc ?l = code_val cnt tree i"
        using P s l by (simp add: code_val_def)
      have "code_val cnt tree i < 2 ^ nat ?l" using b by linarith
      then have "code_val cnt tree i < 2 ^ 16"
        by (rule less_pow2_mono) (use l in simp)
      then have "zip_bi_reverse (nc ?l) ?l = bit_rev (nat ?l) (code_val cnt tree i)"
        using b l nc by (subst zip_bi_reverse_eq) auto
      with P s False l i(1) show ?thesis
        by (auto simp: gen_codes_step_def Let_def step)
    qed
  qed (use assms(3) in auto)
  then show "dl (gen_codes cnt tree mcode n) = dl (tree n)"
    and "fc (gen_codes cnt tree mcode n) =
      (if 0 \<le> n \<and> n \<le> mcode \<and> dl (tree n) \<noteq> 0
       then bit_rev (nat (dl (tree n))) (code_val cnt tree n) else fc (tree n))"
    by (auto simp: gen_codes_def split: prod.splits)
qed

text \<open>The bits \<open>zip_SEND_CODE\<close> emits for a symbol.\<close>

definition code_bits :: "ct_tree \<Rightarrow> int \<Rightarrow> bool list" where
  "code_bits tree n = bits_lsb (nat (dl (tree n))) (fc (tree n))"

lemma code_bits_gen_codes:
  assumes "kraft cnt \<le> 2 ^ 15" "lens_ok cnt tree mcode" "0 \<le> n" "n \<le> mcode" "dl (tree n) \<noteq> 0"
  shows "code_bits (gen_codes cnt tree mcode) n =
           rev (bits_lsb (nat (dl (tree n))) (code_val cnt tree n))"
proof -
  have "-1 \<le> mcode" using assms(3,4) by simp
  note g = gen_codes_correct [OF assms(1,2) this, of n]
  show ?thesis
    unfolding code_bits_def g using assms(3-5) by (simp add: bits_bit_rev)
qed

lemma gen_codes_prefix_free:
  assumes kraft: "kraft cnt \<le> 2 ^ 15" and ok: "lens_ok cnt tree mcode"
    and n: "0 \<le> n" "n \<le> mcode" "dl (tree n) \<noteq> 0"
    and m: "0 \<le> m" "m \<le> mcode" "dl (tree m) \<noteq> 0"
    and pre: "prefix (code_bits (gen_codes cnt tree mcode) n) (code_bits (gen_codes cnt tree mcode) m)"
  shows "n = m"
proof -
  let ?ln = "nat (dl (tree n))" and ?lm = "nat (dl (tree m))"
  let ?vn = "code_val cnt tree n" and ?vm = "code_val cnt tree m"
  note bn = code_val_bounds [OF kraft ok n] and bm = code_val_bounds [OF kraft ok m]
  from pre have suf: "suffix (bits_lsb ?ln ?vn) (bits_lsb ?lm ?vm)"
    unfolding code_bits_gen_codes [OF kraft ok n] code_bits_gen_codes [OF kraft ok m]
    by (simp only: suffix_to_prefix)
  then have le: "?ln \<le> ?lm" using suffix_length_le by fastforce
  define d where "d = ?lm - ?ln"
  have "bits_lsb ?lm ?vm = bits_lsb d ?vm @ bits_lsb ?ln (drop_bit d ?vm)"
    using bits_lsb_append [of d ?ln ?vm] le by (simp add: d_def)
  with suf obtain zs where "bits_lsb d ?vm @ bits_lsb ?ln (drop_bit d ?vm) = zs @ bits_lsb ?ln ?vn"
    by (auto simp: suffix_def)
  then have eq: "bits_lsb ?ln ?vn = bits_lsb ?ln (drop_bit d ?vm)"
    by (subst (asm) append_eq_append_conv) simp_all
  have vm: "0 \<le> ?vm" "?vm < 2 ^ ?lm" using bm(1-4) by linarith+
  have vn: "0 \<le> ?vn" "?vn < 2 ^ ?ln" using bn(1-4) by linarith+
  have "(2::int) ^ ?lm = 2 ^ ?ln * 2 ^ d" using le by (simp add: d_def flip: power_add)
  with vm(2) have "drop_bit d ?vm < 2 ^ ?ln"
    unfolding drop_bit_eq_div by (intro int_div_less) simp_all
  moreover have "0 \<le> drop_bit d ?vm" using vm(1) by simp
  ultimately have v: "?vn = drop_bit d ?vm"
    by (intro bits_lsb_inj [OF eq] vn)
  have cnt: "\<forall>l \<in> {1..15}. 0 \<le> cnt l" "cnt 0 = 0" using ok by (auto simp: lens_ok_def)
  show "n = m"
  proof (cases "?ln = ?lm")
    case True
    with bn(5) bm(5) have l: "dl (tree n) = dl (tree m)" by linarith
    from True have "d = 0" by (simp add: d_def)
    with v have "?vn = ?vm" by simp
    then have "len_count tree n (dl (tree n)) = len_count tree m (dl (tree m))"
      unfolding code_val_def l by linarith
    then show ?thesis using len_count_inj [OF n(1) m(1) l] by simp
  next
    case False
    with le have less: "?ln < ?lm" by linarith
    have "2 ^ d * (code_start cnt ?ln + cnt (int ?ln)) \<le> code_start cnt ?lm"
      unfolding d_def by (rule code_start_extends [OF cnt less bm(6)])
    also have "\<dots> \<le> ?vm" by (rule bm)
    finally have "2 ^ d * (code_start cnt ?ln + cnt (int ?ln)) div 2 ^ d \<le> ?vm div 2 ^ d"
      by (intro zdiv_mono1) simp_all
    then have "code_start cnt ?ln + cnt (int ?ln) \<le> ?vm div 2 ^ d" by simp
    with v bn(2) show ?thesis unfolding drop_bit_eq_div by linarith
  qed
qed

section \<open>Properties\<close>

text \<open>
  C10: from lengths that satisfy Kraft's inequality, \<open>zip_gen_codes\<close> stores the canonical code: the
  lengths stay, the code of a symbol is its length's first code plus its rank among the symbols of
  that length, sent most significant bit first, and no code begins another one.
\<close>

theorem gen_codes_canonical:
  assumes "kraft cnt \<le> 2 ^ 15" "lens_ok cnt tree mcode"
  shows "(\<forall>n \<in> {0..mcode}. dl (gen_codes cnt tree mcode n) = dl (tree n) \<and>
      (dl (tree n) \<noteq> 0 \<longrightarrow> code_bits (gen_codes cnt tree mcode) n =
        rev (bits_lsb (nat (dl (tree n))) (code_start cnt (nat (dl (tree n))) + len_count tree n (dl (tree n))))))
    \<and> (\<forall>n \<in> {0..mcode}. \<forall>m \<in> {0..mcode}. dl (tree n) \<noteq> 0 \<and> dl (tree m) \<noteq> 0 \<and>
      prefix (code_bits (gen_codes cnt tree mcode) n) (code_bits (gen_codes cnt tree mcode) m) \<longrightarrow> n = m)"
proof (intro conjI ballI impI)
  fix n assume n: "n \<in> {0..mcode}"
  then have "-1 \<le> mcode" by simp
  then show "dl (gen_codes cnt tree mcode n) = dl (tree n)"
    by (rule gen_codes_correct(1) [OF assms])
  assume "dl (tree n) \<noteq> 0"
  then show "code_bits (gen_codes cnt tree mcode) n =
      rev (bits_lsb (nat (dl (tree n))) (code_start cnt (nat (dl (tree n))) + len_count tree n (dl (tree n))))"
    using code_bits_gen_codes [OF assms, of n] n by (simp add: code_val_def)
next
  fix n m assume "n \<in> {0..mcode}" "m \<in> {0..mcode}"
    "dl (tree n) \<noteq> 0 \<and> dl (tree m) \<noteq> 0 \<and>
      prefix (code_bits (gen_codes cnt tree mcode) n) (code_bits (gen_codes cnt tree mcode) m)"
  then show "n = m" by (intro gen_codes_prefix_free [OF assms]) auto
qed

text \<open>Three symbols with the lengths 1, 2, 2.\<close>

definition example_lens :: ct_tree where
  "example_lens = (\<lambda>n. \<lparr>fc = 0, dl = (if n = 0 then 1 else 2)\<rparr>)"

definition example_counts :: "int \<Rightarrow> int" where
  "example_counts = (\<lambda>l. if l = 1 then 1 else if l = 2 then 2 else 0)"

lemma example_lens_ok: "lens_ok example_counts example_lens 2" "kraft example_counts \<le> 2 ^ 15"
proof -
  have "len_count example_lens 3 l = example_counts l" if "1 \<le> l" for l
    using len_count_step [of 0 example_lens l] len_count_step [of 1 example_lens l]
      len_count_step [of 2 example_lens l] that
    by (simp add: example_lens_def example_counts_def)
  then show "lens_ok example_counts example_lens 2"
    by (simp add: lens_ok_def example_lens_def example_counts_def)
  show "kraft example_counts \<le> 2 ^ 15"
    by (simp add: kraft_def example_counts_def numeral_eq_Suc sum.atLeast_Suc_atMost)
qed

theorem gen_codes_canonical_witness:
  "dl (gen_codes example_counts example_lens 2 1) = 2 \<and>
    \<not> prefix (code_bits (gen_codes example_counts example_lens 2) 0)
        (code_bits (gen_codes example_counts example_lens 2) 1) \<and>
    code_bits (gen_codes example_counts example_lens 2) 0 =
      rev (bits_lsb 1 (code_start example_counts 1 + len_count example_lens 0 1))"
proof (intro conjI)
  note w = gen_codes_canonical [OF example_lens_ok(2,1)]
  show "dl (gen_codes example_counts example_lens 2 1) = 2"
    using conjunct1 [OF w, THEN bspec, of 1] by (simp add: example_lens_def)
  show "\<not> prefix (code_bits (gen_codes example_counts example_lens 2) 0)
        (code_bits (gen_codes example_counts example_lens 2) 1)"
    using conjunct2 [OF w, THEN bspec, THEN bspec, of 0 1] by (simp add: example_lens_def)
  show "code_bits (gen_codes example_counts example_lens 2) 0 =
      rev (bits_lsb 1 (code_start example_counts 1 + len_count example_lens 0 1))"
    using conjunct1 [OF w, THEN bspec, of 0] by (simp add: example_lens_def)
qed

end
