(* ===== verification/Deflate_Trees.thy ===== *)
theory Deflate_Trees
  imports Deflate_Codes
begin

text \<open>
  Around the trees: the tables and the static trees of \<open>zip_ct_init\<close>, the start of a block, and the
  transmission of the dynamic trees as run-length coded lengths (\<open>zip_scan_tree\<close>, \<open>zip_send_tree\<close>,
  \<open>zip_build_bl_tree\<close>, \<open>zip_send_all_trees\<close>).
\<close>

section \<open>The state of a block\<close>

text \<open>
  The token buffers, the window and the position of the block in it.  An element of the window is
  \<open>None\<close> until a byte is stored there: JavaScript's \<open>undefined\<close>, which compares unequal to every
  byte but counts as 0 under \<open>& 0xff\<close>.
\<close>

type_synonym js_window = "int \<Rightarrow> int option"

record block_state = tree_state +
  zip_compr_level :: int
  zip_window :: js_window
  zip_strstart :: int
  zip_block_start :: int
  zip_l_buf :: "int \<Rightarrow> int"
  zip_d_buf :: "int \<Rightarrow> int"
  zip_flag_buf :: "int \<Rightarrow> int"
  zip_last_lit :: int
  zip_last_dist :: int
  zip_last_flags :: int
  zip_flags :: int
  zip_flag_bit :: int

section \<open>Initialisation\<close>

definition clear_fc :: "int \<Rightarrow> ct_tree \<Rightarrow> ct_tree" where
  "clear_fc n t = for_up 0 n (\<lambda>i t. set_fc i 0 t) t"

definition zip_init_block :: "'a block_state_scheme \<Rightarrow> 'a block_state_scheme" where
  "zip_init_block s =
     (let s = s\<lparr>zip_dyn_ltree := clear_fc zip_L_CODES (zip_dyn_ltree s),
                zip_dyn_dtree := clear_fc zip_D_CODES (zip_dyn_dtree s),
                zip_bl_tree := clear_fc zip_BL_CODES (zip_bl_tree s)\<rparr>;
          s = s\<lparr>zip_dyn_ltree := set_fc zip_END_BLOCK 1 (zip_dyn_ltree s)\<rparr>
      in s\<lparr>zip_opt_len := 0, zip_static_len := 0, zip_last_lit := 0, zip_last_dist := 0,
           zip_last_flags := 0, zip_flags := 0, zip_flag_bit := 1\<rparr>)"

definition ct_init_descs :: "'a tree_state_scheme \<Rightarrow> 'a tree_state_scheme" where
  "ct_init_descs s = s\<lparr>
     zip_l_desc := \<lparr>dyn_tree = Dyn_ltree, static_tree = Some Static_ltree,
       extra_bits = zip_extra_lbits, extra_base = zip_LITERALS + 1, elems = zip_L_CODES,
       max_length = zip_MAX_BITS, max_code = 0\<rparr>,
     zip_d_desc := \<lparr>dyn_tree = Dyn_dtree, static_tree = Some Static_dtree,
       extra_bits = zip_extra_dbits, extra_base = 0, elems = zip_D_CODES,
       max_length = zip_MAX_BITS, max_code = 0\<rparr>,
     zip_bl_desc := \<lparr>dyn_tree = Bl_tree, static_tree = None,
       extra_bits = zip_extra_blbits, extra_base = 0, elems = zip_BL_CODES,
       max_length = zip_MAX_BL_BITS, max_code = 0\<rparr>\<rparr>"

text \<open>
  The nested loops that fill a code table: for each code, note the running position as the code's
  base and store the code \<open>1 << bits\<close> times.
\<close>

definition fill_codes ::
  "(int \<Rightarrow> int) \<Rightarrow> int \<Rightarrow> (int \<Rightarrow> int) \<Rightarrow> int \<Rightarrow> int \<Rightarrow> (int \<Rightarrow> int) \<times> (int \<Rightarrow> int) \<times> int
     \<Rightarrow> (int \<Rightarrow> int) \<times> (int \<Rightarrow> int) \<times> int" where
  "fill_codes bits offset base_of a b =
     for_up a b (\<lambda>code (base, codes, pos).
       let base = base(code := base_of pos) in
       for_up 0 (js_shl 1 (bits code))
         (\<lambda>_ (base, codes, pos). (base, codes(offset + pos := code), pos + 1))
         (base, codes, pos))"

definition ct_init_lengths :: "'a tree_state_scheme \<Rightarrow> 'a tree_state_scheme" where
  "ct_init_lengths s =
     (let (base, codes, length) = fill_codes zip_extra_lbits 0 (\<lambda>l. l) 0 (zip_LENGTH_CODES - 1)
            (zip_base_length s, zip_length_code s, 0)
      in s\<lparr>zip_base_length := base,
           zip_length_code := codes(length - 1 := zip_LENGTH_CODES - 1)\<rparr>)"

definition ct_init_dists :: "'a tree_state_scheme \<Rightarrow> 'a tree_state_scheme" where
  "ct_init_dists s =
     (let (base, codes, dist) = fill_codes zip_extra_dbits 0 (\<lambda>d. d) 0 16
            (zip_base_dist s, zip_dist_code s, 0);
          dist = js_shr dist 7;
          (base, codes, dist) =
            fill_codes (\<lambda>code. zip_extra_dbits code - 7) 256 (\<lambda>d. js_shl d 7) 16 zip_D_CODES
              (base, codes, dist)
      in s\<lparr>zip_base_dist := base, zip_dist_code := codes\<rparr>)"

text \<open>The loops \<open>while (n <= k) { zip_static_ltree[n++].dl = l; zip_bl_count[l]++; }\<close>.\<close>

definition static_run :: "int \<Rightarrow> int \<Rightarrow> int \<Rightarrow> ct_tree \<times> (int \<Rightarrow> int) \<Rightarrow> ct_tree \<times> (int \<Rightarrow> int)" where
  "static_run n k l = for_up n (k + 1) (\<lambda>n (t, cnt). (set_dl n l t, cnt(l := cnt l + 1)))"

definition ct_init_static :: "'a tree_state_scheme \<Rightarrow> 'a tree_state_scheme" where
  "ct_init_static s =
     (let cnt = for_up 0 (zip_MAX_BITS + 1) (\<lambda>bits c. c(bits := 0)) (zip_bl_count s);
          (t, cnt) = static_run 0 143 8 (zip_static_ltree s, cnt);
          (t, cnt) = static_run 144 255 9 (t, cnt);
          (t, cnt) = static_run 256 279 7 (t, cnt);
          (t, cnt) = static_run 280 287 8 (t, cnt);
          s = s\<lparr>zip_static_ltree := t, zip_bl_count := cnt\<rparr>;
          s = zip_gen_codes Static_ltree (zip_L_CODES + 1) s
      in s\<lparr>zip_static_dtree := for_up 0 zip_D_CODES
             (\<lambda>n t. set_fc n (zip_bi_reverse n 5) (set_dl n 5 t)) (zip_static_dtree s)\<rparr>)"

definition zip_ct_init :: "'a block_state_scheme \<Rightarrow> 'a block_state_scheme" where
  "zip_ct_init s =
     (if dl (zip_static_dtree s 0) \<noteq> 0 then s
      else zip_init_block (ct_init_static (ct_init_dists (ct_init_lengths (ct_init_descs s)))))"

section \<open>Scanning and sending a tree\<close>

text \<open>
  Both loops keep the last emitted length, the next length, the repeat count and its limits; they
  share the decision what to emit and the reset after it.
\<close>

record run_state =
  rs_prevlen :: int
  rs_nextlen :: int
  rs_count :: int
  rs_max_count :: int
  rs_min_count :: int

definition run_start :: "ct_tree \<Rightarrow> run_state" where
  "run_start tree =
     (let nextlen = dl (tree 0) in
      if nextlen = 0
      then \<lparr>rs_prevlen = -1, rs_nextlen = nextlen, rs_count = 0, rs_max_count = 138, rs_min_count = 3\<rparr>
      else \<lparr>rs_prevlen = -1, rs_nextlen = nextlen, rs_count = 0, rs_max_count = 7, rs_min_count = 4\<rparr>)"

definition run_reset :: "int \<Rightarrow> int \<Rightarrow> run_state \<Rightarrow> run_state" where
  "run_reset curlen nextlen r =
     (let r = r\<lparr>rs_count := 0, rs_prevlen := curlen, rs_nextlen := nextlen\<rparr> in
      if nextlen = 0 then r\<lparr>rs_max_count := 138, rs_min_count := 3\<rparr>
      else if curlen = nextlen then r\<lparr>rs_max_count := 6, rs_min_count := 3\<rparr>
      else r\<lparr>rs_max_count := 7, rs_min_count := 4\<rparr>)"

definition add_fc :: "int \<Rightarrow> int \<Rightarrow> ct_tree \<Rightarrow> ct_tree" where
  "add_fc n k t = set_fc n (fc (t n) + k) t"

definition scan_step :: "ct_tree \<Rightarrow> int \<Rightarrow> run_state \<times> ct_tree \<Rightarrow> run_state \<times> ct_tree" where
  "scan_step tree n = (\<lambda>(r, bl).
     let curlen = rs_nextlen r; nextlen = dl (tree (n + 1));
         r = r\<lparr>rs_count := rs_count r + 1\<rparr>; cnt = rs_count r
     in
       if cnt < rs_max_count r \<and> curlen = nextlen then (r\<lparr>rs_nextlen := nextlen\<rparr>, bl)
       else
         let bl =
           (if cnt < rs_min_count r then add_fc curlen cnt bl
            else if curlen \<noteq> 0 then
              let bl = (if curlen \<noteq> rs_prevlen r then add_fc curlen 1 bl else bl)
              in add_fc zip_REP_3_6 1 bl
            else if cnt \<le> 10 then add_fc zip_REPZ_3_10 1 bl
            else add_fc zip_REPZ_11_138 1 bl)
         in (run_reset curlen nextlen r, bl))"

text \<open>
  \<open>zip_scan_tree\<close> sets the guard and scans.  The bit length tree is never the scanned one, so the
  scanned tree does not change during the loop.
\<close>

definition zip_scan_tree :: "tree_ref \<Rightarrow> int \<Rightarrow> 'a tree_state_scheme \<Rightarrow> 'a tree_state_scheme" where
  "zip_scan_tree t mcode s =
     (let r = run_start (get_tree t s);
          s = set_tree t (set_dl (mcode + 1) 65535 (get_tree t s)) s
      in s\<lparr>zip_bl_tree := snd (for_up 0 (mcode + 1) (scan_step (get_tree t s)) (r, zip_bl_tree s))\<rparr>)"

text \<open>\<open>do { SEND_CODE(curlen, bl_tree) } while (--count != 0)\<close>, for a positive count.\<close>

definition send_repeat :: "int \<Rightarrow> int \<Rightarrow> ct_tree \<Rightarrow> 'a out_state_scheme \<Rightarrow> 'a out_state_scheme" where
  "send_repeat k c tree s = (zip_SEND_CODE c tree ^^ nat k) s"

definition send_step ::
  "ct_tree \<Rightarrow> ct_tree \<Rightarrow> int \<Rightarrow> run_state \<times> 'a out_state_scheme \<Rightarrow> run_state \<times> 'a out_state_scheme" where
  "send_step bl tree n = (\<lambda>(r, s).
     let curlen = rs_nextlen r; nextlen = dl (tree (n + 1));
         r = r\<lparr>rs_count := rs_count r + 1\<rparr>; cnt = rs_count r
     in
       if cnt < rs_max_count r \<and> curlen = nextlen then (r\<lparr>rs_nextlen := nextlen\<rparr>, s)
       else
         let s =
           (if cnt < rs_min_count r then send_repeat cnt curlen bl s
            else if curlen \<noteq> 0 then
              let (cnt, s) = (if curlen \<noteq> rs_prevlen r
                                then (cnt - 1, zip_SEND_CODE curlen bl s) else (cnt, s));
                  s = zip_SEND_CODE zip_REP_3_6 bl s
              in zip_send_bits (cnt - 3) 2 s
            else if cnt \<le> 10 then
              zip_send_bits (cnt - 3) 3 (zip_SEND_CODE zip_REPZ_3_10 bl s)
            else zip_send_bits (cnt - 11) 7 (zip_SEND_CODE zip_REPZ_11_138 bl s))
         in (run_reset curlen nextlen r, s))"

definition zip_send_tree :: "tree_ref \<Rightarrow> int \<Rightarrow> 'a tree_state_scheme \<Rightarrow> 'a tree_state_scheme" where
  "zip_send_tree t mcode s =
     snd (for_up 0 (mcode + 1) (send_step (zip_bl_tree s) (get_tree t s)) (run_start (get_tree t s), s))"

section \<open>All trees of a block\<close>

text \<open>\<open>for (max_blindex = BL_CODES-1; max_blindex >= 3; max_blindex--) if (dl != 0) break;\<close>\<close>

function bl_index :: "ct_tree \<Rightarrow> int \<Rightarrow> int" where
  "bl_index bl k =
     (if k \<ge> 3 then if dl (bl (zip_bl_order k)) \<noteq> 0 then k else bl_index bl (k - 1) else k)"
  by pat_completeness auto
termination
  by (relation "measure (\<lambda>(_, k). nat k)") auto

declare bl_index.simps [simp del]

definition zip_build_bl_tree :: "'a tree_state_scheme \<Rightarrow> int \<times> 'a tree_state_scheme" where
  "zip_build_bl_tree s =
     (let s = zip_scan_tree Dyn_ltree (max_code (zip_l_desc s)) s;
          s = zip_scan_tree Dyn_dtree (max_code (zip_d_desc s)) s;
          s = zip_build_tree Bl_desc s;
          max_blindex = bl_index (zip_bl_tree s) (zip_BL_CODES - 1)
      in (max_blindex, s\<lparr>zip_opt_len := zip_opt_len s + 3 * (max_blindex + 1) + 5 + 5 + 4\<rparr>))"

definition zip_send_all_trees :: "int \<Rightarrow> int \<Rightarrow> int \<Rightarrow> 'a tree_state_scheme \<Rightarrow> 'a tree_state_scheme" where
  "zip_send_all_trees lcodes dcodes blcodes s =
     (let s = zip_send_bits (lcodes - 257) 5 s;
          s = zip_send_bits (dcodes - 1) 5 s;
          s = zip_send_bits (blcodes - 4) 4 s;
          s = for_up 0 blcodes (\<lambda>rank s. zip_send_bits (dl (zip_bl_tree s (zip_bl_order rank))) 3 s) s;
          s = zip_send_tree Dyn_ltree (lcodes - 1) s
      in zip_send_tree Dyn_dtree (dcodes - 1) s)"


section \<open>The run-length code\<close>

text \<open>
  What both loops mean: a list of tokens (symbol, number of extra bits, extra value).  The inflating
  side expands a token behind the lengths it has so far; a repeat needs a length to repeat.
\<close>

type_synonym rl_token = "int \<times> int \<times> int"

fun rl_expand :: "rl_token \<Rightarrow> int list \<Rightarrow> int list option" where
  "rl_expand (c, nb, e) acc =
     (if c \<le> 15 then Some (acc @ [c])
      else if c = 16 then if acc = [] then None else Some (acc @ replicate (nat (3 + e)) (last acc))
      else if c = 17 then Some (acc @ replicate (nat (3 + e)) 0)
      else Some (acc @ replicate (nat (11 + e)) 0))"

fun rl_decode :: "rl_token list \<Rightarrow> int list \<Rightarrow> int list option" where
  "rl_decode [] acc = Some acc"
| "rl_decode (t # ts) acc = Option.bind (rl_expand t acc) (rl_decode ts)"

fun rl_valid :: "rl_token \<Rightarrow> bool" where
  "rl_valid (c, nb, e) \<longleftrightarrow> 0 \<le> c \<and> c \<le> 18 \<and> nb = zip_extra_blbits c \<and> 0 \<le> e \<and> e < 2 ^ nat nb"

lemma rl_decode_append:
  "rl_decode (ts @ us) acc = Option.bind (rl_decode ts acc) (rl_decode us)"
  by (induction ts arbitrary: acc) (auto split: bind_splits)

text \<open>The tokens of one flush of the loop, and of a tree.\<close>

definition run_emit :: "run_state \<Rightarrow> int \<Rightarrow> int \<Rightarrow> rl_token list" where
  "run_emit r curlen k =
     (if k < rs_min_count r then replicate (nat k) (curlen, 0, 0)
      else if curlen \<noteq> 0 then
        if curlen \<noteq> rs_prevlen r then [(curlen, 0, 0), (zip_REP_3_6, 2, k - 1 - 3)]
        else [(zip_REP_3_6, 2, k - 3)]
      else if k \<le> 10 then [(zip_REPZ_3_10, 3, k - 3)]
      else [(zip_REPZ_11_138, 7, k - 11)])"

definition run_step :: "ct_tree \<Rightarrow> int \<Rightarrow> run_state \<times> rl_token list \<Rightarrow> run_state \<times> rl_token list" where
  "run_step tree n = (\<lambda>(r, ts).
     let curlen = rs_nextlen r; nextlen = dl (tree (n + 1));
         r = r\<lparr>rs_count := rs_count r + 1\<rparr>
     in
       if rs_count r < rs_max_count r \<and> curlen = nextlen then (r\<lparr>rs_nextlen := nextlen\<rparr>, ts)
       else (run_reset curlen nextlen r, ts @ run_emit r curlen (rs_count r)))"

definition run_tokens :: "ct_tree \<Rightarrow> int \<Rightarrow> rl_token list" where
  "run_tokens tree mcode = snd (for_up 0 (mcode + 1) (run_step tree) (run_start tree, []))"

text \<open>The state of the loop in front of index \<open>i\<close>.\<close>

definition run_inv :: "ct_tree \<Rightarrow> int list \<Rightarrow> int \<Rightarrow> run_state \<times> rl_token list \<Rightarrow> bool" where
  "run_inv tree acc i = (\<lambda>(r, ts).
     0 \<le> rs_count r \<and> rs_count r \<le> i \<and> rs_count r < rs_max_count r \<and>
     rs_nextlen r = dl (tree i) \<and>
     (\<forall>j. i - rs_count r \<le> j \<and> j < i \<longrightarrow> dl (tree j) = rs_nextlen r) \<and>
     rl_decode ts acc = Some (acc @ map (\<lambda>n. dl (tree n)) [0..i - rs_count r - 1]) \<and>
     list_all rl_valid ts \<and>
     (if i = rs_count r then rs_prevlen r = -1 else rs_prevlen r = dl (tree (i - rs_count r - 1))) \<and>
     (if rs_nextlen r = 0 then rs_max_count r = 138 \<and> rs_min_count r = 3
      else if rs_prevlen r = rs_nextlen r then rs_max_count r = 6 \<and> rs_min_count r = 3
      else rs_max_count r = 7 \<and> rs_min_count r = 4))"

lemma rl_decode_literals:
  "0 \<le> c \<Longrightarrow> c \<le> 15 \<Longrightarrow> rl_decode (replicate k (c, 0, 0)) acc = Some (acc @ replicate k c)"
  by (induction k arbitrary: acc) (simp_all add: replicate_app_Cons_same)

lemma zip_extra_blbits_simps:
  "0 \<le> c \<Longrightarrow> c \<le> 15 \<Longrightarrow> zip_extra_blbits c = 0"
  "zip_extra_blbits 16 = 2" "zip_extra_blbits 17 = 3" "zip_extra_blbits 18 = 7"
proof -
  assume "0 \<le> c" "c \<le> 15"
  then have "c \<in> set [0..15]" by simp
  then show "zip_extra_blbits c = 0"
    by (simp add: upto.simps zip_extra_blbits_def js_table_def) auto
qed (simp_all add: zip_extra_blbits_def js_table_def)

lemma run_emit_decode:
  assumes c: "0 \<le> cur" "cur \<le> 15" and k: "1 \<le> k" "k \<le> rs_max_count r"
    and prev: "rs_prevlen r = cur \<Longrightarrow> acc \<noteq> [] \<and> last acc = cur"
    and lim: "if cur = 0 then rs_max_count r = 138 \<and> rs_min_count r = 3
      else if rs_prevlen r = cur then rs_max_count r = 6 \<and> rs_min_count r = 3
      else rs_max_count r = 7 \<and> rs_min_count r = 4"
  shows "rl_decode (run_emit r cur k) acc = Some (acc @ replicate (nat k) cur)"
    and "list_all rl_valid (run_emit r cur k)"
proof -
  have rep: "[a] @ replicate (nat (m - 1)) a = replicate (nat m) a" if "1 \<le> m" for m a
    using that by (cases "nat m") (auto simp: nat_diff_distrib)
  show "rl_decode (run_emit r cur k) acc = Some (acc @ replicate (nat k) cur)"
    using c k prev lim rep [of k cur]
    by (auto simp: run_emit_def rl_decode_literals split: if_splits)
  show "list_all rl_valid (run_emit r cur k)"
    using c k lim
    by (auto simp: run_emit_def list_all_iff zip_extra_blbits_simps split: if_splits)
qed

lemma run_start_inv: "run_inv tree acc 0 (run_start tree, [])"
  if "0 \<le> dl (tree 0)"
  using that by (auto simp: run_inv_def run_start_def Let_def)

lemma run_step_inv:
  assumes lens: "\<forall>n \<in> {0..mcode}. 0 \<le> dl (tree n) \<and> dl (tree n) \<le> 15"
    and guard: "dl (tree (mcode + 1)) = 65535"
    and i: "0 \<le> i" "i < mcode + 1" and inv: "run_inv tree acc i (r, ts)"
  shows "run_inv tree acc (i + 1) (run_step tree i (r, ts))"
proof -
  let ?cur = "rs_nextlen r" and ?next = "dl (tree (i + 1))" and ?k = "rs_count r + 1"
  let ?r = "r\<lparr>rs_count := ?k\<rparr>"
  let ?d = "\<lambda>n. dl (tree n)"
  from inv have r: "0 \<le> rs_count r" "rs_count r \<le> i" "rs_count r < rs_max_count r"
    "?cur = ?d i" "\<And>j. i - rs_count r \<le> j \<Longrightarrow> j < i \<Longrightarrow> ?d j = ?cur"
    and dec: "rl_decode ts acc = Some (acc @ map ?d [0..i - rs_count r - 1])"
    and valid: "list_all rl_valid ts"
    and prev: "if i = rs_count r then rs_prevlen r = -1 else rs_prevlen r = ?d (i - rs_count r - 1)"
    and lim: "if ?cur = 0 then rs_max_count r = 138 \<and> rs_min_count r = 3
      else if rs_prevlen r = ?cur then rs_max_count r = 6 \<and> rs_min_count r = 3
      else rs_max_count r = 7 \<and> rs_min_count r = 4"
    unfolding run_inv_def by auto
  have cur: "0 \<le> ?cur" "?cur \<le> 15" using lens i r(4) by auto
  have same: "\<And>j. i - rs_count r \<le> j \<Longrightarrow> j < i + 1 \<Longrightarrow> ?d j = ?cur"
    using r(4,5) by (metis zless_add1_eq)
  show ?thesis
  proof (cases "?k < rs_max_count r \<and> ?cur = ?next")
    case True
    have e: "i + 1 - ?k = i - rs_count r" by simp
    from True have "run_step tree i (r, ts) = (?r\<lparr>rs_nextlen := ?next\<rparr>, ts)"
      by (simp add: run_step_def Let_def)
    moreover have "run_inv tree acc (i + 1) (?r\<lparr>rs_nextlen := ?next\<rparr>, ts)"
      unfolding run_inv_def prod.case
      using True r(1-3) same dec valid prev lim by (simp add: e)
    ultimately show ?thesis by simp
  next
    case False
    let ?acc = "acc @ map ?d [0..i - rs_count r - 1]"
    have last: "?acc \<noteq> [] \<and> last ?acc = ?cur" if "rs_prevlen ?r = ?cur"
    proof -
      from that prev cur have "i \<noteq> rs_count r" "?d (i - rs_count r - 1) = ?cur"
        by (auto split: if_splits)
      moreover from this r(2) have "[0..i - rs_count r - 1] = [0..i - rs_count r - 2] @ [i - rs_count r - 1]"
        by (subst upto_rec2) (auto simp: algebra_simps)
      ultimately show ?thesis by simp
    qed
    have emit: "rl_decode (run_emit ?r ?cur ?k) ?acc = Some (?acc @ replicate (nat ?k) ?cur)"
      "list_all rl_valid (run_emit ?r ?cur ?k)"
      using run_emit_decode [of ?cur ?k ?r ?acc] cur r(1,3) last lim by auto
    have "[0..i] = [0..i - rs_count r - 1] @ [i - rs_count r..i]"
      using r(1,2) upto_split1 [of 0 "i - rs_count r" i] by simp
    moreover have "map ?d [i - rs_count r..i] = replicate (nat ?k) ?cur"
      by (rule nth_equalityI) (use r(1) same in auto)
    ultimately have "rl_decode (ts @ run_emit ?r ?cur ?k) acc = Some (acc @ map ?d [0..i])"
      using emit(1) by (simp add: rl_decode_append dec)
    moreover have "run_step tree i (r, ts) = (run_reset ?cur ?next ?r, ts @ run_emit ?r ?cur ?k)"
      using False by (auto simp: run_step_def Let_def)
    ultimately show ?thesis
      using valid emit(2) i r(4) by (auto simp: run_inv_def run_reset_def Let_def)
  qed
qed

text \<open>The tokens of a guarded tree decode to its lengths, and are symbols of the bit length tree.\<close>

lemma run_tokens_correct:
  assumes lens: "\<forall>n \<in> {0..mcode}. 0 \<le> dl (tree n) \<and> dl (tree n) \<le> 15"
    and guard: "dl (tree (mcode + 1)) = 65535" and mcode: "0 \<le> mcode"
  shows "rl_decode (run_tokens tree mcode) acc = Some (acc @ map (\<lambda>n. dl (tree n)) [0..mcode])"
    and "list_all rl_valid (run_tokens tree mcode)"
proof -
  obtain r ts where f: "for_up 0 (mcode + 1) (run_step tree) (run_start tree, []) = (r, ts)"
    by (cases "for_up 0 (mcode + 1) (run_step tree) (run_start tree, [])")
  have "run_inv tree acc (mcode + 1) (r, ts)"
    unfolding f [symmetric]
  proof (rule for_up_invariant)
    show "run_inv tree acc 0 (run_start tree, [])"
      using lens mcode by (intro run_start_inv) simp
    show "run_inv tree acc (i + 1) (run_step tree i s)"
      if "0 \<le> i" "i < mcode + 1" "run_inv tree acc i s" for i s
      using that run_step_inv [OF lens guard] by (cases s) blast
  qed (use mcode in simp)
  then have inv: "0 \<le> rs_count r" "rs_nextlen r = 65535"
    "\<And>j. mcode + 1 - rs_count r \<le> j \<Longrightarrow> j < mcode + 1 \<Longrightarrow> dl (tree j) = rs_nextlen r"
    "rl_decode ts acc = Some (acc @ map (\<lambda>n. dl (tree n)) [0..mcode + 1 - rs_count r - 1])"
    "list_all rl_valid ts"
    unfolding run_inv_def by (auto simp: guard)
  have "rs_count r = 0"
  proof (rule ccontr)
    assume "rs_count r \<noteq> 0"
    with inv(1) have "dl (tree mcode) = 65535" using inv(2) inv(3) [of mcode] by simp
    with lens [rule_format, of mcode] mcode show False by simp
  qed
  with inv f show "rl_decode (run_tokens tree mcode) acc = Some (acc @ map (\<lambda>n. dl (tree n)) [0..mcode])"
    and "list_all rl_valid (run_tokens tree mcode)"
    by (simp_all add: run_tokens_def)
qed

text \<open>Sending a tree sends its tokens, scanning it counts their symbols.\<close>

fun send_token :: "ct_tree \<Rightarrow> rl_token \<Rightarrow> 'a out_state_scheme \<Rightarrow> 'a out_state_scheme" where
  "send_token bl (c, nb, e) s =
     (let s = zip_SEND_CODE c bl s in if nb = 0 then s else zip_send_bits e nb s)"

definition token_count :: "rl_token list \<Rightarrow> int \<Rightarrow> int" where
  "token_count ts c = int (length (filter (\<lambda>t. fst t = c) ts))"

lemma token_count_simps [simp]:
  "token_count [] c = 0"
  "token_count (t # ts) c = (if fst t = c then 1 else 0) + token_count ts c"
  "token_count (ts @ us) c = token_count ts c + token_count us c"
  "token_count (replicate n (a, b)) c = (if a = c then int n else 0)"
  by (auto simp: token_count_def filter_replicate)

lemma send_token_literal: "send_token bl (c, 0, 0) = zip_SEND_CODE c bl"
  by (simp add: fun_eq_iff)

lemma send_step_tokens:
  "send_step bl tree n (r, fold (send_token bl) ts s) =
     (fst (run_step tree n (r, ts)), fold (send_token bl) (snd (run_step tree n (r, ts))) s)"
  by (auto simp: send_step_def run_step_def run_emit_def send_repeat_def send_token_literal Let_def)

lemma send_tree_tokens:
  "zip_send_tree t mcode s = fold (send_token (zip_bl_tree s)) (run_tokens (get_tree t s) mcode) s"
proof (cases "0 \<le> mcode + 1")
  case True
  let ?tree = "get_tree t s" and ?bl = "zip_bl_tree s"
  let ?P = "\<lambda>i x. \<exists>r ts. x = ((r, fold (send_token ?bl) ts s), (r, ts))"
  have "for_up 0 (mcode + 1) (send_step ?bl ?tree) (r, fold (send_token ?bl) ts s) =
      (let (r', ts') = for_up 0 (mcode + 1) (run_step ?tree) (r, ts)
       in (r', fold (send_token ?bl) ts' s))" for r ts
  proof -
    have "fold (send_step ?bl ?tree) ns (r, fold (send_token ?bl) ts s) =
      (let (r', ts') = fold (run_step ?tree) ns (r, ts) in (r', fold (send_token ?bl) ts' s))" for ns
    proof (induction ns arbitrary: r ts)
      case (Cons n ns)
      show ?case
        using Cons [of "fst (run_step ?tree n (r, ts))" "snd (run_step ?tree n (r, ts))"]
        by (simp add: send_step_tokens)
    qed simp
    then show ?thesis by (simp add: for_up_def)
  qed
  from this [of "run_start ?tree" "[]"] show ?thesis
    by (simp add: zip_send_tree_def run_tokens_def split: prod.splits)
qed (simp add: zip_send_tree_def run_tokens_def)

lemma add_fc_sel [simp]:
  "fc (add_fc n k t m) = (if m = n then fc (t m) + k else fc (t m))" "dl (add_fc n k t m) = dl (t m)"
  by (simp_all add: add_fc_def)

lemma scan_step_tokens:
  assumes "\<forall>c. fc (bl' c) = fc (bl c) + token_count ts c" "0 \<le> rs_count r"
  shows "fst (scan_step tree n (r, bl')) = fst (run_step tree n (r, ts)) \<and>
    (\<forall>c. fc (snd (scan_step tree n (r, bl')) c) =
      fc (bl c) + token_count (snd (run_step tree n (r, ts))) c) \<and>
    0 \<le> rs_count (fst (run_step tree n (r, ts)))"
  using assms by (auto simp: scan_step_def run_step_def run_emit_def run_reset_def Let_def)

abbreviation guarded :: "int \<Rightarrow> ct_tree \<Rightarrow> ct_tree" where
  "guarded mcode tree \<equiv> set_dl (mcode + 1) 65535 tree"

lemma get_bl_tree_set [simp]:
  "t \<noteq> Bl_tree \<Longrightarrow> zip_bl_tree (set_tree t x s) = zip_bl_tree s"
  "t \<noteq> Bl_tree \<Longrightarrow> get_tree t (s\<lparr>zip_bl_tree := y\<rparr>) = get_tree t s"
  by (cases t; simp)+

lemma scan_tree_tree:
  "t \<noteq> Bl_tree \<Longrightarrow> get_tree t (zip_scan_tree t mcode s) = guarded mcode (get_tree t s)"
  by (simp add: zip_scan_tree_def Let_def)

lemma scan_tree_tokens:
  assumes "t \<noteq> Bl_tree" "0 \<le> mcode"
  shows "fc (zip_bl_tree (zip_scan_tree t mcode s) c) =
    fc (zip_bl_tree s c) + token_count (run_tokens (guarded mcode (get_tree t s)) mcode) c"
proof -
  let ?tree = "guarded mcode (get_tree t s)" and ?bl = "zip_bl_tree s"
  have start: "run_start (get_tree t s) = run_start ?tree"
    using assms(2) by (simp add: run_start_def)
  have "\<forall>c. fc (snd (fold (scan_step ?tree) ns (r, bl')) c) =
      fc (?bl c) + token_count (snd (fold (run_step ?tree) ns (r, ts))) c"
    if "\<forall>c. fc (bl' c) = fc (?bl c) + token_count ts c" "0 \<le> rs_count r" for ns r ts bl'
    using that
  proof (induction ns arbitrary: r ts bl')
    case (Cons n ns)
    obtain r' bl'' where 1: "scan_step ?tree n (r, bl') = (r', bl'')" by fastforce
    obtain r'' ts' where 2: "run_step ?tree n (r, ts) = (r'', ts')" by fastforce
    from scan_step_tokens [OF Cons.prems, of ?tree n] have
      "r' = r''" "\<forall>c. fc (bl'' c) = fc (?bl c) + token_count ts' c" "0 \<le> rs_count r''"
      by (simp_all add: 1 2)
    then show ?case using Cons.IH [of bl'' ts' r''] by (simp add: 1 2)
  qed simp
  moreover have "0 \<le> rs_count (run_start ?tree)" by (simp add: run_start_def Let_def)
  ultimately show ?thesis
    using assms(1) by (simp add: zip_scan_tree_def run_tokens_def for_up_def start Let_def)
qed

section \<open>Properties\<close>

text \<open>
  C34: the run-length tokens that \<open>zip_send_tree\<close> sends for a guarded tree decode, by RFC 1951's
  rules, to exactly the tree's lengths, behind whatever lengths came before; every token is a symbol
  of the bit length alphabet whose extra value fits its extra bits.
\<close>

theorem send_tree_tokens_decode:
  assumes "\<forall>n \<in> {0..mcode}. 0 \<le> dl (get_tree t s n) \<and> dl (get_tree t s n) \<le> 15"
    "dl (get_tree t s (mcode + 1)) = 65535" "0 \<le> mcode"
  shows "zip_send_tree t mcode s =
      fold (send_token (zip_bl_tree s)) (run_tokens (get_tree t s) mcode) s \<and>
    rl_decode (run_tokens (get_tree t s) mcode) acc =
      Some (acc @ map (\<lambda>n. dl (get_tree t s n)) [0..mcode]) \<and>
    list_all rl_valid (run_tokens (get_tree t s) mcode)"
  using run_tokens_correct [OF assms] send_tree_tokens by blast

text \<open>A tree with two runs of lengths and its guard.\<close>

definition example_runs :: ct_tree where
  "example_runs = (\<lambda>n. \<lparr>fc = 0, dl = (if n = 21 then 65535 else if n \<le> 7 then 4 else 0)\<rparr>)"

theorem send_tree_tokens_decode_witness:
  "\<forall>s :: tree_state. zip_send_tree Dyn_dtree 20 (s\<lparr>zip_dyn_dtree := example_runs\<rparr>) =
      fold (send_token (zip_bl_tree (s\<lparr>zip_dyn_dtree := example_runs\<rparr>)))
        (run_tokens (get_tree Dyn_dtree (s\<lparr>zip_dyn_dtree := example_runs\<rparr>)) 20)
        (s\<lparr>zip_dyn_dtree := example_runs\<rparr>) \<and>
    rl_decode (run_tokens (get_tree Dyn_dtree (s\<lparr>zip_dyn_dtree := example_runs\<rparr>)) 20) [] =
      Some ([] @ map (\<lambda>n. dl (get_tree Dyn_dtree (s\<lparr>zip_dyn_dtree := example_runs\<rparr>) n)) [0..20]) \<and>
    list_all rl_valid (run_tokens (get_tree Dyn_dtree (s\<lparr>zip_dyn_dtree := example_runs\<rparr>)) 20)"
  by (intro allI send_tree_tokens_decode) (simp_all add: example_runs_def)

text \<open>
  C38: \<open>zip_scan_tree\<close> sets the guard behind the last code and counts, in the bit length tree, exactly
  the symbols that \<open>zip_send_tree\<close> will send for the tree.
\<close>

theorem scan_tree_counts:
  assumes "t \<noteq> Bl_tree" "0 \<le> mcode"
  shows "get_tree t (zip_scan_tree t mcode s) = guarded mcode (get_tree t s) \<and>
    (\<forall>c. fc (zip_bl_tree (zip_scan_tree t mcode s) c) = fc (zip_bl_tree s c) +
      token_count (run_tokens (get_tree t (zip_scan_tree t mcode s)) mcode) c)"
  by (simp add: scan_tree_tree [OF assms(1)] scan_tree_tokens [OF assms])

theorem scan_tree_counts_witness:
  "\<forall>s :: tree_state. get_tree Dyn_ltree (zip_scan_tree Dyn_ltree 285 s) =
      guarded 285 (get_tree Dyn_ltree s) \<and>
    (\<forall>c. fc (zip_bl_tree (zip_scan_tree Dyn_ltree 285 s) c) = fc (zip_bl_tree s c) +
      token_count (run_tokens (get_tree Dyn_ltree (zip_scan_tree Dyn_ltree 285 s)) 285) c)"
  by (intro allI scan_tree_counts) simp_all

end
