(* ===== verification/Deflate_Tables.thy ===== *)
theory Deflate_Tables
  imports Deflate_Trees
begin

text \<open>
  The tables \<open>zip_ct_init\<close> computes: the maps from match lengths and distances to their codes, with
  the bases the extra bits count from, and the static trees.
\<close>

section \<open>Filling a code table\<close>

definition fill_list :: "(int \<Rightarrow> int) \<Rightarrow> int \<Rightarrow> int \<Rightarrow> int list" where
  "fill_list bits a b = concat (map (\<lambda>c. replicate (2 ^ nat (bits c)) c) [a..b - 1])"

lemma fill_list_last:
  "a \<le> b \<Longrightarrow> fill_list bits a (b + 1) = fill_list bits a b @ replicate (2 ^ nat (bits b)) b"
  by (simp add: fill_list_def upto_rec2)

lemma fill_list_empty [simp]: "fill_list bits a a = []"
  by (simp add: fill_list_def)

lemma fill_inner:
  assumes "0 \<le> n"
  shows "for_up 0 n (\<lambda>_ (base, codes, pos). (base, codes(d + pos := c), pos + 1)) (base, codes, pos) =
    (base, arr_store (d + pos) (replicate (nat n) c) codes, pos + n)"
proof -
  let ?f = "\<lambda>_ (base, codes, pos). (base, codes(d + pos := c), pos + 1)"
  have "for_up 0 n ?f (base, codes, pos) = (base, arr_store (d + pos) (replicate (nat n) c) codes, pos + n)
    \<and> 0 \<le> n"
  proof (rule for_up_invariant [where P = "\<lambda>i s. s =
      (base, arr_store (d + pos) (replicate (nat i) c) codes, pos + i) \<and> 0 \<le> i"])
    fix i :: int and s
    assume i: "0 \<le> i" "i < n"
      and s: "s = (base, arr_store (d + pos) (replicate (nat i) c) codes, pos + i) \<and> 0 \<le> i"
    have "(arr_store (d + pos) (replicate (nat i) c) codes)(d + (pos + i) := c) =
        arr_store (d + pos) (replicate (nat (i + 1)) c) codes"
      using i by (auto simp: arr_store_def fun_eq_iff nth_replicate)
    with s i show "?f i s =
      (base, arr_store (d + pos) (replicate (nat (i + 1)) c) codes, pos + (i + 1)) \<and> 0 \<le> i + 1"
      by simp
  qed (use assms in simp_all)
  then show ?thesis by simp
qed

lemma fill_codes_eq:
  assumes "\<forall>c \<in> {a..<b}. 0 \<le> bits c \<and> bits c < 31" "a \<le> b"
  shows "fill_codes bits d base_of a b (base, codes, pos) =
    (\<lambda>c. if a \<le> c \<and> c < b then base_of (pos + int (length (fill_list bits a c))) else base c,
     arr_store (d + pos) (fill_list bits a b) codes, pos + int (length (fill_list bits a b)))"
  unfolding fill_codes_def
proof (rule for_up_invariant [where P = "\<lambda>i s. s =
    (\<lambda>c. if a \<le> c \<and> c < i then base_of (pos + int (length (fill_list bits a c))) else base c,
     arr_store (d + pos) (fill_list bits a i) codes, pos + int (length (fill_list bits a i)))"])
  fix i s
  assume i: "a \<le> i" "i < b" and s: "s =
    (\<lambda>c. if a \<le> c \<and> c < i then base_of (pos + int (length (fill_list bits a c))) else base c,
     arr_store (d + pos) (fill_list bits a i) codes, pos + int (length (fill_list bits a i)))"
  have bits: "0 \<le> bits i" "bits i < 31" using assms(1) i by auto
  then have "js_shl 1 (bits i) = 2 ^ nat (bits i)"
    using power_strict_increasing [of "nat (bits i)" 31 "2::int"]
    by (subst js_shl_small) auto
  then show "(case s of (base, codes, pos) \<Rightarrow>
       let base = base(i := base_of pos) in
       for_up 0 (js_shl 1 (bits i))
         (\<lambda>_ (base, codes, pos). (base, codes(d + pos := i), pos + 1))
         (base, codes, pos)) =
    (\<lambda>c. if a \<le> c \<and> c < i + 1 then base_of (pos + int (length (fill_list bits a c))) else base c,
     arr_store (d + pos) (fill_list bits a (i + 1)) codes,
     pos + int (length (fill_list bits a (i + 1))))"
    using i s
    by (auto simp: Let_def fill_inner fill_list_last fun_eq_iff nat_power_eq
        arr_store_append [symmetric] add.assoc)
qed (use assms(2) in auto)

definition fill_base :: "(int \<Rightarrow> int) \<Rightarrow> int \<Rightarrow> int \<Rightarrow> int" where
  "fill_base bits a c = sum_list (map (\<lambda>c. 2 ^ nat (bits c)) [a..c - 1])"

lemma length_fill_list: "int (length (fill_list bits a b)) = fill_base bits a b"
proof -
  have "int (length (concat (map (\<lambda>c. replicate (2 ^ nat (bits c)) c) xs))) =
      sum_list (map (\<lambda>c. 2 ^ nat (bits c)) xs)" for xs
    by (induction xs) simp_all
  then show ?thesis by (simp add: fill_list_def fill_base_def)
qed

lemma fill_list_nth:
  assumes "a \<le> b" "0 \<le> k" "k < fill_base bits a b"
  shows "a \<le> fill_list bits a b ! nat k \<and> fill_list bits a b ! nat k < b \<and>
    fill_base bits a (fill_list bits a b ! nat k) \<le> k \<and>
    k < fill_base bits a (fill_list bits a b ! nat k) + 2 ^ nat (bits (fill_list bits a b ! nat k))"
  using assms
proof (induction b rule: int_ge_induct)
  case base
  then show ?case by (simp add: fill_base_def)
next
  case (step b)
  have last: "fill_base bits a (b + 1) = fill_base bits a b + 2 ^ nat (bits b)"
    using step.hyps by (simp add: fill_base_def upto_rec2)
  show ?case
  proof (cases "k < fill_base bits a b")
    case True
    then have "nat k < length (fill_list bits a b)"
      using step.prems(1) length_fill_list [of bits a b] by linarith
    with True step show ?thesis by (auto simp: fill_list_last nth_append)
  next
    case False
    note len = length_fill_list [of bits a b]
    from False have nle: "\<not> nat k < length (fill_list bits a b)" using len by linarith
    have "int (nat k - length (fill_list bits a b)) < int (2 ^ nat (bits b))"
      using step.prems nle len last by (simp add: of_nat_diff)
    then have "nat k - length (fill_list bits a b) < 2 ^ nat (bits b)" by (simp only: of_nat_less_iff)
    with nle False step last show ?thesis by (simp add: fill_list_last nth_append)
  qed
qed

section \<open>Lengths and distances\<close>

text \<open>The bases of RFC 1951 (3.2.5), less 3 for the lengths and less 1 for the distances.\<close>

definition rfc_length_base :: "int \<Rightarrow> int" where
  "rfc_length_base = js_table [0, 1, 2, 3, 4, 5, 6, 7, 8, 10, 12, 14, 16, 20, 24, 28, 32, 40, 48, 56,
     64, 80, 96, 112, 128, 160, 192, 224, 255]"

definition rfc_dist_base :: "int \<Rightarrow> int" where
  "rfc_dist_base = js_table [0, 1, 2, 3, 4, 6, 8, 12, 16, 24, 32, 48, 64, 96, 128, 192, 256, 384, 512,
     768, 1024, 1536, 2048, 3072, 4096, 6144, 8192, 12288, 16384, 24576]"

text \<open>What the writer of a block needs of the tables.\<close>

definition tables_ok :: "'a tree_state_scheme \<Rightarrow> bool" where
  "tables_ok s \<longleftrightarrow>
     (\<forall>l. 0 \<le> l \<and> l \<le> 255 \<longrightarrow> (let c = zip_length_code s l in
        0 \<le> c \<and> c \<le> 28 \<and> rfc_length_base c \<le> l \<and> l < rfc_length_base c + 2 ^ nat (zip_extra_lbits c) \<and>
        (zip_extra_lbits c \<noteq> 0 \<longrightarrow> zip_base_length s c = rfc_length_base c))) \<and>
     (\<forall>d. 0 \<le> d \<and> d < 32768 \<longrightarrow> (let c = zip_D_CODE d s in
        0 \<le> c \<and> c \<le> 29 \<and> rfc_dist_base c \<le> d \<and> d < rfc_dist_base c + 2 ^ nat (zip_extra_dbits c) \<and>
        zip_base_dist s c = rfc_dist_base c))"

lemma js_table_range:
  "list_all (\<lambda>x. 0 \<le> x \<and> x < b) xs \<Longrightarrow> 0 < b \<Longrightarrow> 0 \<le> js_table xs c \<and> js_table xs c < b"
  by (auto simp: js_table_def list_all_length)

lemma extra_lbits_range: "0 \<le> zip_extra_lbits c \<and> zip_extra_lbits c < 6"
  unfolding zip_extra_lbits_def by (rule js_table_range) simp_all

lemma extra_dbits_range: "0 \<le> zip_extra_dbits c \<and> zip_extra_dbits c < 14"
  unfolding zip_extra_dbits_def by (rule js_table_range) simp_all

lemma list_all_upto: "list_all P [a..b] \<Longrightarrow> a \<le> c \<Longrightarrow> c \<le> b \<Longrightarrow> P c"
  by (simp add: list_all_iff)

lemma rfc_dist_base_range: "0 \<le> rfc_dist_base c \<and> rfc_dist_base c < 32768"
  unfolding rfc_dist_base_def by (rule js_table_range) simp_all

lemma fill_base_length:
  "list_all (\<lambda>c. fill_base zip_extra_lbits 0 c = rfc_length_base c) [0..27]"
  "fill_base zip_extra_lbits 0 28 = 256"
  by code_simp+

lemma fill_base_dist:
  "list_all (\<lambda>c. fill_base zip_extra_dbits 0 c = rfc_dist_base c) [0..15]"
  "fill_base zip_extra_dbits 0 16 = 256"
  "list_all (\<lambda>c. 256 + 128 * fill_base (\<lambda>c. zip_extra_dbits c - 7) 16 c = rfc_dist_base c) [16..29]"
  "fill_base (\<lambda>c. zip_extra_dbits c - 7) 16 30 = 254"
  "list_all (\<lambda>c. 7 \<le> zip_extra_dbits c) [16..29]"
  by code_simp+

lemma ct_init_lengths_eq:
  "ct_init_lengths s = s\<lparr>
     zip_base_length := (\<lambda>c. if 0 \<le> c \<and> c < 28 then fill_base zip_extra_lbits 0 c
        else zip_base_length s c),
     zip_length_code := (arr_store 0 (fill_list zip_extra_lbits 0 28) (zip_length_code s))(255 := 28)\<rparr>"
proof -
  have "zip_extra_lbits c < 31" for c using extra_lbits_range [of c] by simp
  then have "\<forall>c \<in> {0..<28}. 0 \<le> zip_extra_lbits c \<and> zip_extra_lbits c < 31"
    using extra_lbits_range by simp
  from fill_codes_eq [OF this, of 0] show ?thesis
    by (simp add: ct_init_lengths_def length_fill_list fill_base_length(2) cong: if_cong)
qed

lemma ct_init_dists_eq:
  "ct_init_dists s = s\<lparr>
     zip_base_dist := (\<lambda>c. if 16 \<le> c \<and> c < 30
         then 256 + 128 * fill_base (\<lambda>c. zip_extra_dbits c - 7) 16 c
        else if 0 \<le> c \<and> c < 16 then fill_base zip_extra_dbits 0 c else zip_base_dist s c),
     zip_dist_code := arr_store 258 (fill_list (\<lambda>c. zip_extra_dbits c - 7) 16 30)
        (arr_store 0 (fill_list zip_extra_dbits 0 16) (zip_dist_code s))\<rparr>"
proof -
  have b: "zip_extra_dbits c < 31" "zip_extra_dbits c < 38" for c
    using extra_dbits_range [of c] by simp_all
  have 1: "\<forall>c \<in> {0..<16}. 0 \<le> zip_extra_dbits c \<and> zip_extra_dbits c < 31"
    using b extra_dbits_range by simp
  have "7 \<le> zip_extra_dbits c" if "16 \<le> c" "c < 30" for c
    using list_all_upto [OF fill_base_dist(5)] that by simp
  with b have 2: "\<forall>c \<in> {16..<30}. 0 \<le> zip_extra_dbits c - 7 \<and> zip_extra_dbits c - 7 < 31" by simp
  have base: "js_shl (2 + fill_base (\<lambda>c. zip_extra_dbits c - 7) 16 c) 7 =
      256 + 128 * fill_base (\<lambda>c. zip_extra_dbits c - 7) 16 c" if c: "16 \<le> c" "c < 30" for c
  proof -
    let ?b = "fill_base (\<lambda>c. zip_extra_dbits c - 7) 16 c"
    have "256 + 128 * ?b = rfc_dist_base c"
      using list_all_upto [OF fill_base_dist(3)] c by simp
    with rfc_dist_base_range [of c] have "256 + 128 * ?b < 32768" by linarith
    moreover have "0 \<le> ?b" by (simp add: flip: length_fill_list)
    ultimately show ?thesis by (subst js_shl_small) auto
  qed
  have "js_shr 256 7 = 2" by (simp add: js_shr_nonneg)
  then show ?thesis
    using fill_codes_eq [OF 1, of 0] fill_codes_eq [OF 2, of 256]
    by (auto simp: ct_init_dists_def length_fill_list fill_base_dist(2) base fun_eq_iff
        intro!: arg_cong [where f = "\<lambda>x. x"] cong: if_cong)
qed

lemma tables_ok_init:
  "tables_ok (s\<lparr>zip_base_length := bl, zip_length_code := lc, zip_base_dist := bd, zip_dist_code := dc\<rparr>)"
  if "bl = zip_base_length (ct_init_lengths s')" "lc = zip_length_code (ct_init_lengths s')"
    "bd = zip_base_dist (ct_init_dists s'')" "dc = zip_dist_code (ct_init_dists s'')"
proof -
  have len: "let c = lc l in 0 \<le> c \<and> c \<le> 28 \<and> rfc_length_base c \<le> l \<and>
      l < rfc_length_base c + 2 ^ nat (zip_extra_lbits c) \<and>
      (zip_extra_lbits c \<noteq> 0 \<longrightarrow> bl c = rfc_length_base c)"
    if l: "0 \<le> l" "l \<le> 255" for l
  proof (cases "l = 255")
    case True
    then have "lc l = 28" using \<open>lc = _\<close> by (simp add: ct_init_lengths_eq)
    with True show ?thesis
      by (simp add: rfc_length_base_def zip_extra_lbits_def js_table_def)
  next
    case False
    let ?c = "fill_list zip_extra_lbits 0 28 ! nat l"
    have "l < fill_base zip_extra_lbits 0 28" using l by (simp add: fill_base_length(2))
    with l(1) have c: "0 \<le> ?c" "?c < 28" "fill_base zip_extra_lbits 0 ?c \<le> l"
      "l < fill_base zip_extra_lbits 0 ?c + 2 ^ nat (zip_extra_lbits ?c)"
      using fill_list_nth [of 0 28 l zip_extra_lbits] by simp_all
    have "fill_base zip_extra_lbits 0 ?c = rfc_length_base ?c"
      using list_all_upto [OF fill_base_length(1)] c by simp
    moreover have "lc l = ?c"
      using \<open>lc = _\<close> l False length_fill_list [of zip_extra_lbits 0 28]
      by (simp add: ct_init_lengths_eq arr_store_def fill_base_length(2))
    ultimately show ?thesis
      using c \<open>bl = _\<close> by (simp add: Let_def ct_init_lengths_eq)
  qed
  have dist_lo: "let c = dc d in 0 \<le> c \<and> c \<le> 29 \<and> rfc_dist_base c \<le> d \<and>
      d < rfc_dist_base c + 2 ^ nat (zip_extra_dbits c) \<and> bd c = rfc_dist_base c"
    if d: "0 \<le> d" "d < 256" for d
  proof -
    let ?c = "fill_list zip_extra_dbits 0 16 ! nat d"
    have "d < fill_base zip_extra_dbits 0 16" using d by (simp add: fill_base_dist(2))
    with d(1) have c: "0 \<le> ?c" "?c < 16" "fill_base zip_extra_dbits 0 ?c \<le> d"
      "d < fill_base zip_extra_dbits 0 ?c + 2 ^ nat (zip_extra_dbits ?c)"
      using fill_list_nth [of 0 16 d zip_extra_dbits] by simp_all
    have "fill_base zip_extra_dbits 0 ?c = rfc_dist_base ?c"
      using list_all_upto [OF fill_base_dist(1)] c by simp
    moreover have "dc d = ?c"
      using \<open>dc = _\<close> d length_fill_list [of zip_extra_dbits 0 16]
      by (simp add: ct_init_dists_eq arr_store_def fill_base_dist(2))
    ultimately show ?thesis
      using c \<open>bd = _\<close> by (simp add: Let_def ct_init_dists_eq)
  qed
  have dist_hi: "let c = dc (256 + d div 128) in 0 \<le> c \<and> c \<le> 29 \<and> rfc_dist_base c \<le> d \<and>
      d < rfc_dist_base c + 2 ^ nat (zip_extra_dbits c) \<and> bd c = rfc_dist_base c"
    if d: "256 \<le> d" "d < 32768" for d
  proof -
    let ?x = "\<lambda>c. zip_extra_dbits c - 7"
    define q where "q = d div 128"
    have q: "128 * q \<le> d" "d < 128 * q + 128" unfolding q_def by simp_all
    let ?k = "q - 2"
    let ?c = "fill_list ?x 16 30 ! nat ?k"
    have k: "0 \<le> ?k" "?k < 254" using d q by simp_all
    then have c: "16 \<le> ?c" "?c < 30" "fill_base ?x 16 ?c \<le> ?k"
      "?k < fill_base ?x 16 ?c + 2 ^ nat (?x ?c)"
      using fill_list_nth [of 16 30 ?k ?x] by (simp_all add: fill_base_dist(4))
    have base: "256 + 128 * fill_base ?x 16 ?c = rfc_dist_base ?c"
      using list_all_upto [OF fill_base_dist(3)] c by simp
    have x: "7 \<le> zip_extra_dbits ?c"
      using list_all_upto [OF fill_base_dist(5)] c by simp
    then have "nat (zip_extra_dbits ?c) = 7 + nat (?x ?c)" by linarith
    then have "(2::int) ^ nat (zip_extra_dbits ?c) = 128 * 2 ^ nat (?x ?c)"
      by (simp only: power_add) simp
    with q c(3,4) base have
      "rfc_dist_base ?c \<le> d \<and> d < rfc_dist_base ?c + 2 ^ nat (zip_extra_dbits ?c)" by linarith
    moreover have "dc (256 + q) = ?c"
      using \<open>dc = _\<close> k length_fill_list [of ?x 16 30]
      by (simp add: ct_init_dists_eq arr_store_def fill_base_dist(4) algebra_simps)
    moreover have "bd ?c = rfc_dist_base ?c"
      using \<open>bd = _\<close> c base by (simp add: ct_init_dists_eq)
    ultimately show ?thesis using c by (simp add: Let_def q_def)
  qed
  let ?s = "s\<lparr>zip_base_length := bl, zip_length_code := lc, zip_base_dist := bd, zip_dist_code := dc\<rparr>"
  have D: "zip_D_CODE d ?s = (if d < 256 then dc d else dc (256 + d div 128))"
    if d: "0 \<le> d" "d < 32768" for d
  proof -
    have "js_shr d 7 = d div 128" using d by (simp add: js_shr_nonneg)
    moreover have "0 \<le> (if d < 256 then dc d else dc (256 + d div 128)) \<and>
        (if d < 256 then dc d else dc (256 + d div 128)) \<le> 29"
      using dist_lo [of d] dist_hi [of d] d by (auto simp: Let_def)
    ultimately show ?thesis by (simp add: zip_D_CODE_def js_and_ff split: if_splits)
  qed
  show ?thesis
    unfolding tables_ok_def
  proof (intro conjI allI impI)
    fix l :: int assume "0 \<le> l \<and> l \<le> 255"
    with len show "let c = zip_length_code ?s l in
        0 \<le> c \<and> c \<le> 28 \<and> rfc_length_base c \<le> l \<and> l < rfc_length_base c + 2 ^ nat (zip_extra_lbits c) \<and>
        (zip_extra_lbits c \<noteq> 0 \<longrightarrow> zip_base_length ?s c = rfc_length_base c)" by simp
  next
    fix d :: int assume d: "0 \<le> d \<and> d < 32768"
    with dist_lo [of d] dist_hi [of d] show "let c = zip_D_CODE d ?s in
        0 \<le> c \<and> c \<le> 29 \<and> rfc_dist_base c \<le> d \<and> d < rfc_dist_base c + 2 ^ nat (zip_extra_dbits c) \<and>
        zip_base_dist ?s c = rfc_dist_base c"
      by (simp add: D)
  qed
qed

section \<open>The static trees\<close>

text \<open>The lengths and codes RFC 1951 (3.2.6) fixes.\<close>

definition static_len :: "int \<Rightarrow> int" where
  "static_len n = (if n \<le> 143 then 8 else if n \<le> 255 then 9 else if n \<le> 279 then 7 else 8)"

definition static_code :: "int \<Rightarrow> int" where
  "static_code n = (if n \<le> 143 then 48 + n else if n \<le> 255 then 400 + (n - 144)
     else if n \<le> 279 then n - 256 else 192 + (n - 280))"

lemma static_run_eq:
  assumes "n \<le> k + 1"
  shows "static_run n k l (t, cnt) =
    (\<lambda>i. if n \<le> i \<and> i \<le> k then (t i)\<lparr>dl := l\<rparr> else t i, cnt(l := cnt l + (k + 1 - n)))"
  unfolding static_run_def
proof (rule for_up_invariant [where P = "\<lambda>j s. s =
    (\<lambda>i. if n \<le> i \<and> i < j then (t i)\<lparr>dl := l\<rparr> else t i, cnt(l := cnt l + (j - n)))", THEN trans])
  show "(\<lambda>i. if n \<le> i \<and> i < k + 1 then (t i)\<lparr>dl := l\<rparr> else t i, cnt(l := cnt l + (k + 1 - n))) =
    (\<lambda>i. if n \<le> i \<and> i \<le> k then (t i)\<lparr>dl := l\<rparr> else t i, cnt(l := cnt l + (k + 1 - n)))"
    by (simp add: fun_eq_iff)
qed (use assms in \<open>auto simp: fun_eq_iff set_dl_def\<close>)

lemma len_count_piece:
  assumes "\<And>m. 0 \<le> m \<Longrightarrow> m < n \<Longrightarrow> dl (tree m) = l \<longleftrightarrow> a \<le> m \<and> m \<le> b" "0 \<le> a"
  shows "len_count tree n l = max 0 (min n (b + 1) - a)"
proof -
  have "x \<in> len_syms tree n l \<longleftrightarrow> x \<in> {a..<min n (b + 1)}" for x
    using assms(1) [of x] assms(2) by (auto simp: len_syms_def)
  then have "len_syms tree n l = {a..<min n (b + 1)}" by blast
  then show ?thesis by (auto simp: len_count_def max_def min_def)
qed

lemma len_count_pieces:
  assumes "\<And>m. 0 \<le> m \<Longrightarrow> m < n \<Longrightarrow> dl (tree m) = l \<longleftrightarrow> (a \<le> m \<and> m \<le> b) \<or> (c \<le> m \<and> m \<le> d)"
    "0 \<le> a" "0 \<le> c" "b < c"
  shows "len_count tree n l = max 0 (min n (b + 1) - a) + max 0 (min n (d + 1) - c)"
proof -
  have "x \<in> len_syms tree n l \<longleftrightarrow> x \<in> {a..<min n (b + 1)} \<union> {c..<min n (d + 1)}" for x
    using assms(1) [of x] assms(2-4) by (auto simp: len_syms_def)
  then have "len_syms tree n l = {a..<min n (b + 1)} \<union> {c..<min n (d + 1)}" by blast
  moreover have "{a..<min n (b + 1)} \<inter> {c..<min n (d + 1)} = {}"
    using assms(4) by auto
  ultimately show ?thesis by (auto simp: len_count_def card_Un_disjoint max_def min_def)
qed

lemma static_lens:
  assumes dl: "\<And>n. 0 \<le> n \<Longrightarrow> n \<le> 287 \<Longrightarrow> dl (tree n) = static_len n"
    and counts: "\<And>l. 0 \<le> l \<Longrightarrow> l \<le> 15 \<Longrightarrow>
      cnt l = (if l = 7 then 24 else if l = 8 then 152 else if l = 9 then 112 else 0)"
  shows "lens_ok cnt tree 287" "kraft cnt = 2 ^ 15"
    and "0 \<le> n \<Longrightarrow> n \<le> 287 \<Longrightarrow> code_val cnt tree n = static_code n"
proof -
  have 7: "len_count tree n 7 = max 0 (min n 280 - 256)" if "n \<le> 288" for n
    using that by (subst len_count_piece [where a = 256 and b = 279]) (auto simp: dl static_len_def)
  have 9: "len_count tree n 9 = max 0 (min n 256 - 144)" if "n \<le> 288" for n
    using that by (subst len_count_piece [where a = 144 and b = 255]) (auto simp: dl static_len_def)
  have 8: "len_count tree n 8 = max 0 (min n 144) + max 0 (min n 288 - 280)" if "n \<le> 288" for n
    using that by (subst len_count_pieces [where a = 0 and b = 143 and c = 280 and d = 287])
      (auto simp: dl static_len_def)
  have other: "len_count tree n l = 0" if "n \<le> 288" "l \<noteq> 7" "l \<noteq> 8" "l \<noteq> 9" for n l
    using that by (subst len_count_piece [where a = 0 and b = "-1"]) (auto simp: dl static_len_def)
  show "lens_ok cnt tree 287"
    by (auto simp: lens_ok_def counts 7 8 9 other) (auto simp: dl static_len_def)
  show "kraft cnt = 2 ^ 15"
    by (simp add: kraft_def counts numeral_eq_Suc sum.atLeast_Suc_atMost)
  have start: "code_start cnt 7 = 0" "code_start cnt 8 = 48" "code_start cnt 9 = 400"
    by (simp_all add: eval_nat_numeral counts)
  show "code_val cnt tree n = static_code n" if "0 \<le> n" "n \<le> 287"
    using that by (auto simp: code_val_def dl static_len_def static_code_def start 7 8 9)
qed

definition static_ok :: "'a tree_state_scheme \<Rightarrow> bool" where
  "static_ok s \<longleftrightarrow>
     (\<forall>n. 0 \<le> n \<and> n \<le> 287 \<longrightarrow> dl (zip_static_ltree s n) = static_len n \<and>
        code_bits (zip_static_ltree s) n = rev (bits_lsb (nat (static_len n)) (static_code n)) \<and>
        sendable (fc (zip_static_ltree s n), static_len n)) \<and>
     (\<forall>n. 0 \<le> n \<and> n < 30 \<longrightarrow> dl (zip_static_dtree s n) = 5 \<and>
        code_bits (zip_static_dtree s) n = rev (bits_lsb 5 n) \<and>
        sendable (fc (zip_static_dtree s n), 5))"

lemma static_ltree_init:
  "\<exists>t cnt. ct_init_static s = s\<lparr>zip_static_ltree := t, zip_bl_count := cnt,
      zip_static_dtree := for_up 0 zip_D_CODES
        (\<lambda>n t. set_fc n (zip_bi_reverse n 5) (set_dl n 5 t)) (zip_static_dtree s)\<rparr> \<and>
    (\<forall>n. 0 \<le> n \<and> n \<le> 287 \<longrightarrow> dl (t n) = static_len n \<and>
       code_bits t n = rev (bits_lsb (nat (static_len n)) (static_code n)) \<and>
       sendable (fc (t n), static_len n))"
proof -
  define cnt where "cnt = (\<lambda>l. if 0 \<le> l \<and> l < 16 then 0 else zip_bl_count s l)
    (8 := 152, 9 := 112, 7 := 24)"
  define t where "t = (\<lambda>i. if 0 \<le> i \<and> i \<le> 287 then (zip_static_ltree s i)\<lparr>dl := static_len i\<rparr>
    else zip_static_ltree s i)"
  have zero: "for_up 0 16 (\<lambda>bits c. c(bits := 0)) (zip_bl_count s) =
      (\<lambda>l. if 0 \<le> l \<and> l < 16 then 0 else zip_bl_count s l)"
    using for_up_store0 [of 16 "\<lambda>_. 0" "zip_bl_count s"] by simp
  have eq: "ct_init_static s = s\<lparr>zip_static_ltree := gen_codes cnt t 287, zip_bl_count := cnt,
      zip_static_dtree := for_up 0 zip_D_CODES
        (\<lambda>n t. set_fc n (zip_bi_reverse n 5) (set_dl n 5 t)) (zip_static_dtree s)\<rparr>"
  proof -
    let ?c0 = "\<lambda>l. if 0 \<le> l \<and> l < 16 then 0 else zip_bl_count s l"
    obtain t1 c1 where 1: "static_run 0 143 8 (zip_static_ltree s, ?c0) = (t1, c1)" by fastforce
    obtain t2 c2 where 2: "static_run 144 255 9 (t1, c1) = (t2, c2)" by fastforce
    obtain t3 c3 where 3: "static_run 256 279 7 (t2, c2) = (t3, c3)" by fastforce
    have t1: "t1 = (\<lambda>i. if 0 \<le> i \<and> i \<le> 143 then (zip_static_ltree s i)\<lparr>dl := 8\<rparr>
        else zip_static_ltree s i)" and c1: "c1 = ?c0(8 := 144)"
      using 1 by (simp_all add: static_run_eq)
    have t2: "t2 = (\<lambda>i. if 144 \<le> i \<and> i \<le> 255 then (t1 i)\<lparr>dl := 9\<rparr> else t1 i)"
      and c2: "c2 = c1(9 := c1 9 + 112)"
      using 2 by (simp_all add: static_run_eq)
    have t3: "t3 = (\<lambda>i. if 256 \<le> i \<and> i \<le> 279 then (t2 i)\<lparr>dl := 7\<rparr> else t2 i)"
      and c3: "c3 = c2(7 := c2 7 + 24)"
      using 3 by (simp_all add: static_run_eq)
    have 4: "static_run 280 287 8 (t3, c3) = (t, cnt)"
      unfolding t_def cnt_def t3 t2 t1 c3 c2 c1
      by (auto simp: static_run_eq static_len_def fun_eq_iff)
    show ?thesis
      by (simp add: ct_init_static_def zero 1 2 3 4 zip_gen_codes_def)
  qed
  have dl: "\<And>n. 0 \<le> n \<Longrightarrow> n \<le> 287 \<Longrightarrow> dl (t n) = static_len n" by (simp add: t_def)
  have counts: "\<And>l. 0 \<le> l \<Longrightarrow> l \<le> 15 \<Longrightarrow>
      cnt l = (if l = 7 then 24 else if l = 8 then 152 else if l = 9 then 112 else 0)"
    by (simp add: cnt_def)
  note st = static_lens [OF dl counts, simplified]
  have nz: "static_len n \<noteq> 0" for n by (simp add: static_len_def)
  have "dl (gen_codes cnt t 287 n) = static_len n \<and>
      code_bits (gen_codes cnt t 287) n = rev (bits_lsb (nat (static_len n)) (static_code n)) \<and>
      sendable (fc (gen_codes cnt t 287 n), static_len n)"
    if n: "0 \<le> n" "n \<le> 287" for n
    using code_bits_gen_codes [of cnt t 287 n] gen_codes_correct [of cnt t 287 n] st n nz dl [OF n]
      bit_rev_bounds [of "nat (static_len n)" "code_val cnt t n"]
    by (simp add: sendable_def static_len_def)
  with eq show ?thesis by blast
qed

lemma static_dtree_init:
  fixes t0 :: ct_tree and n :: int
  assumes "0 \<le> n" "n < 30"
  defines "t \<equiv> for_up 0 zip_D_CODES (\<lambda>n t. set_fc n (zip_bi_reverse n 5) (set_dl n 5 t)) t0"
  shows "dl (t n) = 5 \<and> code_bits t n = rev (bits_lsb 5 n) \<and> sendable (fc (t n), 5)"
proof -
  have "\<forall>n. 0 \<le> n \<and> n < 30 \<longrightarrow> dl (t n) = 5 \<and> fc (t n) = zip_bi_reverse n 5"
    unfolding t_def
    by (rule for_up_invariant [where P = "\<lambda>i t. \<forall>n. 0 \<le> n \<and> n < i \<longrightarrow>
          dl (t n) = 5 \<and> fc (t n) = zip_bi_reverse n 5"]) auto
  moreover have "zip_bi_reverse n 5 = bit_rev 5 n"
    using assms by (subst zip_bi_reverse_eq) auto
  ultimately show ?thesis
    using assms bit_rev_bounds [of 5 n] by (simp add: code_bits_def bits_bit_rev sendable_def)
qed

text \<open>Starting a block clears the counts, but for the end of the block, and the token buffers.\<close>

lemma clear_fc_sel: "fc (clear_fc n t m) = (if 0 \<le> m \<and> m < n then 0 else fc (t m))"
  "dl (clear_fc n t m) = dl (t m)"
proof -
  have "(\<forall>m. fc (clear_fc n t m) = (if 0 \<le> m \<and> m < n then 0 else fc (t m))) \<and>
    (\<forall>m. dl (clear_fc n t m) = dl (t m))"
  proof (cases "0 \<le> n")
    case True
    show ?thesis
      unfolding clear_fc_def
      by (rule for_up_invariant [where P = "\<lambda>i u. (\<forall>m. fc (u m) = (if 0 \<le> m \<and> m < i then 0 else fc (t m)))
          \<and> (\<forall>m. dl (u m) = dl (t m))"]) (use True in auto)
  qed (auto simp: clear_fc_def)
  then show "fc (clear_fc n t m) = (if 0 \<le> m \<and> m < n then 0 else fc (t m))"
    "dl (clear_fc n t m) = dl (t m)" by auto
qed

lemma zip_init_block_fields:
  "fc (zip_dyn_ltree (zip_init_block s) n) =
     (if n = 256 then 1 else if 0 \<le> n \<and> n < 286 then 0 else fc (zip_dyn_ltree s n))"
  "fc (zip_dyn_dtree (zip_init_block s) n) = (if 0 \<le> n \<and> n < 30 then 0 else fc (zip_dyn_dtree s n))"
  "fc (zip_bl_tree (zip_init_block s) n) = (if 0 \<le> n \<and> n < 19 then 0 else fc (zip_bl_tree s n))"
  "zip_opt_len (zip_init_block s) = 0" "zip_static_len (zip_init_block s) = 0"
  "zip_last_lit (zip_init_block s) = 0" "zip_last_dist (zip_init_block s) = 0"
  "zip_last_flags (zip_init_block s) = 0" "zip_flags (zip_init_block s) = 0"
  "zip_flag_bit (zip_init_block s) = 1"
  "zip_static_ltree (zip_init_block s) = zip_static_ltree s"
  "zip_static_dtree (zip_init_block s) = zip_static_dtree s"
  "zip_length_code (zip_init_block s) = zip_length_code s"
  "zip_dist_code (zip_init_block s) = zip_dist_code s"
  "zip_base_length (zip_init_block s) = zip_base_length s"
  "zip_base_dist (zip_init_block s) = zip_base_dist s"
  "get_desc d (zip_init_block s) = get_desc d s"
  by (simp_all add: zip_init_block_def Let_def clear_fc_sel) (cases d; simp)

lemma tables_ok_cong:
  assumes "zip_length_code s = zip_length_code s'" "zip_dist_code s = zip_dist_code s'"
    "zip_base_length s = zip_base_length s'" "zip_base_dist s = zip_base_dist s'"
  shows "tables_ok s \<longleftrightarrow> tables_ok s'"
  using assms by (simp add: tables_ok_def zip_D_CODE_def)

lemma static_ok_cong:
  "zip_static_ltree s = zip_static_ltree s' \<Longrightarrow> zip_static_dtree s = zip_static_dtree s' \<Longrightarrow>
    static_ok s \<longleftrightarrow> static_ok s'"
  by (simp add: static_ok_def)

lemma ct_init_ok:
  assumes "dl (zip_static_dtree s 0) = 0"
  shows "tables_ok (zip_ct_init s)" "static_ok (zip_ct_init s)"
    and "get_desc d (zip_ct_init s) = get_desc d (ct_init_descs s)"
proof -
  let ?s = "ct_init_dists (ct_init_lengths (ct_init_descs s))"
  obtain t cnt where st: "ct_init_static ?s = ?s\<lparr>zip_static_ltree := t, zip_bl_count := cnt,
      zip_static_dtree := for_up 0 zip_D_CODES
        (\<lambda>n t. set_fc n (zip_bi_reverse n 5) (set_dl n 5 t)) (zip_static_dtree ?s)\<rparr>"
    and t: "\<forall>n. 0 \<le> n \<and> n \<le> 287 \<longrightarrow> dl (t n) = static_len n \<and>
       code_bits t n = rev (bits_lsb (nat (static_len n)) (static_code n)) \<and>
       sendable (fc (t n), static_len n)"
    using static_ltree_init [of ?s] by blast
  have init: "zip_ct_init s = zip_init_block (ct_init_static ?s)"
    using assms by (simp add: zip_ct_init_def)
  have "tables_ok (?s\<lparr>zip_base_length := zip_base_length ?s, zip_length_code := zip_length_code ?s,
      zip_base_dist := zip_base_dist ?s, zip_dist_code := zip_dist_code ?s\<rparr>)"
    by (rule tables_ok_init [of _ "ct_init_descs s" _ _ "ct_init_lengths (ct_init_descs s)"])
      (simp_all add: ct_init_lengths_eq ct_init_dists_eq)
  then show "tables_ok (zip_ct_init s)"
    by (subst tables_ok_cong [where s' = ?s]) (simp_all add: init zip_init_block_fields st)
  show "static_ok (zip_ct_init s)"
    using t static_dtree_init
    by (simp add: static_ok_def init zip_init_block_fields st)
  have "get_desc d (zip_ct_init s) = get_desc d ?s"
    unfolding init zip_init_block_fields st by (cases d) simp_all
  also have "\<dots> = get_desc d (ct_init_descs s)"
    by (cases d) (simp_all add: ct_init_lengths_eq ct_init_dists_eq)
  finally show "get_desc d (zip_ct_init s) = get_desc d (ct_init_descs s)" .
qed

section \<open>Properties\<close>

text \<open>
  C30: the first \<open>zip_ct_init\<close> computes the tables and the static trees of RFC 1951: every match length
  and every distance below the window size falls into the interval of its code, whose base is the
  RFC's, and the static codes are the RFC's fixed codes.
\<close>

theorem ct_init_tables:
  assumes "dl (zip_static_dtree s 0) = 0"
  shows "tables_ok (zip_ct_init s) \<and> static_ok (zip_ct_init s)"
  using ct_init_ok [OF assms] by simp

theorem ct_init_tables_witness:
  "\<forall>s :: block_state. tables_ok (zip_ct_init (s\<lparr>zip_static_dtree := (\<lambda>_. \<lparr>fc = 0, dl = 0\<rparr>)\<rparr>)) \<and>
    static_ok (zip_ct_init (s\<lparr>zip_static_dtree := (\<lambda>_. \<lparr>fc = 0, dl = 0\<rparr>)\<rparr>))"
  by (intro allI ct_init_tables) simp

text \<open>
  Starting a block forgets the last one: no tokens, all frequencies 0 but that of the end of the
  block, and the tables, static trees and descriptors kept.
\<close>

theorem init_block_resets:
  "zip_last_lit (zip_init_block s) = 0 \<and> zip_last_dist (zip_init_block s) = 0 \<and>
    zip_last_flags (zip_init_block s) = 0 \<and> zip_flags (zip_init_block s) = 0 \<and>
    zip_flag_bit (zip_init_block s) = 1 \<and>
    map (\<lambda>n. fc (zip_dyn_ltree (zip_init_block s) n)) [0..285] = map (\<lambda>n. of_bool (n = 256)) [0..285] \<and>
    map (\<lambda>n. fc (zip_dyn_dtree (zip_init_block s) n)) [0..29] = replicate 30 0 \<and>
    map (\<lambda>n. fc (zip_bl_tree (zip_init_block s) n)) [0..18] = replicate 19 0 \<and>
    (tables_ok (zip_init_block s) = tables_ok s) \<and> (static_ok (zip_init_block s) = static_ok s)"
proof -
  have "tables_ok (zip_init_block s) = tables_ok s" "static_ok (zip_init_block s) = static_ok s"
    by (rule tables_ok_cong static_ok_cong; simp add: zip_init_block_fields)+
  moreover have "map (\<lambda>n. fc (zip_dyn_ltree (zip_init_block s) n)) [0..285] =
      map (\<lambda>n. of_bool (n = 256)) [0..285]"
    by (rule map_cong) (auto simp: zip_init_block_fields(1))
  moreover have "map (\<lambda>n. fc (zip_dyn_dtree (zip_init_block s) n)) [0..29] = replicate 30 0"
    "map (\<lambda>n. fc (zip_bl_tree (zip_init_block s) n)) [0..18] = replicate 19 0"
    by (rule nth_equalityI; simp add: zip_init_block_fields)+
  ultimately show ?thesis by (simp only: zip_init_block_fields simp_thms)
qed

end
