(* ===== verification/Deflate_Block.thy ===== *)
theory Deflate_Block
  imports Deflate_Tables
begin

text \<open>
  A block: the tokens that \<open>zip_ct_tally\<close> records, their transmission by \<open>zip_compress_block\<close>, and
  the choice of a block type in \<open>zip_flush_block\<close>.
\<close>

section \<open>Recording a token\<close>

text \<open>\<open>parseInt(x / 2)\<close>: half, towards zero.\<close>

definition parse_half :: "int \<Rightarrow> int" where
  "parse_half x = (if x < 0 then - ((- x) div 2) else x div 2)"

definition tally_store :: "int \<Rightarrow> int \<Rightarrow> 'a block_state_scheme \<Rightarrow> 'a block_state_scheme" where
  "tally_store dist lc s =
     (let s = s\<lparr>zip_l_buf := (zip_l_buf s)(zip_last_lit s := lc), zip_last_lit := zip_last_lit s + 1\<rparr> in
      if dist = 0 then s\<lparr>zip_dyn_ltree := add_fc lc 1 (zip_dyn_ltree s)\<rparr>
      else
        let dist = dist - 1;
            s = s\<lparr>zip_dyn_ltree :=
                   add_fc (zip_length_code s lc + zip_LITERALS + 1) 1 (zip_dyn_ltree s)\<rparr>;
            s = s\<lparr>zip_dyn_dtree := add_fc (zip_D_CODE dist s) 1 (zip_dyn_dtree s)\<rparr>;
            s = s\<lparr>zip_d_buf := (zip_d_buf s)(zip_last_dist s := dist),
                   zip_last_dist := zip_last_dist s + 1\<rparr>
        in s\<lparr>zip_flags := js_or (zip_flags s) (zip_flag_bit s)\<rparr>)"

definition tally_flags :: "'a block_state_scheme \<Rightarrow> 'a block_state_scheme" where
  "tally_flags s =
     (let s = s\<lparr>zip_flag_bit := js_shl (zip_flag_bit s) 1\<rparr> in
      if js_and (zip_last_lit s) 7 = 0
      then s\<lparr>zip_flag_buf := (zip_flag_buf s)(zip_last_flags s := zip_flags s),
             zip_last_flags := zip_last_flags s + 1, zip_flags := 0, zip_flag_bit := 1\<rparr>
      else s)"

definition tally_full :: "'a block_state_scheme \<Rightarrow> bool" where
  "tally_full s =
     (if zip_compr_level s > 2 \<and> js_and (zip_last_lit s) 4095 = 0 \<and>
        (let out_length = for_up 0 zip_D_CODES
               (\<lambda>dcode out. out + fc (zip_dyn_dtree s dcode) * (5 + zip_extra_dbits dcode))
               (zip_last_lit s * 8);
             in_length = zip_strstart s - zip_block_start s
         in zip_last_dist s < parse_half (zip_last_lit s) \<and> js_shr out_length 3 < parse_half in_length)
      then True
      else zip_last_lit s = zip_LIT_BUFSIZE - 1 \<or> zip_last_dist s = zip_DIST_BUFSIZE)"

definition zip_ct_tally ::
  "int \<Rightarrow> int \<Rightarrow> 'a block_state_scheme \<Rightarrow> bool \<times> 'a block_state_scheme" where
  "zip_ct_tally dist lc s = (let s = tally_flags (tally_store dist lc s) in (tally_full s, s))"

section \<open>Sending the tokens\<close>

definition compress_step ::
  "tree_ref \<Rightarrow> tree_ref \<Rightarrow> int \<Rightarrow> int \<times> int \<times> int \<times> 'a block_state_scheme
     \<Rightarrow> int \<times> int \<times> int \<times> 'a block_state_scheme" where
  "compress_step ltree dtree lx = (\<lambda>(dx, fx, flag, s).
     let (flag, fx) = (if js_and lx 7 = 0 then (zip_flag_buf s fx, fx + 1) else (flag, fx));
         lc = js_and (zip_l_buf s lx) 255
     in
       if js_and flag 1 = 0 then (dx, fx, js_shr flag 1, zip_SEND_CODE lc (get_tree ltree s) s)
       else
         let code = zip_length_code s lc;
             s = zip_SEND_CODE (code + zip_LITERALS + 1) (get_tree ltree s) s;
             extra = zip_extra_lbits code;
             s = (if extra \<noteq> 0 then zip_send_bits (lc - zip_base_length s code) extra s else s);
             dist = zip_d_buf s dx;
             code = zip_D_CODE dist s;
             s = zip_SEND_CODE code (get_tree dtree s) s;
             extra = zip_extra_dbits code;
             s = (if extra \<noteq> 0 then zip_send_bits (dist - zip_base_dist s code) extra s else s)
         in (dx + 1, fx, js_shr flag 1, s))"

text \<open>
  \<open>if (zip_last_lit != 0) do { ... } while (lx < zip_last_lit)\<close>: \<open>zip_last_lit\<close> counts up from 0 and
  the body steps \<open>lx\<close> by one, so the loop runs \<open>lx\<close> through \<open>0 .. zip_last_lit - 1\<close>.
\<close>

definition zip_compress_block :: "tree_ref \<Rightarrow> tree_ref \<Rightarrow> 'a block_state_scheme \<Rightarrow> 'a block_state_scheme" where
  "zip_compress_block ltree dtree s =
     (let s = (if zip_last_lit s \<noteq> 0
               then snd (snd (snd (for_up 0 (zip_last_lit s) (compress_step ltree dtree) (0, 0, 0, s))))
               else s)
      in zip_SEND_CODE zip_END_BLOCK (get_tree ltree s) s)"

section \<open>Flushing a block\<close>

text \<open>A window element that reaches the output: \<open>undefined\<close> becomes the character 0.\<close>

definition js_byte :: "int option \<Rightarrow> int" where
  "js_byte w = (case w of None \<Rightarrow> 0 | Some b \<Rightarrow> b)"

definition send_stored :: "int \<Rightarrow> int \<Rightarrow> 'a block_state_scheme \<Rightarrow> 'a block_state_scheme" where
  "send_stored stored_len eof s =
     (let s = zip_send_bits (js_shl zip_STORED_BLOCK 1 + eof) 3 s;
          s = zip_bi_windup s;
          s = zip_put_short stored_len s;
          s = zip_put_short (js_not stored_len) s
      in for_up 0 stored_len (\<lambda>i s. zip_put_byte (js_byte (zip_window s (zip_block_start s + i))) s) s)"

definition zip_flush_block :: "int \<Rightarrow> 'a block_state_scheme \<Rightarrow> 'a block_state_scheme" where
  "zip_flush_block eof s =
     (let stored_len = zip_strstart s - zip_block_start s;
          s = s\<lparr>zip_flag_buf := (zip_flag_buf s)(zip_last_flags s := zip_flags s)\<rparr>;
          s = zip_build_tree L_desc s;
          s = zip_build_tree D_desc s;
          (max_blindex, s) = zip_build_bl_tree s;
          opt_lenb = js_shr (zip_opt_len s + 3 + 7) 3;
          static_lenb = js_shr (zip_static_len s + 3 + 7) 3;
          opt_lenb = (if static_lenb \<le> opt_lenb then static_lenb else opt_lenb);
          s = (if stored_len + 4 \<le> opt_lenb \<and> zip_block_start s \<ge> 0 then send_stored stored_len eof s
               else if static_lenb = opt_lenb then
                 zip_compress_block Static_ltree Static_dtree
                   (zip_send_bits (js_shl zip_STATIC_TREES 1 + eof) 3 s)
               else
                 let s = zip_send_bits (js_shl zip_DYN_TREES 1 + eof) 3 s;
                     s = zip_send_all_trees (max_code (zip_l_desc s) + 1) (max_code (zip_d_desc s) + 1)
                           (max_blindex + 1) s
                 in zip_compress_block Dyn_ltree Dyn_dtree s);
          s = zip_init_block s
      in if eof \<noteq> 0 then zip_bi_windup s else s)"

section \<open>The tokens of the buffers\<close>

text \<open>
  The abstract content of a block: literals, and matches by length (less 3) and distance (less 1).
\<close>

datatype token = Lit int | Match int int

fun is_match :: "token \<Rightarrow> bool" where
  "is_match (Lit _) = False"
| "is_match (Match _ _) = True"

fun tok_lc :: "token \<Rightarrow> int" where
  "tok_lc (Lit c) = c"
| "tok_lc (Match l _) = l"

definition tok_dists :: "token list \<Rightarrow> int list" where
  "tok_dists ts = concat (map (\<lambda>t. case t of Lit _ \<Rightarrow> [] | Match _ d \<Rightarrow> [d]) ts)"

fun tok_ok :: "token \<Rightarrow> bool" where
  "tok_ok (Lit c) \<longleftrightarrow> 0 \<le> c \<and> c \<le> 255"
| "tok_ok (Match l d) \<longleftrightarrow> 0 \<le> l \<and> l \<le> 255 \<and> 0 \<le> d \<and> d < 32768"

text \<open>The flag bits: one per token, eight to a number.\<close>

definition flag_byte :: "token list \<Rightarrow> nat \<Rightarrow> int" where
  "flag_byte ts k = val_lsb (map is_match (take 8 (drop (8 * k) ts)))"

text \<open>The buffers hold the tokens \<open>ts\<close>.\<close>

definition bufs_hold :: "token list \<Rightarrow> 'a block_state_scheme \<Rightarrow> bool" where
  "bufs_hold ts s \<longleftrightarrow>
     zip_last_lit s = int (length ts) \<and> zip_last_dist s = int (length (tok_dists ts)) \<and>
     (\<forall>i < length ts. zip_l_buf s (int i) = tok_lc (ts ! i)) \<and>
     (\<forall>i < length (tok_dists ts). zip_d_buf s (int i) = tok_dists ts ! i) \<and>
     zip_last_flags s = int (length ts div 8) \<and>
     (\<forall>k < length ts div 8. zip_flag_buf s (int k) = flag_byte ts k) \<and>
     zip_flags s = flag_byte ts (length ts div 8) \<and>
     zip_flag_bit s = 2 ^ (length ts mod 8)"

lemma flag_byte_bounds: "0 \<le> flag_byte ts k \<and> flag_byte ts k < 256"
proof -
  have "length (map is_match (take 8 (drop (8 * k) ts))) \<le> 8" by simp
  then have "(2::int) ^ length (map is_match (take 8 (drop (8 * k) ts))) \<le> 2 ^ 8"
    by (intro power_increasing) simp_all
  with val_lsb_bounds [of "map is_match (take 8 (drop (8 * k) ts))"] show ?thesis
    by (simp add: flag_byte_def)
qed

lemma bit_val_lsb: "k < length xs \<Longrightarrow> bit (val_lsb xs) k = xs ! k"
  using nth_bits_lsb [of k "length xs" "val_lsb xs"] by simp

lemma flag_byte_bit:
  assumes "i < length ts"
  shows "odd (flag_byte ts (i div 8) div 2 ^ (i mod 8)) \<longleftrightarrow> is_match (ts ! i)"
proof -
  have "8 * (i div 8) + i mod 8 = i" by simp
  moreover have "i mod 8 < 8" by simp
  moreover from calculation assms have "i mod 8 < length ts - 8 * (i div 8)" by linarith
  ultimately have "bit (flag_byte ts (i div 8)) (i mod 8) = is_match (ts ! i)"
    using assms by (simp add: flag_byte_def bit_val_lsb)
  then show ?thesis by (simp add: bit_iff_odd)
qed

lemma flag_byte_old: "k < length ts div 8 \<Longrightarrow> flag_byte (ts @ us) k = flag_byte ts k"
proof -
  assume "k < length ts div 8"
  then have "8 * k + 8 \<le> length ts" by linarith
  then show ?thesis by (simp add: flag_byte_def)
qed

lemma flag_byte_snoc:
  "flag_byte (ts @ [t]) (length ts div 8) =
     flag_byte ts (length ts div 8) + of_bool (is_match t) * 2 ^ (length ts mod 8)"
proof -
  let ?d = "drop (8 * (length ts div 8)) ts"
  have len: "length ?d = length ts mod 8" by (simp add: minus_mult_div_eq_mod)
  then have "length ?d < 8" by simp
  then have "take 8 (drop (8 * (length ts div 8)) (ts @ [t])) = ?d @ [t]" "take 8 ?d = ?d"
    by simp_all
  with len show ?thesis by (simp add: flag_byte_def val_lsb_append)
qed

lemma flag_byte_full: "length ts mod 8 = 0 \<Longrightarrow> flag_byte ts (length ts div 8) = 0"
proof -
  assume "length ts mod 8 = 0"
  then have "8 * (length ts div 8) = length ts" by auto
  then show ?thesis by (simp add: flag_byte_def)
qed

lemma flag_byte_low: "flag_byte ts (length ts div 8) < 2 ^ (length ts mod 8)"
proof -
  let ?xs = "map is_match (take 8 (drop (8 * (length ts div 8)) ts))"
  have "length ?xs = length ts mod 8"
    using mod_less_divisor [of 8 "length ts"] by (simp add: minus_mult_div_eq_mod min_def)
  then show ?thesis using val_lsb_bounds [of ?xs] by (simp add: flag_byte_def)
qed

lemma or_flag:
  assumes "0 \<le> b" "b < 2 ^ n" "n < 8"
  shows "js_or b (2 ^ n) = b + 2 ^ n"
proof -
  have "(2::int) ^ n \<le> 2 ^ 7" using assms(3) by (intro power_increasing) simp_all
  then have "js_or b (2 ^ n) = b OR 2 ^ n" using assms by (simp add: js_or_def)
  also have "\<dots> = b + 2 ^ n"
  proof (rule disjunctive_add [symmetric])
    fix k
    show "\<not> bit b k \<or> \<not> bit (2 ^ n) k"
    proof (cases "k = n")
      case True
      have "take_bit n b = b" using assms(1,2) by (simp add: take_bit_int_eq_self_iff)
      then have "\<not> bit b n" by (metis bit_take_bit_iff less_irrefl)
      with True show ?thesis by simp
    qed (simp add: bit_exp_iff)
  qed
  finally show ?thesis .
qed

text \<open>\<open>zip_ct_tally\<close> appends its token.\<close>

fun tok_dist :: "token \<Rightarrow> int" where
  "tok_dist (Lit _) = 0"
| "tok_dist (Match _ d) = d + 1"

lemma tok_dists_snoc [simp]:
  "tok_dists (ts @ [Lit c]) = tok_dists ts" "tok_dists (ts @ [Match l d]) = tok_dists ts @ [d]"
  "tok_dists [] = []"
  by (simp_all add: tok_dists_def)

lemma tally_store_fields:
  fixes s :: "'a block_state_scheme"
  assumes "tok_ok t"
  defines "s' \<equiv> tally_store (tok_dist t) (tok_lc t) s"
  shows "zip_l_buf s' = (zip_l_buf s)(zip_last_lit s := tok_lc t)"
    "zip_last_lit s' = zip_last_lit s + 1" "zip_flag_bit s' = zip_flag_bit s"
    "zip_flag_buf s' = zip_flag_buf s" "zip_last_flags s' = zip_last_flags s"
    "zip_last_dist s' = zip_last_dist s + of_bool (is_match t)"
    "zip_flags s' = (if is_match t then js_or (zip_flags s) (zip_flag_bit s) else zip_flags s)"
    "zip_d_buf s' = (if is_match t then (zip_d_buf s)(zip_last_dist s := tok_dist t - 1) else zip_d_buf s)"
  using assms by (cases t; simp add: tally_store_def Let_def)+

lemma tally_bufs:
  assumes hold: "bufs_hold ts s" and t: "tok_ok t"
  shows "bufs_hold (ts @ [t]) (snd (zip_ct_tally (tok_dist t) (tok_lc t) s))"
proof -
  define u where "u = tally_store (tok_dist t) (tok_lc t) s"
  note u = tally_store_fields [OF t, of s, folded u_def]
  let ?n = "length ts"
  from hold have h: "zip_last_lit s = int ?n" "zip_last_dist s = int (length (tok_dists ts))"
    "\<And>i. i < ?n \<Longrightarrow> zip_l_buf s (int i) = tok_lc (ts ! i)"
    "\<And>i. i < length (tok_dists ts) \<Longrightarrow> zip_d_buf s (int i) = tok_dists ts ! i"
    "zip_last_flags s = int (?n div 8)"
    "\<And>k. k < ?n div 8 \<Longrightarrow> zip_flag_buf s (int k) = flag_byte ts k"
    "zip_flags s = flag_byte ts (?n div 8)" "zip_flag_bit s = 2 ^ (?n mod 8)"
    by (simp_all add: bufs_hold_def)
  have d: "tok_dists (ts @ [t]) = tok_dists ts @ (if is_match t then [tok_dist t - 1] else [])"
    by (cases t) simp_all
  have flags: "zip_flags u = flag_byte (ts @ [t]) (?n div 8)"
    using flag_byte_low [of ts] flag_byte_bounds [of ts "?n div 8"]
    by (simp add: u h flag_byte_snoc or_flag)
  have bufs: "zip_last_lit u = int (Suc ?n)" "zip_last_dist u = int (length (tok_dists (ts @ [t])))"
    "\<And>i. i < Suc ?n \<Longrightarrow> zip_l_buf u (int i) = tok_lc ((ts @ [t]) ! i)"
    "\<And>i. i < length (tok_dists (ts @ [t])) \<Longrightarrow> zip_d_buf u (int i) = tok_dists (ts @ [t]) ! i"
    using h by (auto simp: u d nth_append less_Suc_eq split: if_splits)
  have "js_shl (2 ^ (?n mod 8)) 1 = 2 ^ (Suc (?n mod 8))"
  proof -
    have "(2::int) ^ (?n mod 8) < 2 ^ 8"
      by (intro power_strict_increasing) simp_all
    then show ?thesis by (subst js_shl_small) simp_all
  qed
  then have bit: "js_shl (zip_flag_bit u) 1 = 2 ^ Suc (?n mod 8)" by (simp add: u h)
  have "js_and (int (Suc ?n)) 7 = int (Suc ?n mod 8)"
    by (simp only: js_and_7 zmod_int) simp
  then have full: "js_and (zip_last_lit u) 7 = 0 \<longleftrightarrow> Suc ?n mod 8 = 0" by (simp add: bufs(1))
  have fl: "zip_last_flags u = int (?n div 8)"
    "\<And>k. k < ?n div 8 \<Longrightarrow> zip_flag_buf u (int k) = flag_byte (ts @ [t]) k"
    using h by (simp_all add: u flag_byte_old)
  have v: "snd (zip_ct_tally (tok_dist t) (tok_lc t) s) = tally_flags u"
    by (simp add: zip_ct_tally_def Let_def u_def)
  show ?thesis
  proof (cases "Suc ?n mod 8 = 0")
    case True
    then have n: "Suc ?n div 8 = Suc (?n div 8)" by (simp add: div_Suc)
    have "tally_flags u = u\<lparr>zip_flag_bit := 1,
        zip_flag_buf := (zip_flag_buf u)(zip_last_flags u := zip_flags u),
        zip_last_flags := zip_last_flags u + 1, zip_flags := 0\<rparr>"
      using True full by (simp add: tally_flags_def Let_def)
    moreover have "flag_byte (ts @ [t]) (Suc (?n div 8)) = 0"
      using flag_byte_full [of "ts @ [t]"] True n by simp
    ultimately show ?thesis
      unfolding v bufs_hold_def using True bufs fl flags n
      by (auto simp: less_Suc_eq)
  next
    case False
    then have n: "Suc ?n div 8 = ?n div 8" "Suc ?n mod 8 = Suc (?n mod 8)"
      by (simp_all add: div_Suc mod_Suc split: if_splits)
    have "tally_flags u = u\<lparr>zip_flag_bit := 2 ^ Suc (?n mod 8)\<rparr>"
      using False full bit by (simp add: tally_flags_def Let_def)
    then show ?thesis
      unfolding v bufs_hold_def using bufs fl flags n by simp
  qed
qed

lemma tally_frame:
  "zip_static_ltree (snd (zip_ct_tally d c s)) = zip_static_ltree s"
  "zip_static_dtree (snd (zip_ct_tally d c s)) = zip_static_dtree s"
  "zip_bl_tree (snd (zip_ct_tally d c s)) = zip_bl_tree s"
  "zip_length_code (snd (zip_ct_tally d c s)) = zip_length_code s"
  "zip_dist_code (snd (zip_ct_tally d c s)) = zip_dist_code s"
  "zip_base_length (snd (zip_ct_tally d c s)) = zip_base_length s"
  "zip_base_dist (snd (zip_ct_tally d c s)) = zip_base_dist s"
  "get_desc r (snd (zip_ct_tally d c s)) = get_desc r s"
  "zip_compr_level (snd (zip_ct_tally d c s)) = zip_compr_level s"
  "zip_window (snd (zip_ct_tally d c s)) = zip_window s"
  "zip_strstart (snd (zip_ct_tally d c s)) = zip_strstart s"
  "zip_block_start (snd (zip_ct_tally d c s)) = zip_block_start s"
  by (simp_all add: zip_ct_tally_def tally_flags_def tally_store_def Let_def) (cases r; simp)

lemma bufs_hold_init: "bufs_hold [] (zip_init_block s)"
  by (simp add: bufs_hold_def zip_init_block_fields flag_byte_def)

section \<open>What is sent for a token\<close>

definition code_pair :: "ct_tree \<Rightarrow> int \<Rightarrow> int \<times> int" where
  "code_pair tree c = (fc (tree c), dl (tree c))"

definition extra_pair :: "int \<Rightarrow> int \<Rightarrow> (int \<times> int) list" where
  "extra_pair v extra = (if extra \<noteq> 0 then [(v, extra)] else [])"

fun token_pairs :: "ct_tree \<Rightarrow> ct_tree \<Rightarrow> 'a tree_state_scheme \<Rightarrow> token \<Rightarrow> (int \<times> int) list" where
  "token_pairs lt dt s (Lit c) = [code_pair lt c]"
| "token_pairs lt dt s (Match l d) =
     (let lc = zip_length_code s l; dc = zip_D_CODE d s in
      [code_pair lt (lc + zip_LITERALS + 1)] @ extra_pair (l - zip_base_length s lc) (zip_extra_lbits lc) @
      [code_pair dt dc] @ extra_pair (d - zip_base_dist s dc) (zip_extra_dbits dc))"

text \<open>The flag bytes are all stored, the last one included.\<close>

definition bufs_ready :: "token list \<Rightarrow> 'a block_state_scheme \<Rightarrow> bool" where
  "bufs_ready ts s \<longleftrightarrow>
     zip_last_lit s = int (length ts) \<and>
     (\<forall>i < length ts. zip_l_buf s (int i) = tok_lc (ts ! i)) \<and>
     (\<forall>i < length (tok_dists ts). zip_d_buf s (int i) = tok_dists ts ! i) \<and>
     (\<forall>k. 8 * k < length ts \<longrightarrow> zip_flag_buf s (int k) = flag_byte ts k)"

lemma bufs_hold_ready:
  assumes "bufs_hold ts s"
  shows "bufs_ready ts (s\<lparr>zip_flag_buf := (zip_flag_buf s)(zip_last_flags s := zip_flags s)\<rparr>)"
proof -
  have "k < length ts div 8 \<or> k = length ts div 8" if "8 * k < length ts" for k
    using that by linarith
  with assms show ?thesis by (auto simp: bufs_hold_def bufs_ready_def)
qed

lemma block_state_more_eq:
  assumes "out_state.more s = out_state.more s'"
  shows "zip_l_buf s = zip_l_buf s'" "zip_d_buf s = zip_d_buf s'"
    "zip_flag_buf s = zip_flag_buf s'" "zip_last_lit s = zip_last_lit s'"
    "zip_window s = zip_window s'" "zip_block_start s = zip_block_start s'"
  using assms by (cases s; cases s'; simp)+

lemma send_all_frame: "out_state.more (zs.send_all ps s) = out_state.more s"
  by (induction ps arbitrary: s) (auto simp: zs.send_all_def zip_send_bits_frame)

lemma bufs_ready_frame:
  "out_state.more s = out_state.more s' \<Longrightarrow> bufs_ready ts s \<longleftrightarrow> bufs_ready ts s'"
  by (simp add: bufs_ready_def block_state_more_eq [of s s'])

lemma tok_dists_take_Suc:
  "i < length ts \<Longrightarrow> tok_dists (take (Suc i) ts) =
    tok_dists (take i ts) @ (case ts ! i of Lit _ \<Rightarrow> [] | Match _ d \<Rightarrow> [d])"
  by (simp add: take_Suc_conv_app_nth tok_dists_def)

lemma tok_dists_nth:
  assumes "i < length ts" "ts ! i = Match l d"
  shows "length (tok_dists (take i ts)) < length (tok_dists ts)"
    and "tok_dists ts ! length (tok_dists (take i ts)) = d"
proof -
  have "tok_dists ts = tok_dists (take i ts) @ d # tok_dists (drop (Suc i) ts)"
  proof -
    have "ts = take i ts @ ts ! i # drop (Suc i) ts" using assms(1) by (rule id_take_nth_drop)
    with assms(2) show ?thesis by (metis (no_types, lifting) append_Cons append_Nil concat_append
          concat.simps(2) list.simps(9) map_append token.simps(6) tok_dists_def)
  qed
  then show "length (tok_dists (take i ts)) < length (tok_dists ts)"
    and "tok_dists ts ! length (tok_dists (take i ts)) = d"
    by simp_all
qed

text \<open>One round of the loop sends one token.\<close>

lemma compress_step_eq:
  assumes ready: "bufs_ready ts s" and i: "i < length ts" and ok: "tok_ok (ts ! i)"
    and flag: "i mod 8 \<noteq> 0 \<Longrightarrow> flag = flag_byte ts (i div 8) div 2 ^ (i mod 8)"
  shows "compress_step ltree dtree (int i)
      (int (length (tok_dists (take i ts))), int ((i + 7) div 8), flag, s) =
    (int (length (tok_dists (take (Suc i) ts))), int ((Suc i + 7) div 8),
     flag_byte ts (i div 8) div 2 ^ Suc (i mod 8),
     zs.send_all (token_pairs (get_tree ltree s) (get_tree dtree s) s (ts ! i)) s)"
proof -
  let ?dx = "int (length (tok_dists (take i ts)))" and ?F = "flag_byte ts (i div 8)"
  have buf: "zip_l_buf s (int i) = tok_lc (ts ! i)" using ready i by (simp add: bufs_ready_def)
  have "8 * (i div 8) < length ts" using i by (metis div_mult_self1_is_m le_less_trans mult.commute times_div_less_eq_dividend)
  then have fb: "zip_flag_buf s (int (i div 8)) = ?F" using ready by (simp add: bufs_ready_def)
  have and7: "js_and (int i) 7 = int (i mod 8)" by (simp add: js_and_7 zmod_int)
  define fl where "fl = ?F div 2 ^ (i mod 8)"
  have first: "(if js_and (int i) 7 = 0 then (zip_flag_buf s (int ((i + 7) div 8)), int ((i + 7) div 8) + 1)
      else (flag, int ((i + 7) div 8))) = (fl, int ((Suc i + 7) div 8))"
  proof (cases "i mod 8 = 0")
    case True
    then have "(i + 7) div 8 = i div 8" "(Suc i + 7) div 8 = Suc (i div 8)" by presburger+
    with True fb show ?thesis by (simp add: and7 fl_def)
  next
    case False
    then have "(Suc i + 7) div 8 = (i + 7) div 8" by presburger
    with False flag show ?thesis by (simp add: and7 fl_def)
  qed
  have fl: "0 \<le> fl" "fl < 256"
  proof -
    have "256 * (1::int) \<le> 256 * 2 ^ (i mod 8)" by (intro mult_left_mono) simp_all
    then have "?F < 256 * 2 ^ (i mod 8)" using flag_byte_bounds [of ts "i div 8"] by linarith
    then show "fl < 256" unfolding fl_def by (rule int_div_less) simp
    show "0 \<le> fl" using flag_byte_bounds [of ts "i div 8"]
      by (simp add: fl_def pos_imp_zdiv_nonneg_iff)
  qed
  have odd: "js_and fl 1 = 0 \<longleftrightarrow> \<not> is_match (ts ! i)"
    using flag_byte_bit [OF i] by (auto simp: js_and_1 fl_def simp flip: even_iff_mod_2_eq_zero)
  have "js_shr fl 1 = fl div 2" using fl by (simp add: js_shr_nonneg)
  also have "\<dots> = ?F div 2 ^ Suc (i mod 8)"
    by (simp add: fl_def zdiv_zmult2_eq flip: zdiv_zmult2_eq) (simp add: zdiv_zmult2_eq mult.commute)
  finally have shr: "js_shr fl 1 = ?F div 2 ^ Suc (i mod 8)" .
  have lc: "js_and (tok_lc (ts ! i)) 255 = tok_lc (ts ! i)"
    using ok by (cases "ts ! i") (auto simp: js_and_ff)
  show ?thesis
  proof (cases "ts ! i")
    case (Lit c)
    then show ?thesis
      using buf odd shr first lc
      by (simp add: compress_step_def Let_def zip_SEND_CODE_def code_pair_def tok_dists_take_Suc i)
  next
    case (Match l d)
    have dx: "zip_d_buf s ?dx = d"
      using ready tok_dists_nth [OF i Match] by (simp add: bufs_ready_def)
    have frame: "zip_d_buf (zip_send_bits v n x) = zip_d_buf x"
      "zip_D_CODE y (zip_send_bits v n x) = zip_D_CODE y x"
      "get_tree r (zip_send_bits v n x) = get_tree r x"
      "zip_base_length (zip_send_bits v n x) = zip_base_length x"
      "zip_base_dist (zip_send_bits v n x) = zip_base_dist x" for v n y r and x :: "'a block_state_scheme"
      using tree_state_more_eq [OF zip_send_bits_frame [of v n x]]
        block_state_more_eq [OF zip_send_bits_frame [of v n x]]
      by (simp_all add: zip_D_CODE_def)
    show ?thesis
      using buf odd shr first lc Match dx
      by (simp add: compress_step_def Let_def zip_SEND_CODE_def code_pair_def extra_pair_def
          tok_dists_take_Suc i frame)
  qed
qed

text \<open>The whole block: the tokens in order, then the end of the block.\<close>

definition block_pairs :: "ct_tree \<Rightarrow> ct_tree \<Rightarrow> 'a tree_state_scheme \<Rightarrow> token list \<Rightarrow> (int \<times> int) list" where
  "block_pairs lt dt s ts = concat (map (token_pairs lt dt s) ts) @ [code_pair lt 256]"

lemma token_pairs_frame:
  assumes "out_state.more s = out_state.more s'"
  shows "token_pairs lt dt s t = token_pairs lt dt s' t"
  using tree_state_more_eq [OF assms] by (cases t) (simp_all add: zip_D_CODE_def Let_def)

lemma compress_block_pairs:
  assumes ready: "bufs_ready ts s" and ok: "\<forall>t \<in> set ts. tok_ok t"
  shows "zip_compress_block ltree dtree s =
    zs.send_all (block_pairs (get_tree ltree s) (get_tree dtree s) s ts) s"
proof -
  let ?lt = "get_tree ltree s" and ?dt = "get_tree dtree s" and ?n = "length ts"
  let ?ps = "\<lambda>i. concat (map (token_pairs ?lt ?dt s) (take i ts))"
  let ?P = "\<lambda>i (dx, fx, flag, u). dx = int (length (tok_dists (take (nat i) ts))) \<and>
      fx = int ((nat i + 7) div 8) \<and>
      (nat i mod 8 \<noteq> 0 \<longrightarrow> flag = flag_byte ts (nat i div 8) div 2 ^ (nat i mod 8)) \<and>
      u = zs.send_all (?ps (nat i)) s"
  have n: "zip_last_lit s = int ?n" using ready by (simp add: bufs_ready_def)
  have "?P (int ?n) (for_up 0 (int ?n) (compress_step ltree dtree) (0, 0, 0, s))"
  proof (rule for_up_invariant [where P = ?P])
    fix i x assume i: "0 \<le> i" "i < int ?n" and P: "?P i x"
    obtain dx fx flag u where x: "x = (dx, fx, flag, u)" by (cases x)
    define k where "k = nat i"
    have k: "i = int k" "k < ?n" using i by (simp_all add: k_def)
    from P x have P: "dx = int (length (tok_dists (take k ts)))" "fx = int ((k + 7) div 8)"
      "k mod 8 \<noteq> 0 \<Longrightarrow> flag = flag_byte ts (k div 8) div 2 ^ (k mod 8)"
      and u: "u = zs.send_all (?ps k) s"
      by (simp_all add: k_def)
    have frame: "out_state.more u = out_state.more s" by (simp add: u send_all_frame)
    have "bufs_ready ts u" using ready bufs_ready_frame [OF frame] by simp
    from compress_step_eq [OF this k(2) _ P(3), of ltree dtree] ok k(2) P(1,2)
    have step: "compress_step ltree dtree i x =
      (int (length (tok_dists (take (Suc k) ts))), int ((Suc k + 7) div 8),
       flag_byte ts (k div 8) div 2 ^ Suc (k mod 8),
       zs.send_all (token_pairs (get_tree ltree u) (get_tree dtree u) u (ts ! k)) u)"
      by (simp add: x k(1))
    have "zs.send_all (token_pairs (get_tree ltree u) (get_tree dtree u) u (ts ! k)) u =
        zs.send_all (?ps (Suc k)) s"
      using k(2) tree_state_more_eq(11) [OF frame] token_pairs_frame [OF frame]
      by (simp add: u take_Suc_conv_app_nth)
    moreover have "nat (i + 1) = Suc k" using k by simp
    moreover have "Suc k mod 8 \<noteq> 0 \<Longrightarrow> Suc k div 8 = k div 8 \<and> Suc k mod 8 = Suc (k mod 8)"
      by (simp add: div_Suc mod_Suc split: if_splits)
    ultimately show "?P (i + 1) (compress_step ltree dtree i x)"
      unfolding step prod.case by simp
  qed simp_all
  then have loop: "snd (snd (snd (for_up 0 (int ?n) (compress_step ltree dtree) (0, 0, 0, s)))) =
      zs.send_all (concat (map (token_pairs ?lt ?dt s) ts)) s"
    by (auto split: prod.splits)
  have "(if zip_last_lit s \<noteq> 0
      then snd (snd (snd (for_up 0 (zip_last_lit s) (compress_step ltree dtree) (0, 0, 0, s)))) else s) =
      zs.send_all (concat (map (token_pairs ?lt ?dt s) ts)) s"
    using loop by (cases ts) (simp_all add: n)
  moreover have "get_tree ltree (zs.send_all ps s) = ?lt" for ps
    by (rule tree_state_more_eq) (simp add: send_all_frame)
  ultimately show ?thesis
    by (simp add: zip_compress_block_def block_pairs_def code_pair_def zip_SEND_CODE_def Let_def)
qed

section \<open>Properties\<close>

text \<open>
  C39: \<open>zip_ct_tally\<close> appends its token to the literal, distance and flag buffers, so that after any
  sequence of tokens the buffers hold that sequence.
\<close>

theorem tally_records:
  assumes "bufs_hold ts s" "\<forall>t \<in> set us. tok_ok t"
  shows "bufs_hold (ts @ us) (fold (\<lambda>t s. snd (zip_ct_tally (tok_dist t) (tok_lc t) s)) us s)"
  using assms
proof (induction us arbitrary: ts s)
  case (Cons u us)
  then have "bufs_hold (ts @ [u]) (snd (zip_ct_tally (tok_dist u) (tok_lc u) s))"
    by (intro tally_bufs) simp_all
  from Cons.IH [OF this] Cons.prems show ?case by simp
qed simp

theorem tally_records_witness:
  "\<forall>s :: block_state. bufs_hold ([] @ [Lit 97, Match 3 10])
     (fold (\<lambda>t s. snd (zip_ct_tally (tok_dist t) (tok_lc t) s)) [Lit 97, Match 3 10] (zip_init_block s))"
  by (intro allI tally_records) (simp_all add: bufs_hold_init)

end
