(* ===== verification/Deflate_Match.thy ===== *)
theory Deflate_Match
  imports Deflate_Block
begin

text \<open>
  The string matcher: the hash chains in \<open>zip_prev\<close>, \<open>zip_longest_match\<close>, and the sliding window
  with \<open>zip_read_buff\<close> and \<open>zip_fill_window\<close>.

  \<open>zip_prev\<close> holds both the chain links (below \<open>zip_WSIZE\<close>) and the chain heads (above).  A link
  that was never stored is \<open>undefined\<close> in the program; every use of a link compares it with \<open>>\<close> or
  \<open>>=\<close> against a number that is not negative, where \<open>undefined\<close> and 0 answer alike, so links are
  plain numbers that start at 0.  Bytes of the window are compared for equality, so there
  \<open>undefined\<close> is kept apart (\<open>None\<close>).  So is the \<open>undefined\<close> that \<open>zip_match_available\<close> holds
  until \<open>zip_init_deflate\<close> first runs with a level above 3: it is unequal to 0.
\<close>

section \<open>State\<close>

abbreviation (input) zip_WSIZE :: int where "zip_WSIZE \<equiv> 32768"
abbreviation (input) zip_WMASK :: int where "zip_WMASK \<equiv> 32767"
abbreviation (input) zip_window_size :: int where "zip_window_size \<equiv> 65536"
abbreviation (input) zip_HASH_SIZE :: int where "zip_HASH_SIZE \<equiv> 8192"
abbreviation (input) zip_HASH_MASK :: int where "zip_HASH_MASK \<equiv> 8191"
abbreviation (input) zip_H_SHIFT :: int where "zip_H_SHIFT \<equiv> 5"
abbreviation (input) zip_NIL :: int where "zip_NIL \<equiv> 0"
abbreviation (input) zip_TOO_FAR :: int where "zip_TOO_FAR \<equiv> 4096"
abbreviation (input) zip_MIN_LOOKAHEAD :: int where "zip_MIN_LOOKAHEAD \<equiv> 262"
abbreviation (input) zip_MAX_DIST :: int where "zip_MAX_DIST \<equiv> 32506"

record match_state = block_state +
  zip_prev :: "int \<Rightarrow> int"
  zip_ins_h :: int
  zip_hash_head :: int
  zip_prev_match :: int
  zip_match_available :: "int option"
  zip_match_length :: int
  zip_prev_length :: int
  zip_match_start :: int
  zip_eofile :: bool
  zip_lookahead :: int
  zip_max_chain_length :: int
  zip_max_lazy_match :: int
  zip_good_match :: int
  zip_nice_match :: int
  zip_deflate_data :: "int list"
  zip_deflate_pos :: int

record zip_DeflateConfiguration =
  good_length :: int
  max_lazy :: int
  nice_length :: int
  max_chain :: int

definition zip_configuration_table :: "int \<Rightarrow> zip_DeflateConfiguration" where
  "zip_configuration_table i =
     (let (a, b, c, d) = [(0, 0, 0, 0), (4, 4, 8, 4), (4, 5, 16, 8), (4, 6, 32, 32), (4, 4, 16, 16),
        (8, 16, 32, 32), (8, 16, 128, 128), (8, 32, 128, 256), (32, 128, 258, 1024),
        (32, 258, 258, 4096)] ! nat i
      in \<lparr>good_length = a, max_lazy = b, nice_length = c, max_chain = d\<rparr>)"

section \<open>Hash chains\<close>

text \<open>\<open>w & 0xff\<close> on a window element.\<close>

definition win_ff :: "int option \<Rightarrow> int" where
  "win_ff w = js_and (js_byte w) 255"

definition update_hash :: "int \<Rightarrow> int option \<Rightarrow> int" where
  "update_hash h w = js_and (js_xor (js_shl h zip_H_SHIFT) (win_ff w)) zip_HASH_MASK"

definition zip_head1 :: "int \<Rightarrow> 'a match_state_scheme \<Rightarrow> int" where
  "zip_head1 i s = zip_prev s (zip_WSIZE + i)"

definition zip_head2 :: "int \<Rightarrow> int \<Rightarrow> 'a match_state_scheme \<Rightarrow> 'a match_state_scheme" where
  "zip_head2 i val s = s\<lparr>zip_prev := (zip_prev s)(zip_WSIZE + i := val)\<rparr>"

definition zip_INSERT_STRING :: "'a match_state_scheme \<Rightarrow> 'a match_state_scheme" where
  "zip_INSERT_STRING s =
     (let s = s\<lparr>zip_ins_h := update_hash (zip_ins_h s) (zip_window s (zip_strstart s + zip_MIN_MATCH - 1))\<rparr>;
          s = s\<lparr>zip_hash_head := zip_head1 (zip_ins_h s) s\<rparr>;
          s = s\<lparr>zip_prev := (zip_prev s)(js_and (zip_strstart s) zip_WMASK := zip_hash_head s)\<rparr>
      in zip_head2 (zip_ins_h s) (zip_strstart s) s)"

section \<open>Reading input\<close>

text \<open>
  \<open>for (i = 0; i < n && zip_deflate_pos < length; i++)\<close>: index and position step together, so the
  loop runs \<open>i\<close> up to the smaller of \<open>n\<close> and what is left of the data.  The value is the final \<open>i\<close>.
\<close>

definition zip_read_buff :: "int \<Rightarrow> int \<Rightarrow> 'a match_state_scheme \<Rightarrow> int \<times> 'a match_state_scheme" where
  "zip_read_buff offset n s =
     (let k = max 0 (min n (int (length (zip_deflate_data s)) - zip_deflate_pos s))
      in (k, for_up 0 k (\<lambda>i s.
            s\<lparr>zip_window := (zip_window s)(offset + i :=
                 Some (js_and (zip_deflate_data s ! nat (zip_deflate_pos s)) 255)),
              zip_deflate_pos := zip_deflate_pos s + 1\<rparr>) s))"

definition slide_link :: "int \<Rightarrow> int" where
  "slide_link m = (if m \<ge> zip_WSIZE then m - zip_WSIZE else zip_NIL)"

text \<open>Moving the upper half of the window down, and every link with it.\<close>

definition slide_window :: "'a match_state_scheme \<Rightarrow> 'a match_state_scheme" where
  "slide_window s =
     (let s = s\<lparr>zip_window := for_up 0 zip_WSIZE (\<lambda>n w. w(n := w (n + zip_WSIZE))) (zip_window s)\<rparr>;
          s = s\<lparr>zip_match_start := zip_match_start s - zip_WSIZE,
                zip_strstart := zip_strstart s - zip_WSIZE,
                zip_block_start := zip_block_start s - zip_WSIZE\<rparr>;
          s = for_up 0 zip_HASH_SIZE (\<lambda>n s. zip_head2 n (slide_link (zip_head1 n s)) s) s
      in for_up 0 zip_WSIZE (\<lambda>n s. s\<lparr>zip_prev := (zip_prev s)(n := slide_link (zip_prev s n))\<rparr>) s)"

definition zip_fill_window :: "'a match_state_scheme \<Rightarrow> 'a match_state_scheme" where
  "zip_fill_window s =
     (let more = zip_window_size - zip_lookahead s - zip_strstart s;
          (more, s) =
            (if more = -1 then (more - 1, s)
             else if zip_strstart s \<ge> zip_WSIZE + zip_MAX_DIST then (more + zip_WSIZE, slide_window s)
             else (more, s))
      in if \<not> zip_eofile s then
           let (n, s) = zip_read_buff (zip_strstart s + zip_lookahead s) more s
           in if n \<le> 0 then s\<lparr>zip_eofile := True\<rparr> else s\<lparr>zip_lookahead := zip_lookahead s + n\<rparr>
         else s)"

text \<open>
  \<open>while (zip_lookahead < zip_MIN_LOOKAHEAD && !zip_eofile) zip_fill_window()\<close>: every round reads a
  byte or sees the end of the data.
\<close>

lemma slide_window_fields:
  "zip_eofile (slide_window s) = zip_eofile s" "zip_lookahead (slide_window s) = zip_lookahead s"
  "zip_deflate_data (slide_window s) = zip_deflate_data s"
  "zip_deflate_pos (slide_window s) = zip_deflate_pos s"
proof -
  let ?P = "\<lambda>u. zip_eofile u = zip_eofile s \<and> zip_lookahead u = zip_lookahead s \<and>
    zip_deflate_data u = zip_deflate_data s \<and> zip_deflate_pos u = zip_deflate_pos s"
  have "?P (slide_window s)"
    unfolding slide_window_def Let_def
    by (intro for_up_preserves [where P = ?P]) (simp_all add: zip_head2_def)
  then show "zip_eofile (slide_window s) = zip_eofile s" "zip_lookahead (slide_window s) = zip_lookahead s"
    "zip_deflate_data (slide_window s) = zip_deflate_data s"
    "zip_deflate_pos (slide_window s) = zip_deflate_pos s" by simp_all
qed

lemma zip_read_buff_fields:
  assumes "zip_read_buff offset n s = (k, s')"
  shows "zip_eofile s' = zip_eofile s" "zip_lookahead s' = zip_lookahead s"
    "zip_deflate_data s' = zip_deflate_data s" "0 \<le> k" "zip_strstart s' = zip_strstart s"
    "zip_prev s' = zip_prev s" "zip_block_start s' = zip_block_start s"
proof -
  let ?P = "\<lambda>u. zip_eofile u = zip_eofile s \<and> zip_lookahead u = zip_lookahead s \<and>
    zip_deflate_data u = zip_deflate_data s \<and> zip_strstart u = zip_strstart s \<and>
    zip_prev u = zip_prev s \<and> zip_block_start u = zip_block_start s"
  from assms have s': "s' = for_up 0 k (\<lambda>i s.
            s\<lparr>zip_window := (zip_window s)(offset + i :=
                 Some (js_and (zip_deflate_data s ! nat (zip_deflate_pos s)) 255)),
              zip_deflate_pos := zip_deflate_pos s + 1\<rparr>) s"
    and k: "k = max 0 (min n (int (length (zip_deflate_data s)) - zip_deflate_pos s))"
    by (auto simp: zip_read_buff_def Let_def)
  have "?P s'"
    unfolding s' by (intro for_up_preserves [where P = ?P]) simp_all
  with k show "zip_eofile s' = zip_eofile s" "zip_lookahead s' = zip_lookahead s"
    "zip_deflate_data s' = zip_deflate_data s" "0 \<le> k" "zip_strstart s' = zip_strstart s"
    "zip_prev s' = zip_prev s" "zip_block_start s' = zip_block_start s" by simp_all
qed

lemma zip_fill_window_progress:
  assumes "\<not> zip_eofile s"
  shows "zip_eofile (zip_fill_window s) \<or> zip_lookahead s < zip_lookahead (zip_fill_window s)"
proof -
  define ms where "ms = (let more = zip_window_size - zip_lookahead s - zip_strstart s
    in if more = -1 then (more - 1, s)
       else if zip_strstart s \<ge> zip_WSIZE + zip_MAX_DIST then (more + zip_WSIZE, slide_window s)
       else (more, s))"
  obtain more u where ms: "ms = (more, u)" by (cases ms)
  have u: "\<not> zip_eofile u" "zip_lookahead u = zip_lookahead s"
    using ms assms by (auto simp: ms_def Let_def slide_window_fields split: if_splits)
  obtain n v where r: "zip_read_buff (zip_strstart u + zip_lookahead u) more u = (n, v)" by fastforce
  note f = zip_read_buff_fields [OF r]
  have "zip_fill_window s =
      (if n \<le> 0 then v\<lparr>zip_eofile := True\<rparr> else v\<lparr>zip_lookahead := zip_lookahead v + n\<rparr>)"
    using ms u(1) r by (simp add: zip_fill_window_def ms_def Let_def split: prod.splits if_splits)
  with u f show ?thesis by simp
qed

function fill_loop :: "'a match_state_scheme \<Rightarrow> 'a match_state_scheme" where
  "fill_loop s =
     (if zip_lookahead s < zip_MIN_LOOKAHEAD \<and> \<not> zip_eofile s then fill_loop (zip_fill_window s) else s)"
  by pat_completeness auto
termination
proof (relation "measure (\<lambda>s. if zip_eofile s then 0 else Suc (nat (zip_MIN_LOOKAHEAD - zip_lookahead s)))")
  fix s :: "'a match_state_scheme"
  assume "zip_lookahead s < zip_MIN_LOOKAHEAD \<and> \<not> zip_eofile s"
  then show "(zip_fill_window s, s) \<in>
      measure (\<lambda>s. if zip_eofile s then 0 else Suc (nat (zip_MIN_LOOKAHEAD - zip_lookahead s)))"
    using zip_fill_window_progress [of s] by auto
qed simp

declare fill_loop.simps [simp del]

definition zip_lm_init :: "'a match_state_scheme \<Rightarrow> 'a match_state_scheme" where
  "zip_lm_init s =
     (let s = s\<lparr>zip_prev := for_up 0 zip_HASH_SIZE (\<lambda>j p. p(zip_WSIZE + j := 0)) (zip_prev s)\<rparr>;
          cfg = zip_configuration_table (zip_compr_level s);
          s = s\<lparr>zip_max_lazy_match := max_lazy cfg, zip_good_match := good_length cfg,
                zip_max_chain_length := max_chain cfg, zip_strstart := 0, zip_block_start := 0\<rparr>;
          (n, s) = zip_read_buff 0 (2 * zip_WSIZE) s;
          s = s\<lparr>zip_lookahead := n\<rparr>
      in if zip_lookahead s \<le> 0 then s\<lparr>zip_eofile := True, zip_lookahead := 0\<rparr>
         else
           let s = fill_loop (s\<lparr>zip_eofile := False\<rparr>)
           in for_up 0 (zip_MIN_MATCH - 1)
                (\<lambda>j s. s\<lparr>zip_ins_h := update_hash (zip_ins_h s) (zip_window s j)\<rparr>)
                (s\<lparr>zip_ins_h := 0\<rparr>))"

section \<open>The longest match\<close>

text \<open>
  Up to eight comparisons \<open>window[++scanp] == window[++matchp]\<close>, stopping at the first that fails; the
  loop repeats them while all hold and \<open>scanp < strendp\<close>.
\<close>

fun scan_some :: "nat \<Rightarrow> js_window \<Rightarrow> int \<Rightarrow> int \<Rightarrow> bool \<times> int \<times> int" where
  "scan_some 0 w scanp matchp = (True, scanp, matchp)"
| "scan_some (Suc k) w scanp matchp =
     (if w (scanp + 1) = w (matchp + 1) then scan_some k w (scanp + 1) (matchp + 1)
      else (False, scanp + 1, matchp + 1))"

lemma scan_some_True: "scan_some k w sp mp = (True, sp', mp') \<Longrightarrow> sp' = sp + int k \<and> mp' = mp + int k"
  by (induction k w sp mp rule: scan_some.induct) (auto split: if_splits)

function scan_loop :: "js_window \<Rightarrow> int \<Rightarrow> int \<Rightarrow> int \<Rightarrow> int" where
  "scan_loop w strendp scanp matchp =
     (case scan_some 8 w scanp matchp of
        (ok, scanp, matchp) \<Rightarrow>
          if ok \<and> scanp < strendp then scan_loop w strendp scanp matchp else scanp)"
  by pat_completeness auto
termination
  by (relation "measure (\<lambda>(_, strendp, scanp, _). nat (strendp - scanp))")
    (auto dest: scan_some_True [OF sym])

declare scan_loop.simps [simp del]

record lm_state =
  lm_cur_match :: int
  lm_chain_length :: int
  lm_best_len :: int
  lm_match_start :: int
  lm_scan_end1 :: "int option"
  lm_scan_end :: "int option"

text \<open>One candidate; the flag is the \<open>break\<close> of a full match.\<close>

definition lm_try :: "js_window \<Rightarrow> int \<Rightarrow> lm_state \<Rightarrow> bool \<times> lm_state" where
  "lm_try w scanp l =
     (let cur = lm_cur_match l; best_len = lm_best_len l; strendp = scanp + zip_MAX_MATCH in
      if w (cur + best_len) \<noteq> lm_scan_end l \<or> w (cur + best_len - 1) \<noteq> lm_scan_end1 l \<or>
         w cur \<noteq> w scanp \<or> w (cur + 1) \<noteq> w (scanp + 1)
      then (False, l)
      else
        let sp = scan_loop w strendp (scanp + 2) (cur + 2);
            len = zip_MAX_MATCH - (strendp - sp)
        in if len > best_len then
             let l = l\<lparr>lm_match_start := cur, lm_best_len := len\<rparr> in
             if len \<ge> zip_MAX_MATCH then (True, l)
             else (False, l\<lparr>lm_scan_end1 := w (scanp + len - 1), lm_scan_end := w (scanp + len)\<rparr>)
           else (False, l))"

text \<open>
  The \<open>do ... while ((cur_match = prev[cur_match & WMASK]) > limit && --chain_length != 0)\<close> loop.
  The chain length is positive on entry (\<open>chain_length_pos\<close>), so counting down reaches 0; the test
  \<open>chain > 0\<close> only says so.
\<close>

function lm_loop :: "js_window \<Rightarrow> (int \<Rightarrow> int) \<Rightarrow> int \<Rightarrow> int \<Rightarrow> lm_state \<Rightarrow> lm_state" where
  "lm_loop w prev limit scanp l =
     (let (full, l) = lm_try w scanp l in
      if full then l
      else
        let l = l\<lparr>lm_cur_match := prev (js_and (lm_cur_match l) zip_WMASK)\<rparr> in
        if lm_cur_match l > limit then
          let l = l\<lparr>lm_chain_length := lm_chain_length l - 1\<rparr> in
          if lm_chain_length l \<noteq> 0 \<and> lm_chain_length l > 0 then lm_loop w prev limit scanp l else l
        else l)"
  by pat_completeness auto
termination
proof (relation "measure (\<lambda>(_, _, _, _, l). nat (lm_chain_length l))", goal_cases)
  case (2 w prev limit scanp l x full la lb lc)
  then have "lm_chain_length la = lm_chain_length l"
    by (auto simp: lm_try_def Let_def split: if_splits)
  with 2 show ?case by auto
qed simp

declare lm_loop.simps [simp del]

definition zip_longest_match :: "int \<Rightarrow> 'a match_state_scheme \<Rightarrow> int \<times> 'a match_state_scheme" where
  "zip_longest_match cur_match s =
     (let scanp = zip_strstart s;
          best_len = zip_prev_length s;
          limit = (if zip_strstart s > zip_MAX_DIST then zip_strstart s - zip_MAX_DIST else zip_NIL);
          chain_length = (if zip_prev_length s \<ge> zip_good_match s
            then js_shr (zip_max_chain_length s) 2 else zip_max_chain_length s);
          l = lm_loop (zip_window s) (zip_prev s) limit scanp
                \<lparr>lm_cur_match = cur_match, lm_chain_length = chain_length, lm_best_len = best_len,
                 lm_match_start = zip_match_start s,
                 lm_scan_end1 = zip_window s (scanp + best_len - 1),
                 lm_scan_end = zip_window s (scanp + best_len)\<rparr>
      in (lm_best_len l, s\<lparr>zip_match_start := lm_match_start l\<rparr>))"

end
