(* ===== verification/Deflate_Main.thy ===== *)
theory Deflate_Main
  imports Deflate_Match "HOL-Library.Monad_Syntax"
begin

text \<open>
  The compressor: the two matching strategies \<open>zip_deflate_fast\<close> and \<open>zip_deflate_better\<close>, the
  initialisation, the stepwise \<open>zip_deflate_internal\<close> and the exported \<open>deflate\<close>.

  The two outer loops run until the input is consumed or a buffer of output is queued.  Nothing in
  their text bounds them, so they are partial functions: \<open>None\<close> is a loop that does not return.
\<close>

section \<open>State\<close>

record deflate_state = match_state +
  zip_initflag :: bool
  zip_complete :: bool
  zip_outbuf_null :: bool

section \<open>Matching\<close>

text \<open>\<open>do { strstart++; INSERT_STRING() } while (--n != 0)\<close>, for a positive \<open>n\<close>.\<close>

definition insert_step :: "'a match_state_scheme \<Rightarrow> 'a match_state_scheme" where
  "insert_step s = zip_INSERT_STRING (s\<lparr>zip_strstart := zip_strstart s + 1\<rparr>)"

definition insert_strings :: "int \<Rightarrow> 'a match_state_scheme \<Rightarrow> 'a match_state_scheme" where
  "insert_strings n s = (insert_step ^^ nat n) s"

definition flush_if :: "bool \<Rightarrow> 'a match_state_scheme \<Rightarrow> 'a match_state_scheme" where
  "flush_if flush s =
     (if flush then let s = zip_flush_block 0 s in s\<lparr>zip_block_start := zip_strstart s\<rparr> else s)"

text \<open>One round of \<open>zip_deflate_fast\<close>, without the final refill.\<close>

definition fast_match :: "'a match_state_scheme \<Rightarrow> 'a match_state_scheme" where
  "fast_match s =
     (if zip_hash_head s \<noteq> zip_NIL \<and> zip_strstart s - zip_hash_head s \<le> zip_MAX_DIST then
        let (n, s) = zip_longest_match (zip_hash_head s) s;
            s = s\<lparr>zip_match_length := n\<rparr>
        in if zip_match_length s > zip_lookahead s then s\<lparr>zip_match_length := zip_lookahead s\<rparr> else s
      else s)"

definition fast_emit :: "'a match_state_scheme \<Rightarrow> 'a match_state_scheme" where
  "fast_emit s =
     (if zip_match_length s \<ge> zip_MIN_MATCH then
        let (flush, s) = zip_ct_tally (zip_strstart s - zip_match_start s)
                           (zip_match_length s - zip_MIN_MATCH) s;
            s = s\<lparr>zip_lookahead := zip_lookahead s - zip_match_length s\<rparr>;
            s = (if zip_match_length s \<le> zip_max_lazy_match s then
                   let s = insert_strings (zip_match_length s - 1) s
                   in s\<lparr>zip_match_length := 0, zip_strstart := zip_strstart s + 1\<rparr>
                 else
                   let s = s\<lparr>zip_strstart := zip_strstart s + zip_match_length s, zip_match_length := 0\<rparr>;
                       s = s\<lparr>zip_ins_h := win_ff (zip_window s (zip_strstart s))\<rparr>
                   in s\<lparr>zip_ins_h := update_hash (zip_ins_h s) (zip_window s (zip_strstart s + 1))\<rparr>)
        in flush_if flush s
      else
        let (flush, s) = zip_ct_tally 0 (win_ff (zip_window s (zip_strstart s))) s;
            s = s\<lparr>zip_lookahead := zip_lookahead s - 1, zip_strstart := zip_strstart s + 1\<rparr>
        in flush_if flush s)"

definition fast_step :: "'a match_state_scheme \<Rightarrow> 'a match_state_scheme" where
  "fast_step s = fill_loop (fast_emit (fast_match (zip_INSERT_STRING s)))"

partial_function (option) zip_deflate_fast :: "'a match_state_scheme \<Rightarrow> 'a match_state_scheme option" where
  "zip_deflate_fast s =
     (if zip_lookahead s \<noteq> 0 \<and> zip_qhead s = [] then zip_deflate_fast (fast_step s) else Some s)"

text \<open>One round of \<open>zip_deflate_better\<close>.\<close>

definition better_match :: "'a match_state_scheme \<Rightarrow> 'a match_state_scheme" where
  "better_match s =
     (let s = s\<lparr>zip_prev_length := zip_match_length s, zip_prev_match := zip_match_start s,
                zip_match_length := zip_MIN_MATCH - 1\<rparr> in
      if zip_hash_head s \<noteq> zip_NIL \<and> zip_prev_length s < zip_max_lazy_match s \<and>
         zip_strstart s - zip_hash_head s \<le> zip_MAX_DIST then
        let (n, s) = zip_longest_match (zip_hash_head s) s;
            s = s\<lparr>zip_match_length := n\<rparr>;
            s = (if zip_match_length s > zip_lookahead s
                 then s\<lparr>zip_match_length := zip_lookahead s\<rparr> else s)
        in if zip_match_length s = zip_MIN_MATCH \<and> zip_strstart s - zip_match_start s > zip_TOO_FAR
           then s\<lparr>zip_match_length := zip_match_length s - 1\<rparr> else s
      else s)"

definition better_emit :: "'a match_state_scheme \<Rightarrow> 'a match_state_scheme" where
  "better_emit s =
     (if zip_prev_length s \<ge> zip_MIN_MATCH \<and> zip_match_length s \<le> zip_prev_length s then
        let (flush, s) = zip_ct_tally (zip_strstart s - 1 - zip_prev_match s)
                           (zip_prev_length s - zip_MIN_MATCH) s;
            s = s\<lparr>zip_lookahead := zip_lookahead s - (zip_prev_length s - 1),
                  zip_prev_length := zip_prev_length s - 2\<rparr>;
            s = insert_strings (zip_prev_length s) s;
            s = s\<lparr>zip_prev_length := 0, zip_match_available := Some 0,
                  zip_match_length := zip_MIN_MATCH - 1, zip_strstart := zip_strstart s + 1\<rparr>
        in flush_if flush s
      else if zip_match_available s \<noteq> Some 0 then
        let (flush, s) = zip_ct_tally 0 (win_ff (zip_window s (zip_strstart s - 1))) s;
            s = flush_if flush s
        in s\<lparr>zip_strstart := zip_strstart s + 1, zip_lookahead := zip_lookahead s - 1\<rparr>
      else s\<lparr>zip_match_available := Some 1, zip_strstart := zip_strstart s + 1,
             zip_lookahead := zip_lookahead s - 1\<rparr>)"

definition better_step :: "'a match_state_scheme \<Rightarrow> 'a match_state_scheme" where
  "better_step s = fill_loop (better_emit (better_match (zip_INSERT_STRING s)))"

partial_function (option) zip_deflate_better :: "'a match_state_scheme \<Rightarrow> 'a match_state_scheme option" where
  "zip_deflate_better s =
     (if zip_lookahead s \<noteq> 0 \<and> zip_qhead s = [] then zip_deflate_better (better_step s) else Some s)"

section \<open>Initialisation\<close>

definition zip_init_deflate :: "deflate_state \<Rightarrow> deflate_state" where
  "zip_init_deflate s =
     (if zip_eofile s then s
      else
        let s = s\<lparr>zip_bi_buf := 0, zip_bi_valid := 0\<rparr>;
            s = zip_ct_init s;
            s = zip_lm_init s;
            s = s\<lparr>zip_qhead := [], zip_outcnt := 0, zip_outoff := 0\<rparr>;
            s = (if zip_compr_level s \<le> 3
                 then s\<lparr>zip_prev_length := zip_MIN_MATCH - 1, zip_match_length := 0\<rparr>
                 else s\<lparr>zip_match_length := zip_MIN_MATCH - 1, zip_match_available := Some 0\<rparr>)
        in s\<lparr>zip_complete := False\<rparr>)"

text \<open>Freshly allocated arrays, trees and descriptors (\<open>new Array\<close>, \<open>new zip_DeflateCT\<close>).\<close>

definition new_tree :: ct_tree where
  "new_tree = (\<lambda>_. \<lparr>fc = 0, dl = 0\<rparr>)"

definition new_desc :: zip_DeflateTreeDesc where
  "new_desc = \<lparr>dyn_tree = Dyn_ltree, static_tree = None, extra_bits = (\<lambda>_. 0), extra_base = 0,
     elems = 0, max_length = 0, max_code = 0\<rparr>"

text \<open>The level: none is the default, and others are clamped to 1..9.\<close>

definition start_level :: "int \<Rightarrow> int" where
  "start_level level = (if level = 0 then 6 else if level < 1 then 1 else if level > 9 then 9 else level)"

definition zip_deflate_start :: "int \<Rightarrow> deflate_state \<Rightarrow> deflate_state" where
  "zip_deflate_start level s =
     (let s = s\<lparr>zip_compr_level := start_level level, zip_initflag := False, zip_eofile := False\<rparr> in
      if \<not> zip_outbuf_null s then s
      else s\<lparr>zip_free_queue := [], zip_qhead := [], zip_outbuf := (\<lambda>_. 0), zip_outbuf_null := False,
        zip_window := (\<lambda>_. None), zip_d_buf := (\<lambda>_. 0), zip_l_buf := (\<lambda>_. 0), zip_prev := (\<lambda>_. 0),
        zip_dyn_ltree := new_tree, zip_dyn_dtree := new_tree, zip_static_ltree := new_tree,
        zip_static_dtree := new_tree, zip_bl_tree := new_tree,
        zip_l_desc := new_desc, zip_d_desc := new_desc, zip_bl_desc := new_desc,
        zip_bl_count := (\<lambda>_. 0), zip_heap := (\<lambda>_. 0), zip_depth := (\<lambda>_. 0),
        zip_length_code := (\<lambda>_. 0), zip_dist_code := (\<lambda>_. 0), zip_base_length := (\<lambda>_. 0),
        zip_base_dist := (\<lambda>_. 0), zip_flag_buf := (\<lambda>_. 0)\<rparr>)"

text \<open>\<open>zip_deflate_end\<close> drops every array; what the model keeps of that is the null test.\<close>

definition zip_deflate_end :: "deflate_state \<Rightarrow> deflate_state" where
  "zip_deflate_end s = s\<lparr>zip_free_queue := [], zip_qhead := [], zip_outbuf_null := True\<rparr>"

text \<open>
  The variables as the module's closure leaves them: all \<open>undefined\<close>, but \<open>zip_outbuf\<close>, which is
  null.  Only the one that is read before it is written (\<open>zip_match_available\<close>) needs an
  \<open>undefined\<close> of its own.
\<close>

definition module_start :: deflate_state where
  "module_start = \<lparr>zip_free_queue = [], zip_qhead = [], zip_outbuf = (\<lambda>_. 0), zip_outcnt = 0,
     zip_outoff = 0, zip_bi_buf = 0, zip_bi_valid = 0,
     zip_dyn_ltree = new_tree, zip_dyn_dtree = new_tree, zip_static_ltree = new_tree,
     zip_static_dtree = new_tree, zip_bl_tree = new_tree,
     zip_l_desc = new_desc, zip_d_desc = new_desc, zip_bl_desc = new_desc,
     zip_bl_count = (\<lambda>_. 0), zip_heap = (\<lambda>_. 0), zip_heap_len = 0, zip_heap_max = 0,
     zip_depth = (\<lambda>_. 0), zip_length_code = (\<lambda>_. 0), zip_dist_code = (\<lambda>_. 0),
     zip_base_length = (\<lambda>_. 0), zip_base_dist = (\<lambda>_. 0), zip_opt_len = 0, zip_static_len = 0,
     zip_compr_level = 0, zip_window = (\<lambda>_. None), zip_strstart = 0, zip_block_start = 0,
     zip_l_buf = (\<lambda>_. 0), zip_d_buf = (\<lambda>_. 0), zip_flag_buf = (\<lambda>_. 0), zip_last_lit = 0,
     zip_last_dist = 0, zip_last_flags = 0, zip_flags = 0, zip_flag_bit = 0,
     zip_prev = (\<lambda>_. 0), zip_ins_h = 0, zip_hash_head = 0, zip_prev_match = 0,
     zip_match_available = None, zip_match_length = 0, zip_prev_length = 0, zip_match_start = 0,
     zip_eofile = False, zip_lookahead = 0, zip_max_chain_length = 0, zip_max_lazy_match = 0,
     zip_good_match = 0, zip_nice_match = 0, zip_deflate_data = [], zip_deflate_pos = 0,
     zip_initflag = False, zip_complete = False, zip_outbuf_null = True\<rparr>"

section \<open>The driver\<close>

text \<open>The value is the number of bytes copied into \<open>buff\<close>.\<close>

definition finish_block :: "deflate_state \<Rightarrow> deflate_state" where
  "finish_block s =
     (if zip_lookahead s = 0 then
        let s = (if zip_match_available s \<noteq> Some 0
                 then snd (zip_ct_tally 0 (win_ff (zip_window s (zip_strstart s - 1))) s) else s);
            s = zip_flush_block 1 s
        in s\<lparr>zip_complete := True\<rparr>
      else s)"

definition internal_compress ::
  "(int \<Rightarrow> int) \<Rightarrow> int \<Rightarrow> int \<Rightarrow> deflate_state \<Rightarrow> ((int \<Rightarrow> int) \<times> int \<times> deflate_state) option" where
  "internal_compress buff off buff_size s =
     (let (buff, n, s) = zip_qcopy buff off buff_size s in
      if n = buff_size then Some (buff, buff_size, s)
      else if zip_complete s then Some (buff, n, s)
      else do {
        s \<leftarrow> (if zip_compr_level s \<le> 3 then zip_deflate_fast s else zip_deflate_better s);
        let s = finish_block s;
        let (buff, m, s) = zip_qcopy buff (n + off) (buff_size - n) s;
        Some (buff, n + m, s)
      })"

definition zip_deflate_internal ::
  "(int \<Rightarrow> int) \<Rightarrow> int \<Rightarrow> int \<Rightarrow> deflate_state \<Rightarrow> ((int \<Rightarrow> int) \<times> int \<times> deflate_state) option" where
  "zip_deflate_internal buff off buff_size s =
     (if \<not> zip_initflag s then
        let s = (zip_init_deflate s)\<lparr>zip_initflag := True\<rparr> in
        if zip_lookahead s = 0 then Some (buff, 0, s\<lparr>zip_complete := True\<rparr>)
        else internal_compress buff off buff_size s
      else internal_compress buff off buff_size s)"

text \<open>
  The loop of \<open>deflate\<close> that collects the output; a string is the list of its character codes, and
  \<open>String.fromCharCode(buff[j])\<close> of a byte is the byte.
\<close>

partial_function (option) deflate_loop ::
  "(int \<Rightarrow> int) \<Rightarrow> int list \<Rightarrow> deflate_state \<Rightarrow> (int list \<times> deflate_state) option" where
  "deflate_loop buff aout s =
     (case zip_deflate_internal buff 0 1024 s of
        None \<Rightarrow> None
      | Some (buff, i, s) \<Rightarrow>
          if i > 0 then deflate_loop buff (aout @ map buff [0..i - 1]) s else Some (aout, s))"

definition deflate :: "int list \<Rightarrow> int option \<Rightarrow> deflate_state \<Rightarrow> (int list \<times> deflate_state) option" where
  "deflate str level s =
     (let s = s\<lparr>zip_deflate_data := str, zip_deflate_pos := 0\<rparr>;
          s = zip_deflate_start (case level of None \<Rightarrow> 6 | Some l \<Rightarrow> l) s
      in map_option (apsnd (\<lambda>s. s\<lparr>zip_deflate_data := []\<rparr>)) (deflate_loop (\<lambda>_. 0) [] s))"

end
