(* ===== verification/Deflate_Hash.thy ===== *)
theory Deflate_Hash
  imports Deflate_Main
begin

text \<open>
  The hash chains: the rolling hash of three bytes, the strings that follow a chain, and what
  \<open>zip_longest_match\<close> finds there.  A chain is only worth following because the strings on it have
  the hash of the current one: two bytes that agree and an equal hash give the third byte, which the
  program does not compare.
\<close>

section \<open>The rolling hash\<close>

definition hash2 :: "js_window \<Rightarrow> int \<Rightarrow> int" where
  "hash2 w i = update_hash (win_ff (w i)) (w (i + 1))"

definition hash3 :: "js_window \<Rightarrow> int \<Rightarrow> int" where
  "hash3 w i = update_hash (hash2 w i) (w (i + 2))"

lemma win_ff_range: "0 \<le> win_ff x" "win_ff x < 256"
  by (simp_all add: win_ff_def js_and_ff)

lemma update_hash_range: "0 \<le> update_hash h x" "update_hash h x < 8192"
  by (simp_all add: update_hash_def js_and_1fff)

lemma update_hash_xor:
  assumes "0 \<le> h" "h < 8192"
  shows "update_hash h x = (32 * h XOR win_ff x) mod 8192"
proof -
  have "js_shl h 5 = 32 * h"
    using assms by (subst js_shl_small) simp_all
  then have "js_xor (js_shl h 5) (win_ff x) = 32 * h XOR win_ff x"
    using assms win_ff_range [of x] by (simp add: js_xor_def)
  then show ?thesis by (simp add: update_hash_def js_and_1fff)
qed

text \<open>Only the low eight bits of the hash so far matter.\<close>

lemma update_hash_cong:
  assumes "0 \<le> h" "h < 8192" "0 \<le> h'" "h' < 8192" "h mod 256 = h' mod 256"
  shows "update_hash h x = update_hash h' x"
proof -
  have low: "take_bit 13 (32 * k) = take_bit 13 (32 * take_bit 8 k)" for k :: int
    using push_bit_take_bit [of 5 8 k] by (simp add: push_bit_eq_mult ac_simps take_bit_take_bit)
  have "take_bit 13 (32 * h) = take_bit 13 (32 * h')"
    using assms(5) by (subst (1 2) low) (simp add: take_bit_eq_mod)
  then have "take_bit 13 (32 * h XOR win_ff x) = take_bit 13 (32 * h' XOR win_ff x)"
    by (simp only: take_bit_xor)
  then show ?thesis
    using assms by (simp add: update_hash_xor take_bit_eq_mod)
qed

lemma update_hash_low:
  assumes "0 \<le> h" "h < 8192" "0 \<le> h'" "h' < 8192" "h mod 8 = h' mod 8"
  shows "update_hash h x mod 256 = update_hash h' x mod 256"
proof -
  have low: "take_bit 8 (32 * k) = take_bit 8 (32 * take_bit 3 k)" for k :: int
    using push_bit_take_bit [of 5 3 k] by (simp add: push_bit_eq_mult ac_simps take_bit_take_bit)
  have "take_bit 8 (32 * h) = take_bit 8 (32 * h')"
    using assms(5) by (subst (1 2) low) (simp add: take_bit_eq_mod)
  then have "take_bit 8 (32 * h XOR win_ff x) = take_bit 8 (32 * h' XOR win_ff x)"
    by (simp only: take_bit_xor)
  moreover have "m mod 8192 mod 256 = m mod (256::int)" for m by (simp add: mod_mod_cancel)
  ultimately show ?thesis
    using assms by (simp add: update_hash_xor take_bit_eq_mod)
qed

lemma hash2_range: "0 \<le> hash2 w i" "hash2 w i < 8192"
  by (simp_all add: hash2_def update_hash_range)

lemma hash3_range: "0 \<le> hash3 w i" "hash3 w i < 8192"
  by (simp_all add: hash3_def update_hash_range)

text \<open>The hash rolls on: the low bits of the three-byte hash are those of the next two-byte hash.\<close>

lemma hash3_next: "hash3 w i mod 256 = hash2 w (i + 1) mod 256"
proof -
  have "hash2 w i mod 8 = win_ff (w (i + 1)) mod 8"
  proof -
    have r: "0 \<le> win_ff (w i)" "win_ff (w i) < 8192" using win_ff_range [of "w i"] by simp_all
    have "take_bit 3 (32 * win_ff (w i)) = (0::int)" by (simp add: take_bit_eq_mod)
    then have "take_bit 3 (32 * win_ff (w i) XOR win_ff (w (i + 1))) = take_bit 3 (win_ff (w (i + 1)))"
      by (simp add: take_bit_xor)
    moreover have "m mod 8192 mod 8 = m mod (8::int)" for m by (simp add: mod_mod_cancel)
    ultimately show ?thesis by (simp add: hash2_def update_hash_xor [OF r] take_bit_eq_mod)
  qed
  then have "update_hash (hash2 w i) (w (i + 2)) mod 256 =
      update_hash (win_ff (w (i + 1))) (w (i + 2)) mod 256"
    using hash2_range [of w i] win_ff_range [of "w (i + 1)"] by (intro update_hash_low) simp_all
  then show ?thesis by (simp add: hash3_def hash2_def add.assoc)
qed

lemma hash3_third:
  assumes "hash3 w i = hash3 w j" "w i = w j" "w (i + 1) = w (j + 1)"
  shows "win_ff (w (i + 2)) = win_ff (w (j + 2))"
proof -
  have h: "hash2 w i = hash2 w j" using assms by (simp add: hash2_def)
  have low: "take_bit 8 (hash3 w k) = take_bit 8 (32 * hash2 w k) XOR win_ff (w (k + 2))" for k
  proof -
    have "take_bit 8 (win_ff (w (k + 2))) = win_ff (w (k + 2))"
      using win_ff_range [of "w (k + 2)"] by (simp add: take_bit_int_eq_self_iff)
    moreover have "take_bit 8 (m mod 8192) = take_bit 8 (m::int)" for m
      by (simp add: take_bit_eq_mod mod_mod_cancel)
    ultimately show ?thesis
      by (simp add: hash3_def update_hash_xor hash2_range take_bit_xor)
  qed
  have "x = y" if "a XOR x = a XOR y" for a x y :: int
    using that by (metis xor.assoc xor_self_eq xor.left_neutral)
  with low [of i] low [of j] assms(1) h show ?thesis by metis
qed

section \<open>The longest match\<close>

text \<open>The strings at \<open>i\<close> and \<open>m\<close> agree in \<open>n\<close> places, the third left open.\<close>

definition agree :: "js_window \<Rightarrow> int \<Rightarrow> int \<Rightarrow> int \<Rightarrow> bool" where
  "agree w i m n \<longleftrightarrow> (\<forall>j. 0 \<le> j \<and> j < n \<and> j \<noteq> 2 \<longrightarrow> w (i + j) = w (m + j))"

lemma scan_some_agrees:
  assumes "scan_some k w sp mp = (ok, sp', mp')" "0 < k"
  shows "sp < sp'" "sp' \<le> sp + int k" "mp' - sp' = mp - sp"
    "\<And>j. sp < j \<Longrightarrow> j < sp' \<Longrightarrow> w j = w (mp + (j - sp))" "ok \<Longrightarrow> sp' = sp + int k \<and> w sp' = w mp'"
proof -
  have "sp < sp' \<and> sp' \<le> sp + int k \<and> mp' - sp' = mp - sp \<and>
    (\<forall>j. sp < j \<and> j < sp' \<longrightarrow> w j = w (mp + (j - sp))) \<and> (ok \<longrightarrow> sp' = sp + int k \<and> w sp' = w mp')"
    using assms
  proof (induction k w sp mp rule: scan_some.induct)
    case (2 k w sp mp)
    show ?case
    proof (cases "w (sp + 1) = w (mp + 1) \<and> k \<noteq> 0")
      case True
      with 2(2) have "scan_some k w (sp + 1) (mp + 1) = (ok, sp', mp')" by simp
      from 2(1) [OF _ this] True
      have "sp + 1 < sp' \<and> sp' \<le> sp + 1 + int k \<and> mp' - sp' = mp + 1 - (sp + 1) \<and>
          (\<forall>j. sp + 1 < j \<and> j < sp' \<longrightarrow> w j = w (mp + 1 + (j - (sp + 1)))) \<and>
          (ok \<longrightarrow> sp' = sp + 1 + int k \<and> w sp' = w mp')"
        by blast
      then have IH: "sp + 1 < sp'" "sp' \<le> sp + 1 + int k" "mp' - sp' = mp + 1 - (sp + 1)"
          "\<And>j. sp + 1 < j \<Longrightarrow> j < sp' \<Longrightarrow> w j = w (mp + 1 + (j - (sp + 1)))"
          "ok \<longrightarrow> sp' = sp + 1 + int k \<and> w sp' = w mp'"
        by blast+
      have agree: "w j = w (mp + (j - sp))" if "sp < j" "j < sp'" for j
      proof (cases "j = sp + 1")
        case False
        have "mp + 1 + (j - (sp + 1)) = mp + (j - sp)" by simp
        with False IH(4) [of j] that show ?thesis by simp
      qed (use True in simp)
      show ?thesis using IH(1-3,5) by (intro conjI allI impI agree) auto
    next
      case False
      with 2(2) have stop: "sp' = sp + 1" "mp' = mp + 1" "ok \<Longrightarrow> w sp' = w mp' \<and> k = 0"
        by (auto split: if_splits)
      have "sp < j \<Longrightarrow> j < sp' \<Longrightarrow> w j = w (mp + (j - sp))" for j using stop(1) by simp
      moreover have "sp < sp' \<and> sp' \<le> sp + int (Suc k) \<and> mp' - sp' = mp - sp" using stop by simp
      moreover have "ok \<longrightarrow> sp' = sp + int (Suc k) \<and> w sp' = w mp'" using stop by simp
      ultimately show ?thesis by blast
    qed
  qed simp
  then show "sp < sp'" "sp' \<le> sp + int k" "mp' - sp' = mp - sp"
    "\<And>j. sp < j \<Longrightarrow> j < sp' \<Longrightarrow> w j = w (mp + (j - sp))" "ok \<Longrightarrow> sp' = sp + int k \<and> w sp' = w mp'"
    by blast+
qed

lemma scan_loop_agrees:
  assumes "sp < strendp" "(strendp - sp) mod 8 = 0"
  shows "sp < scan_loop w strendp sp mp \<and> scan_loop w strendp sp mp \<le> strendp \<and>
    (\<forall>j. sp < j \<and> j < scan_loop w strendp sp mp \<longrightarrow> w j = w (mp + (j - sp)))"
  using assms
proof (induction w strendp sp mp rule: scan_loop.induct)
  case (1 w strendp sp mp)
  obtain ok sp' mp' where sc: "scan_some 8 w sp mp = (ok, sp', mp')" by (metis prod_cases3)
  have a: "sp < sp'" "sp' \<le> sp + 8" "mp' - sp' = mp - sp"
    "\<And>j. sp < j \<Longrightarrow> j < sp' \<Longrightarrow> w j = w (mp + (j - sp))"
    "ok \<Longrightarrow> sp' = sp + 8 \<and> w sp' = w mp'"
    using scan_some_agrees [OF sc] by simp_all blast+
  have end8: "sp + 8 \<le> strendp" using 1(2,3) by presburger
  show ?case
  proof (cases "ok \<and> sp' < strendp")
    case True
    then have IH: "sp' < scan_loop w strendp sp' mp' \<and> scan_loop w strendp sp' mp' \<le> strendp \<and>
      (\<forall>j. sp' < j \<and> j < scan_loop w strendp sp' mp' \<longrightarrow> w j = w (mp' + (j - sp')))"
    proof (intro 1(1) [OF sc [symmetric] refl])
      show "(strendp - sp') mod 8 = 0" using 1(3) a(5) True by presburger
    qed simp_all
    have eq: "scan_loop w strendp sp mp = scan_loop w strendp sp' mp'"
      using True by (subst scan_loop.simps) (simp add: sc)
    have "w j = w (mp + (j - sp))" if "sp < j" "j < scan_loop w strendp sp' mp'" for j
    proof (cases "j < sp'")
      case False
      have "mp' + (j - sp') = mp + (j - sp)" using a(3) by simp
      moreover have "w j = w (mp' + (j - sp'))"
        using False that IH a(5) True by (cases "j = sp'") auto
      ultimately show ?thesis by (simp only:)
    qed (use that a(4) in simp)
    with IH a(1) show ?thesis by (auto simp: eq)
  next
    case False
    then have eq: "scan_loop w strendp sp mp = sp'"
      by (subst scan_loop.simps) (auto simp: sc)
    with a end8 show ?thesis by auto
  qed
qed

lemma lm_try_found:
  assumes "lm_try w i l = (full, l')"
  shows "lm_cur_match l' = lm_cur_match l" "lm_chain_length l' = lm_chain_length l"
    and "lm_best_len l' = lm_best_len l \<and> lm_match_start l' = lm_match_start l \<or>
      lm_match_start l' = lm_cur_match l \<and> lm_best_len l < lm_best_len l' \<and> lm_best_len l' \<le> 258 \<and>
      agree w i (lm_cur_match l) (lm_best_len l')"
proof -
  let ?m = "lm_cur_match l"
  let ?sp = "scan_loop w (i + 258) (i + 2) (?m + 2)"
  have scan: "i + 2 < ?sp" "?sp \<le> i + 258"
    "\<And>j. i + 2 < j \<Longrightarrow> j < ?sp \<Longrightarrow> w j = w (?m + 2 + (j - (i + 2)))"
    using scan_loop_agrees [of "i + 2" "i + 258" w "?m + 2"] by simp_all
  have "agree w i ?m (?sp - i)" if "w ?m = w i" "w (?m + 1) = w (i + 1)"
    unfolding agree_def
  proof (intro allI impI)
    fix j :: int assume j: "0 \<le> j \<and> j < ?sp - i \<and> j \<noteq> 2"
    then consider "j = 0" | "j = 1" | "3 \<le> j" by linarith
    then show "w (i + j) = w (?m + j)"
    proof cases
      case 3
      with j have "w (i + j) = w (?m + 2 + (i + j - (i + 2)))" by (intro scan(3)) simp_all
      then show ?thesis by simp
    qed (use that in simp_all)
  qed
  with assms scan show "lm_cur_match l' = lm_cur_match l" "lm_chain_length l' = lm_chain_length l"
    "lm_best_len l' = lm_best_len l \<and> lm_match_start l' = lm_match_start l \<or>
      lm_match_start l' = lm_cur_match l \<and> lm_best_len l < lm_best_len l' \<and> lm_best_len l' \<le> 258 \<and>
      agree w i (lm_cur_match l) (lm_best_len l')"
    by (auto simp: lm_try_def Let_def split: if_splits)
qed

text \<open>
  Whatever holds of the first candidate and of the next link of every candidate holds of the match
  that is found.
\<close>

lemma lm_loop_found:
  assumes "Q (lm_cur_match l)" "\<And>m. Q m \<Longrightarrow> limit < prev (js_and m 32767) \<Longrightarrow> Q (prev (js_and m 32767))"
  shows "lm_best_len (lm_loop w prev limit i l) = lm_best_len l \<and>
      lm_match_start (lm_loop w prev limit i l) = lm_match_start l \<or>
    Q (lm_match_start (lm_loop w prev limit i l)) \<and>
      lm_best_len l < lm_best_len (lm_loop w prev limit i l) \<and>
      lm_best_len (lm_loop w prev limit i l) \<le> 258 \<and>
      agree w i (lm_match_start (lm_loop w prev limit i l)) (lm_best_len (lm_loop w prev limit i l))"
  using assms
proof (induction w prev limit i l rule: lm_loop.induct)
  case (1 w prev limit i l)
  obtain full l1 where t: "lm_try w i l = (full, l1)" by fastforce
  note tried = lm_try_found [OF t]
  define l2 where "l2 = l1\<lparr>lm_cur_match := prev (js_and (lm_cur_match l1) 32767)\<rparr>"
  define l3 where "l3 = l2\<lparr>lm_chain_length := lm_chain_length l2 - 1\<rparr>"
  have eq: "lm_loop w prev limit i l =
      (if full then l1
       else if limit < lm_cur_match l2 then
         if lm_chain_length l3 \<noteq> 0 \<and> lm_chain_length l3 > 0 then lm_loop w prev limit i l3 else l3
       else l2)"
    by (subst lm_loop.simps) (simp add: t l2_def l3_def Let_def)
  have sel: "lm_best_len l2 = lm_best_len l1" "lm_match_start l2 = lm_match_start l1"
    "lm_best_len l3 = lm_best_len l1" "lm_match_start l3 = lm_match_start l1"
    "lm_cur_match l3 = lm_cur_match l2" "lm_cur_match l2 = prev (js_and (lm_cur_match l) 32767)"
    by (simp_all add: l2_def l3_def tried(1))
  show ?case
  proof (cases "\<not> full \<and> limit < lm_cur_match l2 \<and> lm_chain_length l3 \<noteq> 0 \<and> lm_chain_length l3 > 0")
    case True
    with 1(2,3) sel have "Q (lm_cur_match l3)" by metis
    with True have "lm_best_len (lm_loop w prev limit i l3) = lm_best_len l3 \<and>
        lm_match_start (lm_loop w prev limit i l3) = lm_match_start l3 \<or>
      Q (lm_match_start (lm_loop w prev limit i l3)) \<and>
        lm_best_len l3 < lm_best_len (lm_loop w prev limit i l3) \<and>
        lm_best_len (lm_loop w prev limit i l3) \<le> 258 \<and>
        agree w i (lm_match_start (lm_loop w prev limit i l3)) (lm_best_len (lm_loop w prev limit i l3))"
      by (intro 1(1) [OF t [symmetric]]) (auto simp: l2_def l3_def intro: 1(3))
    moreover have "lm_loop w prev limit i l = lm_loop w prev limit i l3" using True by (simp add: eq)
    ultimately show ?thesis using tried(3) sel(3,4) 1(2) by auto
  next
    case False
    then have "lm_best_len (lm_loop w prev limit i l) = lm_best_len l1"
      "lm_match_start (lm_loop w prev limit i l) = lm_match_start l1"
      by (auto simp: eq sel)
    with tried(3) 1(2) show ?thesis by auto
  qed
qed

end
