(* ===== verification/Deflate_Flush.thy ===== *)
theory Deflate_Flush
  imports Deflate_Hash
begin

text \<open>
  What \<open>zip_flush_block\<close> leaves alone: the window, the position in it and the matcher's variables.
  Building and sending trees only touches the fields of \<open>tree_state\<close>, sending tokens only those of
  \<open>out_state\<close>, and \<open>zip_init_block\<close> empties the token buffers.
\<close>

lemma tree_more_set [simp]:
  "tree_state.more (set_tree r t s) = tree_state.more s"
  "tree_state.more (set_desc d e s) = tree_state.more s"
  by (cases r; simp) (cases d; simp)

lemmas tree_more_out = tree_state_more_eq(12)

lemma tree_more_send [simp]:
  "tree_state.more (zip_send_bits v n s) = tree_state.more s"
  "tree_state.more (zip_bi_windup s) = tree_state.more s"
  "tree_state.more (zip_put_short w s) = tree_state.more s"
  "tree_state.more (zip_put_byte w s) = tree_state.more s"
  "tree_state.more (zip_SEND_CODE c t s) = tree_state.more s"
  by (rule tree_more_out, simp add: zip_send_bits_frame zip_bi_windup_frame zip_put_short_frame
      zip_put_byte_frame zip_SEND_CODE_def)+

lemma tree_more_Let:
  "(\<And>x. x = a \<Longrightarrow> tree_state.more (f x) = m) \<Longrightarrow> tree_state.more (let x = a in f x) = m"
  by simp

lemma tree_more_gen [simp]:
  "tree_state.more (zip_gen_bitlen d s) = tree_state.more s"
  "tree_state.more (zip_gen_codes r m s) = tree_state.more s"
  "tree_state.more (zip_scan_tree r m s) = tree_state.more s"
  by (simp_all add: zip_gen_bitlen_def zip_gen_codes_def zip_scan_tree_def Let_def)

lemma tree_more_build [simp]: "tree_state.more (zip_build_tree d s) = tree_state.more s"
  unfolding zip_build_tree_def by (intro tree_more_Let) (simp (no_asm_simp))

lemma tree_more_bl [simp]: "tree_state.more (snd (zip_build_bl_tree s)) = tree_state.more s"
  by (simp add: zip_build_bl_tree_def Let_def)

lemma tree_more_for:
  assumes "\<And>i s. tree_state.more (body i s) = tree_state.more s"
  shows "tree_state.more (for_up a b body s) = tree_state.more s"
  by (rule for_up_preserves [where P = "\<lambda>u. tree_state.more u = tree_state.more s"]) (simp_all add: assms)

lemma tree_more_repeat: "tree_state.more (send_repeat k c t s) = tree_state.more s"
proof -
  have "tree_state.more ((zip_SEND_CODE c t ^^ n) s) = tree_state.more s" for n
    by (induction n) simp_all
  then show ?thesis by (simp add: send_repeat_def)
qed

lemma tree_more_step: "tree_state.more (snd (send_step bl t n x)) = tree_state.more (snd x)"
  by (simp add: send_step_def Let_def tree_more_repeat split: prod.splits)

lemma tree_more_trees [simp]:
  "tree_state.more (zip_send_tree t m s) = tree_state.more s"
  "tree_state.more (zip_send_all_trees l d b s) = tree_state.more s"
proof -
  show send: "tree_state.more (zip_send_tree t m s) = tree_state.more s" for t m s
    unfolding zip_send_tree_def
    by (rule for_up_preserves [where P = "\<lambda>x. tree_state.more (snd x) = tree_state.more s"])
      (simp_all add: tree_more_step)
  show "tree_state.more (zip_send_all_trees l d b s) = tree_state.more s"
    by (simp add: zip_send_all_trees_def Let_def send tree_more_for)
qed

lemma tree_more_compress [simp]: "tree_state.more (zip_compress_block l d s) = tree_state.more s"
proof -
  have step: "tree_state.more (snd (snd (snd (compress_step l d i x)))) = tree_state.more (snd (snd (snd x)))" for i x
    by (simp add: compress_step_def Let_def split: prod.splits)
  have "tree_state.more (snd (snd (snd (for_up 0 n (compress_step l d) (0, 0, 0, s))))) = tree_state.more s" for n
    by (intro for_up_preserves [where P = "\<lambda>x. tree_state.more (snd (snd (snd x))) = tree_state.more s"])
      (simp_all only: step snd_conv)
  then show ?thesis by (simp add: zip_compress_block_def Let_def)
qed

lemma tree_more_stored [simp]: "tree_state.more (send_stored n eof s) = tree_state.more s"
  by (simp add: send_stored_def Let_def tree_more_for)

text \<open>The variables outside the trees and the token buffers.\<close>

lemma block_fields_more:
  assumes "tree_state.more s = tree_state.more s'"
  shows "zip_window s = zip_window s'" "zip_strstart s = zip_strstart s'"
    "zip_block_start s = zip_block_start s'" "zip_compr_level s = zip_compr_level s'"
    "block_state.more s = block_state.more s'"
  using assms by (cases s; cases s'; simp)+

lemma bufs_hold_more:
  assumes "tree_state.more s = tree_state.more s'"
  shows "bufs_hold ts s = bufs_hold ts s'"
  using assms by (cases s; cases s'; simp add: bufs_hold_def)

lemma init_block_frame:
  "zip_window (zip_init_block s) = zip_window s" "zip_strstart (zip_init_block s) = zip_strstart s"
  "zip_block_start (zip_init_block s) = zip_block_start s"
  "zip_compr_level (zip_init_block s) = zip_compr_level s"
  "block_state.more (zip_init_block s) = block_state.more s"
  by (simp_all add: zip_init_block_def Let_def)

lemma flush_block_shape:
  "\<exists>u. tree_state.more u = tree_state.more
      (s\<lparr>zip_flag_buf := (zip_flag_buf s)(zip_last_flags s := zip_flags s)\<rparr>) \<and>
    zip_flush_block eof s = (if eof \<noteq> 0 then zip_bi_windup (zip_init_block u) else zip_init_block u)"
proof -
  define s1 where "s1 = s\<lparr>zip_flag_buf := (zip_flag_buf s)(zip_last_flags s := zip_flags s)\<rparr>"
  obtain m s2 where bl: "zip_build_bl_tree (zip_build_tree D_desc (zip_build_tree L_desc s1)) = (m, s2)"
    by fastforce
  then have "tree_state.more s2 = tree_state.more s1"
    using tree_more_bl [of "zip_build_tree D_desc (zip_build_tree L_desc s1)"] by simp
  then show ?thesis
    unfolding zip_flush_block_def Let_def s1_def [symmetric] bl prod.case
    by - (rule exI, rule conjI [rotated], rule refl, simp)
qed

lemma flush_block_frame:
  "zip_window (zip_flush_block eof s) = zip_window s"
  "zip_strstart (zip_flush_block eof s) = zip_strstart s"
  "zip_block_start (zip_flush_block eof s) = zip_block_start s"
  "zip_compr_level (zip_flush_block eof s) = zip_compr_level s"
  "block_state.more (zip_flush_block eof s) = block_state.more s"
  "bufs_hold [] (zip_flush_block eof s)"
proof -
  from flush_block_shape [of s eof] obtain u where
    u: "tree_state.more u = tree_state.more (s\<lparr>zip_flag_buf := (zip_flag_buf s)(zip_last_flags s := zip_flags s)\<rparr>)"
    and f: "zip_flush_block eof s = (if eof \<noteq> 0 then zip_bi_windup (zip_init_block u) else zip_init_block u)"
    by blast
  have w: "tree_state.more (zip_flush_block eof s) = tree_state.more (zip_init_block u)"
    by (simp add: f)
  note fields = block_fields_more [OF w, unfolded init_block_frame] block_fields_more [OF u]
  show "zip_window (zip_flush_block eof s) = zip_window s"
    "zip_strstart (zip_flush_block eof s) = zip_strstart s"
    "zip_block_start (zip_flush_block eof s) = zip_block_start s"
    "zip_compr_level (zip_flush_block eof s) = zip_compr_level s"
    "block_state.more (zip_flush_block eof s) = block_state.more s"
    by (simp_all add: fields)
  show "bufs_hold [] (zip_flush_block eof s)"
    using bufs_hold_more [OF w] bufs_hold_init by simp
qed

end
