(* ===== verification/Deflate_Window.thy ===== *)
theory Deflate_Window
  imports Deflate_Flush
begin

text \<open>
  The sliding window against the data: which byte of the input each window element is, that
  \<open>zip_fill_window\<close> and its sliding keep this, and what the hash chains promise of the positions
  they hold.
\<close>

section \<open>The window shows the data\<close>

definition data_byte :: "'a match_state_scheme \<Rightarrow> int \<Rightarrow> int" where
  "data_byte s i = js_and (zip_deflate_data s ! nat i) 255"

text \<open>The position in the data of the window's element 0.\<close>

definition win_base :: "'a match_state_scheme \<Rightarrow> int" where
  "win_base s = zip_deflate_pos s - zip_lookahead s - zip_strstart s"

definition shows_data :: "'a match_state_scheme \<Rightarrow> int \<Rightarrow> int \<Rightarrow> bool" where
  "shows_data s b e \<longleftrightarrow> (\<forall>i. 0 \<le> i \<and> i < e \<longrightarrow> zip_window s i = Some (data_byte s (b + i)))"

definition window_ok :: "'a match_state_scheme \<Rightarrow> bool" where
  "window_ok s \<longleftrightarrow>
     0 \<le> zip_strstart s \<and> 0 \<le> zip_lookahead s \<and> zip_strstart s + zip_lookahead s \<le> 65536 \<and>
     0 \<le> win_base s \<and> zip_deflate_pos s \<le> int (length (zip_deflate_data s)) \<and>
     (zip_eofile s \<longrightarrow> zip_deflate_pos s = int (length (zip_deflate_data s))) \<and>
     shows_data s (win_base s) (zip_strstart s + zip_lookahead s)"

lemma window_okD:
  assumes "window_ok s"
  shows "0 \<le> zip_strstart s" "0 \<le> zip_lookahead s" "zip_strstart s + zip_lookahead s \<le> 65536"
    "0 \<le> win_base s" "zip_deflate_pos s \<le> int (length (zip_deflate_data s))"
    "zip_eofile s \<Longrightarrow> zip_deflate_pos s = int (length (zip_deflate_data s))"
    "shows_data s (win_base s) (zip_strstart s + zip_lookahead s)"
  using assms by (simp_all add: window_ok_def)

text \<open>Reading stores the next bytes of the data.\<close>

lemma read_buff_result:
  assumes "zip_read_buff offset n s = (k, s')" "0 \<le> zip_deflate_pos s"
  shows "k = max 0 (min n (int (length (zip_deflate_data s)) - zip_deflate_pos s))"
    and "s' = s\<lparr>zip_window := (\<lambda>i. if offset \<le> i \<and> i < offset + k
                then Some (data_byte s (zip_deflate_pos s + (i - offset))) else zip_window s i),
              zip_deflate_pos := zip_deflate_pos s + k\<rparr>"
proof -
  let ?body = "\<lambda>i s. s\<lparr>zip_window := (zip_window s)(offset + i :=
                 Some (js_and (zip_deflate_data s ! nat (zip_deflate_pos s)) 255)),
              zip_deflate_pos := zip_deflate_pos s + 1\<rparr>"
  let ?r = "\<lambda>j. s\<lparr>zip_window := (\<lambda>i. if offset \<le> i \<and> i < offset + j
                then Some (data_byte s (zip_deflate_pos s + (i - offset))) else zip_window s i),
              zip_deflate_pos := zip_deflate_pos s + j\<rparr>"
  show k: "k = max 0 (min n (int (length (zip_deflate_data s)) - zip_deflate_pos s))"
    using assms(1) by (simp add: zip_read_buff_def Let_def)
  have "for_up 0 k ?body s = ?r k"
  proof (rule for_up_invariant [where P = "\<lambda>j u. u = ?r j"])
    have "(\<lambda>i. if offset \<le> i \<and> i < offset + 0
        then Some (data_byte s (zip_deflate_pos s + (i - offset))) else zip_window s i) = zip_window s"
      by (auto simp: fun_eq_iff)
    then show "s = ?r 0" by simp
    show "?body j u = ?r (j + 1)" if "0 \<le> j" "j < k" "u = ?r j" for j u
      using that by (auto simp: data_byte_def fun_eq_iff)
  qed (simp add: k)
  moreover have "s' = for_up 0 k ?body s"
    using assms(1) k by (simp add: zip_read_buff_def Let_def)
  ultimately show "s' = ?r k" by simp
qed

text \<open>Sliding moves the upper half down, and every link with it.\<close>

lemma slide_window_result:
  "slide_window s = s\<lparr>
     zip_window := (\<lambda>i. if 0 \<le> i \<and> i < 32768 then zip_window s (i + 32768) else zip_window s i),
     zip_match_start := zip_match_start s - 32768, zip_strstart := zip_strstart s - 32768,
     zip_block_start := zip_block_start s - 32768,
     zip_prev := (\<lambda>n. if 0 \<le> n \<and> n < 32768 + 8192 then slide_link (zip_prev s n) else zip_prev s n)\<rparr>"
proof -
  have win: "for_up 0 32768 (\<lambda>n w. w(n := w (n + 32768))) w =
      (\<lambda>i. if 0 \<le> i \<and> i < 32768 then w (i + 32768) else w i)" for w :: js_window
    by (rule for_up_invariant [where P = "\<lambda>j u. u = (\<lambda>i. if 0 \<le> i \<and> i < j then w (i + 32768) else w i)"])
      (auto simp: fun_eq_iff)
  have heads: "for_up 0 8192 (\<lambda>n s. zip_head2 n (slide_link (zip_head1 n s)) s) u = u\<lparr>zip_prev :=
      (\<lambda>n. if 32768 \<le> n \<and> n < 32768 + 8192 then slide_link (zip_prev u n) else zip_prev u n)\<rparr>"
    for u :: "'a match_state_scheme"
  proof (rule for_up_invariant [where P = "\<lambda>j v. v = u\<lparr>zip_prev :=
      (\<lambda>n. if 32768 \<le> n \<and> n < 32768 + j then slide_link (zip_prev u n) else zip_prev u n)\<rparr>"])
    have "(\<lambda>n. if 32768 \<le> n \<and> n < 32768 + 0 then slide_link (zip_prev u n) else zip_prev u n) = zip_prev u"
      by (auto simp: fun_eq_iff)
    then show "u = u\<lparr>zip_prev :=
      (\<lambda>n. if 32768 \<le> n \<and> n < 32768 + 0 then slide_link (zip_prev u n) else zip_prev u n)\<rparr>" by simp
  qed (auto simp: zip_head1_def zip_head2_def fun_eq_iff)
  have links: "for_up 0 32768 (\<lambda>n s. s\<lparr>zip_prev := (zip_prev s)(n := slide_link (zip_prev s n))\<rparr>) u =
      u\<lparr>zip_prev := (\<lambda>n. if 0 \<le> n \<and> n < 32768 then slide_link (zip_prev u n) else zip_prev u n)\<rparr>"
    for u :: "'a match_state_scheme"
  proof (rule for_up_invariant [where P = "\<lambda>j v. v = u\<lparr>zip_prev :=
      (\<lambda>n. if 0 \<le> n \<and> n < j then slide_link (zip_prev u n) else zip_prev u n)\<rparr>"])
    have "(\<lambda>n. if 0 \<le> n \<and> n < 0 then slide_link (zip_prev u n) else zip_prev u n) = zip_prev u"
      by (auto simp: fun_eq_iff)
    then show "u = u\<lparr>zip_prev :=
      (\<lambda>n. if 0 \<le> n \<and> n < 0 then slide_link (zip_prev u n) else zip_prev u n)\<rparr>" by simp
  qed (auto simp: fun_eq_iff)
  have "(\<lambda>n. if 0 \<le> n \<and> n < 32768
        then slide_link (if 32768 \<le> n \<and> n < 32768 + 8192 then slide_link (p n) else p n)
        else if 32768 \<le> n \<and> n < 32768 + 8192 then slide_link (p n) else p n) =
      (\<lambda>n::int. if 0 \<le> n \<and> n < 32768 + 8192 then slide_link (p n) else p n)" for p
    by (auto simp: fun_eq_iff)
  then show ?thesis
    unfolding slide_window_def Let_def heads links win by (simp cong: if_cong)
qed

section \<open>What the chains promise\<close>

lemma hash3_cong:
  assumes "w i = w' k" "w (i + 1) = w' (k + 1)" "w (i + 2) = w' (k + 2)"
  shows "hash3 w i = hash3 w' k"
  using assms by (simp add: hash3_def hash2_def)

lemma hash2_cong: "w i = w' k \<Longrightarrow> w (i + 1) = w' (k + 1) \<Longrightarrow> hash2 w i = hash2 w' k"
  by (simp add: hash2_def)

text \<open>
  \<open>I\<close> is the set of positions inserted so far, \<open>e\<close> the end of the data in the window.  Positions are
  inserted before their three bytes have been read only at the end of the input, when the window no
  longer changes.
\<close>

definition inserted :: "int set \<Rightarrow> int \<Rightarrow> 'a match_state_scheme \<Rightarrow> bool" where
  "inserted I e s \<longleftrightarrow> (\<forall>p \<in> I. 0 \<le> p \<and> p < zip_strstart s \<and> (\<not> zip_eofile s \<longrightarrow> p + 2 < e))"

definition heads :: "int set \<Rightarrow> 'a match_state_scheme \<Rightarrow> bool" where
  "heads I s \<longleftrightarrow> (\<forall>h. 0 \<le> h \<and> h < 8192 \<and> zip_prev s (32768 + h) \<noteq> 0 \<longrightarrow>
     zip_prev s (32768 + h) \<in> I \<and> hash3 (zip_window s) (zip_prev s (32768 + h)) = h)"

definition link_ok :: "int set \<Rightarrow> 'a match_state_scheme \<Rightarrow> int \<Rightarrow> bool" where
  "link_ok I s p \<longleftrightarrow> (0 < zip_prev s (p mod 32768) \<longrightarrow>
     zip_prev s (p mod 32768) \<in> I \<and> zip_prev s (p mod 32768) < p \<and>
     hash3 (zip_window s) (zip_prev s (p mod 32768)) = hash3 (zip_window s) p)"

definition links :: "int set \<Rightarrow> 'a match_state_scheme \<Rightarrow> bool" where
  "links I s \<longleftrightarrow> (\<forall>p \<in> I. zip_strstart s - p < 32768 \<longrightarrow> link_ok I s p)"

definition rolling :: "'a match_state_scheme \<Rightarrow> bool" where
  "rolling s \<longleftrightarrow> 0 \<le> zip_ins_h s \<and> zip_ins_h s < 8192 \<and>
     zip_ins_h s mod 256 = hash2 (zip_window s) (zip_strstart s) mod 256"

definition hashed :: "int set \<Rightarrow> int \<Rightarrow> 'a match_state_scheme \<Rightarrow> bool" where
  "hashed I e s \<longleftrightarrow> inserted I e s \<and> heads I s \<and> links I s \<and> rolling s"

text \<open>A window that grows at its end keeps all this.\<close>

lemma hashed_grow:
  assumes h: "hashed I e s" and eof: "\<not> zip_eofile s" and e: "e \<le> e'" "zip_strstart s + 2 \<le> e"
    and w: "\<And>i. 0 \<le> i \<Longrightarrow> i < e \<Longrightarrow> zip_window s' i = zip_window s i" and s: "0 \<le> zip_strstart s"
    and eq: "zip_prev s' = zip_prev s" "zip_ins_h s' = zip_ins_h s" "zip_strstart s' = zip_strstart s"
  shows "hashed I e' s'"
proof -
  from h have p: "0 \<le> p" "p < zip_strstart s" "p + 2 < e" if "p \<in> I" for p
    using that eof by (auto simp: hashed_def inserted_def)
  then have h3: "hash3 (zip_window s') p = hash3 (zip_window s) p" if "p \<in> I" for p
    using that by (intro hash3_cong w) fastforce+
  have h2: "hash2 (zip_window s') (zip_strstart s) = hash2 (zip_window s) (zip_strstart s)"
    using e s by (intro hash2_cong w) simp_all
  have "link_ok I s' q" if "link_ok I s q" "q \<in> I" for q
    using that h3 by (auto simp: link_ok_def eq)
  then have "links I s'" using h by (simp add: hashed_def links_def eq)
  moreover have "heads I s'" using h h3 by (simp add: hashed_def heads_def eq)
  moreover have "inserted I e' s'" unfolding inserted_def using p e(1) by (fastforce simp: eq)
  moreover have "rolling s'" using h h2 by (simp add: hashed_def rolling_def eq)
  ultimately show ?thesis by (simp add: hashed_def)
qed

lemma slide_link_pos: "0 < slide_link m \<longleftrightarrow> 32768 < m" "0 < slide_link m \<Longrightarrow> slide_link m = m - 32768"
  by (auto simp: slide_link_def split: if_splits)

lemma hashed_slide:
  assumes h: "hashed I (zip_strstart s + zip_lookahead s) s" and eof: "\<not> zip_eofile s"
    and ok: "window_ok s" and s: "32768 \<le> zip_strstart s" "2 \<le> zip_lookahead s"
  shows "hashed ((\<lambda>p. p - 32768) ` {p \<in> I. 32768 \<le> p})
      (zip_strstart s + zip_lookahead s - 32768) (slide_window s)"
proof -
  let ?J = "(\<lambda>p. p - 32768) ` {p \<in> I. 32768 \<le> p}" and ?s = "slide_window s"
  note slid = slide_window_result [of s]
  let ?e = "zip_strstart s + zip_lookahead s"
  have e: "?e \<le> 65536" using ok by (simp add: window_ok_def)
  have I: "0 \<le> p" "p < zip_strstart s" "p + 2 < ?e" if "p \<in> I" for p
    using that h eof by (auto simp: hashed_def inserted_def)
  have w: "zip_window ?s (i - 32768) = zip_window s i" if "32768 \<le> i" "i < ?e" for i
    using that e by (simp add: slid)
  have w': "zip_window ?s (i - 32768 + k) = zip_window s (i + k)"
    if "32768 \<le> i" "0 \<le> k" "i + k < ?e" for i k
    using w [of "i + k"] that by (simp add: algebra_simps)
  have h3: "hash3 (zip_window ?s) (p - 32768) = hash3 (zip_window s) p" if "p \<in> I" "32768 \<le> p" for p
    using I [OF that(1)] that(2) w [of p] w' [of p 1] w' [of p 2] by (intro hash3_cong) simp_all
  have J: "q \<in> ?J \<longleftrightarrow> q + 32768 \<in> I \<and> 0 \<le> q" for q
    by (auto simp: image_iff)
  have prev: "zip_prev ?s n = slide_link (zip_prev s n)" if "0 \<le> n" "n < 40960" for n
    using that by (simp add: slid)
  have start: "zip_strstart ?s = zip_strstart s - 32768" "zip_eofile ?s = zip_eofile s"
    "zip_ins_h ?s = zip_ins_h s" by (simp_all add: slid)
  have "inserted ?J (?e - 32768) ?s"
    unfolding inserted_def J start using I by fastforce
  moreover have "heads ?J ?s"
    unfolding heads_def
  proof (intro allI impI)
    fix k :: int assume k: "0 \<le> k \<and> k < 8192 \<and> zip_prev ?s (32768 + k) \<noteq> 0"
    let ?m = "zip_prev s (32768 + k)"
    have p: "zip_prev ?s (32768 + k) = slide_link ?m" using k by (simp add: prev)
    with k have m: "32768 < ?m" "slide_link ?m = ?m - 32768"
      by (auto simp: slide_link_def split: if_splits)
    with h k have "?m \<in> I" "hash3 (zip_window s) ?m = k" by (auto simp: hashed_def heads_def)
    with m show "zip_prev ?s (32768 + k) \<in> ?J \<and> hash3 (zip_window ?s) (zip_prev ?s (32768 + k)) = k"
      unfolding p J using h3 [of ?m] by simp
  qed
  moreover have "links ?J ?s"
    unfolding links_def
  proof (intro ballI impI)
    fix q assume q: "q \<in> ?J" "zip_strstart ?s - q < 32768"
    let ?p = "q + 32768" let ?m = "zip_prev s (?p mod 32768)"
    from q have p: "?p \<in> I" "0 \<le> q" "zip_strstart s - ?p < 32768" by (simp_all add: J start)
    with h have l: "link_ok I s ?p" by (simp add: hashed_def links_def)
    have eq: "zip_prev ?s (q mod 32768) = slide_link ?m" by (simp add: prev)
    have hq: "hash3 (zip_window ?s) q = hash3 (zip_window s) ?p" using h3 [OF p(1)] p(2) by simp
    show "link_ok ?J ?s q"
      unfolding link_ok_def eq
    proof (intro impI)
      assume "0 < slide_link ?m"
      then have m: "32768 < ?m" "slide_link ?m = ?m - 32768" using slide_link_pos by metis+
      with l have "?m \<in> I" "?m < ?p" "hash3 (zip_window s) ?m = hash3 (zip_window s) ?p"
        by (simp_all add: link_ok_def)
      with m hq h3 [of ?m] show "slide_link ?m \<in> ?J \<and> slide_link ?m < q \<and>
          hash3 (zip_window ?s) (slide_link ?m) = hash3 (zip_window ?s) q"
        unfolding J by simp
    qed
  qed
  moreover have "hash2 (zip_window ?s) (zip_strstart s - 32768) = hash2 (zip_window s) (zip_strstart s)"
    using s w [of "zip_strstart s"] w' [of "zip_strstart s" 1] by (intro hash2_cong) simp_all
  then have "rolling ?s" using h by (simp add: hashed_def rolling_def start)
  ultimately show ?thesis by (simp add: hashed_def)
qed

section \<open>Filling the window\<close>

lemma window_ok_slide:
  assumes ok: "window_ok s" and s: "32768 \<le> zip_strstart s"
  shows "window_ok (slide_window s)" "win_base (slide_window s) = win_base s + 32768"
proof -
  let ?s = "slide_window s"
  note slid = slide_window_result [of s]
  note d = window_okD [OF ok]
  show base: "win_base ?s = win_base s + 32768" by (simp add: win_base_def slid)
  have "shows_data ?s (win_base s + 32768) (zip_strstart s - 32768 + zip_lookahead s)"
    unfolding shows_data_def
  proof (intro allI impI)
    fix i assume i: "0 \<le> i \<and> i < zip_strstart s - 32768 + zip_lookahead s"
    then have "zip_window s (i + 32768) = Some (data_byte s (win_base s + (i + 32768)))"
      using d(7) by (simp add: shows_data_def)
    with i d(3) show "zip_window ?s i = Some (data_byte ?s (win_base s + 32768 + i))"
      by (simp add: slid data_byte_def algebra_simps)
  qed
  with d s base show "window_ok ?s" by (simp add: window_ok_def) (simp add: slid)
qed

definition read_more :: "int \<Rightarrow> 'a match_state_scheme \<Rightarrow> 'a match_state_scheme" where
  "read_more room s =
     (let (n, s) = zip_read_buff (zip_strstart s + zip_lookahead s) room s
      in if n \<le> 0 then s\<lparr>zip_eofile := True\<rparr> else s\<lparr>zip_lookahead := zip_lookahead s + n\<rparr>)"

lemma window_ok_read:
  assumes ok: "window_ok s" and eof: "\<not> zip_eofile s"
    and room: "0 < room" "zip_strstart s + zip_lookahead s + room \<le> 65536"
  defines "s' \<equiv> read_more room s"
  shows "window_ok s'" "win_base s' = win_base s" "zip_strstart s' = zip_strstart s"
    "zip_prev s' = zip_prev s" "zip_ins_h s' = zip_ins_h s" "zip_lookahead s \<le> zip_lookahead s'"
    "\<And>i. 0 \<le> i \<Longrightarrow> i < zip_strstart s + zip_lookahead s \<Longrightarrow> zip_window s' i = zip_window s i"
    "zip_deflate_data s' = zip_deflate_data s" "zip_match_start s' = zip_match_start s"
    "zip_block_start s' = zip_block_start s"
proof -
  note d = window_okD [OF ok]
  let ?e = "zip_strstart s + zip_lookahead s"
  have pos: "zip_deflate_pos s = win_base s + ?e" by (simp add: win_base_def)
  with d have pos0: "0 \<le> zip_deflate_pos s" by simp
  obtain k u where r: "zip_read_buff ?e room s = (k, u)" by fastforce
  have k: "k = max 0 (min room (int (length (zip_deflate_data s)) - zip_deflate_pos s))"
    by (rule read_buff_result(1) [OF r pos0])
  have u: "u = s\<lparr>zip_window := (\<lambda>i. if ?e \<le> i \<and> i < ?e + k
                then Some (data_byte s (zip_deflate_pos s + (i - ?e))) else zip_window s i),
              zip_deflate_pos := zip_deflate_pos s + k\<rparr>"
    by (rule read_buff_result(2) [OF r pos0])
  have s': "s' = (if k \<le> 0 then u\<lparr>zip_eofile := True\<rparr> else u\<lparr>zip_lookahead := zip_lookahead u + k\<rparr>)"
    by (simp add: s'_def read_more_def r)
  have k0: "0 \<le> k" "k \<le> int (length (zip_deflate_data s)) - zip_deflate_pos s" "k \<le> room"
    using k d(5) room(1) by simp_all
  have fields: "zip_strstart s' = zip_strstart s" "zip_lookahead s' = zip_lookahead s + k"
    "zip_deflate_pos s' = zip_deflate_pos s + k" "zip_deflate_data s' = zip_deflate_data s"
    "zip_eofile s' \<longleftrightarrow> k \<le> 0" "zip_window s' = zip_window u"
    using k0(1) eof by (simp_all add: s' u)
  show base: "win_base s' = win_base s" by (simp add: win_base_def fields)
  have "shows_data s' (win_base s) (?e + k)"
    unfolding shows_data_def
  proof (intro allI impI)
    fix i assume i: "0 \<le> i \<and> i < ?e + k"
    have "zip_window u i = Some (data_byte s (win_base s + i))"
    proof (cases "i < ?e")
      case True
      with i d(7) show ?thesis by (simp add: u shows_data_def)
    next
      case False
      have "zip_deflate_pos s + (i - ?e) = win_base s + i" using pos by simp
      moreover from False i have "zip_window u i = Some (data_byte s (zip_deflate_pos s + (i - ?e)))"
        by (simp add: u)
      ultimately show ?thesis by (simp only:)
    qed
    then show "zip_window s' i = Some (data_byte s' (win_base s + i))"
      by (simp add: fields data_byte_def)
  qed
  moreover have "?e + k \<le> 65536" using k0 room by simp
  moreover have "k \<le> 0 \<Longrightarrow> zip_deflate_pos s = int (length (zip_deflate_data s))"
    using k room d(5) by (simp add: max_def min_def split: if_splits)
  ultimately show "window_ok s'"
    unfolding window_ok_def base fields using d(1,2,4,5) k0 by (simp add: add.assoc)
  show "zip_strstart s' = zip_strstart s"
    "zip_prev s' = zip_prev s" "zip_ins_h s' = zip_ins_h s" "zip_lookahead s \<le> zip_lookahead s'"
    "zip_deflate_data s' = zip_deflate_data s" "zip_match_start s' = zip_match_start s"
    "zip_block_start s' = zip_block_start s"
    by (simp_all add: s' u)
  show "zip_window s' i = zip_window s i" if "0 \<le> i" "i < ?e" for i
    using that by (simp add: s' u)
qed

text \<open>
  A round of the matcher leaves at least two bytes ahead, unless the data has ended; filling brings
  this back to a full match and more.  The set of inserted positions moves with the window.
\<close>

definition win_inv :: "'a match_state_scheme \<Rightarrow> bool" where
  "win_inv s \<longleftrightarrow> window_ok s \<and> (zip_eofile s \<or> 2 \<le> zip_lookahead s) \<and>
     (\<exists>I. hashed I (zip_strstart s + zip_lookahead s) s)"

definition win_pos :: "'a match_state_scheme \<Rightarrow> int" where
  "win_pos s = zip_deflate_pos s - zip_lookahead s"

definition match_dist :: "'a match_state_scheme \<Rightarrow> int" where
  "match_dist s = zip_strstart s - zip_match_start s"

definition block_pos :: "'a match_state_scheme \<Rightarrow> int" where
  "block_pos s = win_base s + zip_block_start s"

definition fill_frame :: "'a match_state_scheme \<Rightarrow> 'a match_state_scheme \<Rightarrow> bool" where
  "fill_frame s s' \<longleftrightarrow> win_pos s' = win_pos s \<and> match_dist s' = match_dist s \<and>
     block_pos s' = block_pos s \<and> zip_deflate_data s' = zip_deflate_data s \<and>
     zip_lookahead s \<le> zip_lookahead s' \<and>
     (\<forall>ts. bufs_hold ts s' = bufs_hold ts s) \<and> zip_compr_level s' = zip_compr_level s \<and>
     zip_match_length s' = zip_match_length s \<and> zip_prev_length s' = zip_prev_length s \<and>
     zip_match_available s' = zip_match_available s \<and> zip_qhead s' = zip_qhead s \<and>
     (0 < zip_strstart s \<longrightarrow> 0 < zip_strstart s')"

lemma fill_frame_refl [simp]: "fill_frame s s"
  by (simp add: fill_frame_def)

lemma fill_frame_trans: "fill_frame s t \<Longrightarrow> fill_frame t u \<Longrightarrow> fill_frame s u"
  by (auto simp: fill_frame_def)

lemma fill_window_eq:
  assumes "window_ok s" "\<not> zip_eofile s"
  shows "zip_fill_window s =
    (let s = (if zip_strstart s \<ge> 65274 then slide_window s else s)
     in read_more (65536 - zip_lookahead s - zip_strstart s) s)"
proof -
  from window_okD(3) [OF assms(1)] have "65536 - zip_lookahead s - zip_strstart s \<noteq> -1" by simp
  then show ?thesis
    using assms(2) by (simp add: zip_fill_window_def read_more_def slide_window_result Let_def
      algebra_simps split: prod.splits)
qed

lemma slide_fill_frame: "65274 \<le> zip_strstart s \<Longrightarrow> fill_frame s (slide_window s)"
  by (simp add: fill_frame_def slide_window_result win_pos_def match_dist_def block_pos_def win_base_def
      bufs_hold_def)

lemma read_fill_frame:
  assumes "0 \<le> zip_deflate_pos s"
  shows "fill_frame s (read_more room s)"
proof -
  obtain k u where r: "zip_read_buff (zip_strstart s + zip_lookahead s) room s = (k, u)" by fastforce
  note res = read_buff_result [OF r assms]
  have "0 \<le> k" by (simp add: res(1))
  then show ?thesis
    by (simp add: read_more_def r res(2) fill_frame_def win_pos_def match_dist_def block_pos_def
        win_base_def bufs_hold_def)
qed

lemma win_inv_slide:
  assumes "win_inv s" "\<not> zip_eofile s" "65274 \<le> zip_strstart s"
  shows "win_inv (slide_window s)"
proof -
  from assms obtain I where I: "hashed I (zip_strstart s + zip_lookahead s) s"
    and s: "window_ok s" "2 \<le> zip_lookahead s" by (auto simp: win_inv_def)
  have "hashed ((\<lambda>p. p - 32768) ` {p \<in> I. 32768 \<le> p})
      (zip_strstart s + zip_lookahead s - 32768) (slide_window s)"
    using assms s by (intro hashed_slide [OF I]) simp_all
  moreover have "window_ok (slide_window s)" using assms by (intro window_ok_slide s) simp
  ultimately show ?thesis
    using s by (auto simp: win_inv_def slide_window_result algebra_simps)
qed

lemma win_inv_read:
  assumes "win_inv s" "\<not> zip_eofile s" "0 < room" "zip_strstart s + zip_lookahead s + room \<le> 65536"
  shows "win_inv (read_more room s)"
proof -
  from assms obtain I where I: "hashed I (zip_strstart s + zip_lookahead s) s"
    and s: "window_ok s" "2 \<le> zip_lookahead s" by (auto simp: win_inv_def)
  note r = window_ok_read [OF s(1) assms(2-4)]
  have "hashed I (zip_strstart s + zip_lookahead (read_more room s)) (read_more room s)"
    using r s window_okD [OF s(1)] by (intro hashed_grow [OF I assms(2)]) simp_all
  with r s show ?thesis by (auto simp: win_inv_def)
qed

lemma fill_window_inv:
  assumes "win_inv s" "\<not> zip_eofile s" "zip_lookahead s < 262"
  shows "win_inv (zip_fill_window s)" "fill_frame s (zip_fill_window s)"
proof -
  define u where "u = (if zip_strstart s \<ge> 65274 then slide_window s else s)"
  have u: "win_inv u" using assms win_inv_slide [of s] by (simp add: u_def)
  have frame: "fill_frame s u" by (simp add: u_def slide_fill_frame)
  have ok: "window_ok s" using assms by (simp add: win_inv_def)
  have eq: "zip_fill_window s = read_more (65536 - zip_lookahead u - zip_strstart u) u"
    by (simp add: fill_window_eq [OF ok assms(2)] u_def Let_def)
  have r: "\<not> zip_eofile u" "zip_lookahead u < 262" "zip_strstart u < 65274"
    using assms window_okD(2,3) [OF ok] by (auto simp: u_def slide_window_result)
  then show "win_inv (zip_fill_window s)" unfolding eq by (intro win_inv_read [OF u]) simp_all
  have "window_ok u" using u by (simp add: win_inv_def)
  note d = window_okD [OF this]
  then have "0 \<le> zip_deflate_pos u" by (simp add: win_base_def)
  then show "fill_frame s (zip_fill_window s)"
    unfolding eq by (rule fill_frame_trans [OF frame read_fill_frame])
qed

lemma fill_loop_inv:
  assumes "win_inv s"
  shows "win_inv (fill_loop s) \<and> fill_frame s (fill_loop s) \<and>
    (zip_eofile (fill_loop s) \<or> 262 \<le> zip_lookahead (fill_loop s))"
  using assms
proof (induction s rule: fill_loop.induct)
  case (1 s)
  show ?case
  proof (cases "zip_lookahead s < 262 \<and> \<not> zip_eofile s")
    case True
    then have eq: "fill_loop s = fill_loop (zip_fill_window s)" by (subst fill_loop.simps) simp
    note f = fill_window_inv [OF 1(2) conjunct2 [OF True] conjunct1 [OF True]]
    from 1(1) [OF True f(1)] f(2) show ?thesis unfolding eq by (metis fill_frame_trans)
  next
    case False
    then have "fill_loop s = s" by (subst fill_loop.simps) auto
    with False 1(2) show ?thesis by auto
  qed
qed

end
