(* ===== verification/Deflate_Lz.thy ===== *)
theory Deflate_Lz
  imports Deflate_Window
begin

text \<open>
  What the matchers send: tokens that, expanded one after the other as RFC 1951 does, give back the
  bytes of the text.  The expansion and what a genuine match is come first, then the insertion into
  the hash chains, the longest match, and the tokens of one round.
\<close>

section \<open>Expanding tokens\<close>

text \<open>Copying \<open>n\<close> bytes from \<open>d\<close> bytes back, one at a time: the copy may overlap itself.\<close>

fun lz_copy :: "nat \<Rightarrow> nat \<Rightarrow> int list \<Rightarrow> int list" where
  "lz_copy 0 d xs = xs"
| "lz_copy (Suc n) d xs = lz_copy n d (xs @ [xs ! (length xs - d)])"

fun lz_token :: "token \<Rightarrow> int list \<Rightarrow> int list" where
  "lz_token (Lit c) xs = xs @ [c]"
| "lz_token (Match l d) xs = lz_copy (nat (l + 3)) (nat (d + 1)) xs"

definition lz_expand :: "token list \<Rightarrow> int list \<Rightarrow> int list" where
  "lz_expand ts xs = fold lz_token ts xs"

lemma lz_expand_simps [simp]:
  "lz_expand [] xs = xs" "lz_expand (ts @ us) xs = lz_expand us (lz_expand ts xs)"
  "lz_expand (t # ts) xs = lz_expand ts (lz_token t xs)"
  by (simp_all add: lz_expand_def)

lemma lz_copy_text:
  assumes "p + n \<le> length xs" "1 \<le> d" "d \<le> p" "\<And>j. j < n \<Longrightarrow> xs ! (p + j) = xs ! (p + j - d)"
  shows "lz_copy n d (take p xs) = take (p + n) xs"
  using assms
proof (induction n arbitrary: p)
  case (Suc n)
  have "take p xs ! (p - d) = xs ! p" using Suc.prems(4) [of 0] Suc.prems(2,3) by simp
  then have "take p xs @ [take p xs ! (length (take p xs) - d)] = take (Suc p) xs"
    using Suc.prems(1) by (simp add: take_Suc_conv_app_nth min_def)
  moreover have "lz_copy n d (take (Suc p) xs) = take (Suc p + n) xs"
    using Suc.prems(1-3) Suc.prems(4) [of "Suc j" for j] by (intro Suc.IH) simp_all
  ultimately show ?case by simp
qed simp

section \<open>The text of a block\<close>

definition data_bytes :: "'a match_state_scheme \<Rightarrow> int list" where
  "data_bytes s = map (\<lambda>c. js_and c 255) (zip_deflate_data s)"

lemma length_data_bytes [simp]: "length (data_bytes s) = length (zip_deflate_data s)"
  by (simp add: data_bytes_def)

lemma nth_data_bytes: "i < length (zip_deflate_data s) \<Longrightarrow> data_bytes s ! i = data_byte s (int i)"
  by (simp add: data_bytes_def data_byte_def)

text \<open>The \<open>n\<close> bytes at \<open>p\<close> repeat those \<open>d\<close> bytes before.\<close>

definition match_at :: "'a match_state_scheme \<Rightarrow> int \<Rightarrow> int \<Rightarrow> int \<Rightarrow> bool" where
  "match_at s p n d \<longleftrightarrow> 3 \<le> n \<and> n \<le> 258 \<and> 1 \<le> d \<and> d \<le> 32506 \<and> d \<le> p \<and>
     p + n \<le> int (length (zip_deflate_data s)) \<and>
     (\<forall>j. 0 \<le> j \<and> j < n \<longrightarrow> data_byte s (p + j) = data_byte s (p + j - d))"

text \<open>The buffers hold tokens that turn the first \<open>b\<close> bytes of the text into the first \<open>p\<close>.\<close>

definition block_text :: "'a match_state_scheme \<Rightarrow> int \<Rightarrow> int \<Rightarrow> bool" where
  "block_text s b p \<longleftrightarrow> 0 \<le> b \<and> b \<le> p \<and> p \<le> int (length (zip_deflate_data s)) \<and>
     (\<exists>ts. bufs_hold ts s \<and> (\<forall>t \<in> set ts. tok_ok t) \<and>
        lz_expand ts (take (nat b) (data_bytes s)) = take (nat p) (data_bytes s))"

lemma data_byte_range: "0 \<le> data_byte s i" "data_byte s i \<le> 255"
  by (simp_all add: data_byte_def js_and_ff)

lemma token_text:
  assumes "lz_token t (take (nat p) (data_bytes s)) = take (nat q) (data_bytes s)" "tok_ok t"
    "block_text s b p" "p \<le> q" "q \<le> int (length (zip_deflate_data s))"
    and s': "s' = snd (zip_ct_tally (tok_dist t) (tok_lc t) s)"
  shows "block_text s' b q"
proof -
  from assms(3) obtain ts where ts: "bufs_hold ts s" "\<forall>t \<in> set ts. tok_ok t"
    "lz_expand ts (take (nat b) (data_bytes s)) = take (nat p) (data_bytes s)"
    by (auto simp: block_text_def)
  have "zip_deflate_data s' = zip_deflate_data s"
    by (simp add: s' zip_ct_tally_def tally_flags_def tally_store_def Let_def)
  then have d: "data_bytes s' = data_bytes s" "length (zip_deflate_data s') = length (zip_deflate_data s)"
    by (simp_all add: data_bytes_def)
  have "bufs_hold (ts @ [t]) s'" unfolding s' by (rule tally_bufs [OF ts(1) assms(2)])
  moreover have "lz_expand (ts @ [t]) (take (nat b) (data_bytes s)) = take (nat q) (data_bytes s)"
    by (simp add: ts(3) assms(1))
  moreover have "\<forall>u \<in> set (ts @ [t]). tok_ok u" using ts(2) assms(2) by auto
  moreover have "0 \<le> b" "b \<le> q" using assms(3,4) by (simp_all add: block_text_def)
  ultimately show ?thesis
    using assms(5) unfolding block_text_def d by blast
qed

lemma literal_text:
  assumes "block_text s b p" "0 \<le> p" "p < int (length (zip_deflate_data s))"
  shows "block_text (snd (zip_ct_tally 0 (data_byte s p) s)) b (p + 1)"
proof (rule token_text [where t = "Lit (data_byte s p)", OF _ _ assms(1)])
  have "nat (p + 1) = Suc (nat p)" using assms(2) by simp
  then show "lz_token (Lit (data_byte s p)) (take (nat p) (data_bytes s)) = take (nat (p + 1)) (data_bytes s)"
    using assms(2,3) by (simp add: take_Suc_conv_app_nth nth_data_bytes)
qed (use assms data_byte_range [of s p] in simp_all)

lemma match_text:
  assumes "block_text s b p" "match_at s p n d"
  shows "block_text (snd (zip_ct_tally d (n - 3) s)) b (p + n)"
proof (rule token_text [where t = "Match (n - 3) (d - 1)", OF _ _ assms(1)])
  from assms(2) have m: "3 \<le> n" "n \<le> 258" "1 \<le> d" "d \<le> 32506" "d \<le> p"
     "p + n \<le> int (length (zip_deflate_data s))"
     "\<And>j. 0 \<le> j \<Longrightarrow> j < n \<Longrightarrow> data_byte s (p + j) = data_byte s (p + j - d)"
    by (auto simp: match_at_def)
  have "lz_copy (nat n) (nat d) (take (nat p) (data_bytes s)) = take (nat p + nat n) (data_bytes s)"
  proof (rule lz_copy_text)
    fix j assume j: "j < nat n"
    then have len: "nat p + j < length (zip_deflate_data s)" using m by linarith
    have 1: "int (nat p + j) = p + int j" using m by simp
    have 2: "int (nat p + j - nat d) = p + int j - d" using m by linarith
    show "data_bytes s ! (nat p + j) = data_bytes s ! (nat p + j - nat d)"
      using m(7) [of "int j"] j len by (simp only: nth_data_bytes less_imp_diff_less 1 2)
  qed (use m in auto)
  then show "lz_token (Match (n - 3) (d - 1)) (take (nat p) (data_bytes s)) = take (nat (p + n)) (data_bytes s)"
    using m by (simp add: nat_add_distrib)
  show "tok_ok (Match (n - 3) (d - 1))" using m by simp
  show "p \<le> p + n" "p + n \<le> int (length (zip_deflate_data s))" using m by simp_all
qed simp

section \<open>Inserting strings\<close>

lemma rolling_hash:
  assumes "rolling s"
  shows "update_hash (zip_ins_h s) (zip_window s (zip_strstart s + 2)) = hash3 (zip_window s) (zip_strstart s)"
  using assms hash2_range [of "zip_window s" "zip_strstart s"] unfolding hash3_def rolling_def
  by (intro update_hash_cong) simp_all

lemma insert_result:
  assumes "rolling s" "0 \<le> zip_strstart s"
  defines "h \<equiv> hash3 (zip_window s) (zip_strstart s)"
  shows "zip_INSERT_STRING s = s\<lparr>zip_ins_h := h, zip_hash_head := zip_prev s (32768 + h),
    zip_prev := (zip_prev s)(zip_strstart s mod 32768 := zip_prev s (32768 + h),
      32768 + h := zip_strstart s)\<rparr>"
proof -
  have "zip_strstart s + 3 - 1 = zip_strstart s + 2" by simp
  then show ?thesis
    by (simp only: zip_INSERT_STRING_def Let_def h_def rolling_hash [OF assms(1)])
      (simp add: zip_head1_def zip_head2_def js_and_7fff rolling_hash [OF assms(1)])
qed

lemma mod_window_distinct:
  assumes "0 < a - b" "a - b < (32768::int)"
  shows "a mod 32768 \<noteq> b mod 32768"
proof
  assume "a mod 32768 = b mod 32768"
  then have "(a - b) mod 32768 = 0" by (simp add: mod_eq_dvd_iff)
  with assms show False by (simp add: mod_pos_pos_trivial)
qed

text \<open>The strings inserted before are still linked, and the head found is one of them.\<close>

lemma insert_links:
  assumes "hashed I e s" "0 \<le> zip_strstart s"
  shows "links I (zip_INSERT_STRING s)"
    and "zip_hash_head (zip_INSERT_STRING s) \<noteq> 0 \<Longrightarrow> zip_hash_head (zip_INSERT_STRING s) \<in> I \<and>
      hash3 (zip_window s) (zip_hash_head (zip_INSERT_STRING s)) = hash3 (zip_window s) (zip_strstart s)"
proof -
  let ?h = "hash3 (zip_window s) (zip_strstart s)"
  have r: "rolling s" using assms(1) by (simp add: hashed_def)
  note res = insert_result [OF r assms(2)]
  have h: "0 \<le> ?h" "?h < 8192" by (rule hash3_range)+
  show "zip_hash_head (zip_INSERT_STRING s) \<in> I \<and>
      hash3 (zip_window s) (zip_hash_head (zip_INSERT_STRING s)) = ?h"
    if "zip_hash_head (zip_INSERT_STRING s) \<noteq> 0"
    using that assms(1) h by (simp add: res hashed_def heads_def)
  show "links I (zip_INSERT_STRING s)"
    unfolding links_def
  proof (intro ballI impI)
    fix p assume p: "p \<in> I" "zip_strstart (zip_INSERT_STRING s) - p < 32768"
    then have near: "zip_strstart s - p < 32768" by (simp add: res)
    with p assms(1) have l: "link_ok I s p" by (simp add: hashed_def links_def)
    have "p < zip_strstart s" using p(1) assms(1) by (auto simp: hashed_def inserted_def)
    then have "p mod 32768 \<noteq> zip_strstart s mod 32768"
      using mod_window_distinct [of "zip_strstart s" p] near by auto
    moreover have "p mod 32768 \<noteq> 32768 + ?h"
      using h pos_mod_bound [of 32768 p] by linarith
    ultimately show "link_ok I (zip_INSERT_STRING s) p"
      using l by (simp add: link_ok_def res)
  qed
qed

lemma hashed_insert:
  assumes hs: "hashed I e s" and start: "0 \<le> zip_strstart s" and e: "zip_eofile s \<or> zip_strstart s + 2 < e"
  shows "hashed (insert (zip_strstart s) I) e
      ((zip_INSERT_STRING s)\<lparr>zip_strstart := zip_strstart s + 1\<rparr>)"
proof -
  let ?h = "hash3 (zip_window s) (zip_strstart s)" and ?i = "zip_strstart s"
  let ?s = "(zip_INSERT_STRING s)\<lparr>zip_strstart := zip_strstart s + 1\<rparr>"
  have r: "rolling s" using hs by (simp add: hashed_def)
  note res = insert_result [OF r start]
  have h: "0 \<le> ?h" "?h < 8192" by (rule hash3_range)+
  have head: "zip_prev s (32768 + k) \<in> I \<and> hash3 (zip_window s) (zip_prev s (32768 + k)) = k"
    if "0 \<le> k" "k < 8192" "zip_prev s (32768 + k) \<noteq> 0" for k
    using that hs by (simp add: hashed_def heads_def)
  have I: "0 \<le> p" "p < ?i" if "p \<in> I" for p
    using that hs by (auto simp: hashed_def inserted_def)
  have low: "?i mod 32768 \<noteq> 32768 + k" if "0 \<le> k" for k
    using that pos_mod_bound [of 32768 ?i] by linarith
  have "inserted (insert ?i I) e ?s"
    using hs start e by (auto simp: hashed_def inserted_def res)
  moreover have "heads (insert ?i I) ?s"
    unfolding heads_def
  proof (intro allI impI)
    fix k :: int assume k: "0 \<le> k \<and> k < 8192 \<and> zip_prev ?s (32768 + k) \<noteq> 0"
    show "zip_prev ?s (32768 + k) \<in> insert ?i I \<and> hash3 (zip_window ?s) (zip_prev ?s (32768 + k)) = k"
    proof (cases "k = ?h")
      case False
      then have "zip_prev ?s (32768 + k) = zip_prev s (32768 + k)"
        using k low [of k] by (simp add: res)
      with k head [of k] show ?thesis by (simp add: res)
    qed (simp add: res)
  qed
  moreover have "links (insert ?i I) ?s"
    unfolding links_def
  proof (intro ballI impI)
    fix p assume p: "p \<in> insert ?i I" "zip_strstart ?s - p < 32768"
    have "p mod 32768 \<noteq> 32768 + ?h" using h pos_mod_bound [of 32768 p] by linarith
    then have prev: "zip_prev ?s (p mod 32768) = zip_prev (zip_INSERT_STRING s) (p mod 32768)" by simp
    show "link_ok (insert ?i I) ?s p"
    proof (cases "p = ?i")
      case True
      have "zip_prev ?s (p mod 32768) = zip_prev s (32768 + ?h)"
        using low [OF h(1)] by (simp add: True res)
      then show ?thesis
        using head [OF h] I True by (auto simp: link_ok_def) (auto simp: res)
    next
      case False
      with p have "p \<in> I" "zip_strstart (zip_INSERT_STRING s) - p < 32768" by (simp_all add: res)
      with insert_links(1) [OF hs start] have "link_ok I (zip_INSERT_STRING s) p" by (simp add: links_def)
      then show ?thesis by (simp add: link_ok_def) 
    qed
  qed
  moreover have "rolling ?s"
    using h hash3_next [of "zip_window s" ?i] by (simp add: rolling_def res)
  ultimately show ?thesis by (simp add: hashed_def)
qed

end
