(* ===== verification/Deflate_Parse.thy ===== *)
theory Deflate_Parse
  imports Deflate_Lz
begin

text \<open>
  The two matchers, round by round: every token they record is the next byte of the text or a
  genuine repetition of earlier text, and every round makes progress.
\<close>

section \<open>What a search finds\<close>

lemma hashed_cong:
  assumes "zip_prev s' = zip_prev s" "zip_window s' = zip_window s" "zip_ins_h s' = zip_ins_h s"
    "zip_strstart s' = zip_strstart s" "zip_eofile s' = zip_eofile s"
  shows "hashed I e s' = hashed I e s"
  using assms by (simp add: hashed_def inserted_def heads_def links_def link_ok_def rolling_def)

definition candidate :: "int set \<Rightarrow> 'a match_state_scheme \<Rightarrow> int \<Rightarrow> bool" where
  "candidate I s m \<longleftrightarrow> m \<in> I \<and> 0 < m \<and> m < zip_strstart s \<and> zip_strstart s - m \<le> 32506 \<and>
     hash3 (zip_window s) m = hash3 (zip_window s) (zip_strstart s)"

lemma longest_match_found:
  assumes l: "links I s" and I: "\<And>p. p \<in> I \<Longrightarrow> 0 \<le> p \<and> p < zip_strstart s"
    and c: "candidate I s cur"
  shows "\<exists>n m. zip_longest_match cur s = (n, s\<lparr>zip_match_start := m\<rparr>) \<and>
    (n = zip_prev_length s \<or>
     zip_prev_length s < n \<and> n \<le> 258 \<and> candidate I s m \<and> agree (zip_window s) (zip_strstart s) m n)"
proof -
  let ?limit = "if zip_strstart s > 32506 then zip_strstart s - 32506 else 0"
  have step: "candidate I s (zip_prev s (js_and m 32767))"
    if m: "candidate I s m" and lim: "?limit < zip_prev s (js_and m 32767)" for m
  proof -
    let ?q = "zip_prev s (js_and m 32767)"
    have mod: "js_and m 32767 = m mod 32768" by (simp add: js_and_7fff)
    have q: "0 < ?q" "zip_strstart s - ?q \<le> 32506" using lim by (auto split: if_splits)
    have "link_ok I s m" using l m by (auto simp: links_def candidate_def)
    with q(1) have "?q \<in> I" "?q < m" "hash3 (zip_window s) ?q = hash3 (zip_window s) m"
      by (simp_all add: link_ok_def mod)
    with m q show ?thesis by (simp add: candidate_def)
  qed
  define l0 where "l0 = \<lparr>lm_cur_match = cur,
    lm_chain_length = (if zip_prev_length s \<ge> zip_good_match s
      then js_shr (zip_max_chain_length s) 2 else zip_max_chain_length s),
    lm_best_len = zip_prev_length s, lm_match_start = zip_match_start s,
    lm_scan_end1 = zip_window s (zip_strstart s + zip_prev_length s - 1),
    lm_scan_end = zip_window s (zip_strstart s + zip_prev_length s)\<rparr>"
  define r where "r = lm_loop (zip_window s) (zip_prev s) ?limit (zip_strstart s) l0"
  have "lm_best_len r = lm_best_len l0 \<and> lm_match_start r = lm_match_start l0 \<or>
    candidate I s (lm_match_start r) \<and> lm_best_len l0 < lm_best_len r \<and> lm_best_len r \<le> 258 \<and>
    agree (zip_window s) (zip_strstart s) (lm_match_start r) (lm_best_len r)"
    unfolding r_def by (rule lm_loop_found [where Q = "candidate I s"]) (simp add: l0_def c, rule step)
  moreover have "lm_best_len l0 = zip_prev_length s" by (simp add: l0_def)
  moreover have "zip_longest_match cur s = (lm_best_len r, s\<lparr>zip_match_start := lm_match_start r\<rparr>)"
    by (simp add: zip_longest_match_def Let_def r_def l0_def)
  ultimately show ?thesis by auto
qed

lemma data_byte_mod [simp]: "data_byte s i mod 256 = data_byte s i"
  using data_byte_range [of s i] by (simp add: mod_pos_pos_trivial)

text \<open>A match as long as the bytes that are there is one of the data.\<close>

lemma candidate_match:
  assumes ok: "window_ok s" and c: "candidate I s m" and a: "agree (zip_window s) (zip_strstart s) m n"
    and n: "3 \<le> n" "n \<le> 258" "n \<le> zip_lookahead s"
  shows "match_at s (win_pos s) n (zip_strstart s - m)"
proof -
  let ?i = "zip_strstart s" and ?w = "zip_window s"
  note d = window_okD [OF ok]
  from c have m: "0 < m" "m < ?i" "?i - m \<le> 32506" "hash3 ?w m = hash3 ?w ?i"
    by (auto simp: candidate_def)
  have pos: "win_pos s = win_base s + ?i" by (simp add: win_pos_def win_base_def)
  have byte: "?w k = Some (data_byte s (win_base s + k))" if "0 \<le> k" "k < ?i + zip_lookahead s" for k
    using d(7) that by (simp add: shows_data_def)
  have same: "?w (?i + j) = ?w (m + j)" if j: "0 \<le> j" "j < n" for j
  proof (cases "j = 2")
    case True
    have "?w ?i = ?w m" "?w (?i + 1) = ?w (m + 1)"
      using a n(1) unfolding agree_def by (metis add_0_right less_le_trans order_refl zero_less_numeral zero_neq_numeral)
        (use a n(1) in \<open>auto simp: agree_def\<close>)
    with m(4) have "win_ff (?w (?i + 2)) = win_ff (?w (m + 2))"
      by (intro hash3_third) simp_all
    moreover have "?w (?i + 2) = Some (data_byte s (win_base s + (?i + 2)))"
      "?w (m + 2) = Some (data_byte s (win_base s + (m + 2)))"
      using d(1) m n by (intro byte; simp)+
    ultimately show ?thesis
      using True by (simp add: win_ff_def js_byte_def js_and_ff)
  qed (use a j in \<open>simp add: agree_def\<close>)
  have "data_byte s (win_pos s + j) = data_byte s (win_pos s + j - (?i - m))" if j: "0 \<le> j" "j < n" for j
  proof -
    have "Some (data_byte s (win_base s + (?i + j))) = Some (data_byte s (win_base s + (m + j)))"
      using same [OF j] byte [of "?i + j"] byte [of "m + j"] d(1) m j n by simp
    moreover have "win_pos s + j = win_base s + (?i + j)" "win_pos s + j - (?i - m) = win_base s + (m + j)"
      by (simp_all add: pos)
    ultimately show ?thesis by (simp only: option.inject)
  qed
  moreover have "win_pos s + n \<le> int (length (zip_deflate_data s))"
    using d(5) n by (simp add: win_pos_def)
  moreover have "?i - m \<le> win_pos s" using d(4) m(1) pos by simp
  ultimately show ?thesis using m n by (simp add: match_at_def)
qed

section \<open>States that differ in the trees and token buffers only\<close>

definition same_match :: "'a match_state_scheme \<Rightarrow> 'a match_state_scheme \<Rightarrow> bool" where
  "same_match s s' \<longleftrightarrow> zip_window s = zip_window s' \<and> zip_strstart s = zip_strstart s' \<and>
     zip_block_start s = zip_block_start s' \<and> zip_compr_level s = zip_compr_level s' \<and>
     block_state.more s = block_state.more s'"

lemma same_matchD:
  assumes "same_match s s'"
  shows "zip_window s = zip_window s'" "zip_strstart s = zip_strstart s'"
    "zip_block_start s = zip_block_start s'" "zip_compr_level s = zip_compr_level s'"
    "zip_prev s = zip_prev s'" "zip_ins_h s = zip_ins_h s'" "zip_hash_head s = zip_hash_head s'"
    "zip_prev_match s = zip_prev_match s'" "zip_match_available s = zip_match_available s'"
    "zip_match_length s = zip_match_length s'" "zip_prev_length s = zip_prev_length s'"
    "zip_match_start s = zip_match_start s'" "zip_eofile s = zip_eofile s'"
    "zip_lookahead s = zip_lookahead s'" "zip_max_lazy_match s = zip_max_lazy_match s'"
    "zip_deflate_data s = zip_deflate_data s'" "zip_deflate_pos s = zip_deflate_pos s'"
  using assms by (cases s; cases s'; simp add: same_match_def)+

lemma same_match_trans: "same_match s t \<Longrightarrow> same_match t u \<Longrightarrow> same_match s u"
  by (simp add: same_match_def)

lemma same_match_tally: "same_match (snd (zip_ct_tally d c s)) s"
  by (simp add: same_match_def tally_frame) (simp add: zip_ct_tally_def tally_flags_def tally_store_def Let_def)

lemma same_match_flush: "same_match (zip_flush_block eof s) s"
  by (simp add: same_match_def flush_block_frame)

text \<open>What the invariants read.\<close>

lemma window_ok_cong:
  assumes "zip_window s' = zip_window s" "zip_deflate_data s' = zip_deflate_data s"
    "zip_deflate_pos s' = zip_deflate_pos s" "zip_eofile s' = zip_eofile s"
    "zip_strstart s' + zip_lookahead s' = zip_strstart s + zip_lookahead s"
    "0 \<le> zip_strstart s'" "0 \<le> zip_lookahead s'"
    and ok: "window_ok s"
  shows "window_ok s'" "win_base s' = win_base s"
proof -
  show base: "win_base s' = win_base s" using assms(3,5) by (simp add: win_base_def)
  show "window_ok s'"
    using window_okD [OF ok] assms by (simp add: window_ok_def base) (simp add: shows_data_def data_byte_def)
qed

lemma block_text_cong:
  assumes "zip_deflate_data s' = zip_deflate_data s" "\<And>ts. bufs_hold ts s' = bufs_hold ts s"
  shows "block_text s' b p = block_text s b p"
  using assms by (simp add: block_text_def data_bytes_def)

lemma match_at_cong: "zip_deflate_data s' = zip_deflate_data s \<Longrightarrow> match_at s' p n d = match_at s p n d"
  by (simp add: match_at_def data_byte_def)

lemma block_text_empty:
  assumes "bufs_hold [] s" "0 \<le> p" "p \<le> int (length (zip_deflate_data s))"
  shows "block_text s p p"
  using assms unfolding block_text_def by force

section \<open>The start of a round\<close>

text \<open>The next strings to be inserted are behind the one that was.\<close>

definition mid :: "int \<Rightarrow> 'a match_state_scheme \<Rightarrow> bool" where
  "mid e s \<longleftrightarrow> (\<exists>I. hashed I e (s\<lparr>zip_strstart := zip_strstart s + 1\<rparr>))"

lemma mid_cong:
  assumes "zip_prev s' = zip_prev s" "zip_window s' = zip_window s" "zip_ins_h s' = zip_ins_h s"
    "zip_strstart s' = zip_strstart s" "zip_eofile s' = zip_eofile s"
  shows "mid e s' = mid e s"
proof -
  have "hashed I e (s'\<lparr>zip_strstart := zip_strstart s' + 1\<rparr>) =
      hashed I e (s\<lparr>zip_strstart := zip_strstart s + 1\<rparr>)" for I
    by (rule hashed_cong) (simp_all add: assms)
  then show ?thesis by (simp add: mid_def)
qed

definition searchable :: "'a match_state_scheme \<Rightarrow> bool" where
  "searchable s \<longleftrightarrow> window_ok s \<and>
     (\<exists>I. links I s \<and> (\<forall>p \<in> I. 0 \<le> p \<and> p < zip_strstart s) \<and>
       (zip_hash_head s \<noteq> 0 \<longrightarrow> zip_hash_head s \<in> I \<and>
          hash3 (zip_window s) (zip_hash_head s) = hash3 (zip_window s) (zip_strstart s)))"

lemma searchable_cong:
  assumes "zip_prev s' = zip_prev s" "zip_window s' = zip_window s" "zip_hash_head s' = zip_hash_head s"
    "zip_strstart s' = zip_strstart s" "zip_eofile s' = zip_eofile s" "zip_lookahead s' = zip_lookahead s"
    "zip_deflate_data s' = zip_deflate_data s" "zip_deflate_pos s' = zip_deflate_pos s"
  shows "searchable s' = searchable s"
  using assms
  by (simp add: searchable_def links_def link_ok_def window_ok_def shows_data_def data_byte_def win_base_def)

lemma insert_shape:
  "\<exists>p h hd. zip_INSERT_STRING s = s\<lparr>zip_prev := p, zip_ins_h := h, zip_hash_head := hd\<rparr>"
proof -
  have "zip_INSERT_STRING s = s\<lparr>zip_prev := zip_prev (zip_INSERT_STRING s),
      zip_ins_h := zip_ins_h (zip_INSERT_STRING s), zip_hash_head := zip_hash_head (zip_INSERT_STRING s)\<rparr>"
    by (simp add: zip_INSERT_STRING_def Let_def zip_head2_def)
  then show ?thesis by blast
qed

lemma insert_strings_shape:
  "\<exists>p h hd. insert_strings n s =
     s\<lparr>zip_prev := p, zip_ins_h := h, zip_hash_head := hd, zip_strstart := zip_strstart s + int (nat n)\<rparr>"
proof -
  have "\<exists>p h hd. (insert_step ^^ k) s =
     s\<lparr>zip_prev := p, zip_ins_h := h, zip_hash_head := hd, zip_strstart := zip_strstart s + int k\<rparr>" for k
  proof (induction k)
    case 0
    have "(insert_step ^^ 0) s = s\<lparr>zip_prev := zip_prev s, zip_ins_h := zip_ins_h s,
        zip_hash_head := zip_hash_head s, zip_strstart := zip_strstart s + int 0\<rparr>" by simp
    then show ?case by blast
  next
    case (Suc k)
    then obtain p h hd where k: "(insert_step ^^ k) s =
        s\<lparr>zip_prev := p, zip_ins_h := h, zip_hash_head := hd, zip_strstart := zip_strstart s + int k\<rparr>"
      by blast
    let ?u = "s\<lparr>zip_prev := p, zip_ins_h := h, zip_hash_head := hd, zip_strstart := zip_strstart s + int (Suc k)\<rparr>"
    have "(insert_step ^^ Suc k) s = zip_INSERT_STRING ?u" by (simp add: k insert_step_def algebra_simps)
    moreover obtain p' h' hd' where "zip_INSERT_STRING ?u =
        ?u\<lparr>zip_prev := p', zip_ins_h := h', zip_hash_head := hd'\<rparr>" using insert_shape [of ?u] by blast
    ultimately have "(insert_step ^^ Suc k) s = s\<lparr>zip_prev := p', zip_ins_h := h', zip_hash_head := hd',
        zip_strstart := zip_strstart s + int (Suc k)\<rparr>" by simp
    then show ?case by blast
  qed
  from this [of "nat n"] show ?thesis by (simp only: insert_strings_def)
qed

lemma round_start:
  assumes "win_inv s" "zip_eofile s \<or> 2 < zip_lookahead s"
  shows "searchable (zip_INSERT_STRING s)"
    "mid (zip_strstart s + zip_lookahead s) (zip_INSERT_STRING s)"
proof -
  let ?e = "zip_strstart s + zip_lookahead s"
  from assms(1) obtain I where I: "hashed I ?e s" and ok: "window_ok s" by (auto simp: win_inv_def)
  note d = window_okD [OF ok]
  obtain p h hd where shape: "zip_INSERT_STRING s = s\<lparr>zip_prev := p, zip_ins_h := h, zip_hash_head := hd\<rparr>"
    using insert_shape by blast
  have "zip_eofile s \<or> zip_strstart s + 2 < ?e" using assms(2) by auto
  from hashed_insert [OF I d(1) this] show "mid ?e (zip_INSERT_STRING s)"
    by (auto simp: mid_def shape)
  have "window_ok (zip_INSERT_STRING s)"
    by (rule window_ok_cong [OF _ _ _ _ _ _ _ ok]) (use d in \<open>simp_all add: shape\<close>)
  moreover have "\<forall>q \<in> I. 0 \<le> q \<and> q < zip_strstart s" using I by (auto simp: hashed_def inserted_def)
  moreover have "zip_window (zip_INSERT_STRING s) = zip_window s"
    "zip_strstart (zip_INSERT_STRING s) = zip_strstart s" by (simp_all add: shape)
  ultimately show "searchable (zip_INSERT_STRING s)"
    using insert_links [OF I d(1)] unfolding searchable_def by auto
qed

lemma mid_insert_strings:
  assumes "mid e s" "0 \<le> zip_strstart s" "zip_eofile s \<or> zip_strstart s + n + 2 < e"
  shows "mid e (insert_strings n s)"
proof -
  have "mid e ((insert_step ^^ k) s)" if "int k \<le> n" for k
    using that
  proof (induction k)
    case (Suc k)
    let ?t = "(insert_step ^^ k) s"
    obtain p h hd where t: "?t =
        s\<lparr>zip_prev := p, zip_ins_h := h, zip_hash_head := hd, zip_strstart := zip_strstart s + int k\<rparr>"
      using insert_strings_shape [of "int k" s] by (auto simp: insert_strings_def)
    let ?u = "?t\<lparr>zip_strstart := zip_strstart ?t + 1\<rparr>"
    from Suc have "mid e ?t" by simp
    then obtain I where I: "hashed I e ?u" by (auto simp: mid_def)
    have "zip_eofile ?u \<or> zip_strstart ?u + 2 < e" "0 \<le> zip_strstart ?u"
      using assms(2,3) Suc.prems by (auto simp: t)
    from hashed_insert [OF I this(2,1)] obtain J where
      "hashed J e ((zip_INSERT_STRING ?u)\<lparr>zip_strstart := zip_strstart ?u + 1\<rparr>)" by blast
    moreover have "zip_strstart (zip_INSERT_STRING ?u) = zip_strstart ?u"
      using insert_shape [of ?u] by auto
    moreover have "(insert_step ^^ Suc k) s = zip_INSERT_STRING ?u" by (simp add: insert_step_def)
    ultimately show ?case by (auto simp: mid_def)
  qed (use assms(1) in simp)
  from this [of "nat n"] assms(1) show ?thesis
    by (cases "0 \<le> n") (simp_all add: insert_strings_def)
qed

section \<open>The search of a round\<close>

lemma search_found:
  assumes "searchable s" "zip_hash_head s \<noteq> 0" "zip_strstart s - zip_hash_head s \<le> 32506"
  shows "\<exists>n m. zip_longest_match (zip_hash_head s) s = (n, s\<lparr>zip_match_start := m\<rparr>) \<and>
    (\<forall>k. zip_prev_length s < n \<and> 3 \<le> k \<and> k \<le> n \<and> k \<le> zip_lookahead s \<longrightarrow>
      match_at s (win_pos s) k (zip_strstart s - m)) \<and> (n = zip_prev_length s \<or> n \<le> 258)"
proof -
  from assms(1) obtain I where I: "links I s" "\<And>p. p \<in> I \<Longrightarrow> 0 \<le> p \<and> p < zip_strstart s"
    "zip_hash_head s \<noteq> 0 \<Longrightarrow> zip_hash_head s \<in> I \<and>
          hash3 (zip_window s) (zip_hash_head s) = hash3 (zip_window s) (zip_strstart s)"
    and ok: "window_ok s"
    by (auto simp: searchable_def)
  have "candidate I s (zip_hash_head s)"
    using I(2) [of "zip_hash_head s"] I(3) assms(2,3) by (auto simp: candidate_def)
  from longest_match_found [OF I(1,2) this] obtain n m where
    nm: "zip_longest_match (zip_hash_head s) s = (n, s\<lparr>zip_match_start := m\<rparr>)"
    and r: "n = zip_prev_length s \<or> zip_prev_length s < n \<and> n \<le> 258 \<and> candidate I s m \<and>
      agree (zip_window s) (zip_strstart s) m n" by blast
  have "match_at s (win_pos s) k (zip_strstart s - m)"
    if "zip_prev_length s < n" "3 \<le> k" "k \<le> n" "k \<le> zip_lookahead s" for k
    using r that by (intro candidate_match [OF ok]) (auto simp: agree_def)
  with nm r show ?thesis by blast
qed

text \<open>Literals and matches of a round leave the text right.\<close>

definition parsed :: "'a match_state_scheme \<Rightarrow> int \<Rightarrow> bool" where
  "parsed s p \<longleftrightarrow> block_text s (block_pos s) p"

lemma flush_if_shape: "\<exists>b. same_match (flush_if f s) (s\<lparr>zip_block_start := b\<rparr>)"
proof (cases f)
  case True
  then show ?thesis
    using flush_block_frame [of 0 s] by (auto simp: flush_if_def same_match_def Let_def)
next
  case False
  then have "same_match (flush_if f s) (s\<lparr>zip_block_start := zip_block_start s\<rparr>)"
    by (simp add: flush_if_def same_match_def)
  then show ?thesis ..
qed

lemma flush_if_parsed:
  assumes p: "parsed s (win_pos s)" and ok: "window_ok s"
  shows "parsed (flush_if f s) (win_pos s)"
proof -
  let ?s = "zip_flush_block 0 s"
  note m = same_matchD [OF same_match_flush [of 0 s]]
  have base: "win_pos s = win_base s + zip_strstart s" by (simp add: win_pos_def win_base_def)
  have "bufs_hold [] (?s\<lparr>zip_block_start := zip_strstart ?s\<rparr>)"
    using flush_block_frame(6) [of 0 s] by (simp add: bufs_hold_def)
  moreover have "0 \<le> win_pos s" "win_pos s \<le> int (length (zip_deflate_data s))"
    using window_okD [OF ok] base by (simp_all add: win_pos_def)
  ultimately have "block_text (?s\<lparr>zip_block_start := zip_strstart ?s\<rparr>) (win_pos s) (win_pos s)"
    by (intro block_text_empty) (simp_all add: m)
  then show "parsed (flush_if f s) (win_pos s)"
    using p base by (simp add: flush_if_def parsed_def block_pos_def win_base_def Let_def m)
qed

text \<open>Both matchers keep this between rounds.\<close>

definition round_ok :: "'a match_state_scheme \<Rightarrow> bool" where
  "round_ok s \<longleftrightarrow> win_inv s \<and> (zip_eofile s \<or> 262 \<le> zip_lookahead s)"

lemma win_inv_flush:
  assumes "window_ok s" "zip_eofile s \<or> 2 \<le> zip_lookahead s"
    "hashed I (zip_strstart s + zip_lookahead s) s"
  shows "win_inv (flush_if f s)"
proof -
  note d = window_okD [OF assms(1)]
  from flush_if_shape obtain b where "same_match (flush_if f s) (s\<lparr>zip_block_start := b\<rparr>)" ..
  note m = same_matchD [OF this]
  have "window_ok (flush_if f s)"
    by (rule window_ok_cong [OF _ _ _ _ _ _ _ assms(1)]) (use d in \<open>simp_all add: m\<close>)
  moreover have "hashed I (zip_strstart s + zip_lookahead s) (flush_if f s)"
    using assms(3) by (subst hashed_cong) (simp_all add: m)
  ultimately show ?thesis using assms(2) by (auto simp: win_inv_def m)
qed

text \<open>
  The step behind a token of \<open>n\<close> bytes: \<open>u\<close> is the state after it has been recorded in \<open>t\<close> and the
  strings inserted.
\<close>

lemma advance_ok:
  assumes t: "window_ok t" "parsed t p" and n: "0 < n" "n \<le> zip_lookahead t" "n \<le> 258"
    and ahead: "zip_eofile t \<or> 262 \<le> zip_lookahead t"
    and blk: "block_text v (block_pos t) q" and v: "same_match v t"
    and u: "zip_window u = zip_window t" "zip_deflate_data u = zip_deflate_data t"
      "zip_deflate_pos u = zip_deflate_pos t" "zip_eofile u = zip_eofile t"
      "zip_strstart u = zip_strstart t + n" "zip_lookahead u = zip_lookahead t - n"
      "zip_block_start u = zip_block_start t" "\<And>ts. bufs_hold ts u = bufs_hold ts v"
    and h: "hashed I (zip_strstart t + zip_lookahead t) u"
  shows "window_ok u" "win_pos u = win_pos t + n" "block_text u (block_pos u) q" "win_inv u"
proof -
  note d = window_okD [OF t(1)] and m = same_matchD [OF v]
  show ok: "window_ok u" by (rule window_ok_cong [OF _ _ _ _ _ _ _ t(1)]) (use d n in \<open>simp_all add: u\<close>)
  have "win_base u = win_base t" by (simp add: win_base_def u)
  then have "block_pos u = block_pos t" by (simp add: block_pos_def u)
  moreover have "block_text u b q = block_text v b q" for b
    by (rule block_text_cong) (simp_all add: u m)
  ultimately show "block_text u (block_pos u) q" using blk by simp
  show "win_pos u = win_pos t + n" by (simp add: win_pos_def u)
  show "win_inv u" using ok ahead n h unfolding win_inv_def u by auto
qed

lemma literal_byte:
  assumes "window_ok s" "0 \<le> i" "i < zip_strstart s + zip_lookahead s"
  shows "win_ff (zip_window s i) = data_byte s (win_base s + i)"
  using window_okD(7) [OF assms(1)] assms(2,3)
  by (simp add: shows_data_def win_ff_def js_byte_def js_and_ff)

section \<open>\<open>zip_deflate_fast\<close>\<close>

definition fast_inv :: "'a match_state_scheme \<Rightarrow> bool" where
  "fast_inv s \<longleftrightarrow> round_ok s \<and> zip_match_length s < 3 \<and> zip_prev_length s = 2 \<and> parsed s (win_pos s)"

lemma fast_match_shape:
  assumes "searchable t" "zip_match_length t < 3" "zip_prev_length t = 2"
  shows "\<exists>n m. fast_match t = t\<lparr>zip_match_length := n, zip_match_start := m\<rparr> \<and>
    (3 \<le> n \<longrightarrow> n \<le> zip_lookahead t \<and> match_at t (win_pos t) n (zip_strstart t - m))"
proof (cases "zip_hash_head t \<noteq> 0 \<and> zip_strstart t - zip_hash_head t \<le> 32506")
  case True
  with search_found [OF assms(1)] obtain n m where
    nm: "zip_longest_match (zip_hash_head t) t = (n, t\<lparr>zip_match_start := m\<rparr>)"
    and r: "\<And>k. zip_prev_length t < n \<Longrightarrow> 3 \<le> k \<Longrightarrow> k \<le> n \<Longrightarrow> k \<le> zip_lookahead t \<Longrightarrow>
      match_at t (win_pos t) k (zip_strstart t - m)" by blast
  have "fast_match t = t\<lparr>zip_match_length := min n (zip_lookahead t), zip_match_start := m\<rparr>"
    using True by (simp add: fast_match_def nm Let_def min_def)
  moreover have "match_at t (win_pos t) (min n (zip_lookahead t)) (zip_strstart t - m)"
    if "3 \<le> min n (zip_lookahead t)" using that assms(3) by (intro r) auto
  ultimately show ?thesis
    by (intro exI [of _ "min n (zip_lookahead t)"] exI [of _ m]) simp
next
  case False
  then have "fast_match t = t\<lparr>zip_match_length := zip_match_length t, zip_match_start := zip_match_start t\<rparr>"
    by (auto simp: fast_match_def)
  with assms(2) show ?thesis by fastforce
qed

text \<open>\<open>fast_emit\<close> before the block is flushed.\<close>

definition fast_skip :: "'a match_state_scheme \<Rightarrow> 'a match_state_scheme" where
  "fast_skip s =
     (if zip_match_length s \<le> zip_max_lazy_match s then
        let s = insert_strings (zip_match_length s - 1) s
        in s\<lparr>zip_match_length := 0, zip_strstart := zip_strstart s + 1\<rparr>
      else
        let s = s\<lparr>zip_strstart := zip_strstart s + zip_match_length s, zip_match_length := 0\<rparr>;
            s = s\<lparr>zip_ins_h := win_ff (zip_window s (zip_strstart s))\<rparr>
        in s\<lparr>zip_ins_h := update_hash (zip_ins_h s) (zip_window s (zip_strstart s + 1))\<rparr>)"

lemma fast_emit_match:
  assumes "3 \<le> zip_match_length t"
    "zip_ct_tally (zip_strstart t - zip_match_start t) (zip_match_length t - 3) t = (f, v)"
  shows "fast_emit t = flush_if f (fast_skip (v\<lparr>zip_lookahead := zip_lookahead v - zip_match_length v\<rparr>))"
  using assms by (simp add: fast_emit_def fast_skip_def)

lemma fast_skip_ok:
  assumes m: "mid e s" and n: "zip_match_length s = n" "3 \<le> n" and s: "0 \<le> zip_strstart s"
    and e: "zip_eofile s \<or> zip_strstart s + n + 1 < e"
  shows "\<exists>p h hd I. fast_skip s = s\<lparr>zip_prev := p, zip_ins_h := h, zip_hash_head := hd,
      zip_strstart := zip_strstart s + n, zip_match_length := 0\<rparr> \<and> hashed I e (fast_skip s)"
proof (cases "n \<le> zip_max_lazy_match s")
  case True
  obtain p h hd where sh: "insert_strings (n - 1) s =
      s\<lparr>zip_prev := p, zip_ins_h := h, zip_hash_head := hd, zip_strstart := zip_strstart s + (n - 1)\<rparr>"
    using insert_strings_shape [of "n - 1" s] n(2) by auto
  have "mid e (insert_strings (n - 1) s)"
    using e n by (intro mid_insert_strings [OF m s]) auto
  then obtain I where "hashed I e ((insert_strings (n - 1) s)
      \<lparr>zip_strstart := zip_strstart (insert_strings (n - 1) s) + 1\<rparr>)" by (auto simp: mid_def)
  moreover have eq: "fast_skip s = (insert_strings (n - 1) s)
      \<lparr>zip_match_length := 0, zip_strstart := zip_strstart (insert_strings (n - 1) s) + 1\<rparr>"
    using True n by (simp add: fast_skip_def Let_def)
  ultimately have "hashed I e (fast_skip s)" by (simp add: hashed_def inserted_def heads_def links_def
        link_ok_def rolling_def)
  moreover have "fast_skip s = s\<lparr>zip_prev := p, zip_ins_h := h, zip_hash_head := hd,
      zip_strstart := zip_strstart s + n, zip_match_length := 0\<rparr>" by (simp add: eq sh)
  ultimately show ?thesis by blast
next
  case False
  let ?h = "hash2 (zip_window s) (zip_strstart s + n)"
  have eq: "fast_skip s = s\<lparr>zip_prev := zip_prev s, zip_ins_h := ?h, zip_hash_head := zip_hash_head s,
      zip_strstart := zip_strstart s + n, zip_match_length := 0\<rparr>"
    using False n by (simp add: fast_skip_def Let_def hash2_def)
  from m obtain I where I: "hashed I e (s\<lparr>zip_strstart := zip_strstart s + 1\<rparr>)" by (auto simp: mid_def)
  have "hashed I e (fast_skip s)"
    using I n(2) hash2_range [of "zip_window s" "zip_strstart s + n"]
    by (auto simp: eq hashed_def inserted_def heads_def links_def link_ok_def rolling_def)
  with eq show ?thesis by blast
qed

lemma fast_emit_ok:
  assumes t: "window_ok t" "parsed t (win_pos t)" "mid (zip_strstart t + zip_lookahead t) t"
    and la: "0 < zip_lookahead t" "zip_eofile t \<or> 262 \<le> zip_lookahead t" and pl: "zip_prev_length t = 2"
    and mt: "3 \<le> zip_match_length t \<Longrightarrow> zip_match_length t \<le> zip_lookahead t \<and>
      match_at t (win_pos t) (zip_match_length t) (zip_strstart t - zip_match_start t)"
  shows "win_inv (fast_emit t) \<and> parsed (fast_emit t) (win_pos (fast_emit t)) \<and>
    win_pos t < win_pos (fast_emit t) \<and> zip_match_length (fast_emit t) < 3 \<and>
    zip_prev_length (fast_emit t) = 2 \<and> zip_deflate_data (fast_emit t) = zip_deflate_data t \<and>
    zip_match_available (fast_emit t) = zip_match_available t \<and> 0 < zip_strstart (fast_emit t)"
proof -
  let ?e = "zip_strstart t + zip_lookahead t"
  note d = window_okD [OF t(1)]
  have pos: "win_pos t = win_base t + zip_strstart t" by (simp add: win_pos_def win_base_def)
  have len: "win_pos t < int (length (zip_deflate_data t))" using d(5) la by (simp add: win_pos_def)
  have "\<exists>f u. fast_emit t = flush_if f u \<and> window_ok u \<and> win_inv u \<and> block_text u (block_pos u) (win_pos u) \<and>
    win_pos t < win_pos u \<and> zip_match_length u < 3 \<and> zip_prev_length u = 2 \<and>
    zip_deflate_data u = zip_deflate_data t \<and> zip_match_available u = zip_match_available t \<and>
    0 < zip_strstart u \<and> (\<exists>I. hashed I (zip_strstart u + zip_lookahead u) u)"
  proof (cases "3 \<le> zip_match_length t")
    case True
    define n where "n = zip_match_length t"
    from mt [OF True] have mt': "n \<le> zip_lookahead t"
      "match_at t (win_pos t) n (zip_strstart t - zip_match_start t)" by (simp_all add: n_def)
    obtain f v where fv: "zip_ct_tally (zip_strstart t - zip_match_start t) (n - 3) t = (f, v)" by fastforce
    then have v: "v = snd (zip_ct_tally (zip_strstart t - zip_match_start t) (n - 3) t)" by simp
    have same: "same_match v t" unfolding v by (rule same_match_tally)
    note m = same_matchD [OF same]
    have blk: "block_text v (block_pos t) (win_pos t + n)"
      using match_text [OF _ mt'(2)] t(2) by (simp add: v parsed_def)
    have n: "3 \<le> n" "n \<le> 258" using mt'(2) by (simp_all add: match_at_def)
    let ?v = "v\<lparr>zip_lookahead := zip_lookahead v - n\<rparr>"
    have mid: "mid ?e ?v" using t(3) by (subst mid_cong) (simp_all add: m)
    have eof: "zip_eofile ?v \<or> zip_strstart ?v + n + 1 < ?e" using la(2) n by (auto simp: m)
    define u where "u = fast_skip ?v"
    from fast_skip_ok [OF mid _ n(1) _ eof] d(1) n_def obtain p h hd I where
      "u = ?v\<lparr>zip_prev := p, zip_ins_h := h, zip_hash_head := hd,
        zip_strstart := zip_strstart ?v + n, zip_match_length := 0\<rparr>" and I: "hashed I ?e u"
      by (auto simp: m u_def)
    then have u: "u = v\<lparr>zip_lookahead := zip_lookahead t - n, zip_prev := p, zip_ins_h := h,
        zip_hash_head := hd, zip_strstart := zip_strstart t + n, zip_match_length := 0\<rparr>"
      by (simp add: m)
    have "fast_emit t = flush_if f u"
      using fast_emit_match [OF True fv [unfolded n_def]] by (simp add: m n_def u_def)
    moreover have "window_ok u \<and> win_pos u = win_pos t + n \<and>
        block_text u (block_pos u) (win_pos t + n) \<and> win_inv u"
      using n mt'(1) la(2)
      by (intro conjI advance_ok [OF t(1,2) _ _ _ la(2) blk same _ _ _ _ _ _ _ _ I])
        (simp_all add: u m bufs_hold_def)
    moreover have "zip_strstart u + zip_lookahead u = ?e" by (simp add: u m)
    ultimately show ?thesis
      using n I d(1) by (intro exI [of _ f] exI [of _ u]) (auto simp: u m pl)
  next
    case False
    have byte: "win_ff (zip_window t (zip_strstart t)) = data_byte t (win_pos t)"
      using literal_byte [OF t(1) d(1)] la(1) pos by simp
    obtain f v where fv: "zip_ct_tally 0 (data_byte t (win_pos t)) t = (f, v)" by fastforce
    then have v: "v = snd (zip_ct_tally 0 (data_byte t (win_pos t)) t)" by simp
    have same: "same_match v t" unfolding v by (rule same_match_tally)
    note m = same_matchD [OF same]
    have blk: "block_text v (block_pos t) (win_pos t + 1)"
      unfolding v using t(2) d(1,4) pos len by (intro literal_text) (simp_all add: parsed_def)
    let ?u = "v\<lparr>zip_lookahead := zip_lookahead v - 1, zip_strstart := zip_strstart v + 1\<rparr>"
    from t(3) obtain I where "hashed I ?e (t\<lparr>zip_strstart := zip_strstart t + 1\<rparr>)" by (auto simp: mid_def)
    then have I: "hashed I ?e ?u" by (subst (asm) hashed_cong [of ?u, symmetric]) (simp_all add: m)
    have "fast_emit t = flush_if f ?u" using False fv by (simp add: fast_emit_def byte Let_def)
    moreover have "window_ok ?u \<and> win_pos ?u = win_pos t + 1 \<and>
        block_text ?u (block_pos ?u) (win_pos t + 1) \<and> win_inv ?u"
      using la
      by (intro conjI advance_ok [OF t(1,2) _ _ _ la(2) blk same _ _ _ _ _ _ _ _ I])
        (simp_all add: m bufs_hold_def)
    moreover have "zip_strstart ?u + zip_lookahead ?u = ?e" by (simp add: m)
    ultimately show ?thesis
      using False I d(1) by (intro exI [of _ f] exI [of _ ?u]) (auto simp: m pl)
  qed
  then obtain f u I where u: "fast_emit t = flush_if f u" "window_ok u" "win_inv u"
    "block_text u (block_pos u) (win_pos u)" "win_pos t < win_pos u" "zip_match_length u < 3"
    "zip_prev_length u = 2" "zip_deflate_data u = zip_deflate_data t"
    "zip_match_available u = zip_match_available t" "0 < zip_strstart u"
    and I: "hashed I (zip_strstart u + zip_lookahead u) u" by blast
  from flush_if_shape obtain b where "same_match (flush_if f u) (u\<lparr>zip_block_start := b\<rparr>)" ..
  note m = same_matchD [OF this]
  have "win_pos (flush_if f u) = win_pos u" by (simp add: win_pos_def m)
  moreover have "win_inv (flush_if f u)"
    using u(3) by (intro win_inv_flush [OF u(2) _ I]) (simp add: win_inv_def)
  moreover have "parsed (flush_if f u) (win_pos u)"
    using u(4) by (intro flush_if_parsed [OF _ u(2)]) (simp add: parsed_def)
  ultimately show ?thesis using u by (simp add: m)
qed

lemma fill_loop_parsed:
  assumes "win_inv s" "parsed s p"
  shows "round_ok (fill_loop s)" "parsed (fill_loop s) p" "fill_frame s (fill_loop s)"
proof -
  note f = fill_loop_inv [OF assms(1)]
  then show "round_ok (fill_loop s)" "fill_frame s (fill_loop s)" by (simp_all add: round_ok_def)
  with assms(2) show "parsed (fill_loop s) p"
    unfolding parsed_def by (subst block_text_cong) (auto simp: fill_frame_def)
qed

lemma fast_round:
  assumes "fast_inv s" "zip_lookahead s \<noteq> 0"
  shows "fast_inv (fast_step s)" "win_pos s < win_pos (fast_step s)"
    "zip_deflate_data (fast_step s) = zip_deflate_data s"
    "zip_match_available (fast_step s) = zip_match_available s" "0 < zip_strstart (fast_step s)"
proof -
  from assms(1) have s: "win_inv s" "zip_eofile s \<or> 262 \<le> zip_lookahead s" "zip_match_length s < 3"
    "zip_prev_length s = 2" "parsed s (win_pos s)"
    by (auto simp: fast_inv_def round_ok_def)
  have ok: "window_ok s" using s(1) by (simp add: win_inv_def)
  note d = window_okD [OF ok]
  have la: "0 < zip_lookahead s" using d(2) assms(2) by simp
  define t0 where "t0 = zip_INSERT_STRING s"
  obtain p h hd where t0: "t0 = s\<lparr>zip_prev := p, zip_ins_h := h, zip_hash_head := hd\<rparr>"
    unfolding t0_def using insert_shape by blast
  have start: "searchable t0" "mid (zip_strstart s + zip_lookahead s) t0"
    using s(2) unfolding t0_def by (intro round_start [OF s(1)]; auto)+
  have "zip_match_length t0 < 3" "zip_prev_length t0 = 2" using s by (simp_all add: t0)
  from fast_match_shape [OF start(1) this] obtain n m where
    t0m: "fast_match t0 = t0\<lparr>zip_match_length := n, zip_match_start := m\<rparr>"
    and mt: "3 \<le> n \<longrightarrow> n \<le> zip_lookahead t0 \<and> match_at t0 (win_pos t0) n (zip_strstart t0 - m)" by blast
  define t where "t = fast_match t0"
  have t: "t = s\<lparr>zip_prev := p, zip_ins_h := h, zip_hash_head := hd, zip_match_length := n,
      zip_match_start := m\<rparr>"
    unfolding t_def t0m by (simp add: t0)
  have pos: "win_pos t = win_pos s" by (simp add: t t0 win_pos_def)
  have "window_ok t"
    by (rule window_ok_cong [OF _ _ _ _ _ _ _ ok]) (use d in \<open>simp_all add: t t0\<close>)
  moreover have "mid (zip_strstart t + zip_lookahead t) t"
    using start(2) by (subst mid_cong [of _ t0]) (simp_all add: t t0)
  moreover have "parsed t (win_pos t)"
    using s(5) unfolding pos parsed_def
    by (subst block_text_cong) (simp_all add: t t0 bufs_hold_def block_pos_def win_base_def)
  moreover have "match_at t (win_pos t) n (zip_strstart t - m) =
      match_at t0 (win_pos t0) n (zip_strstart t0 - m)"
    by (subst match_at_cong [of _ t0]) (simp_all add: t t0 win_pos_def)
  ultimately have e: "win_inv (fast_emit t) \<and> parsed (fast_emit t) (win_pos (fast_emit t)) \<and>
    win_pos t < win_pos (fast_emit t) \<and> zip_match_length (fast_emit t) < 3 \<and>
    zip_prev_length (fast_emit t) = 2 \<and> zip_deflate_data (fast_emit t) = zip_deflate_data t \<and>
    zip_match_available (fast_emit t) = zip_match_available t \<and> 0 < zip_strstart (fast_emit t)"
    using mt la s(2,4) by (intro fast_emit_ok) (simp_all add: t t0)
  have step: "fast_step s = fill_loop (fast_emit t)" by (simp add: fast_step_def t_def t0_def)
  from e have "win_inv (fast_emit t)" "parsed (fast_emit t) (win_pos (fast_emit t))" by simp_all
  note f = fill_loop_parsed [OF this]
  have fr: "win_pos (fast_step s) = win_pos (fast_emit t)"
    "zip_match_length (fast_step s) = zip_match_length (fast_emit t)"
    "zip_prev_length (fast_step s) = zip_prev_length (fast_emit t)"
    "zip_deflate_data (fast_step s) = zip_deflate_data (fast_emit t)"
    "zip_match_available (fast_step s) = zip_match_available (fast_emit t)"
    using f(3) by (simp_all add: step fill_frame_def)
  show "fast_inv (fast_step s)" using f(1,2) e by (simp add: fast_inv_def fr) (simp add: step)
  show "win_pos s < win_pos (fast_step s)" using e by (simp add: fr pos)
  show "zip_deflate_data (fast_step s) = zip_deflate_data s"
    "zip_match_available (fast_step s) = zip_match_available s" using e by (simp_all add: fr t)
  show "0 < zip_strstart (fast_step s)" using e f(3) by (simp add: step fill_frame_def)
qed

end
