(* ===== verification/Deflate_Lazy.thy ===== *)
theory Deflate_Lazy
  imports Deflate_Parse
begin

text \<open>
  \<open>zip_deflate_better\<close>, round by round.  It records a match only when the next position has no
  longer one, so it runs one byte behind: while a match is pending the buffers hold the text up to
  the byte before \<open>zip_strstart\<close>.
\<close>

definition better_inv :: "'a match_state_scheme \<Rightarrow> bool" where
  "better_inv s \<longleftrightarrow> round_ok s \<and>
     (zip_match_available s = Some 0 \<and> zip_match_length s = 2 \<and> parsed s (win_pos s) \<or>
      zip_match_available s = Some 1 \<and> 0 < zip_strstart s \<and> parsed s (win_pos s - 1) \<and>
      (3 \<le> zip_match_length s \<longrightarrow> match_at s (win_pos s - 1) (zip_match_length s) (match_dist s - 1)))"

lemma better_match_shape:
  assumes "searchable t"
  shows "\<exists>n m. better_match t = t\<lparr>zip_prev_length := zip_match_length t,
      zip_prev_match := zip_match_start t, zip_match_length := n, zip_match_start := m\<rparr> \<and>
    (3 \<le> n \<and> zip_match_length t < n \<longrightarrow> match_at t (win_pos t) n (zip_strstart t - m))"
proof -
  let ?t = "t\<lparr>zip_prev_length := zip_match_length t, zip_prev_match := zip_match_start t,
    zip_match_length := 2\<rparr>"
  show ?thesis
  proof (cases "zip_hash_head t \<noteq> 0 \<and> zip_match_length t < zip_max_lazy_match t \<and>
      zip_strstart t - zip_hash_head t \<le> 32506")
    case True
    have "searchable ?t" using assms by (subst searchable_cong) simp_all
    with search_found [of ?t] True obtain n m where
      nm: "zip_longest_match (zip_hash_head ?t) ?t = (n, ?t\<lparr>zip_match_start := m\<rparr>)"
      and r: "\<And>k. zip_prev_length ?t < n \<Longrightarrow> 3 \<le> k \<Longrightarrow> k \<le> n \<Longrightarrow> k \<le> zip_lookahead ?t \<Longrightarrow>
        match_at ?t (win_pos ?t) k (zip_strstart ?t - m)" by auto
    let ?n = "min n (zip_lookahead t)"
    let ?k = "if ?n = 3 \<and> zip_strstart t - m > 4096 then ?n - 1 else ?n"
    have "better_match t = ?t\<lparr>zip_match_length := ?k, zip_match_start := m\<rparr>"
      using True nm by (simp add: better_match_def Let_def min_def)
    moreover have "match_at t (win_pos t) ?k (zip_strstart t - m)" if "3 \<le> ?k" "zip_match_length t < ?k"
    proof -
      have k: "?k = ?n" using that(1) by (auto split: if_splits)
      have "match_at ?t (win_pos ?t) ?k (zip_strstart ?t - m)"
        using that unfolding k by (intro r) auto
      then show ?thesis by (simp add: match_at_def data_byte_def win_pos_def)
    qed
    ultimately show ?thesis by (intro exI [of _ ?k] exI [of _ m]) simp
  next
    case False
    then have "better_match t = ?t\<lparr>zip_match_length := 2, zip_match_start := zip_match_start t\<rparr>"
      by (auto simp: better_match_def)
    then show ?thesis by (intro exI [of _ 2] exI [of _ "zip_match_start t"]) simp
  qed
qed

text \<open>The three cases of a round.\<close>

lemma better_emit_match:
  assumes c: "3 \<le> zip_prev_length t" "zip_match_length t \<le> zip_prev_length t"
    and f: "zip_ct_tally (zip_strstart t - 1 - zip_prev_match t) (zip_prev_length t - 3) t = (f, v)"
  shows "\<exists>p h hd. better_emit t = flush_if f (v\<lparr>zip_lookahead := zip_lookahead t - (zip_prev_length t - 1),
      zip_prev := p, zip_ins_h := h, zip_hash_head := hd, zip_strstart := zip_strstart t + (zip_prev_length t - 1),
      zip_prev_length := 0, zip_match_available := Some 0, zip_match_length := 2\<rparr>) \<and>
    (mid e t \<and> 0 \<le> zip_strstart t \<and> (zip_eofile t \<or> zip_strstart t + zip_prev_length t < e) \<longrightarrow>
      (\<exists>I. hashed I e (v\<lparr>zip_lookahead := zip_lookahead t - (zip_prev_length t - 1),
      zip_prev := p, zip_ins_h := h, zip_hash_head := hd, zip_strstart := zip_strstart t + (zip_prev_length t - 1),
      zip_prev_length := 0, zip_match_available := Some 0, zip_match_length := 2\<rparr>)))"
proof -
  define q where "q = zip_prev_length t"
  have v: "v = snd (zip_ct_tally (zip_strstart t - 1 - zip_prev_match t) (q - 3) t)"
    using f by (simp add: q_def)
  note m = same_matchD [OF same_match_tally, of "zip_strstart t - 1 - zip_prev_match t" "q - 3" t, folded v]
  define w where "w = v\<lparr>zip_lookahead := zip_lookahead t - (q - 1), zip_prev_length := q - 2\<rparr>"
  define x where "x = insert_strings (q - 2) w"
  obtain p h hd where sh: "x = w\<lparr>zip_prev := p, zip_ins_h := h, zip_hash_head := hd,
      zip_strstart := zip_strstart w + (q - 2)\<rparr>"
    using insert_strings_shape [of "q - 2" w] c(1) by (auto simp: x_def q_def)
  let ?u = "v\<lparr>zip_lookahead := zip_lookahead t - (q - 1),
      zip_prev := p, zip_ins_h := h, zip_hash_head := hd, zip_strstart := zip_strstart t + (q - 1),
      zip_prev_length := 0, zip_match_available := Some 0, zip_match_length := 2\<rparr>"
  have u: "x\<lparr>zip_prev_length := 0, zip_match_available := Some 0, zip_match_length := 2,
      zip_strstart := zip_strstart x + 1\<rparr> = ?u"
    unfolding sh by (simp add: w_def m)
  have "better_emit t = flush_if f (x\<lparr>zip_prev_length := 0, zip_match_available := Some 0,
      zip_match_length := 2, zip_strstart := zip_strstart x + 1\<rparr>)"
    using c f by (simp add: better_emit_def Let_def x_def w_def q_def m [folded q_def])
  moreover have "\<exists>I. hashed I e ?u"
    if "mid e t" "0 \<le> zip_strstart t" "zip_eofile t \<or> zip_strstart t + q < e"
  proof -
    have "mid e w" using that(1) by (subst mid_cong) (simp_all add: w_def m)
    then have "mid e x" unfolding x_def by (rule mid_insert_strings) (use that in \<open>simp_all add: w_def m\<close>)
    then obtain I where "hashed I e (x\<lparr>zip_strstart := zip_strstart x + 1\<rparr>)" by (auto simp: mid_def)
    then have "hashed I e ?u"
      by (subst (asm) hashed_cong [of ?u, symmetric]) (simp_all add: sh w_def m)
    then show ?thesis ..
  qed
  ultimately show ?thesis unfolding u q_def [symmetric] by blast
qed

text \<open>What a round leaves, before the window is filled.\<close>

definition better_left :: "'a match_state_scheme \<Rightarrow> bool" where
  "better_left s \<longleftrightarrow> win_inv s \<and>
     (zip_match_available s = Some 0 \<and> zip_match_length s = 2 \<and> parsed s (win_pos s) \<or>
      zip_match_available s = Some 1 \<and> 0 < zip_strstart s \<and> parsed s (win_pos s - 1) \<and>
      (3 \<le> zip_match_length s \<longrightarrow> match_at s (win_pos s - 1) (zip_match_length s) (match_dist s - 1)))"

lemma better_emit_taken:
  assumes t: "window_ok t" "parsed t (win_pos t - 1)" "mid (zip_strstart t + zip_lookahead t) t"
    and la: "0 < zip_lookahead t" "zip_eofile t \<or> 262 \<le> zip_lookahead t"
    and c: "3 \<le> zip_prev_length t" "zip_match_length t \<le> zip_prev_length t"
    and mt: "match_at t (win_pos t - 1) (zip_prev_length t) (zip_strstart t - 1 - zip_prev_match t)"
  shows "better_left (better_emit t) \<and> win_pos t < win_pos (better_emit t) \<and>
    zip_deflate_data (better_emit t) = zip_deflate_data t"
proof -
  define q where "q = zip_prev_length t"
  let ?e = "zip_strstart t + zip_lookahead t"
  note d = window_okD [OF t(1)]
  have q: "3 \<le> q" "q \<le> 258" using mt by (simp_all add: match_at_def q_def)
  have "q - 1 \<le> zip_lookahead t"
  proof (cases "zip_eofile t")
    case True
    with d(6) mt show ?thesis by (simp add: match_at_def win_pos_def q_def)
  qed (use la(2) q in simp)
  note qla = this
  obtain f v where fv: "zip_ct_tally (zip_strstart t - 1 - zip_prev_match t) (q - 3) t = (f, v)" by fastforce
  then have v: "v = snd (zip_ct_tally (zip_strstart t - 1 - zip_prev_match t) (q - 3) t)" by simp
  have same: "same_match v t" unfolding v by (rule same_match_tally)
  note m = same_matchD [OF same]
  have blk: "block_text v (block_pos t) (win_pos t - 1 + q)"
    using match_text [OF _ mt] t(2) by (simp add: v parsed_def q_def)
  from better_emit_match [OF c fv [unfolded q_def], of ?e] obtain p h hd where
    e: "better_emit t = flush_if f (v\<lparr>zip_lookahead := zip_lookahead t - (q - 1),
      zip_prev := p, zip_ins_h := h, zip_hash_head := hd, zip_strstart := zip_strstart t + (q - 1),
      zip_prev_length := 0, zip_match_available := Some 0, zip_match_length := 2\<rparr>)"
    and h: "mid ?e t \<and> 0 \<le> zip_strstart t \<and> (zip_eofile t \<or> zip_strstart t + q < ?e) \<Longrightarrow>
      \<exists>I. hashed I ?e (v\<lparr>zip_lookahead := zip_lookahead t - (q - 1),
      zip_prev := p, zip_ins_h := h, zip_hash_head := hd, zip_strstart := zip_strstart t + (q - 1),
      zip_prev_length := 0, zip_match_available := Some 0, zip_match_length := 2\<rparr>)"
    by (auto simp: q_def)
  define u where "u = v\<lparr>zip_lookahead := zip_lookahead t - (q - 1),
      zip_prev := p, zip_ins_h := h, zip_hash_head := hd, zip_strstart := zip_strstart t + (q - 1),
      zip_prev_length := 0, zip_match_available := Some 0, zip_match_length := 2\<rparr>"
  have "mid ?e t \<and> 0 \<le> zip_strstart t \<and> (zip_eofile t \<or> zip_strstart t + q < ?e)"
    using t(3) d(1) la(2) q by auto
  from h [OF this] obtain I where I: "hashed I ?e u" by (auto simp: u_def)
  have adv: "window_ok u \<and> win_pos u = win_pos t + (q - 1) \<and>
      block_text u (block_pos u) (win_pos t - 1 + q) \<and> win_inv u"
    using q qla la(2)
    by (intro conjI advance_ok [where n = "q - 1", OF t(1,2) _ _ _ la(2) blk same _ _ _ _ _ _ _ _ I])
      (simp_all add: u_def m bufs_hold_def)
  have e: "better_emit t = flush_if f u" by (simp add: e u_def)
  from flush_if_shape obtain b where "same_match (flush_if f u) (u\<lparr>zip_block_start := b\<rparr>)" ..
  note n = same_matchD [OF this]
  have pos: "win_pos (better_emit t) = win_pos u" by (simp add: win_pos_def e n)
  have I': "hashed I (zip_strstart u + zip_lookahead u) u" using I by (simp add: u_def)
  have "win_inv (better_emit t)"
    unfolding e using adv by (intro win_inv_flush [OF _ _ I']) (simp_all add: win_inv_def)
  moreover have "parsed (better_emit t) (win_pos (better_emit t))"
  proof -
    have "win_pos t - 1 + q = win_pos u" using adv by simp
    with adv have "parsed u (win_pos u)" by (simp add: parsed_def)
    with adv show ?thesis unfolding pos unfolding e by (intro flush_if_parsed) simp_all
  qed
  moreover have "zip_match_available (better_emit t) = Some 0" "zip_match_length (better_emit t) = 2"
    "zip_deflate_data (better_emit t) = zip_deflate_data t"
    by (simp_all add: e n) (simp_all add: u_def m)
  ultimately show ?thesis using adv q by (simp add: better_left_def pos)
qed

text \<open>One byte further, with the current match pending.\<close>

lemma better_wait:
  assumes w: "window_ok w" "parsed w (win_pos w)" "mid (zip_strstart w + zip_lookahead w) w"
    and la: "0 < zip_lookahead w" "zip_eofile w \<or> 262 \<le> zip_lookahead w"
    and mt: "3 \<le> zip_match_length w \<Longrightarrow> match_at w (win_pos w) (zip_match_length w) (match_dist w)"
    and u: "u = w\<lparr>zip_strstart := zip_strstart w + 1, zip_lookahead := zip_lookahead w - 1,
      zip_match_available := Some 1\<rparr>"
  shows "better_left u \<and> win_pos u = win_pos w + 1"
proof -
  let ?e = "zip_strstart w + zip_lookahead w"
  note d = window_okD [OF w(1)]
  from w(3) obtain I where "hashed I ?e (w\<lparr>zip_strstart := zip_strstart w + 1\<rparr>)" by (auto simp: mid_def)
  then have I: "hashed I ?e u" by (subst (asm) hashed_cong [of u, symmetric]) (simp_all add: u)
  have adv: "win_pos u = win_pos w + 1 \<and> block_text u (block_pos u) (win_pos w) \<and> win_inv u"
    using la w(2)
    by (intro conjI advance_ok [OF w(1,2) _ _ _ la(2) _ _ _ _ _ _ _ _ _ _ I])
      (simp_all add: u bufs_hold_def parsed_def same_match_def)
  moreover have "zip_match_length u = zip_match_length w" "match_dist u - 1 = match_dist w"
    by (simp_all add: u match_dist_def)
  moreover have "match_at u p n k = match_at w p n k" for p n k by (rule match_at_cong) (simp add: u)
  moreover have "0 < zip_strstart u" "zip_match_available u = Some 1" using d(1) by (simp_all add: u)
  ultimately show ?thesis using mt by (simp add: better_left_def parsed_def)
qed

lemma better_emit_ok:
  assumes t: "window_ok t" "mid (zip_strstart t + zip_lookahead t) t"
    and la: "0 < zip_lookahead t" "zip_eofile t \<or> 262 \<le> zip_lookahead t"
    and st: "zip_match_available t = Some 0 \<and> zip_prev_length t = 2 \<and> parsed t (win_pos t) \<or>
      zip_match_available t = Some 1 \<and> 0 < zip_strstart t \<and> parsed t (win_pos t - 1) \<and>
      (3 \<le> zip_prev_length t \<longrightarrow>
        match_at t (win_pos t - 1) (zip_prev_length t) (zip_strstart t - 1 - zip_prev_match t))"
    and mt: "3 \<le> zip_match_length t \<Longrightarrow> zip_prev_length t < zip_match_length t \<Longrightarrow>
      match_at t (win_pos t) (zip_match_length t) (match_dist t)"
  shows "better_left (better_emit t) \<and> win_pos t < win_pos (better_emit t) \<and>
    zip_deflate_data (better_emit t) = zip_deflate_data t"
proof (cases "3 \<le> zip_prev_length t \<and> zip_match_length t \<le> zip_prev_length t")
  case True
  with st show ?thesis by (intro better_emit_taken t la) auto
next
  case False
  then have mt': "3 \<le> zip_match_length t \<Longrightarrow> match_at t (win_pos t) (zip_match_length t) (match_dist t)"
    using mt by force
  note d = window_okD [OF t(1)]
  have pos: "win_pos t = win_base t + zip_strstart t" by (simp add: win_pos_def win_base_def)
  show ?thesis
  proof (cases "zip_match_available t = Some 0")
    case avail: True
    let ?u = "t\<lparr>zip_match_available := Some 1, zip_strstart := zip_strstart t + 1,
      zip_lookahead := zip_lookahead t - 1\<rparr>"
    have "better_emit t = ?u" using False avail by (auto simp: better_emit_def)
    moreover have "better_left ?u \<and> win_pos ?u = win_pos t + 1"
      using st avail by (intro better_wait [OF t(1) _ t(2) la mt']) auto
    ultimately show ?thesis by simp
  next
    case avail: False
    with st have st: "zip_match_available t = Some 1" "0 < zip_strstart t" "parsed t (win_pos t - 1)" by auto
    have byte: "win_ff (zip_window t (zip_strstart t - 1)) = data_byte t (win_pos t - 1)"
      using literal_byte [OF t(1), of "zip_strstart t - 1"] la(1) st(2) pos by (simp add: add_diff_eq)
    obtain f v where fv: "zip_ct_tally 0 (data_byte t (win_pos t - 1)) t = (f, v)" by fastforce
    then have v: "v = snd (zip_ct_tally 0 (data_byte t (win_pos t - 1)) t)" by simp
    have same: "same_match v t" unfolding v by (rule same_match_tally)
    note m = same_matchD [OF same]
    have "win_pos t \<le> int (length (zip_deflate_data t))" using d(2,5) by (simp add: win_pos_def)
    then have blk: "block_text v (block_pos t) (win_pos t)"
      using literal_text [of t "block_pos t" "win_pos t - 1"] st d(4) pos by (simp add: v parsed_def)
    define w where "w = flush_if f v"
    from flush_if_shape obtain b where "same_match w (v\<lparr>zip_block_start := b\<rparr>)" unfolding w_def ..
    note n = same_matchD [OF this]
    have vok: "window_ok v" by (rule window_ok_cong [OF _ _ _ _ _ _ _ t(1)]) (use d in \<open>simp_all add: m\<close>)
    have vpos: "win_pos v = win_pos t" "block_pos v = block_pos t" "win_pos w = win_pos t"
      by (simp_all add: win_pos_def block_pos_def win_base_def m n)
    have wok: "window_ok w" by (rule window_ok_cong [OF _ _ _ _ _ _ _ t(1)]) (use d in \<open>simp_all add: m n\<close>)
    have "parsed w (win_pos w)"
      unfolding vpos(3) unfolding w_def
      using flush_if_parsed [OF _ vok, of f] blk by (simp add: parsed_def vpos)
    moreover have "mid (zip_strstart w + zip_lookahead w) w"
      using t(2) by (subst mid_cong [of w t]) (simp_all add: m n)
    moreover have "3 \<le> zip_match_length w \<Longrightarrow> match_at w (win_pos w) (zip_match_length w) (match_dist w)"
      using mt' by (subst match_at_cong [of w t]) (simp_all add: m n vpos match_dist_def)
    moreover have e: "better_emit t = w\<lparr>zip_strstart := zip_strstart w + 1, zip_lookahead := zip_lookahead w - 1\<rparr>"
      using False avail fv by (auto simp: better_emit_def byte Let_def w_def)
    moreover have "w\<lparr>zip_strstart := zip_strstart w + 1, zip_lookahead := zip_lookahead w - 1\<rparr> =
        w\<lparr>zip_strstart := zip_strstart w + 1, zip_lookahead := zip_lookahead w - 1,
          zip_match_available := Some 1\<rparr>"
      using st(1) by (simp add: m n)
    ultimately have "better_left (better_emit t) \<and> win_pos (better_emit t) = win_pos w + 1"
      using la by (intro better_wait [OF wok]) (simp_all add: m n)
    then show ?thesis by (simp add: vpos e m n)
  qed
qed

lemma better_round:
  assumes "better_inv s" "zip_lookahead s \<noteq> 0"
  shows "better_inv (better_step s)" "win_pos s < win_pos (better_step s)"
    "zip_deflate_data (better_step s) = zip_deflate_data s"
proof -
  from assms(1) have s: "win_inv s" "zip_eofile s \<or> 262 \<le> zip_lookahead s"
    by (auto simp: better_inv_def round_ok_def)
  have ok: "window_ok s" using s(1) by (simp add: win_inv_def)
  note d = window_okD [OF ok]
  have la: "0 < zip_lookahead s" using d(2) assms(2) by simp
  define t0 where "t0 = zip_INSERT_STRING s"
  obtain p h hd where t0: "t0 = s\<lparr>zip_prev := p, zip_ins_h := h, zip_hash_head := hd\<rparr>"
    unfolding t0_def using insert_shape by blast
  have start: "searchable t0" "mid (zip_strstart s + zip_lookahead s) t0"
    using s(2) unfolding t0_def by (intro round_start [OF s(1)]; auto)+
  define t where "t = better_match t0"
  from better_match_shape [OF start(1), folded t_def] obtain n m where
    t: "t = t0\<lparr>zip_prev_length := zip_match_length t0, zip_prev_match := zip_match_start t0,
      zip_match_length := n, zip_match_start := m\<rparr>"
    and mt: "3 \<le> n \<and> zip_match_length t0 < n \<Longrightarrow> match_at t0 (win_pos t0) n (zip_strstart t0 - m)" by blast
  have t: "t = s\<lparr>zip_prev := p, zip_ins_h := h, zip_hash_head := hd, zip_prev_length := zip_match_length s,
      zip_prev_match := zip_match_start s, zip_match_length := n, zip_match_start := m\<rparr>"
    unfolding t by (simp add: t0)
  have pos: "win_pos t = win_pos s" by (simp add: t win_pos_def)
  have tok: "window_ok t" by (rule window_ok_cong [OF _ _ _ _ _ _ _ ok]) (use d in \<open>simp_all add: t\<close>)
  have parse: "parsed t q = parsed s q" for q
    unfolding parsed_def by (subst block_text_cong [of t s]) (simp_all add: t bufs_hold_def block_pos_def win_base_def)
  have match: "match_at t q k e = match_at s q k e" for q k e by (rule match_at_cong) (simp add: t)
  have "better_left (better_emit t) \<and> win_pos t < win_pos (better_emit t) \<and>
    zip_deflate_data (better_emit t) = zip_deflate_data t"
  proof (rule better_emit_ok [OF tok])
    show "mid (zip_strstart t + zip_lookahead t) t"
      using start(2) by (subst mid_cong [of _ t0]) (simp_all add: t t0)
    show "0 < zip_lookahead t" "zip_eofile t \<or> 262 \<le> zip_lookahead t" using la s(2) by (simp_all add: t)
    have dist: "match_dist s - 1 = zip_strstart t - 1 - zip_prev_match t" by (simp add: match_dist_def t)
    show "zip_match_available t = Some 0 \<and> zip_prev_length t = 2 \<and> parsed t (win_pos t) \<or>
      zip_match_available t = Some 1 \<and> 0 < zip_strstart t \<and> parsed t (win_pos t - 1) \<and>
      (3 \<le> zip_prev_length t \<longrightarrow>
        match_at t (win_pos t - 1) (zip_prev_length t) (zip_strstart t - 1 - zip_prev_match t))"
      using assms(1) unfolding parse match pos dist [symmetric] better_inv_def by (simp add: t)
    show "match_at t (win_pos t) (zip_match_length t) (match_dist t)"
      if "3 \<le> zip_match_length t" "zip_prev_length t < zip_match_length t"
    proof -
      have "match_at t0 (win_pos t0) n (zip_strstart t0 - m)" using that by (intro mt) (simp add: t t0)
      moreover have "match_at t0 q k e = match_at s q k e" for q k e by (rule match_at_cong) (simp add: t0)
      ultimately show ?thesis unfolding match by (simp add: t t0 match_dist_def win_pos_def)
    qed
  qed
  then have e: "better_left (better_emit t)" "win_pos t < win_pos (better_emit t)"
    "zip_deflate_data (better_emit t) = zip_deflate_data t" by simp_all
  have step: "better_step s = fill_loop (better_emit t)" by (simp add: better_step_def t_def t0_def)
  have "win_inv (better_emit t)" using e(1) by (simp add: better_left_def)
  note f = fill_loop_inv [OF this, folded step]
  then have fr: "win_pos (better_step s) = win_pos (better_emit t)"
    "match_dist (better_step s) = match_dist (better_emit t)"
    "block_pos (better_step s) = block_pos (better_emit t)"
    "zip_match_length (better_step s) = zip_match_length (better_emit t)"
    "zip_match_available (better_step s) = zip_match_available (better_emit t)"
    "zip_deflate_data (better_step s) = zip_deflate_data (better_emit t)"
    "\<And>ts. bufs_hold ts (better_step s) = bufs_hold ts (better_emit t)"
    "0 < zip_strstart (better_emit t) \<Longrightarrow> 0 < zip_strstart (better_step s)"
    by (auto simp: fill_frame_def)
  have "parsed (better_step s) q = parsed (better_emit t) q" for q
    unfolding parsed_def fr(3) by (rule block_text_cong [OF fr(6,7)])
  moreover have "match_at (better_step s) q k e = match_at (better_emit t) q k e" for q k e
    by (rule match_at_cong [OF fr(6)])
  moreover have "round_ok (better_step s)" using f by (simp add: round_ok_def)
  ultimately show "better_inv (better_step s)"
    using e(1) fr(8) unfolding better_inv_def better_left_def fr(1,2,4,5) by blast
  show "win_pos s < win_pos (better_step s)" using e(2) by (simp add: fr pos)
  show "zip_deflate_data (better_step s) = zip_deflate_data s" using e(3) by (simp add: fr) (simp add: t)
qed

end
