(* ===== verification/Deflate_Total.thy ===== *)
theory Deflate_Total
  imports Deflate_Lazy
begin

text \<open>
  The driver: the loops of the two matchers end, \<open>zip_deflate_internal\<close> either hands out bytes or has
  finished, and so \<open>deflate\<close> returns for every string and level, call after call.
\<close>

section \<open>The output buffers\<close>

text \<open>The compressor writes only while nothing of \<open>zip_outbuf\<close> has been handed out.\<close>

declare writable_send [simp]

lemma writable_fields [simp]:
  "writable (s\<lparr>zip_dyn_ltree := t\<rparr>) = writable s" "writable (s\<lparr>zip_dyn_dtree := t\<rparr>) = writable s"
  "writable (s\<lparr>zip_static_ltree := t\<rparr>) = writable s" "writable (s\<lparr>zip_static_dtree := t\<rparr>) = writable s"
  "writable (s\<lparr>zip_bl_tree := t\<rparr>) = writable s" "writable (s\<lparr>zip_l_desc := d\<rparr>) = writable s"
  "writable (s\<lparr>zip_d_desc := d\<rparr>) = writable s" "writable (s\<lparr>zip_bl_desc := d\<rparr>) = writable s"
  "writable (s\<lparr>zip_bl_count := f\<rparr>) = writable s" "writable (s\<lparr>zip_heap := f\<rparr>) = writable s"
  "writable (s\<lparr>zip_heap_len := n\<rparr>) = writable s" "writable (s\<lparr>zip_heap_max := n\<rparr>) = writable s"
  "writable (s\<lparr>zip_depth := f\<rparr>) = writable s" "writable (s\<lparr>zip_opt_len := n\<rparr>) = writable s"
  "writable (s\<lparr>zip_static_len := n\<rparr>) = writable s"
  by (simp_all add: writable_def buf_shape_def)

lemma writable_block_fields [simp]:
  "writable (s\<lparr>zip_flag_buf := f\<rparr>) = writable s" "writable (s\<lparr>zip_last_lit := n\<rparr>) = writable s"
  "writable (s\<lparr>zip_last_dist := n\<rparr>) = writable s" "writable (s\<lparr>zip_last_flags := n\<rparr>) = writable s"
  "writable (s\<lparr>zip_flags := n\<rparr>) = writable s" "writable (s\<lparr>zip_flag_bit := n\<rparr>) = writable s"
  by (simp_all add: writable_def buf_shape_def)

lemma writable_set [simp]:
  "writable (set_tree r t s) = writable s" "writable (set_desc d e s) = writable s"
  by (cases r; simp) (cases d; simp)

lemma writable_Let: "(\<And>x. x = a \<Longrightarrow> writable (f x) = m) \<Longrightarrow> writable (let x = a in f x) = m"
  by simp

lemma writable_trees [simp]:
  "writable (zip_gen_bitlen d s) = writable s" "writable (zip_gen_codes r m s) = writable s"
  "writable (zip_scan_tree r m s) = writable s" "writable (zip_init_block v) = writable v"
  by (simp_all add: zip_gen_bitlen_def zip_gen_codes_def zip_scan_tree_def zip_init_block_def Let_def)

lemma writable_build [simp]: "writable (zip_build_tree d s) = writable s"
  unfolding zip_build_tree_def by (intro writable_Let) (simp (no_asm_simp))

lemma writable_build_bl [simp]: "writable (snd (zip_build_bl_tree s)) = writable s"
  by (simp add: zip_build_bl_tree_def Let_def)

lemma writable_code [simp]: "writable s \<Longrightarrow> writable (zip_SEND_CODE c t s)"
  by (simp add: zip_SEND_CODE_def writable_send_bits)

lemma writable_for:
  "writable s \<Longrightarrow> (\<And>i s. writable s \<Longrightarrow> writable (body i s)) \<Longrightarrow> writable (for_up a b body s)"
  by (rule for_up_preserves)

lemma writable_step: "writable (snd x) \<Longrightarrow> writable (snd (send_step bl t n x))"
proof -
  have "writable ((zip_SEND_CODE c t ^^ k) s)" if "writable s" for c t k and s :: "'a out_state_scheme"
    using that by (induction k) simp_all
  then show "writable (snd x) \<Longrightarrow> writable (snd (send_step bl t n x))"
    by (cases x) (simp add: send_step_def send_repeat_def Let_def split: prod.splits)
qed

lemma writable_send_tree [simp]: "writable s \<Longrightarrow> writable (zip_send_tree t m s)"
  unfolding zip_send_tree_def
  by (rule for_up_preserves [where P = "\<lambda>x. writable (snd x)"]) (simp_all add: writable_step)

lemma writable_all_trees [simp]: "writable s \<Longrightarrow> writable (zip_send_all_trees l d b s)"
  unfolding zip_send_all_trees_def Let_def by (intro writable_send_tree writable_for writable_send_bits)

lemma writable_compress [simp]:
  assumes "writable s"
  shows "writable (zip_compress_block l d s)"
proof -
  have "writable (snd (snd (snd (for_up 0 n (compress_step l d) (0, 0, 0, s)))))" for n
  proof (rule for_up_preserves [where P = "\<lambda>x. writable (snd (snd (snd x)))"])
    fix i and x :: "int \<times> int \<times> int \<times> 'a block_state_scheme"
    assume "writable (snd (snd (snd x)))"
    then show "writable (snd (snd (snd (compress_step l d i x))))"
      by (cases x) (simp add: compress_step_def Let_def split: prod.splits)
  qed (simp add: assms)
  with assms show ?thesis by (simp add: zip_compress_block_def Let_def)
qed

lemma writable_stored [simp]: "writable s \<Longrightarrow> writable (send_stored n eof s)"
  unfolding send_stored_def Let_def
  by (intro writable_for writable_put_byte writable_put_short writable_bi_windup writable_send_bits)

lemma writable_flush [simp]:
  assumes "writable s"
  shows "writable (zip_flush_block eof s)"
proof -
  define s1 where "s1 = s\<lparr>zip_flag_buf := (zip_flag_buf s)(zip_last_flags s := zip_flags s)\<rparr>"
  obtain m s2 where bl: "zip_build_bl_tree (zip_build_tree D_desc (zip_build_tree L_desc s1)) = (m, s2)"
    by fastforce
  then have "writable s2"
    using writable_build_bl [of "zip_build_tree D_desc (zip_build_tree L_desc s1)"] assms by (simp add: s1_def)
  then show ?thesis
    unfolding zip_flush_block_def Let_def s1_def [symmetric] bl prod.case
    by simp
qed

lemma writable_tally [simp]: "writable (snd (zip_ct_tally d c s)) = writable s"
  by (simp add: writable_def buf_shape_def zip_ct_tally_def tally_flags_def tally_store_def Let_def)

text \<open>The matchers touch the output only by flushing.\<close>

lemma writable_match_fields [simp]:
  "writable (s\<lparr>zip_prev := f\<rparr>) = writable s" "writable (s\<lparr>zip_ins_h := n\<rparr>) = writable s"
  "writable (s\<lparr>zip_hash_head := n\<rparr>) = writable s" "writable (s\<lparr>zip_prev_match := n\<rparr>) = writable s"
  "writable (s\<lparr>zip_match_available := b\<rparr>) = writable s" "writable (s\<lparr>zip_match_length := n\<rparr>) = writable s"
  "writable (s\<lparr>zip_prev_length := n\<rparr>) = writable s" "writable (s\<lparr>zip_match_start := n\<rparr>) = writable s"
  "writable (s\<lparr>zip_eofile := e\<rparr>) = writable s" "writable (s\<lparr>zip_lookahead := n\<rparr>) = writable s"
  "writable (s\<lparr>zip_max_chain_length := n\<rparr>) = writable s" "writable (s\<lparr>zip_max_lazy_match := n\<rparr>) = writable s"
  "writable (s\<lparr>zip_good_match := n\<rparr>) = writable s" "writable (s\<lparr>zip_deflate_pos := n\<rparr>) = writable s"
  by (simp_all add: writable_def buf_shape_def)

lemma writable_window_fields [simp]:
  "writable (s\<lparr>zip_window := w\<rparr>) = writable s" "writable (s\<lparr>zip_strstart := n\<rparr>) = writable s"
  "writable (s\<lparr>zip_block_start := n\<rparr>) = writable s"
  by (simp_all add: writable_def buf_shape_def)

lemma writable_insert [simp]: "writable (zip_INSERT_STRING s) = writable s"
  by (simp add: zip_INSERT_STRING_def zip_head2_def Let_def)

lemma writable_inserts [simp]: "writable (insert_strings n s) = writable s"
proof -
  have "writable ((insert_step ^^ k) s) = writable s" for k
    by (induction k) (simp_all add: insert_step_def)
  then show ?thesis by (simp add: insert_strings_def)
qed

lemma writable_search [simp]: "writable (snd (zip_longest_match c s)) = writable s"
  by (simp add: zip_longest_match_def Let_def)

lemma writable_fill_window: "writable (zip_fill_window s) = writable s"
proof -
  have read: "writable (snd (zip_read_buff offset n u)) = writable u" for offset n and u :: "'a match_state_scheme"
    unfolding zip_read_buff_def Let_def snd_conv
    by (rule for_up_preserves [where P = "\<lambda>v. writable v = writable u"]) simp_all
  then have read: "zip_read_buff offset n u = (k, v) \<Longrightarrow> writable v = writable u" for offset n k v
    and u :: "'a match_state_scheme" by (metis snd_conv)
  show ?thesis
    unfolding zip_fill_window_def Let_def
    by (auto simp: slide_window_result dest: read split: prod.splits)
qed

lemma writable_fill [simp]: "writable (fill_loop s) = writable s"
proof (induction s rule: fill_loop.induct)
  case (1 s)
  then show ?case by (subst fill_loop.simps) (simp add: writable_fill_window)
qed

lemma writable_flush_if [simp]: "writable s \<Longrightarrow> writable (flush_if f s)"
  by (simp add: flush_if_def Let_def)

lemma writable_tally': "zip_ct_tally d c s = (f, s') \<Longrightarrow> writable s' = writable s"
  using writable_tally [of d c s] by simp

lemma writable_search': "zip_longest_match c s = (n, s') \<Longrightarrow> writable s' = writable s"
  using writable_search [of c s] by simp

lemma writable_fast_step: "writable s \<Longrightarrow> writable (fast_step s)"
proof -
  have "writable u \<Longrightarrow> writable (fast_match u)" for u :: "'a match_state_scheme"
    by (auto simp: fast_match_def Let_def writable_search' split: prod.splits)
  moreover have "writable u \<Longrightarrow> writable (fast_emit u)" for u :: "'a match_state_scheme"
    by (auto simp: fast_emit_def Let_def writable_tally' split: prod.splits)
  ultimately show "writable s \<Longrightarrow> writable (fast_step s)" by (simp add: fast_step_def)
qed

lemma writable_better_step: "writable s \<Longrightarrow> writable (better_step s)"
proof -
  have "writable u \<Longrightarrow> writable (better_match u)" for u :: "'a match_state_scheme"
    by (auto simp: better_match_def Let_def writable_search' split: prod.splits)
  moreover have "writable u \<Longrightarrow> writable (better_emit u)" for u :: "'a match_state_scheme"
    by (auto simp: better_emit_def Let_def writable_tally' split: prod.splits)
  ultimately show "writable s \<Longrightarrow> writable (better_step s)" by (simp add: better_step_def)
qed

text \<open>The level and the driver's own variables stay.\<close>

definition outer :: "'a match_state_scheme \<Rightarrow> int \<times> 'a" where
  "outer s = (zip_compr_level s, match_state.more s)"

lemma outer_same: "same_match s s' \<Longrightarrow> outer s = outer s'"
  by (cases s; cases s'; simp add: same_match_def outer_def)

lemma outer_insert [simp]: "outer (zip_INSERT_STRING s) = outer s"
  by (simp add: zip_INSERT_STRING_def zip_head2_def Let_def outer_def)

lemma outer_fields [simp]:
  "outer (s\<lparr>zip_match_length := n\<rparr>) = outer s" "outer (s\<lparr>zip_lookahead := n\<rparr>) = outer s"
  "outer (s\<lparr>zip_strstart := n\<rparr>) = outer s" "outer (s\<lparr>zip_prev_length := n\<rparr>) = outer s"
  "outer (s\<lparr>zip_match_available := b\<rparr>) = outer s" "outer (s\<lparr>zip_prev_match := n\<rparr>) = outer s"
  "outer (s\<lparr>zip_ins_h := n\<rparr>) = outer s" "outer (s\<lparr>zip_block_start := n\<rparr>) = outer s"
  "outer (s\<lparr>zip_match_start := n\<rparr>) = outer s" "outer (s\<lparr>zip_eofile := e\<rparr>) = outer s"
  "outer (s\<lparr>zip_window := w\<rparr>) = outer s" "outer (s\<lparr>zip_deflate_pos := n\<rparr>) = outer s"
  "outer (s\<lparr>zip_prev := f\<rparr>) = outer s"
  by (simp_all add: outer_def)

lemma outer_inserts [simp]: "outer (insert_strings n s) = outer s"
proof -
  have "outer ((insert_step ^^ k) s) = outer s" for k
    by (induction k) (simp_all add: insert_step_def)
  then show ?thesis by (simp add: insert_strings_def)
qed

lemma outer_fill_window: "outer (zip_fill_window s) = outer s"
proof -
  have "outer (snd (zip_read_buff offset n u)) = outer u" for offset n and u :: "'a match_state_scheme"
    unfolding zip_read_buff_def Let_def snd_conv
    by (rule for_up_preserves [where P = "\<lambda>v. outer v = outer u"]) simp_all
  then have read: "zip_read_buff offset n u = (k, v) \<Longrightarrow> outer v = outer u" for offset n k v
    and u :: "'a match_state_scheme" by (metis snd_conv)
  show ?thesis
    unfolding zip_fill_window_def Let_def
    by (auto simp: slide_window_result dest: read split: prod.splits)
qed

lemma outer_fill [simp]: "outer (fill_loop s) = outer s"
proof (induction s rule: fill_loop.induct)
  case (1 s)
  then show ?case by (subst fill_loop.simps) (simp add: outer_fill_window)
qed

lemma outer_flush_if [simp]: "outer (flush_if f s) = outer s"
proof -
  from flush_if_shape obtain b where "same_match (flush_if f s) (s\<lparr>zip_block_start := b\<rparr>)" ..
  from outer_same [OF this] show ?thesis by simp
qed

lemma outer_tally': "zip_ct_tally d c s = (f, s') \<Longrightarrow> outer s' = outer s"
  using outer_same [OF same_match_tally, of d c s] by simp

lemma outer_search': "zip_longest_match c s = (n, s') \<Longrightarrow> outer s' = outer s"
  by (auto simp: zip_longest_match_def Let_def)

lemma outer_fast_step: "outer (fast_step s) = outer s"
proof -
  have "outer (fast_match u) = outer u" for u :: "'a match_state_scheme"
    by (auto simp: fast_match_def Let_def outer_search' split: prod.splits)
  moreover have "outer (fast_emit u) = outer u" for u :: "'a match_state_scheme"
    by (auto simp: fast_emit_def Let_def outer_tally' split: prod.splits)
  ultimately show ?thesis by (simp add: fast_step_def)
qed

lemma outer_better_step: "outer (better_step s) = outer s"
proof -
  have "outer (better_match u) = outer u" for u :: "'a match_state_scheme"
    by (auto simp: better_match_def Let_def outer_search' split: prod.splits)
  moreover have "outer (better_emit u) = outer u" for u :: "'a match_state_scheme"
    by (auto simp: better_emit_def Let_def outer_tally' split: prod.splits)
  ultimately show ?thesis by (simp add: better_step_def)
qed

section \<open>The loops of the matchers\<close>

definition loop_done :: "'a match_state_scheme \<Rightarrow> bool" where
  "loop_done s \<longleftrightarrow> zip_lookahead s = 0 \<or> zip_qhead s \<noteq> []"

text \<open>What a loop has done to its state.\<close>

definition went_on :: "'a match_state_scheme \<Rightarrow> 'a match_state_scheme \<Rightarrow> bool" where
  "went_on s s' \<longleftrightarrow> loop_done s' \<and> zip_deflate_data s' = zip_deflate_data s \<and>
     outer s' = outer s \<and> win_pos s \<le> win_pos s' \<and> (\<not> loop_done s \<longrightarrow> win_pos s < win_pos s')"

lemma win_pos_bound: "window_ok s \<Longrightarrow> win_pos s \<le> int (length (zip_deflate_data s))"
  using window_okD(2,5) [of s] by (simp add: win_pos_def)

lemma fast_loop_ends:
  assumes "fast_inv s"
  shows "\<exists>s'. zip_deflate_fast s = Some s' \<and> fast_inv s' \<and> (writable s \<longrightarrow> writable s') \<and> went_on s s' \<and>
    zip_match_available s' = zip_match_available s"
  using assms
proof (induction "nat (int (length (zip_deflate_data s)) - win_pos s)" arbitrary: s rule: less_induct)
  case less
  show ?case
  proof (cases "loop_done s")
    case True
    then have "zip_deflate_fast s = Some s"
      by (subst zip_deflate_fast.simps) (auto simp: loop_done_def)
    with True less.prems show ?thesis by (simp add: went_on_def)
  next
    case False
    then have la: "zip_lookahead s \<noteq> 0" and step: "zip_deflate_fast s = zip_deflate_fast (fast_step s)"
      by (simp_all add: loop_done_def zip_deflate_fast.simps [of s])
    note r = fast_round [OF less.prems la]
    have "window_ok (fast_step s)" using r(1) by (simp add: fast_inv_def round_ok_def win_inv_def)
    then have "nat (int (length (zip_deflate_data (fast_step s))) - win_pos (fast_step s)) <
        nat (int (length (zip_deflate_data s)) - win_pos s)"
      using win_pos_bound [of "fast_step s"] r(2,3) by simp
    from less.hyps [OF this r(1)] show ?thesis
      using r(2-4) step False outer_fast_step [of s] writable_fast_step [of s]
      by (auto simp: went_on_def)
  qed
qed

lemma better_loop_ends:
  assumes "better_inv s"
  shows "\<exists>s'. zip_deflate_better s = Some s' \<and> better_inv s' \<and> (writable s \<longrightarrow> writable s') \<and> went_on s s'"
  using assms
proof (induction "nat (int (length (zip_deflate_data s)) - win_pos s)" arbitrary: s rule: less_induct)
  case less
  show ?case
  proof (cases "loop_done s")
    case True
    then have "zip_deflate_better s = Some s"
      by (subst zip_deflate_better.simps) (auto simp: loop_done_def)
    with True less.prems show ?thesis by (simp add: went_on_def)
  next
    case False
    then have la: "zip_lookahead s \<noteq> 0" and step: "zip_deflate_better s = zip_deflate_better (better_step s)"
      by (simp_all add: loop_done_def zip_deflate_better.simps [of s])
    note r = better_round [OF less.prems la]
    have "window_ok (better_step s)" using r(1) by (simp add: better_inv_def round_ok_def win_inv_def)
    then have "nat (int (length (zip_deflate_data (better_step s))) - win_pos (better_step s)) <
        nat (int (length (zip_deflate_data s)) - win_pos s)"
      using win_pos_bound [of "better_step s"] r(2,3) by simp
    from less.hyps [OF this r(1)] show ?thesis
      using r(2,3) step False outer_better_step [of s] writable_better_step [of s]
      by (auto simp: went_on_def)
  qed
qed

section \<open>Starting\<close>

lemma same_match_init: "same_match (zip_ct_init s) s"
proof -
  have "tree_state.more (ct_init_static (ct_init_dists (ct_init_lengths (ct_init_descs s)))) = tree_state.more s"
    by (simp add: ct_init_static_def ct_init_dists_def ct_init_lengths_def ct_init_descs_def Let_def
        split: prod.splits)
  from block_fields_more [OF this] show ?thesis
    by (simp add: same_match_def zip_ct_init_def init_block_frame)
qed

text \<open>Between two calls of \<open>deflate\<close>: the tables are set up and no token is left, or nothing is.\<close>

definition idle :: "'a block_state_scheme \<Rightarrow> bool" where
  "idle s \<longleftrightarrow> dl (zip_static_dtree s 0) = 0 \<or> bufs_hold [] s"

lemma ct_init_empty: "idle s \<Longrightarrow> bufs_hold [] (zip_ct_init s)"
  by (auto simp: idle_def zip_ct_init_def bufs_hold_init)

lemma fill_at_end:
  assumes ok: "window_ok s" "\<not> zip_eofile s" and e: "zip_deflate_pos s = int (length (zip_deflate_data s))"
    "zip_lookahead s < 262" "zip_strstart s < 65274"
  shows "fill_loop s = s\<lparr>zip_eofile := True\<rparr>"
proof -
  note d = window_okD [OF ok(1)]
  have pos: "0 \<le> zip_deflate_pos s" using e by simp
  obtain k u where r: "zip_read_buff (zip_strstart s + zip_lookahead s) (65536 - zip_lookahead s - zip_strstart s) s = (k, u)"
    by fastforce
  note res = read_buff_result [OF r pos]
  have k: "k = 0" using e by (simp add: res(1))
  have "(\<lambda>i. if zip_strstart s + zip_lookahead s \<le> i \<and> i < zip_strstart s + zip_lookahead s + 0
      then Some (data_byte s (zip_deflate_pos s + (i - (zip_strstart s + zip_lookahead s))))
      else zip_window s i) = zip_window s" by (auto simp: fun_eq_iff)
  then have "u = s" using res(2) by (simp add: k)
  then have "zip_fill_window s = s\<lparr>zip_eofile := True\<rparr>"
    using e r k by (simp add: fill_window_eq [OF ok] read_more_def Let_def)
  moreover have "fill_loop (s\<lparr>zip_eofile := True\<rparr>) = s\<lparr>zip_eofile := True\<rparr>"
    by (subst fill_loop.simps) simp
  ultimately show ?thesis using e(2) ok(2) by (subst fill_loop.simps) simp
qed

lemma lm_init_ok:
  assumes s: "zip_deflate_pos s = 0" "bufs_hold [] s"
  defines "s' \<equiv> zip_lm_init s"
  shows "bufs_hold [] s'" "zip_deflate_data s' = zip_deflate_data s"
    "zip_compr_level s' = zip_compr_level s"
    "zip_lookahead s' \<noteq> 0 \<Longrightarrow> round_ok s' \<and> win_pos s' = 0 \<and> block_pos s' = 0"
    "zip_lookahead s' = 0 \<longleftrightarrow> zip_deflate_data s = []"
    "zip_match_available s' = zip_match_available s"
proof -
  define c where "c = zip_configuration_table (zip_compr_level s)"
  define a where "a = s\<lparr>zip_prev := for_up 0 8192 (\<lambda>j p. p(32768 + j := 0)) (zip_prev s),
    zip_max_lazy_match := max_lazy c, zip_good_match := good_length c,
    zip_max_chain_length := max_chain c, zip_strstart := 0, zip_block_start := 0\<rparr>"
  let ?len = "int (length (zip_deflate_data s))"
  obtain k u where r: "zip_read_buff 0 65536 a = (k, u)" by fastforce
  note res = read_buff_result [OF r]
  have k: "k = min 65536 ?len" using res(1) s(1) by (simp add: a_def)
  have u: "u = a\<lparr>zip_window := (\<lambda>i. if 0 \<le> i \<and> i < k then Some (data_byte a i) else zip_window a i),
      zip_deflate_pos := k\<rparr>"
    using res(2) s(1) by (simp add: a_def cong: if_cong)
  define v where "v = u\<lparr>zip_lookahead := k, zip_eofile := False\<rparr>"
  define w where "w = fill_loop v"
  define x where "x = for_up 0 2 (\<lambda>j s. s\<lparr>zip_ins_h := update_hash (zip_ins_h s) (zip_window s j)\<rparr>)
      (w\<lparr>zip_ins_h := 0\<rparr>)"
  have s': "s' = (if k \<le> 0 then u\<lparr>zip_eofile := True, zip_lookahead := 0\<rparr> else x)"
    using r by (simp add: s'_def zip_lm_init_def Let_def a_def c_def v_def w_def x_def)
  have x: "x = w\<lparr>zip_ins_h := update_hash (update_hash 0 (zip_window w 0)) (zip_window w 1)\<rparr>"
    by (simp add: x_def for_up_step)
  have vok: "window_ok v"
    by (simp add: v_def u k window_ok_def win_base_def shows_data_def data_byte_def) (auto simp: a_def)
  have w: "w = v \<and> 262 \<le> k \<or> w = v\<lparr>zip_eofile := True\<rparr> \<and> zip_deflate_pos v = ?len"
  proof (cases "k < 262")
    case True
    then have "k = ?len" using k by simp
    then have "zip_deflate_pos v = ?len" by (simp add: v_def u)
    moreover have "w = v\<lparr>zip_eofile := True\<rparr>"
      unfolding w_def using True \<open>k = ?len\<close>
      by (intro fill_at_end [OF vok]) (simp_all add: v_def u a_def)
    ultimately show ?thesis by simp
  next
    case False
    then have "w = v" unfolding w_def by (subst fill_loop.simps) (simp add: v_def)
    with False show ?thesis by simp
  qed
  have "bufs_hold [] a" using s(2) by (simp add: a_def bufs_hold_def)
  then have wu: "bufs_hold [] u" by (simp add: u bufs_hold_def)
  then have "bufs_hold [] w" using w by (auto simp: v_def bufs_hold_def)
  with wu show "bufs_hold [] s'" by (simp add: s' x bufs_hold_def)
  have fields: "zip_deflate_data w = zip_deflate_data s" "zip_compr_level w = zip_compr_level s"
    "zip_lookahead w = k" "zip_deflate_pos w = k" "zip_strstart w = 0" "zip_block_start w = 0"
    "zip_prev w = zip_prev a" "zip_window w = zip_window u"
    "zip_match_available w = zip_match_available s"
    using w by (auto simp: v_def u a_def)
  show "zip_deflate_data s' = zip_deflate_data s" "zip_compr_level s' = zip_compr_level s"
    "zip_match_available s' = zip_match_available s"
    by (simp_all add: s' x fields) (simp_all add: u a_def)
  show "zip_lookahead s' = 0 \<longleftrightarrow> zip_deflate_data s = []"
  proof -
    have "k \<le> 0 \<longleftrightarrow> zip_deflate_data s = []" "0 \<le> k" by (auto simp: k min_le_iff_disj)
    then show ?thesis by (auto simp: s' x fields)
  qed
  assume "zip_lookahead s' \<noteq> 0"
  then have k0: "0 < k" and sx: "s' = x" by (auto simp: s' split: if_splits)
  have head: "zip_prev a (32768 + h) = 0" if "0 \<le> h" "h < 8192" for h
  proof -
    have "for_up 0 8192 (\<lambda>j p. p(32768 + j := 0)) p =
        (\<lambda>i. if 32768 \<le> i \<and> i < 32768 + 8192 then 0 else p i)" for p :: "int \<Rightarrow> int"
      by (rule for_up_invariant [where P = "\<lambda>j q. q = (\<lambda>i. if 32768 \<le> i \<and> i < 32768 + j then 0 else p i)"])
        (auto simp: fun_eq_iff)
    with that show ?thesis by (simp add: a_def)
  qed
  have "zip_deflate_data v = zip_deflate_data s" by (simp add: v_def u a_def)
  then have "window_ok w"
    using vok w by (auto simp: window_ok_def win_base_def shows_data_def data_byte_def)
  then have xok: "window_ok x" by (simp add: x window_ok_def win_base_def shows_data_def data_byte_def)
  have "update_hash 0 y = win_ff y" for y
    using win_ff_range [of y] by (simp add: update_hash_xor)
  then have "zip_ins_h x = hash2 (zip_window x) (zip_strstart x)" by (simp add: x hash2_def fields)
  then have "rolling x" using hash2_range by (simp add: rolling_def)
  moreover have "heads {} x" using head by (simp add: heads_def x fields)
  ultimately have "hashed {} (zip_strstart x + zip_lookahead x) x"
    by (simp add: hashed_def inserted_def links_def)
  moreover have "zip_eofile x \<or> 262 \<le> zip_lookahead x" using w by (auto simp: x fields)
  ultimately have "round_ok x" using xok by (auto simp: round_ok_def win_inv_def)
  then show "round_ok s' \<and> win_pos s' = 0 \<and> block_pos s' = 0"
    by (simp add: sx) (simp add: x win_pos_def block_pos_def win_base_def fields)
qed

section \<open>The driver\<close>

lemma fast_inv_cong:
  assumes m: "same_match s' s" and b: "\<And>ts. bufs_hold ts s' = bufs_hold ts s"
  shows "fast_inv s' = fast_inv s" "better_inv s' = better_inv s" "win_pos s' = win_pos s"
proof -
  note f = same_matchD [OF m]
  have base: "win_base s' = win_base s" by (simp add: win_base_def f)
  have "hashed I e s' = hashed I e s" for I e by (rule hashed_cong) (simp_all add: f)
  moreover have "window_ok s' = window_ok s"
    by (simp add: window_ok_def base f) (simp add: shows_data_def data_byte_def f)
  ultimately have r: "round_ok s' = round_ok s" by (simp add: round_ok_def win_inv_def f)
  show pos: "win_pos s' = win_pos s" by (simp add: win_pos_def f)
  have p: "parsed s' q = parsed s q" for q
    unfolding parsed_def block_pos_def base f(3) by (rule block_text_cong) (simp_all add: f b)
  have mt: "match_at s' q n d = match_at s q n d" for q n d by (rule match_at_cong) (simp add: f)
  show "fast_inv s' = fast_inv s" "better_inv s' = better_inv s"
    by (simp_all add: fast_inv_def better_inv_def r pos p mt match_dist_def f)
qed

text \<open>
  Between two calls of \<open>zip_deflate_internal\<close> the stream is complete, or a matcher has text left.
\<close>

definition driving :: "deflate_state \<Rightarrow> bool" where
  "driving s \<longleftrightarrow> buf_shape s \<and> zip_initflag s \<and>
     (zip_complete s \<and> bufs_hold [] s \<or>
      \<not> zip_complete s \<and> zip_lookahead s \<noteq> 0 \<and>
      (if zip_compr_level s \<le> 3 then fast_inv s else better_inv s))"

definition text_left :: "deflate_state \<Rightarrow> nat" where
  "text_left s = (if zip_complete s then 0 else Suc (nat (int (length (zip_deflate_data s)) - win_pos s)))"

definition pending :: "'a out_state_scheme \<Rightarrow> nat" where
  "pending s = length (out_bytes s)"

text \<open>Handing out bytes changes nothing but the buffers.\<close>

lemma qcopy_result:
  fixes s :: deflate_state
  assumes "buf_shape s" "0 \<le> bs"
  obtains buff' n s' where "zip_qcopy buff off bs s = (buff', int n, s')"
    "n = min (nat bs) (pending s)" "pending s' = pending s - n" "buf_shape s'"
    "int n < bs \<Longrightarrow> writable s' \<and> zip_qhead s' = []"
    "same_match s' s" "\<And>ts. bufs_hold ts s' = bufs_hold ts s" "zip_compr_level s' = zip_compr_level s"
    "zip_complete s' = zip_complete s" "zip_initflag s' = zip_initflag s"
    "zip_deflate_data s' = zip_deflate_data s"
proof -
  from zip_qcopy_moves [OF assms, of buff off] obtain s' where
    r: "zip_qcopy buff off bs s = (arr_store off (take (min (nat bs) (length (out_bytes s))) (out_bytes s)) buff,
      int (min (nat bs) (length (out_bytes s))), s')"
    "out_bytes s' = drop (min (nat bs) (length (out_bytes s))) (out_bytes s)" "buf_shape s'"
    "out_state.more s' = out_state.more s"
    "int (min (nat bs) (length (out_bytes s))) < bs \<longrightarrow> zip_outoff s' = 0 \<and> zip_qhead s' = [] \<and> out_bytes s' = []"
    by blast
  have t: "tree_state.more s' = tree_state.more s" by (rule tree_more_out [OF r(4)])
  have m: "same_match s' s" using block_fields_more [OF t] by (simp add: same_match_def)
  have "zip_complete s' = zip_complete s" "zip_initflag s' = zip_initflag s"
    using r(4) by (cases s; cases s'; simp)+
  with r m same_matchD(4,16) [OF m] bufs_hold_more [OF t] show ?thesis
    by (intro that [of _ "min (nat bs) (length (out_bytes s))" s'])
      (auto simp: pending_def writable_def)
qed

lemma finish_block_ok:
  assumes "writable s" "zip_lookahead s = 0"
  shows "writable (finish_block s)" "bufs_hold [] (finish_block s)" "zip_complete (finish_block s)"
    "zip_initflag (finish_block s) = zip_initflag s"
proof -
  define u where "u = (if zip_match_available s \<noteq> Some 0
    then snd (zip_ct_tally 0 (win_ff (zip_window s (zip_strstart s - 1))) s) else s)"
  have f: "finish_block s = (zip_flush_block 1 u)\<lparr>zip_complete := True\<rparr>"
    using assms(2) by (simp add: finish_block_def u_def Let_def)
  have "writable u" using assms(1) by (simp add: u_def)
  then have "writable (zip_flush_block 1 u)" by simp
  then show "writable (finish_block s)" by (simp add: f writable_def buf_shape_def)
  show "bufs_hold [] (finish_block s)"
    using flush_block_frame(6) [of 1 u] by (simp add: f bufs_hold_def)
  show "zip_complete (finish_block s)" by (simp add: f)
  have more: "block_state.more (zip_flush_block 1 u) = block_state.more s"
    using same_match_tally [of 0 _ s] by (simp add: flush_block_frame u_def same_match_def)
  then have "zip_initflag (zip_flush_block 1 u) = zip_initflag s"
    by (cases "zip_flush_block 1 u"; cases s; simp)
  then show "zip_initflag (finish_block s) = zip_initflag s" by (simp add: f)
qed

definition went_down :: "deflate_state \<Rightarrow> deflate_state \<Rightarrow> bool" where
  "went_down s s' \<longleftrightarrow> ((text_left s', pending s'), (text_left s, pending s)) \<in> less_than <*lex*> less_than"

lemma matcher_ends:
  fixes s :: deflate_state
  assumes s: "driving s" "\<not> zip_complete s" and w: "writable s" "zip_qhead s = []"
  shows "\<exists>s'. (if zip_compr_level s \<le> 3 then zip_deflate_fast s else zip_deflate_better s) = Some s' \<and>
    writable s' \<and> window_ok s' \<and> went_on s s' \<and> win_pos s < win_pos s' \<and>
    (if zip_compr_level s \<le> 3 then fast_inv s' else better_inv s')"
proof -
  have la: "\<not> loop_done s" using s w by (auto simp: driving_def loop_done_def)
  show ?thesis
  proof (cases "zip_compr_level s \<le> 3")
    case True
    with s have "fast_inv s" by (auto simp: driving_def)
    from fast_loop_ends [OF this] w(1) obtain s' where
      "zip_deflate_fast s = Some s'" "fast_inv s'" "writable s'" "went_on s s'" by blast
    with True la show ?thesis
      by (auto simp: went_on_def fast_inv_def round_ok_def win_inv_def)
  next
    case False
    with s have "better_inv s" by (auto simp: driving_def)
    from better_loop_ends [OF this] w(1) obtain s' where
      "zip_deflate_better s = Some s'" "better_inv s'" "writable s'" "went_on s s'" by blast
    with False la show ?thesis
      by (auto simp: went_on_def better_inv_def round_ok_def win_inv_def)
  qed
qed

lemma outer_driver:
  fixes s :: deflate_state
  assumes "outer s' = outer s"
  shows "zip_initflag s' = zip_initflag s" "zip_complete s' = zip_complete s"
    "zip_compr_level s' = zip_compr_level s"
  using assms by (cases s; cases s'; simp add: outer_def)+

lemma writable_shape: "writable s \<Longrightarrow> buf_shape s"
  by (simp add: writable_def)

lemma queue_pending: "buf_shape s \<Longrightarrow> zip_qhead s \<noteq> [] \<Longrightarrow> pending s \<noteq> 0"
  by (cases "zip_qhead s") (auto simp: pending_def out_bytes_def buf_shape_def queue_ok_def qb_bytes_def)

lemma driving_copy:
  assumes "driving s" "buf_shape s'" "same_match s' s" "\<And>ts. bufs_hold ts s' = bufs_hold ts s"
    "zip_complete s' = zip_complete s" "zip_initflag s' = zip_initflag s"
    "zip_deflate_data s' = zip_deflate_data s"
  shows "driving s'" "text_left s' = text_left s"
proof -
  note inv = fast_inv_cong [OF assms(3,4)] and f = same_matchD [OF assms(3)]
  show "driving s'"
    using assms(1,2) by (auto simp: driving_def inv f assms(4-6) split: if_splits)
  show "text_left s' = text_left s" by (simp add: text_left_def assms(5,7) inv)
qed

lemma internal_ends:
  assumes s: "driving s" and bs: "0 < bs"
  shows "\<exists>buff' n s'. internal_compress buff off bs s = Some (buff', int n, s') \<and> driving s' \<and>
    (n = 0 \<longrightarrow> zip_complete s' \<and> pending s' = 0) \<and> (0 < n \<longrightarrow> went_down s s')"
proof -
  have shape: "buf_shape s" and init: "zip_initflag s" using s by (auto simp: driving_def)
  from bs have "0 \<le> bs" by simp
  from qcopy_result [OF shape this, of buff off] obtain buff1 n s1 where
    q: "zip_qcopy buff off bs s = (buff1, int n, s1)" "n = min (nat bs) (pending s)"
    "pending s1 = pending s - n" "buf_shape s1" "int n < bs \<Longrightarrow> writable s1 \<and> zip_qhead s1 = []"
    and m: "same_match s1 s" "\<And>ts. bufs_hold ts s1 = bufs_hold ts s"
    and f: "zip_compr_level s1 = zip_compr_level s" "zip_complete s1 = zip_complete s"
      "zip_initflag s1 = zip_initflag s" "zip_deflate_data s1 = zip_deflate_data s"
    by metis
  note s1 = driving_copy(1) [OF s q(4) m f(2-4)] and left = driving_copy(2) [OF s q(4) m f(2-4)]
  show ?thesis
  proof (cases "int n = bs \<or> zip_complete s1")
    case True
    then have "internal_compress buff off bs s = Some (buff1, int n, s1)"
      by (auto simp: internal_compress_def q(1))
    moreover have "went_down s s1" if "0 < n" using that q(2,3) left by (simp add: went_down_def)
    moreover have "pending s1 = 0" if "n = 0" using that q(2,3) bs by simp
    moreover have "zip_complete s1" if "n = 0" using that True bs by simp
    ultimately show ?thesis using s1 by blast
  next
    case False
    moreover have "n \<le> nat bs" using q(2) by simp
    ultimately have "int n < bs" using bs by auto
    with q(5) have w: "writable s1" "zip_qhead s1 = []" by simp_all
    from matcher_ends [OF s1 _ w] False obtain s2 where
      e: "(if zip_compr_level s1 \<le> 3 then zip_deflate_fast s1 else zip_deflate_better s1) = Some s2"
      and s2: "writable s2" "window_ok s2" "went_on s1 s2" "win_pos s1 < win_pos s2"
        "if zip_compr_level s1 \<le> 3 then fast_inv s2 else better_inv s2" by blast
    from s2(3) have "outer s2 = outer s1" by (simp add: went_on_def)
    note o = outer_driver [OF this]
    define s3 where "s3 = finish_block s2"
    have w3: "writable s3" using finish_block_ok(1) [OF s2(1)] s2(1)
      by (cases "zip_lookahead s2 = 0") (simp_all add: s3_def finish_block_def)
    have s3: "driving s3 \<and> (\<not> zip_complete s3 \<longrightarrow> zip_qhead s3 \<noteq> []) \<and> text_left s3 < text_left s"
    proof (cases "zip_lookahead s2 = 0")
      case True
      note b = finish_block_ok [OF s2(1) True, folded s3_def]
      have "0 < text_left s" using False f(2) by (simp add: text_left_def)
      moreover have "text_left s3 = 0" using b(3) by (simp add: text_left_def)
      moreover have "driving s3"
        using b o f init writable_shape [OF b(1)] by (simp add: driving_def)
      ultimately show ?thesis using b(3) by simp
    next
      case la: False
      then have eq: "s3 = s2" by (simp add: s3_def finish_block_def)
      have "text_left s2 < text_left s1"
        using False s2(3,4) win_pos_bound [OF s2(2)] o by (simp add: text_left_def went_on_def)
      moreover have "driving s2"
        using la False s2(5) o f init writable_shape [OF s2(1)] by (simp add: driving_def)
      moreover have "zip_qhead s2 \<noteq> []" using s2(3) la by (simp add: went_on_def loop_done_def)
      ultimately show ?thesis using left by (simp add: eq)
    qed
    have "0 \<le> bs - int n" using \<open>int n < bs\<close> by simp
    from qcopy_result [OF writable_shape [OF w3] this, of buff1 "int n + off"] obtain buff2 k s4 where
      r: "zip_qcopy buff1 (int n + off) (bs - int n) s3 = (buff2, int k, s4)"
      "k = min (nat (bs - int n)) (pending s3)" "pending s4 = pending s3 - k" "buf_shape s4"
      and m4: "same_match s4 s3" "\<And>ts. bufs_hold ts s4 = bufs_hold ts s3"
      and f4: "zip_compr_level s4 = zip_compr_level s3" "zip_complete s4 = zip_complete s3"
        "zip_initflag s4 = zip_initflag s3" "zip_deflate_data s4 = zip_deflate_data s3"
      by metis
    note s4 = driving_copy [OF conjunct1 [OF s3] r(4) m4 f4(2-4)]
    have "internal_compress buff off bs s = Some (buff2, int (n + k), s4)"
      using False e by (simp add: internal_compress_def q(1) s3_def [symmetric] r(1) split: if_splits)
    moreover have "went_down s s4" using s3 s4(2) by (simp add: went_down_def)
    moreover have "zip_complete s4 \<and> pending s4 = 0" if "n + k = 0"
    proof -
      have "pending s3 = 0" using that r(2) bs by (auto simp: min_def split: if_splits)
      then show ?thesis
        using queue_pending [OF writable_shape [OF w3]] s3 f4(2) r(3) by auto
    qed
    ultimately show ?thesis using s4(1) by blast
  qed
qed

text \<open>The first call sets everything up.\<close>

lemma init_state:
  assumes s: "\<not> zip_eofile s" "zip_deflate_pos s = 0" "idle s"
  defines "e \<equiv> zip_init_deflate s"
  shows "writable e" "bufs_hold [] e" "\<not> zip_complete e" "pending e = 0"
    "zip_deflate_data e = zip_deflate_data s" "zip_compr_level e = zip_compr_level s"
    "zip_lookahead e = 0 \<longleftrightarrow> zip_deflate_data s = []"
    "zip_lookahead e \<noteq> 0 \<Longrightarrow> if zip_compr_level e \<le> 3 then fast_inv e else better_inv e"
    "zip_compr_level e \<le> 3 \<Longrightarrow> zip_match_available e = zip_match_available s"
proof -
  define a where "a = zip_ct_init (s\<lparr>zip_bi_buf := 0, zip_bi_valid := 0\<rparr>)"
  have "idle (s\<lparr>zip_bi_buf := 0, zip_bi_valid := 0\<rparr>)" using s(3) by (simp add: idle_def bufs_hold_def)
  then have a: "bufs_hold [] a" unfolding a_def by (rule ct_init_empty)
  have "same_match a (s\<lparr>zip_bi_buf := 0, zip_bi_valid := 0\<rparr>)" unfolding a_def by (rule same_match_init)
  note am = same_matchD [OF this]
  have pos: "zip_deflate_pos a = 0" using s(2) by (simp add: am)
  define b where "b = zip_lm_init a"
  note b = lm_init_ok [OF pos a, folded b_def]
  define c where "c = (b\<lparr>zip_qhead := [], zip_outcnt := 0, zip_outoff := 0\<rparr>)"
  define d where "d = (if zip_compr_level c \<le> 3 then c\<lparr>zip_prev_length := 2, zip_match_length := 0\<rparr>
    else c\<lparr>zip_match_length := 2, zip_match_available := Some 0\<rparr>)"
  have e: "e = d\<lparr>zip_complete := False\<rparr>"
    using s(1) by (simp add: e_def zip_init_deflate_def Let_def a_def b_def c_def d_def)
  show "writable e" by (simp add: e d_def c_def writable_def buf_shape_def queue_ok_def)
  show eb: "bufs_hold [] e" using b(1) by (simp add: e d_def c_def bufs_hold_def)
  show "\<not> zip_complete e" "pending e = 0" by (simp_all add: e d_def c_def pending_def out_bytes_def)
  show "zip_deflate_data e = zip_deflate_data s" "zip_compr_level e = zip_compr_level s"
    by (simp_all add: e d_def c_def b am)
  have la: "zip_lookahead e = zip_lookahead b" by (simp add: e d_def c_def)
  then show "zip_lookahead e = 0 \<longleftrightarrow> zip_deflate_data s = []" by (simp add: b am)
  show "zip_match_available e = zip_match_available s" if "zip_compr_level e \<le> 3"
  proof -
    have "zip_compr_level b \<le> 3" using that by (simp add: e d_def c_def split: if_splits)
    then show ?thesis by (simp add: e d_def c_def b(6) am)
  qed
  assume "zip_lookahead e \<noteq> 0"
  then have r: "round_ok b" "win_pos b = 0" "block_pos b = 0" using b(4) la by simp_all
  have "round_ok e = round_ok b"
    by (simp add: e d_def c_def round_ok_def win_inv_def window_ok_def hashed_def inserted_def heads_def
        links_def link_ok_def rolling_def shows_data_def data_byte_def win_base_def)
  with r have er: "round_ok e" by simp
  have "win_pos e = 0" "block_pos e = 0"
    using r(2,3) by (simp_all add: e d_def c_def win_pos_def block_pos_def win_base_def)
  then have p: "parsed e (win_pos e)" using eb by (simp add: parsed_def block_text_empty)
  show "if zip_compr_level e \<le> 3 then fast_inv e else better_inv e"
    using er p by (simp add: fast_inv_def better_inv_def) (simp add: e d_def)
qed

lemma init_ends:
  assumes s: "\<not> zip_initflag s" "\<not> zip_eofile s" "zip_deflate_pos s = 0" "idle s" and bs: "0 < bs"
  shows "\<exists>buff' n s'. zip_deflate_internal buff off bs s = Some (buff', int n, s') \<and> driving s' \<and>
    (n = 0 \<longrightarrow> zip_complete s' \<and> pending s' = 0) \<and> (zip_deflate_data s = [] \<longrightarrow> n = 0)"
proof -
  define d where "d = zip_init_deflate s"
  note d = init_state [OF s(2-4), folded d_def]
  define e where "e = d\<lparr>zip_initflag := True\<rparr>"
  have inv: "fast_inv e = fast_inv d" "better_inv e = better_inv d"
    by (simp_all add: e_def fast_inv_def better_inv_def round_ok_def win_inv_def window_ok_def hashed_def
        inserted_def heads_def links_def link_ok_def rolling_def shows_data_def data_byte_def win_base_def
        parsed_def block_text_def block_pos_def data_bytes_def bufs_hold_def win_pos_def match_at_def match_dist_def)
  have ew: "buf_shape e" using d(1) by (simp add: e_def writable_def buf_shape_def)
  have eb: "bufs_hold [] e" using d(2) by (simp add: e_def bufs_hold_def)
  have internal: "zip_deflate_internal buff off bs s =
      (if zip_lookahead e = 0 then Some (buff, 0, e\<lparr>zip_complete := True\<rparr>) else internal_compress buff off bs e)"
    using s(1) by (simp add: zip_deflate_internal_def d_def e_def Let_def)
  show ?thesis
  proof (cases "zip_lookahead e = 0")
    case True
    let ?f = "e\<lparr>zip_complete := True\<rparr>"
    have "driving ?f" using ew eb by (simp add: driving_def buf_shape_def bufs_hold_def) (simp add: e_def)
    moreover have "pending ?f = 0" using d(4) by (simp add: e_def pending_def out_bytes_def)
    ultimately show ?thesis
      using internal True by (intro exI [of _ buff] exI [of _ 0] exI [of _ ?f]) simp
  next
    case False
    then have "if zip_compr_level e \<le> 3 then fast_inv e else better_inv e"
      using d(8) by (simp add: inv) (simp add: e_def)
    moreover have "zip_initflag e" "\<not> zip_complete e" using d(3) by (simp_all add: e_def)
    ultimately have "driving e" using False ew by (simp add: driving_def)
    moreover have "zip_deflate_data s \<noteq> []" using False d(7) by (simp add: e_def)
    ultimately show ?thesis using internal_ends [OF _ bs, of e buff off] internal False by auto
  qed
qed

lemma deflate_loop_ends:
  assumes "driving s"
  shows "\<exists>out s'. deflate_loop buff aout s = Some (out, s') \<and> driving s' \<and> zip_complete s' \<and> pending s' = 0"
  using assms
proof (induction "(text_left s, pending s)" arbitrary: s buff aout rule: wf_induct_rule [OF wf_lex_prod [OF wf_less_than wf_less_than]])
  case (1 s)
  have "zip_initflag s" using 1(2) by (simp add: driving_def)
  then have i: "zip_deflate_internal buff 0 1024 s = internal_compress buff 0 1024 s"
    by (simp add: zip_deflate_internal_def)
  from internal_ends [OF 1(2), of 1024 buff 0] obtain buff' n s' where
    n: "internal_compress buff 0 1024 s = Some (buff', int n, s')" and s': "driving s'"
    "n = 0 \<longrightarrow> zip_complete s' \<and> pending s' = 0" "0 < n \<longrightarrow> went_down s s'" by auto
  show ?case
  proof (cases "n = 0")
    case True
    with n s' show ?thesis by (subst deflate_loop.simps) (simp add: i)
  next
    case False
    then have "((text_left s', pending s'), (text_left s, pending s)) \<in> less_than <*lex*> less_than"
      using s'(3) by (simp add: went_down_def)
    from 1(1) [OF this s'(1)] False n show ?thesis by (subst deflate_loop.simps) (simp add: i)
  qed
qed

end
