(* ===== verification/Deflate_Run.thy ===== *)
theory Deflate_Run
  imports Deflate_Total
begin

text \<open>
  The properties of whole runs of the compressor: \<open>deflate\<close> returns; the tokens of every block expand
  to the block's text; the last block is complete at the levels above 3 and has a byte too many at
  the levels up to 3.
\<close>

section \<open>A started compressor\<close>

definition started :: "int \<Rightarrow> int list \<Rightarrow> deflate_state" where
  "started level str =
     zip_init_deflate (zip_deflate_start level (module_start\<lparr>zip_deflate_data := str, zip_deflate_pos := 0\<rparr>))"

lemma started_ok:
  assumes "str \<noteq> []"
  shows "zip_lookahead (started level str) \<noteq> 0" "zip_deflate_data (started level str) = str"
    "start_level level \<le> 3 \<Longrightarrow> fast_inv (started level str) \<and> zip_match_available (started level str) = None"
    "3 < start_level level \<Longrightarrow> better_inv (started level str)" "writable (started level str)"
proof -
  define s where "s = zip_deflate_start level (module_start\<lparr>zip_deflate_data := str, zip_deflate_pos := 0\<rparr>)"
  have s: "\<not> zip_eofile s" "zip_deflate_pos s = 0" "idle s" "zip_deflate_data s = str"
    "zip_compr_level s = start_level level" "zip_match_available s = None"
    by (simp_all add: s_def zip_deflate_start_def module_start_def idle_def new_tree_def)
  have e: "started level str = zip_init_deflate s" by (simp add: started_def s_def)
  note i = init_state [OF s(1-3)]
  show "zip_lookahead (started level str) \<noteq> 0" "zip_deflate_data (started level str) = str"
    "start_level level \<le> 3 \<Longrightarrow> fast_inv (started level str) \<and> zip_match_available (started level str) = None"
    "3 < start_level level \<Longrightarrow> better_inv (started level str)" "writable (started level str)"
    unfolding e using i s(4-6) assms by simp_all
qed

lemma text_at_end:
  assumes "round_ok s" "zip_lookahead s = 0"
  shows "win_pos s = int (length (zip_deflate_data s))"
  using assms window_okD(6) [of s] by (simp add: round_ok_def win_inv_def win_pos_def)

lemma finish_block_eq:
  assumes "zip_lookahead s = 0"
  shows "finish_block s = (zip_flush_block 1 (if zip_match_available s \<noteq> Some 0
    then snd (zip_ct_tally 0 (win_ff (zip_window s (zip_strstart s - 1))) s) else s))\<lparr>zip_complete := True\<rparr>"
  using assms by (simp add: finish_block_def Let_def)

text \<open>One byte is consumed in one round.\<close>

lemma one_byte:
  assumes "win_pos s < win_pos s'" "zip_deflate_data s' = zip_deflate_data s" "window_ok s" "window_ok s'"
    "length (zip_deflate_data s) = 1"
  shows "zip_lookahead s' = 0"
proof -
  have "0 \<le> win_pos s" using window_okD(1,4) [OF assms(3)] by (simp add: win_base_def win_pos_def)
  with assms(1) have "1 \<le> win_pos s'" by simp
  then show ?thesis
    using window_okD(2,5) [OF assms(4)] assms(2,5) by (simp add: win_pos_def)
qed

section \<open>Properties\<close>

text \<open>
  C3: \<open>deflate\<close> returns for every string and every level, on the freshly loaded module and after any
  number of calls before: the loops of the matchers, of \<open>zip_fill_window\<close> and of the driver all end.
  Then everything has been handed out, and the module is ready for the next call.
\<close>

theorem deflate_returns:
  assumes "idle s"
  shows "\<exists>out s'. deflate str level s = Some (out, s') \<and> idle s' \<and> zip_complete s' \<and> out_bytes s' = []"
proof -
  define a where "a = zip_deflate_start (case level of None \<Rightarrow> 6 | Some l \<Rightarrow> l)
    (s\<lparr>zip_deflate_data := str, zip_deflate_pos := 0\<rparr>)"
  have "\<not> zip_initflag a" "\<not> zip_eofile a" "zip_deflate_pos a = 0" "idle a"
    using assms by (auto simp: a_def zip_deflate_start_def idle_def new_tree_def bufs_hold_def Let_def)
  from init_ends [OF this, of 1024 "\<lambda>_. 0" 0] obtain buff n b where
    b: "zip_deflate_internal (\<lambda>_. 0) 0 1024 a = Some (buff, int n, b)" "driving b"
    "n = 0 \<longrightarrow> zip_complete b \<and> pending b = 0" by auto
  have "\<exists>out c. deflate_loop (\<lambda>_. 0) [] a = Some (out, c) \<and> driving c \<and> zip_complete c \<and> pending c = 0"
    using b deflate_loop_ends [OF b(2)] by (cases "n = 0"; subst deflate_loop.simps; simp)
  then obtain out c where c: "deflate_loop (\<lambda>_. 0) [] a = Some (out, c)" "driving c" "zip_complete c"
    "pending c = 0" by blast
  have "deflate str level s = Some (out, c\<lparr>zip_deflate_data := []\<rparr>)"
    using c(1) by (simp add: deflate_def a_def Let_def)
  moreover have "idle (c\<lparr>zip_deflate_data := []\<rparr>)" using c(2,3) by (simp add: driving_def idle_def bufs_hold_def)
  ultimately show ?thesis using c(3,4) by (simp add: pending_def out_bytes_def)
qed

theorem deflate_returns_witness:
  "\<exists>out s'. deflate [97, 98, 97] (Some 9) module_start = Some (out, s') \<and> idle s' \<and>
    zip_complete s' \<and> out_bytes s' = []"
  by (rule deflate_returns) (simp add: module_start_def idle_def new_tree_def)

text \<open>
  C9: of the empty string \<open>deflate\<close> makes no bytes at all, although RFC 1951 asks for at least one
  block: the driver marks the stream complete before it has written any.
\<close>

theorem empty_has_no_block:
  assumes "idle s"
  shows "\<exists>s'. deflate [] level s = Some ([], s')"
proof -
  define a where "a = zip_deflate_start (case level of None \<Rightarrow> 6 | Some l \<Rightarrow> l)
    (s\<lparr>zip_deflate_data := [], zip_deflate_pos := 0\<rparr>)"
  have a: "\<not> zip_initflag a" "\<not> zip_eofile a" "zip_deflate_pos a = 0" "idle a" "zip_deflate_data a = []"
    using assms by (auto simp: a_def zip_deflate_start_def idle_def new_tree_def bufs_hold_def Let_def)
  from init_ends [OF a(1-4), of 1024 "\<lambda>_. 0" 0] a(5) obtain buff b where
    "zip_deflate_internal (\<lambda>_. 0) 0 1024 a = Some (buff, 0, b)" by auto
  then have "deflate_loop (\<lambda>_. 0) [] a = Some ([], b)" by (subst deflate_loop.simps) simp
  then show ?thesis by (simp add: deflate_def a_def Let_def)
qed

theorem empty_has_no_block_witness: "\<exists>s'. deflate [] (Some 9) module_start = Some ([], s')"
  by (rule empty_has_no_block) (simp add: module_start_def idle_def new_tree_def)

text \<open>
  C6: \<open>zip_longest_match\<close> only finds repetitions that are there.  Started at the head of the current
  string's hash chain, it changes nothing but \<open>zip_match_start\<close>, and a length above
  \<open>zip_prev_length\<close>, cut off at the end of the input, is the length of a genuine repetition of the
  bytes at \<open>zip_match_start\<close>, at a distance of at most 32506, although it never compares the third byte
  and may compare bytes behind the end.
\<close>

theorem longest_match_genuine:
  assumes "searchable s" "zip_hash_head s \<noteq> 0" "zip_strstart s - zip_hash_head s \<le> 32506"
  shows "\<exists>n m. zip_longest_match (zip_hash_head s) s = (n, s\<lparr>zip_match_start := m\<rparr>) \<and>
    (n = zip_prev_length s \<or> n \<le> 258) \<and>
    (zip_prev_length s < n \<and> 3 \<le> min n (zip_lookahead s) \<longrightarrow>
      match_at s (win_pos s) (min n (zip_lookahead s)) (zip_strstart s - m))"
proof -
  from search_found [OF assms] obtain n m where
    r: "zip_longest_match (zip_hash_head s) s = (n, s\<lparr>zip_match_start := m\<rparr>)"
    "n = zip_prev_length s \<or> n \<le> 258"
    and k: "\<And>k. zip_prev_length s < n \<Longrightarrow> 3 \<le> k \<Longrightarrow> k \<le> n \<Longrightarrow> k \<le> zip_lookahead s \<Longrightarrow>
      match_at s (win_pos s) k (zip_strstart s - m)" by blast
  have "match_at s (win_pos s) (min n (zip_lookahead s)) (zip_strstart s - m)"
    if "zip_prev_length s < n \<and> 3 \<le> min n (zip_lookahead s)"
    using that by (intro k) simp_all
  with r show ?thesis by blast
qed

definition repeat_example :: deflate_state where
  "repeat_example = module_start\<lparr>zip_deflate_data := replicate 6 97, zip_deflate_pos := 6,
     zip_window := (\<lambda>i. if 0 \<le> i \<and> i < 6 then Some 97 else None), zip_strstart := 2, zip_lookahead := 4,
     zip_hash_head := 1, zip_prev_length := 2, zip_max_chain_length := 1, zip_eofile := True\<rparr>"

lemma repeat_example_fields [simp]:
  "zip_window repeat_example = (\<lambda>i. if 0 \<le> i \<and> i < 6 then Some 97 else None)"
  "zip_strstart repeat_example = 2" "zip_lookahead repeat_example = 4" "zip_hash_head repeat_example = 1"
  "zip_deflate_data repeat_example = replicate 6 97" "zip_deflate_pos repeat_example = 6"
  "zip_prev repeat_example = (\<lambda>_. 0)" "zip_eofile repeat_example"
  by (simp_all add: repeat_example_def module_start_def)

lemma repeat_example_searchable: "searchable repeat_example"
proof -
  have h: "hash3 (zip_window repeat_example) 1 = hash3 (zip_window repeat_example) 2"
    by (rule hash3_cong) simp_all
  have "data_byte repeat_example i = 97" if "0 \<le> i" "i < 6" for i
    using that nth_replicate [of "nat i" 6 "97 :: int"] by (simp add: data_byte_def js_and_ff del: nth_replicate)
  then have "shows_data repeat_example 0 6" by (auto simp: shows_data_def)
  then have w: "window_ok repeat_example" by (simp add: window_ok_def win_base_def)
  have "links {1} repeat_example" by (simp add: links_def link_ok_def)
  with h w show ?thesis unfolding searchable_def by (intro conjI exI [of _ "{1}"]) simp_all
qed

theorem longest_match_genuine_witness:
  "\<exists>n m. zip_longest_match (zip_hash_head repeat_example) repeat_example =
      (n, repeat_example\<lparr>zip_match_start := m\<rparr>) \<and>
    (n = zip_prev_length repeat_example \<or> n \<le> 258) \<and>
    (zip_prev_length repeat_example < n \<and> 3 \<le> min n (zip_lookahead repeat_example) \<longrightarrow>
      match_at repeat_example (win_pos repeat_example) (min n (zip_lookahead repeat_example))
        (zip_strstart repeat_example - m))"
  by (rule longest_match_genuine, rule repeat_example_searchable) simp_all

text \<open>
  C4: the lazy matcher, from any state between two rounds, runs until the text or the room for output
  is used up.  The tokens of the block it leaves are literals and matches in range, and expanding them
  behind the text of the blocks before gives exactly the text up to \<open>p\<close>: the whole text matched so
  far, or all but its last byte while a match is pending.
\<close>

theorem lazy_tokens_expand:
  assumes "better_inv s"
  shows "\<exists>s' ts p. zip_deflate_better s = Some s' \<and> (zip_lookahead s' = 0 \<or> zip_qhead s' \<noteq> []) \<and>
    bufs_hold ts s' \<and> (\<forall>t \<in> set ts. tok_ok t) \<and>
    p = (if zip_match_available s' = Some 0 then win_pos s' else win_pos s' - 1) \<and>
    0 \<le> block_pos s' \<and> block_pos s' \<le> p \<and>
    lz_expand ts (take (nat (block_pos s')) (data_bytes s)) = take (nat p) (data_bytes s)"
proof -
  from better_loop_ends [OF assms] obtain s' where s': "zip_deflate_better s = Some s'" "better_inv s'"
    "loop_done s'" "zip_deflate_data s' = zip_deflate_data s" by (auto simp: went_on_def)
  let ?p = "if zip_match_available s' = Some 0 then win_pos s' else win_pos s' - 1"
  have "parsed s' ?p" using s'(2) by (auto simp: better_inv_def)
  then obtain ts where "bufs_hold ts s'" "\<forall>t \<in> set ts. tok_ok t" "0 \<le> block_pos s'" "block_pos s' \<le> ?p"
    "lz_expand ts (take (nat (block_pos s')) (data_bytes s)) = take (nat ?p) (data_bytes s)"
    using s'(4) by (auto simp: parsed_def block_text_def data_bytes_def)
  then show ?thesis
    using s'(1,3) unfolding loop_done_def by (intro exI [of _ s'] exI [of _ ts] exI [of _ ?p]) simp
qed

theorem lazy_tokens_expand_witness:
  "\<exists>s' ts p. zip_deflate_better (started 6 [97, 98, 97, 98, 97, 98, 97]) = Some s' \<and>
    (zip_lookahead s' = 0 \<or> zip_qhead s' \<noteq> []) \<and> bufs_hold ts s' \<and> (\<forall>t \<in> set ts. tok_ok t) \<and>
    p = (if zip_match_available s' = Some 0 then win_pos s' else win_pos s' - 1) \<and>
    0 \<le> block_pos s' \<and> block_pos s' \<le> p \<and>
    lz_expand ts (take (nat (block_pos s')) (data_bytes (started 6 [97, 98, 97, 98, 97, 98, 97]))) =
      take (nat p) (data_bytes (started 6 [97, 98, 97, 98, 97, 98, 97]))"
  by (rule lazy_tokens_expand, rule started_ok(4)) (simp_all add: start_level_def)

text \<open>
  C5: the fast matcher runs to the same end.  The tokens of the block it leaves expand, behind the
  blocks before, to exactly the text matched; it never touches \<open>zip_match_available\<close>.
\<close>

theorem fast_tokens_expand:
  assumes "fast_inv s"
  shows "\<exists>s' ts. zip_deflate_fast s = Some s' \<and> (zip_lookahead s' = 0 \<or> zip_qhead s' \<noteq> []) \<and>
    bufs_hold ts s' \<and> (\<forall>t \<in> set ts. tok_ok t) \<and> zip_match_available s' = zip_match_available s \<and>
    0 \<le> block_pos s' \<and> block_pos s' \<le> win_pos s' \<and>
    lz_expand ts (take (nat (block_pos s')) (data_bytes s)) = take (nat (win_pos s')) (data_bytes s)"
proof -
  from fast_loop_ends [OF assms] obtain s' where s': "zip_deflate_fast s = Some s'" "fast_inv s'"
    "loop_done s'" "zip_deflate_data s' = zip_deflate_data s" "zip_match_available s' = zip_match_available s"
    by (auto simp: went_on_def)
  then have "parsed s' (win_pos s')" by (simp add: fast_inv_def)
  then obtain ts where "bufs_hold ts s'" "\<forall>t \<in> set ts. tok_ok t" "0 \<le> block_pos s'" "block_pos s' \<le> win_pos s'"
    "lz_expand ts (take (nat (block_pos s')) (data_bytes s)) = take (nat (win_pos s')) (data_bytes s)"
    using s'(4) by (auto simp: parsed_def block_text_def data_bytes_def)
  with s'(1,3,5) show ?thesis unfolding loop_done_def by blast
qed

theorem fast_tokens_expand_witness:
  "\<exists>s' ts. zip_deflate_fast (started 1 [97, 98, 97, 98, 97, 98, 97]) = Some s' \<and>
    (zip_lookahead s' = 0 \<or> zip_qhead s' \<noteq> []) \<and> bufs_hold ts s' \<and> (\<forall>t \<in> set ts. tok_ok t) \<and>
    zip_match_available s' = zip_match_available (started 1 [97, 98, 97, 98, 97, 98, 97]) \<and>
    0 \<le> block_pos s' \<and> block_pos s' \<le> win_pos s' \<and>
    lz_expand ts (take (nat (block_pos s')) (data_bytes (started 1 [97, 98, 97, 98, 97, 98, 97]))) =
      take (nat (win_pos s')) (data_bytes (started 1 [97, 98, 97, 98, 97, 98, 97]))"
  using started_ok(3) [of "[97, 98, 97, 98, 97, 98, 97]" 1]
  by (intro fast_tokens_expand) (simp add: start_level_def)

text \<open>
  C7: at the levels above 3 the last block is complete: when the text is used up, the tokens handed to
  \<open>zip_flush_block\<close> expand, behind the blocks before, to the whole text.
\<close>

theorem last_block_complete:
  assumes "better_inv s" "zip_lookahead s = 0"
  shows "\<exists>u ts. finish_block s = (zip_flush_block 1 u)\<lparr>zip_complete := True\<rparr> \<and>
    bufs_hold ts u \<and> (\<forall>t \<in> set ts. tok_ok t) \<and>
    lz_expand ts (take (nat (block_pos s)) (data_bytes s)) = data_bytes s"
proof -
  have r: "round_ok s" using assms(1) by (simp add: better_inv_def)
  then have ok: "window_ok s" by (simp add: round_ok_def win_inv_def)
  note fin = text_at_end [OF r assms(2)] and eq = finish_block_eq [OF assms(2)]
  let ?len = "int (length (zip_deflate_data s))"
  have whole: "\<exists>ts. bufs_hold ts u \<and> (\<forall>t \<in> set ts. tok_ok t) \<and>
      lz_expand ts (take (nat (block_pos s)) (data_bytes s)) = data_bytes s"
    if "block_text u (block_pos s) ?len" "zip_deflate_data u = zip_deflate_data s" for u :: deflate_state
    using that by (auto simp: block_text_def data_bytes_def)
  show ?thesis
  proof (cases "zip_match_available s = Some 0")
    case True
    then have "block_text s (block_pos s) ?len"
      using assms(1) fin by (simp add: better_inv_def parsed_def)
    with whole [of s] True show ?thesis by (auto simp: eq)
  next
    case False
    with assms(1) have p: "0 < zip_strstart s" "block_text s (block_pos s) (?len - 1)"
      by (auto simp: better_inv_def parsed_def fin)
    have "win_base s + (zip_strstart s - 1) = ?len - 1" using fin by (simp add: win_pos_def win_base_def)
    moreover have "win_ff (zip_window s (zip_strstart s - 1)) = data_byte s (win_base s + (zip_strstart s - 1))"
      using p(1) assms(2) by (intro literal_byte [OF ok]) simp_all
    ultimately have byte: "win_ff (zip_window s (zip_strstart s - 1)) = data_byte s (?len - 1)" by (simp only:)
    have "0 \<le> ?len - 1" using p(2) unfolding block_text_def by linarith
    from literal_text [OF p(2) this] have
      "block_text (snd (zip_ct_tally 0 (data_byte s (?len - 1)) s)) (block_pos s) ?len" by simp
    from whole [OF this same_matchD(16) [OF same_match_tally]] obtain ts where
      "bufs_hold ts (snd (zip_ct_tally 0 (data_byte s (?len - 1)) s))" "\<forall>t \<in> set ts. tok_ok t"
      "lz_expand ts (take (nat (block_pos s)) (data_bytes s)) = data_bytes s" by blast
    moreover have "finish_block s =
        (zip_flush_block 1 (snd (zip_ct_tally 0 (data_byte s (?len - 1)) s)))\<lparr>zip_complete := True\<rparr>"
      using False by (simp add: eq byte)
    ultimately show ?thesis by blast
  qed
qed

lemma ended_lazy:
  "better_inv (better_step (started 6 [97])) \<and> zip_lookahead (better_step (started 6 [97])) = 0 \<and>
    zip_deflate_data (better_step (started 6 [97])) = [97]"
proof -
  have s: "better_inv (started 6 [97])" "zip_lookahead (started 6 [97]) \<noteq> 0"
    "zip_deflate_data (started 6 [97]) = [97]"
    using started_ok [of "[97]" 6] by (simp_all add: start_level_def)
  note r = better_round [OF s(1,2)]
  moreover have "zip_lookahead (better_step (started 6 [97])) = 0"
    using r s by (intro one_byte [of "started 6 [97]"]) (simp_all add: better_inv_def round_ok_def win_inv_def)
  ultimately show ?thesis using s(3) by simp
qed

lemma ended_fast:
  "fast_inv (fast_step (started 1 [97])) \<and> zip_lookahead (fast_step (started 1 [97])) = 0 \<and>
    zip_deflate_data (fast_step (started 1 [97])) = [97] \<and>
    zip_match_available (fast_step (started 1 [97])) = None \<and> 0 < zip_strstart (fast_step (started 1 [97]))"
proof -
  have s: "fast_inv (started 1 [97])" "zip_lookahead (started 1 [97]) \<noteq> 0"
    "zip_deflate_data (started 1 [97]) = [97]" "zip_match_available (started 1 [97]) = None"
    using started_ok [of "[97]" 1] by (simp_all add: start_level_def)
  note r = fast_round [OF s(1,2)]
  moreover have "zip_lookahead (fast_step (started 1 [97])) = 0"
    using r s by (intro one_byte [of "started 1 [97]"]) (simp_all add: fast_inv_def round_ok_def win_inv_def)
  ultimately show ?thesis using s(3,4) r by simp
qed

theorem last_block_complete_witness:
  "\<exists>u ts. finish_block (better_step (started 6 [97])) = (zip_flush_block 1 u)\<lparr>zip_complete := True\<rparr> \<and>
    bufs_hold ts u \<and> (\<forall>t \<in> set ts. tok_ok t) \<and>
    lz_expand ts (take (nat (block_pos (better_step (started 6 [97]))))
      (data_bytes (better_step (started 6 [97])))) = data_bytes (better_step (started 6 [97]))"
  using ended_lazy by (intro last_block_complete) simp_all

text \<open>
  C8: at the levels up to 3, on a module that has not run at a higher level before (so that
  \<open>zip_match_available\<close> is still \<open>undefined\<close>), the last block ends with a byte that is not there: the
  tokens handed to \<open>zip_flush_block\<close> expand to the whole text and its last byte once more.
\<close>

theorem extra_last_byte:
  assumes "fast_inv s" "zip_lookahead s = 0" "zip_match_available s = None" "0 < zip_strstart s"
  shows "\<exists>u ts. finish_block s = (zip_flush_block 1 u)\<lparr>zip_complete := True\<rparr> \<and> bufs_hold ts u \<and>
    lz_expand ts (take (nat (block_pos s)) (data_bytes s)) = data_bytes s @ [last (data_bytes s)]"
proof -
  have r: "round_ok s" using assms(1) by (simp add: fast_inv_def)
  then have ok: "window_ok s" by (simp add: round_ok_def win_inv_def)
  note fin = text_at_end [OF r assms(2)]
  let ?len = "int (length (zip_deflate_data s))" and ?b = "data_byte s (win_pos s - 1)"
  have pos: "win_base s + (zip_strstart s - 1) = win_pos s - 1" by (simp add: win_pos_def win_base_def)
  have "win_ff (zip_window s (zip_strstart s - 1)) = data_byte s (win_base s + (zip_strstart s - 1))"
    using assms(2,4) by (intro literal_byte [OF ok]) simp_all
  then have byte: "win_ff (zip_window s (zip_strstart s - 1)) = ?b" by (simp only: pos)
  have "parsed s (win_pos s)" using assms(1) by (simp add: fast_inv_def)
  then obtain ts where ts: "bufs_hold ts s"
    "lz_expand ts (take (nat (block_pos s)) (data_bytes s)) = data_bytes s"
    by (auto simp: parsed_def block_text_def fin)
  let ?u = "snd (zip_ct_tally 0 ?b s)"
  have "bufs_hold (ts @ [Lit ?b]) ?u"
    using tally_bufs [OF ts(1), of "Lit ?b"] data_byte_range [of s] by simp
  moreover have "lz_expand (ts @ [Lit ?b]) (take (nat (block_pos s)) (data_bytes s)) = data_bytes s @ [?b]"
    by (simp add: ts(2))
  moreover have "?b = last (data_bytes s)"
  proof -
    have len: "1 \<le> length (zip_deflate_data s)" using window_okD(4) [OF ok] assms(4) pos fin by linarith
    then have ne: "data_bytes s \<noteq> []" by (auto simp: data_bytes_def)
    have "last (data_bytes s) = data_bytes s ! (length (zip_deflate_data s) - 1)"
      using ne by (simp add: last_conv_nth)
    also have "\<dots> = data_byte s (int (length (zip_deflate_data s) - 1))"
      using len by (simp add: nth_data_bytes)
    also have "int (length (zip_deflate_data s) - 1) = win_pos s - 1" using fin len by (simp add: of_nat_diff)
    finally show ?thesis ..
  qed
  moreover have "finish_block s = (zip_flush_block 1 ?u)\<lparr>zip_complete := True\<rparr>"
    using assms(3) by (simp add: finish_block_eq [OF assms(2)] byte)
  ultimately show ?thesis by metis
qed

theorem extra_last_byte_witness:
  "\<exists>u ts. finish_block (fast_step (started 1 [97])) = (zip_flush_block 1 u)\<lparr>zip_complete := True\<rparr> \<and>
    bufs_hold ts u \<and>
    lz_expand ts (take (nat (block_pos (fast_step (started 1 [97])))) (data_bytes (fast_step (started 1 [97])))) =
      data_bytes (fast_step (started 1 [97])) @ [last (data_bytes (fast_step (started 1 [97])))]"
  using ended_fast by (intro extra_last_byte) simp_all

end
