(* ===== verification/Deflate_Inflate.thy ===== *)
theory Deflate_Inflate
  imports Deflate_Block
begin

text \<open>
  The other side of the wire, as a specification: a decoder for the blocks of RFC 1951, written over
  codes as lists of bits and over the RFC's tables.  None of it is code of the program; it says what
  the program's output has to mean.
\<close>

section \<open>Prefix codes\<close>

definition decode_sym :: "(int \<Rightarrow> bool list) \<Rightarrow> int \<Rightarrow> bool list \<Rightarrow> (int \<times> bool list) option" where
  "decode_sym code n bits =
     (case List.find (\<lambda>c. code c \<noteq> [] \<and> take (length (code c)) bits = code c) [0..n - 1] of
        None \<Rightarrow> None
      | Some c \<Rightarrow> Some (c, drop (length (code c)) bits))"

lemma decode_sym_shorter:
  "decode_sym code n bits = Some (c, rest) \<Longrightarrow> length rest < length bits"
proof -
  assume "decode_sym code n bits = Some (c, rest)"
  then have c: "code c \<noteq> []" "take (length (code c)) bits = code c" and rest: "rest = drop (length (code c)) bits"
    by (auto simp: decode_sym_def find_Some_iff split: option.splits)
  from c have "bits \<noteq> []" by auto
  with c(1) rest show ?thesis by (cases "code c"; cases bits) auto
qed

text \<open>A code over the symbols \<open>0..n-1\<close> in which no used code begins another one.\<close>

locale prefix_code =
  fixes code :: "int \<Rightarrow> bool list" and n :: int
  assumes prefix_free: "\<lbrakk>0 \<le> a; a < n; 0 \<le> b; b < n; code a \<noteq> []; code b \<noteq> [];
    prefix (code a) (code b)\<rbrakk> \<Longrightarrow> a = b"
begin

lemma decode_code:
  assumes "0 \<le> c" "c < n" "code c \<noteq> []"
  shows "decode_sym code n (code c @ rest) = Some (c, rest)"
proof -
  let ?P = "\<lambda>d. code d \<noteq> [] \<and> take (length (code d)) (code c @ rest) = code d"
  have unique: "d = c" if d: "0 \<le> d" "d < n" "?P d" for d
  proof -
    from d(3) have "prefix (code d) (code c @ rest)"
      using take_is_prefix [of "length (code d)" "code c @ rest"] by simp
    then have "prefix (code d) (code c) \<or> prefix (code c) (code d)"
      by (auto simp: prefix_append)
    then show ?thesis
    proof
      assume "prefix (code d) (code c)"
      with d assms show ?thesis by (intro prefix_free) simp_all
    next
      assume "prefix (code c) (code d)"
      with d assms have "c = d" by (intro prefix_free) simp_all
      then show ?thesis by simp
    qed
  qed
  have "?P c" using assms(3) by simp
  moreover have "c \<in> set [0..n - 1]" using assms by simp
  ultimately have "List.find ?P [0..n - 1] \<noteq> None"
    unfolding find_None_iff by blast
  then obtain d where d: "List.find ?P [0..n - 1] = Some d" by blast
  then have "?P d" "d \<in> set [0..n - 1]" by (auto simp: find_Some_iff)
  with unique have "d = c" by simp
  with d show ?thesis by (simp add: decode_sym_def)
qed

end

section \<open>The body of a compressed block\<close>

definition take_bits :: "nat \<Rightarrow> bool list \<Rightarrow> (int \<times> bool list) option" where
  "take_bits n bits = (if n \<le> length bits then Some (val_lsb (take n bits), drop n bits) else None)"

lemma take_bits_append [simp]:
  "take_bits n (bits_lsb n v @ rest) = Some (take_bit n v, rest)"
  by (simp add: take_bits_def val_bits_lsb)

lemma take_bits_shorter: "take_bits n bits = Some (v, rest) \<Longrightarrow> length rest \<le> length bits"
  by (auto simp: take_bits_def split: if_splits)

text \<open>A match, after its length code \<open>c\<close>: extra length bits, distance code, extra distance bits.\<close>

definition inflate_match ::
  "(int \<Rightarrow> bool list) \<Rightarrow> int \<Rightarrow> bool list \<Rightarrow> (token \<times> bool list) option" where
  "inflate_match dcode c bits =
     Option.bind (take_bits (nat (zip_extra_lbits c)) bits) (\<lambda>(el, bits).
     Option.bind (decode_sym dcode 30 bits) (\<lambda>(dc, bits).
     Option.bind (take_bits (nat (zip_extra_dbits dc)) bits) (\<lambda>(ed, bits).
     Some (Match (rfc_length_base c + el) (rfc_dist_base dc + ed), bits))))"

lemma inflate_match_shorter:
  "inflate_match dcode c bits = Some (t, rest) \<Longrightarrow> length rest < length bits"
  by (auto simp: inflate_match_def bind_eq_Some_conv dest!: take_bits_shorter decode_sym_shorter)

function inflate_body ::
  "(int \<Rightarrow> bool list) \<Rightarrow> (int \<Rightarrow> bool list) \<Rightarrow> bool list \<Rightarrow> (token list \<times> bool list) option" where
  "inflate_body lcode dcode bits =
     (case decode_sym lcode 286 bits of
        None \<Rightarrow> None
      | Some (c, bits) \<Rightarrow>
          if c < 256 then map_option (apfst (Cons (Lit c))) (inflate_body lcode dcode bits)
          else if c = 256 then Some ([], bits)
          else (case inflate_match dcode (c - 257) bits of
                  None \<Rightarrow> None
                | Some (t, bits) \<Rightarrow> map_option (apfst (Cons t)) (inflate_body lcode dcode bits)))"
  by pat_completeness auto
termination
  by (relation "measure (\<lambda>(_, _, bits). length bits)")
    (auto dest!: decode_sym_shorter inflate_match_shorter)

declare inflate_body.simps [simp del]

text \<open>The symbols a token list uses.\<close>

fun tok_lsym :: "'a tree_state_scheme \<Rightarrow> token \<Rightarrow> int" where
  "tok_lsym s (Lit c) = c"
| "tok_lsym s (Match l _) = zip_length_code s l + 257"

definition codes_cover :: "'a tree_state_scheme \<Rightarrow> (int \<Rightarrow> bool list) \<Rightarrow> (int \<Rightarrow> bool list) \<Rightarrow> token list \<Rightarrow> bool"
  where
  "codes_cover s lcode dcode ts \<longleftrightarrow> lcode 256 \<noteq> [] \<and>
     (\<forall>t \<in> set ts. tok_ok t \<and> lcode (tok_lsym s t) \<noteq> [] \<and>
        (case t of Lit _ \<Rightarrow> True | Match _ d \<Rightarrow> dcode (zip_D_CODE d s) \<noteq> []))"

lemma pair_bits_code [simp]: "pair_bits (code_pair tree c) = code_bits tree c"
  by (simp add: pair_bits_def code_pair_def code_bits_def)

lemma extra_pair_bits [simp]:
  "pairs_bits (extra_pair v k) = bits_lsb (nat k) v"
  by (simp add: extra_pair_def pair_bits_def)

lemma take_bit_diff:
  "(b::int) \<le> v \<Longrightarrow> v < b + 2 ^ k \<Longrightarrow> take_bit k (v - b) = v - b"
  by (simp add: take_bit_int_eq_self_iff)

lemma inflate_token:
  assumes l: "prefix_code lcode 286" and d: "prefix_code dcode 30"
    and lt: "\<And>c. 0 \<le> c \<Longrightarrow> c < 286 \<Longrightarrow> code_bits lt c = lcode c"
    and dt: "\<And>c. 0 \<le> c \<Longrightarrow> c < 30 \<Longrightarrow> code_bits dt c = dcode c"
    and tab: "tables_ok s" and cover: "codes_cover s lcode dcode [t]"
  shows "inflate_body lcode dcode (pairs_bits (token_pairs lt dt s t) @ rest) =
    map_option (apfst (Cons t)) (inflate_body lcode dcode rest)"
proof (cases t)
  case (Lit c)
  with cover have "0 \<le> c" "c \<le> 255" "lcode c \<noteq> []" by (auto simp: codes_cover_def)
  then show ?thesis
    using prefix_code.decode_code [OF l, of c rest]
    by (subst inflate_body.simps) (simp add: Lit lt)
next
  case (Match len dist)
  define lc where "lc = zip_length_code s len"
  define dc where "dc = zip_D_CODE dist s"
  from cover Match have ok: "0 \<le> len" "len \<le> 255" "0 \<le> dist" "dist < 32768"
    "lcode (lc + 257) \<noteq> []" "dcode dc \<noteq> []"
    by (auto simp: codes_cover_def lc_def dc_def)
  have lc: "0 \<le> lc" "lc \<le> 28" "rfc_length_base lc \<le> len" "len < rfc_length_base lc + 2 ^ nat (zip_extra_lbits lc)"
    "zip_extra_lbits lc \<noteq> 0 \<Longrightarrow> zip_base_length s lc = rfc_length_base lc"
    using tab ok by (auto simp: tables_ok_def lc_def Let_def)
  have dc: "0 \<le> dc" "dc \<le> 29" "rfc_dist_base dc \<le> dist" "dist < rfc_dist_base dc + 2 ^ nat (zip_extra_dbits dc)"
    "zip_base_dist s dc = rfc_dist_base dc"
    using tab ok by (auto simp: tables_ok_def dc_def Let_def)
  have el: "bits_lsb (nat (zip_extra_lbits lc)) (len - zip_base_length s lc) =
      bits_lsb (nat (zip_extra_lbits lc)) (len - rfc_length_base lc)"
    using lc(5) by (cases "zip_extra_lbits lc = 0") simp_all
  let ?rest = "bits_lsb (nat (zip_extra_lbits lc)) (len - rfc_length_base lc) @ dcode dc @
    bits_lsb (nat (zip_extra_dbits dc)) (dist - rfc_dist_base dc) @ rest"
  have "inflate_match dcode lc ?rest = Some (Match len dist, rest)"
    using prefix_code.decode_code [OF d, of dc] dc ok lc
    by (simp add: inflate_match_def take_bit_diff)
  moreover have "decode_sym lcode 286 (lcode (lc + 257) @ ?rest) = Some (lc + 257, ?rest)"
    by (rule prefix_code.decode_code [OF l]) (use lc ok in simp_all)
  moreover have "pairs_bits (token_pairs lt dt s t) @ rest = lcode (lc + 257) @ ?rest"
    using el dc lc lt [of "lc + 257"] dt [of dc]
    by (simp add: Match Let_def flip: lc_def dc_def) (simp add: add.commute)
  ultimately show ?thesis
    using lc by (subst inflate_body.simps) (simp add: Match)
qed

text \<open>The bits of a block decode to its tokens.\<close>

lemma inflate_block:
  assumes l: "prefix_code lcode 286" and d: "prefix_code dcode 30"
    and lt: "\<And>c. 0 \<le> c \<Longrightarrow> c < 286 \<Longrightarrow> code_bits lt c = lcode c"
    and dt: "\<And>c. 0 \<le> c \<Longrightarrow> c < 30 \<Longrightarrow> code_bits dt c = dcode c"
    and tab: "tables_ok s" and cover: "codes_cover s lcode dcode ts"
  shows "inflate_body lcode dcode (pairs_bits (block_pairs lt dt s ts) @ rest) =
    Some (ts, rest)"
  using cover
proof (induction ts)
  case Nil
  then have "lcode 256 \<noteq> []" by (simp add: codes_cover_def)
  then show ?case
    using prefix_code.decode_code [OF l, of 256 rest]
    by (subst inflate_body.simps) (simp add: block_pairs_def lt)
next
  case (Cons t ts)
  then have t: "codes_cover s lcode dcode [t]"
    and ts: "codes_cover s lcode dcode ts" by (simp_all add: codes_cover_def)
  show ?case
    using inflate_token [OF l d lt dt tab t, of "pairs_bits (block_pairs lt dt s ts) @ rest"] Cons.IH [OF ts]
    by (simp add: block_pairs_def)
qed

section \<open>The static codes\<close>

lemma prefix_code_gen:
  assumes "kraft cnt \<le> 2 ^ 15" "lens_ok cnt tree mcode" "n = mcode + 1"
  shows "prefix_code (code_bits (gen_codes cnt tree mcode)) n"
proof
  fix a b assume ab: "0 \<le> a" "a < n" "0 \<le> b" "b < n"
    "code_bits (gen_codes cnt tree mcode) a \<noteq> []" "code_bits (gen_codes cnt tree mcode) b \<noteq> []"
    "prefix (code_bits (gen_codes cnt tree mcode) a) (code_bits (gen_codes cnt tree mcode) b)"
  have "-1 \<le> mcode" using ab assms(3) by simp
  note dl = gen_codes_correct(1) [OF assms(1,2) this]
  show "a = b"
    by (rule gen_codes_prefix_free [OF assms(1,2)])
      (use ab assms(3) dl in \<open>auto simp: code_bits_def\<close>)
qed

lemma prefix_code_cong:
  assumes "\<And>c. 0 \<le> c \<Longrightarrow> c < n \<Longrightarrow> code c = code' c" "prefix_code code' m" "n \<le> m"
  shows "prefix_code code n"
  using assms(2) assms(1,3) by (auto simp: prefix_code_def)

definition static_lcode :: "int \<Rightarrow> bool list" where
  "static_lcode n = rev (bits_lsb (nat (static_len n)) (static_code n))"

definition static_dcode :: "int \<Rightarrow> bool list" where
  "static_dcode n = rev (bits_lsb 5 n)"

lemma prefix_code_static_lcode: "prefix_code static_lcode 288"
proof -
  let ?cnt = "\<lambda>l. if l = 7 then 24 else if l = 8 then 152 else if l = 9 then 112 else 0"
  let ?tree = "\<lambda>n. \<lparr>fc = 0, dl = static_len n\<rparr>"
  have dl: "\<And>n. 0 \<le> n \<Longrightarrow> n \<le> 287 \<Longrightarrow> dl (?tree n) = static_len n" by simp
  have cnt: "\<And>l. 0 \<le> l \<Longrightarrow> l \<le> 15 \<Longrightarrow>
      ?cnt l = (if l = 7 then 24 else if l = 8 then 152 else if l = 9 then 112 else 0)" by simp
  note st = static_lens [OF dl cnt]
  have kraft: "kraft ?cnt \<le> 2 ^ 15" using st(2) by simp
  have nz: "static_len c \<noteq> 0" for c by (simp add: static_len_def)
  show ?thesis
  proof (rule prefix_code_cong)
    show "prefix_code (code_bits (gen_codes ?cnt ?tree 287)) 288"
      by (intro prefix_code_gen [OF kraft st(1)]) simp_all
    fix c :: int assume c: "0 \<le> c" "c < 288"
    then show "static_lcode c = code_bits (gen_codes ?cnt ?tree 287) c"
      using code_bits_gen_codes [OF kraft st(1), of c] st(3) [of c] nz
      by (simp add: static_lcode_def)
  qed simp
qed

lemma prefix_code_static_dcode: "prefix_code static_dcode 30"
proof
  fix a b :: int assume ab: "0 \<le> a" "a < 30" "0 \<le> b" "b < 30" "prefix (static_dcode a) (static_dcode b)"
  then obtain zs where "rev (bits_lsb 5 b) = rev (bits_lsb 5 a) @ zs"
    by (auto simp: static_dcode_def prefix_def)
  moreover from arg_cong [OF this, of length] have "zs = []" by simp
  ultimately have "bits_lsb 5 a = bits_lsb 5 b" by simp
  then show "a = b" by (rule bits_lsb_inj) (use ab in simp_all)
qed

lemma static_init_codes:
  "0 \<le> n \<Longrightarrow> n < 288 \<Longrightarrow> code_bits (zip_static_ltree (ct_init_static s)) n = static_lcode n"
  "0 \<le> n \<Longrightarrow> n < 30 \<Longrightarrow> code_bits (zip_static_dtree (ct_init_static s)) n = static_dcode n"
proof -
  obtain t cnt where st: "ct_init_static s = s\<lparr>zip_static_ltree := t, zip_bl_count := cnt,
      zip_static_dtree := for_up 0 zip_D_CODES
        (\<lambda>n t. set_fc n (zip_bi_reverse n 5) (set_dl n 5 t)) (zip_static_dtree s)\<rparr>"
    and t: "\<forall>n. 0 \<le> n \<and> n \<le> 287 \<longrightarrow> dl (t n) = static_len n \<and>
       code_bits t n = rev (bits_lsb (nat (static_len n)) (static_code n)) \<and>
       sendable (fc (t n), static_len n)"
    using static_ltree_init [of s] by blast
  show "0 \<le> n \<Longrightarrow> n < 288 \<Longrightarrow> code_bits (zip_static_ltree (ct_init_static s)) n = static_lcode n"
    using t by (simp add: st static_lcode_def)
  show "0 \<le> n \<Longrightarrow> n < 30 \<Longrightarrow> code_bits (zip_static_dtree (ct_init_static s)) n = static_dcode n"
    using static_dtree_init [of n] by (simp add: st static_dcode_def)
qed

interpretation sl: prefix_code "code_bits (zip_static_ltree (ct_init_static s))" 288
  for s :: "'a tree_state_scheme"
  using static_init_codes(1) prefix_code_static_lcode by (rule prefix_code_cong) simp_all

interpretation sd: prefix_code "code_bits (zip_static_dtree (ct_init_static s))" 30
  for s :: "'a tree_state_scheme"
  using static_init_codes(2) prefix_code_static_dcode by (rule prefix_code_cong) simp_all

text \<open>A block sent with the static trees decodes with the RFC's static codes.\<close>

lemma static_ok_codes:
  assumes "static_ok s"
  shows "0 \<le> n \<Longrightarrow> n < 288 \<Longrightarrow> code_bits (zip_static_ltree s) n = static_lcode n"
    "0 \<le> n \<Longrightarrow> n < 30 \<Longrightarrow> code_bits (zip_static_dtree s) n = static_dcode n"
  using assms by (simp_all add: static_ok_def static_lcode_def static_dcode_def)

lemma codes_cover_static:
  assumes "tables_ok s" "\<forall>t \<in> set ts. tok_ok t"
  shows "codes_cover s static_lcode static_dcode ts"
proof -
  have "static_lcode c \<noteq> []" for c
    using length_bits_lsb [of "nat (static_len c)"]
    by (auto simp: static_lcode_def static_len_def simp del: length_bits_lsb dest!: arg_cong [where f = length])
  moreover have "static_dcode c \<noteq> []" for c
    by (auto simp: static_dcode_def dest!: arg_cong [where f = length])
  ultimately show ?thesis using assms(2) by (auto simp: codes_cover_def split: token.splits)
qed

lemma inflate_static:
  assumes "tables_ok s" "static_ok s" "\<forall>t \<in> set ts. tok_ok t"
  shows "inflate_body static_lcode static_dcode
      (pairs_bits (block_pairs (zip_static_ltree s) (zip_static_dtree s) s ts) @ rest) = Some (ts, rest)"
proof (rule inflate_block)
  show "prefix_code static_lcode 286"
    using prefix_code_static_lcode by (rule prefix_code_cong [rotated]) simp_all
  show "prefix_code static_dcode 30" by (rule prefix_code_static_dcode)
  show "codes_cover s static_lcode static_dcode ts" by (rule codes_cover_static [OF assms(1,3)])
qed (use assms static_ok_codes [OF assms(2)] in simp_all)

section \<open>Sending a block\<close>

definition codes_sendable :: "ct_tree \<Rightarrow> int \<Rightarrow> bool" where
  "codes_sendable tree n \<longleftrightarrow> (\<forall>c. 0 \<le> c \<and> c < n \<longrightarrow> sendable (code_pair tree c))"

lemma extra_pair_sendable:
  assumes "k \<noteq> 0 \<Longrightarrow> 0 \<le> v" "k \<noteq> 0 \<Longrightarrow> v < 2 ^ nat k" "0 \<le> k" "k \<le> 16"
  shows "\<forall>p \<in> set (extra_pair v k). sendable p"
  using assms by (simp add: extra_pair_def sendable_def)

lemma token_pairs_sendable:
  assumes tab: "tables_ok s" and ok: "tok_ok t"
    and lt: "codes_sendable lt 286" and dt: "codes_sendable dt 30"
  shows "\<forall>p \<in> set (token_pairs lt dt s t). sendable p"
proof (cases t)
  case (Lit c)
  with ok lt show ?thesis by (simp add: codes_sendable_def)
next
  case (Match len dist)
  define lc where "lc = zip_length_code s len"
  define dc where "dc = zip_D_CODE dist s"
  have lc: "0 \<le> lc" "lc \<le> 28" "rfc_length_base lc \<le> len" "len < rfc_length_base lc + 2 ^ nat (zip_extra_lbits lc)"
    "zip_extra_lbits lc \<noteq> 0 \<Longrightarrow> zip_base_length s lc = rfc_length_base lc"
    using tab ok Match by (auto simp: tables_ok_def lc_def Let_def)
  have dc: "0 \<le> dc" "dc \<le> 29" "rfc_dist_base dc \<le> dist" "dist < rfc_dist_base dc + 2 ^ nat (zip_extra_dbits dc)"
    "zip_base_dist s dc = rfc_dist_base dc"
    using tab ok Match by (auto simp: tables_ok_def dc_def Let_def)
  have "\<forall>p \<in> set (extra_pair (len - zip_base_length s lc) (zip_extra_lbits lc)). sendable p"
    using lc extra_lbits_range [of lc] by (intro extra_pair_sendable) auto
  moreover have "\<forall>p \<in> set (extra_pair (dist - zip_base_dist s dc) (zip_extra_dbits dc)). sendable p"
    using dc extra_dbits_range [of dc] by (intro extra_pair_sendable) auto
  moreover have "sendable (code_pair lt (lc + 256 + 1))" "sendable (code_pair dt dc)"
    using lt dt lc dc by (simp_all add: codes_sendable_def)
  ultimately show ?thesis
    unfolding Match token_pairs.simps Let_def lc_def [symmetric] dc_def [symmetric] by auto
qed

lemma block_pairs_sendable:
  assumes "tables_ok s" "\<forall>t \<in> set ts. tok_ok t" "codes_sendable lt 286" "codes_sendable dt 30"
  shows "\<forall>p \<in> set (block_pairs lt dt s ts). sendable p"
  using token_pairs_sendable [OF assms(1) _ assms(3,4)] assms(2,3)
  by (auto simp: block_pairs_def codes_sendable_def)

lemma static_codes_sendable:
  assumes "static_ok s"
  shows "codes_sendable (zip_static_ltree s) 286" "codes_sendable (zip_static_dtree s) 30"
  using assms by (auto simp: static_ok_def codes_sendable_def code_pair_def)

lemma compress_static:
  assumes "out_ready s" "tables_ok s" "static_ok s" "bufs_ready ts s" "\<forall>t \<in> set ts. tok_ok t"
  shows "\<exists>bits. out_stream (zip_compress_block Static_ltree Static_dtree s) = out_stream s @ bits \<and>
      inflate_body static_lcode static_dcode (bits @ rest) = Some (ts, rest)"
    and "out_ready (zip_compress_block Static_ltree Static_dtree s)"
proof -
  let ?ps = "block_pairs (zip_static_ltree s) (zip_static_dtree s) s ts"
  have eq: "zip_compress_block Static_ltree Static_dtree s = zs.send_all ?ps s"
    using compress_block_pairs [OF assms(4,5), of Static_ltree Static_dtree] by simp
  have "\<forall>p \<in> set ?ps. sendable p"
    using block_pairs_sendable [OF assms(2,5) static_codes_sendable [OF assms(3)]] .
  note sent = zs.send_all_correct [OF assms(1) this]
  show "\<exists>bits. out_stream (zip_compress_block Static_ltree Static_dtree s) = out_stream s @ bits \<and>
      inflate_body static_lcode static_dcode (bits @ rest) = Some (ts, rest)"
    unfolding eq sent(1) using inflate_static [OF assms(2,3,5)] by blast
  show "out_ready (zip_compress_block Static_ltree Static_dtree s)"
    unfolding eq by (rule sent(2))
qed

section \<open>The lengths of a tree\<close>

lemma code_bits_Nil [simp]: "code_bits tree n = [] \<longleftrightarrow> dl (tree n) \<le> 0"
  using length_bits_lsb [of "nat (dl (tree n))" "fc (tree n)"]
  by (auto simp: code_bits_def simp del: length_bits_lsb simp flip: length_0_conv)

text \<open>The inflating side reads run-length symbols until it has \<open>n\<close> lengths.\<close>

function inflate_lengths ::
  "(int \<Rightarrow> bool list) \<Rightarrow> nat \<Rightarrow> int list \<Rightarrow> bool list \<Rightarrow> (int list \<times> bool list) option" where
  "inflate_lengths code n acc bits =
     (if n \<le> length acc then Some (acc, bits)
      else case decode_sym code 19 bits of
        None \<Rightarrow> None
      | Some (c, bits) \<Rightarrow>
          (case take_bits (nat (zip_extra_blbits c)) bits of
             None \<Rightarrow> None
           | Some (e, bits) \<Rightarrow>
               (case rl_expand (c, zip_extra_blbits c, e) acc of
                  None \<Rightarrow> None
                | Some acc \<Rightarrow> inflate_lengths code n acc bits)))"
  by pat_completeness auto
termination
  by (relation "measure (\<lambda>(_, _, _, bits). length bits)")
    (auto dest!: decode_sym_shorter take_bits_shorter)

declare inflate_lengths.simps [simp del]

fun rl_pairs :: "ct_tree \<Rightarrow> rl_token \<Rightarrow> (int \<times> int) list" where
  "rl_pairs bl (c, nb, e) = code_pair bl c # extra_pair e nb"

lemma send_token_pairs: "send_token bl t s = zs.send_all (rl_pairs bl t) s"
  by (cases t) (simp add: zip_SEND_CODE_def code_pair_def extra_pair_def Let_def)

lemma send_tree_pairs:
  "zip_send_tree t mcode s =
     zs.send_all (concat (map (rl_pairs (zip_bl_tree s)) (run_tokens (get_tree t s) mcode))) s"
proof -
  have "fold (send_token bl) ts s = zs.send_all (concat (map (rl_pairs bl) ts)) s" for bl ts
    by (induction ts arbitrary: s) (simp_all add: send_token_pairs)
  then show ?thesis by (simp add: send_tree_tokens)
qed

lemma rl_expand_longer: "rl_expand t acc = Some acc' \<Longrightarrow> rl_valid t \<Longrightarrow> length acc < length acc'"
  by (cases t) (auto split: if_splits)

lemma rl_decode_longer: "rl_decode ts acc = Some acc' \<Longrightarrow> list_all rl_valid ts \<Longrightarrow> length acc \<le> length acc'"
proof (induction ts arbitrary: acc)
  case (Cons t ts)
  then obtain acc1 where "rl_expand t acc = Some acc1" "rl_decode ts acc1 = Some acc'"
    by (auto simp: bind_eq_Some_conv)
  with Cons rl_expand_longer [of t acc acc1] show ?case by fastforce
qed simp

lemma inflate_tokens:
  assumes code: "prefix_code (code_bits bl) 19"
    and used: "\<forall>t \<in> set ts. code_bits bl (fst t) \<noteq> []"
    and valid: "list_all rl_valid ts" and dec: "rl_decode ts acc = Some acc'"
  shows "inflate_lengths (code_bits bl) (length acc') acc
      (pairs_bits (concat (map (rl_pairs bl) ts)) @ rest) = Some (acc', rest)"
  using used valid dec
proof (induction ts arbitrary: acc)
  case Nil
  then show ?case by (subst inflate_lengths.simps) simp
next
  case (Cons t ts)
  obtain c nb e where t: "t = (c, nb, e)" by (cases t)
  with Cons.prems(2) have v: "0 \<le> c" "c \<le> 18" "nb = zip_extra_blbits c" "0 \<le> e" "e < 2 ^ nat nb"
    by auto
  from Cons obtain acc1 where acc1: "rl_expand t acc = Some acc1" "rl_decode ts acc1 = Some acc'"
    by (auto simp: bind_eq_Some_conv)
  have less: "length acc < length acc'"
    using rl_expand_longer [OF acc1(1)] rl_decode_longer [OF acc1(2)] Cons by simp
  let ?rest = "pairs_bits (concat (map (rl_pairs bl) ts)) @ rest"
  have "decode_sym (code_bits bl) 19 (code_bits bl c @ bits_lsb (nat nb) e @ ?rest) =
      Some (c, bits_lsb (nat nb) e @ ?rest)"
    by (rule prefix_code.decode_code [OF code]) (use v Cons.prems(1) t in auto)
  moreover have "take_bits (nat (zip_extra_blbits c)) (bits_lsb (nat nb) e @ ?rest) = Some (e, ?rest)"
    using v by (simp add: take_bit_int_eq_self_iff)
  ultimately have "inflate_lengths (code_bits bl) (length acc') acc
      (code_bits bl c @ bits_lsb (nat nb) e @ ?rest) =
      inflate_lengths (code_bits bl) (length acc') acc1 ?rest"
    using less acc1(1) t v(3) by (subst inflate_lengths.simps) simp
  with Cons acc1 show ?case by (simp add: t)
qed

lemma rl_pairs_sendable:
  assumes "codes_sendable bl 19" "list_all rl_valid ts"
  shows "\<forall>p \<in> set (concat (map (rl_pairs bl) ts)). sendable p"
proof -
  have "\<forall>p \<in> set (rl_pairs bl t). sendable p" if t: "t \<in> set ts" for t
  proof (cases t)
    case (fields c nb e)
    with t assms(2) have v: "rl_valid (c, nb, e)" by (auto simp: list_all_iff)
    have "0 \<le> zip_extra_blbits c \<and> zip_extra_blbits c < 16"
      unfolding zip_extra_blbits_def by (rule js_table_range) simp_all
    with v have "\<forall>p \<in> set (extra_pair e nb). sendable p"
      by (intro extra_pair_sendable) auto
    with v assms(1) show ?thesis by (simp add: fields codes_sendable_def)
  qed
  then show ?thesis by auto
qed

lemma send_tree_inflate:
  assumes ready: "out_ready s" and code: "prefix_code (code_bits (zip_bl_tree s)) 19"
    and send: "codes_sendable (zip_bl_tree s) 19"
    and lens: "\<forall>n \<in> {0..mcode}. 0 \<le> dl (get_tree t s n) \<and> dl (get_tree t s n) \<le> 15"
    and guard: "dl (get_tree t s (mcode + 1)) = 65535" and mcode: "0 \<le> mcode"
    and used: "\<forall>u \<in> set (run_tokens (get_tree t s) mcode). dl (zip_bl_tree s (fst u)) > 0"
  shows "\<exists>bits. out_stream (zip_send_tree t mcode s) = out_stream s @ bits \<and>
      inflate_lengths (code_bits (zip_bl_tree s)) (length acc + nat (mcode + 1)) acc (bits @ rest) =
        Some (acc @ map (\<lambda>n. dl (get_tree t s n)) [0..mcode], rest)"
    and "out_ready (zip_send_tree t mcode s)"
proof -
  let ?ts = "run_tokens (get_tree t s) mcode"
  note dec = run_tokens_correct [OF lens guard mcode]
  note sent = zs.send_all_correct [OF ready rl_pairs_sendable [OF send dec(2)]]
  have "code_bits (zip_bl_tree s) (fst u) \<noteq> []" if "u \<in> set ?ts" for u
    using used that by auto
  then have "\<forall>u \<in> set ?ts. code_bits (zip_bl_tree s) (fst u) \<noteq> []" by blast
  from inflate_tokens [OF code this dec(2,1), of acc rest]
  show "\<exists>bits. out_stream (zip_send_tree t mcode s) = out_stream s @ bits \<and>
      inflate_lengths (code_bits (zip_bl_tree s)) (length acc + nat (mcode + 1)) acc (bits @ rest) =
        Some (acc @ map (\<lambda>n. dl (get_tree t s n)) [0..mcode], rest)"
    using sent(1) by (auto simp: send_tree_pairs)
  show "out_ready (zip_send_tree t mcode s)" using sent(2) by (simp add: send_tree_pairs)
qed

section \<open>Properties\<close>

text \<open>
  C1: a block sent with the static trees decodes: the bits that \<open>zip_compress_block\<close> appends to the
  stream are read back by RFC 1951's fixed codes as the tokens in the buffers, up to the end of the
  block, whatever follows.
\<close>

theorem static_block_decodes:
  assumes "out_ready s" "tables_ok s" "static_ok s" "bufs_ready ts s" "\<forall>t \<in> set ts. tok_ok t"
  shows "(\<exists>bits. out_stream (zip_compress_block Static_ltree Static_dtree s) = out_stream s @ bits \<and>
      inflate_body static_lcode static_dcode (bits @ rest) = Some (ts, rest)) \<and>
    out_ready (zip_compress_block Static_ltree Static_dtree s)"
  using compress_static [OF assms] by blast

text \<open>A block with a literal and a match, in a state that \<open>zip_ct_init\<close> prepared.\<close>

definition example_block :: "block_state \<Rightarrow> block_state" where
  "example_block s =
     (let s = zip_ct_init (s\<lparr>zip_static_dtree := (\<lambda>_. \<lparr>fc = 0, dl = 0\<rparr>)\<rparr>);
          s = snd (zip_ct_tally 11 3 (snd (zip_ct_tally 0 97 s)));
          s = s\<lparr>zip_flag_buf := (zip_flag_buf s)(zip_last_flags s := zip_flags s)\<rparr>
      in s\<lparr>zip_outbuf := (\<lambda>_. 0), zip_outcnt := 0, zip_outoff := 0, zip_qhead := [], zip_bi_buf := 0,
           zip_bi_valid := 0\<rparr>)"


lemma example_block_ok:
  "out_ready (example_block s)" "tables_ok (example_block s)" "static_ok (example_block s)"
  "bufs_ready [Lit 97, Match 3 10] (example_block s)"
proof -
  define u where "u = zip_ct_init (s\<lparr>zip_static_dtree := (\<lambda>_. \<lparr>fc = 0, dl = 0\<rparr>)\<rparr>)"
  define v where "v = snd (zip_ct_tally 11 3 (snd (zip_ct_tally 0 97 u)))"
  define w where "w = v\<lparr>zip_flag_buf := (zip_flag_buf v)(zip_last_flags v := zip_flags v)\<rparr>"
  have ex: "example_block s = w\<lparr>zip_outbuf := (\<lambda>_. 0), zip_outcnt := 0, zip_outoff := 0,
      zip_qhead := [], zip_bi_buf := 0, zip_bi_valid := 0\<rparr>"
    by (simp add: example_block_def Let_def u_def v_def w_def)
  show "out_ready (example_block s)"
    by (simp add: ex out_ready_def buf_ready_def buf_inv_def bi_inv_def out_bytes_def)
  have ok: "tables_ok u" "static_ok u"
    unfolding u_def by (rule ct_init_ok; simp)+
  have eq: "tables_ok (example_block s) = tables_ok u" "static_ok (example_block s) = static_ok u"
    by (rule tables_ok_cong static_ok_cong; simp add: ex w_def v_def tally_frame)+
  then show "tables_ok (example_block s)" "static_ok (example_block s)" using ok by simp_all
  have "bufs_hold [] u" by (simp add: u_def zip_ct_init_def bufs_hold_init)
  from tally_bufs [OF tally_bufs [OF this, of "Lit 97"], of "Match 3 10"]
  have "bufs_hold [Lit 97, Match 3 10] v" by (simp add: v_def)
  from bufs_hold_ready [OF this] have "bufs_ready [Lit 97, Match 3 10] w" by (simp add: w_def)
  then show "bufs_ready [Lit 97, Match 3 10] (example_block s)"
    by (simp add: ex bufs_ready_def)
qed

theorem static_block_decodes_witness:
  "\<forall>s. (\<exists>bits. out_stream (zip_compress_block Static_ltree Static_dtree (example_block s)) =
        out_stream (example_block s) @ bits \<and>
      inflate_body static_lcode static_dcode (bits @ []) = Some ([Lit 97, Match 3 10], [])) \<and>
    out_ready (zip_compress_block Static_ltree Static_dtree (example_block s))"
  by (intro allI static_block_decodes example_block_ok) simp

text \<open>
  C2: the lengths of a tree that \<open>zip_send_tree\<close> writes through the bit length tree are read back by
  the run-length decoder of RFC 1951, when the bit length tree is a prefix code that has every symbol
  needed.
\<close>

theorem sent_tree_decodes:
  assumes "out_ready s" "prefix_code (code_bits (zip_bl_tree s)) 19"
    "codes_sendable (zip_bl_tree s) 19"
    "\<forall>n \<in> {0..mcode}. 0 \<le> dl (get_tree t s n) \<and> dl (get_tree t s n) \<le> 15"
    "dl (get_tree t s (mcode + 1)) = 65535" "0 \<le> mcode"
    "\<forall>u \<in> set (run_tokens (get_tree t s) mcode). dl (zip_bl_tree s (fst u)) > 0"
  shows "\<exists>bits. out_stream (zip_send_tree t mcode s) = out_stream s @ bits \<and>
      inflate_lengths (code_bits (zip_bl_tree s)) (nat (mcode + 1)) [] (bits @ rest) =
        Some (map (\<lambda>n. dl (get_tree t s n)) [0..mcode], rest)"
  using send_tree_inflate(1) [OF assms, of "[]" rest] by simp


definition example_trees :: "block_state \<Rightarrow> block_state" where
  "example_trees s = (example_block s)\<lparr>zip_bl_tree := zip_static_dtree (example_block s),
     zip_dyn_dtree := example_runs\<rparr>"

lemma example_trees_ok:
  "out_ready (example_trees s)" "prefix_code (code_bits (zip_bl_tree (example_trees s))) 19"
  "codes_sendable (zip_bl_tree (example_trees s)) 19"
  "\<forall>u \<in> set (run_tokens (get_tree Dyn_dtree (example_trees s)) 20).
    dl (zip_bl_tree (example_trees s) (fst u)) > 0"
proof -
  show "out_ready (example_trees s)"
    using example_block_ok(1) [of s]
    by (simp add: example_trees_def out_ready_def buf_ready_def buf_inv_def bi_inv_def out_bytes_def)
  have st: "static_ok (example_block s)" by (rule example_block_ok)
  show "prefix_code (code_bits (zip_bl_tree (example_trees s))) 19"
    by (rule prefix_code_cong [OF _ prefix_code_static_dcode])
      (simp_all add: example_trees_def static_ok_codes [OF st])
  show "codes_sendable (zip_bl_tree (example_trees s)) 19"
    using static_codes_sendable(2) [OF st] by (simp add: codes_sendable_def example_trees_def)
  have "list_all rl_valid (run_tokens (get_tree Dyn_dtree (example_trees s)) 20)"
    by (rule run_tokens_correct) (simp_all add: example_trees_def example_runs_def)
  moreover have "rl_valid u \<Longrightarrow> 0 \<le> fst u \<and> fst u < 30" for u by (cases u) auto
  moreover have "dl (zip_static_dtree (example_block s) c) = 5" if "0 \<le> c" "c < 30" for c
    using st that by (simp add: static_ok_def)
  ultimately show "\<forall>u \<in> set (run_tokens (get_tree Dyn_dtree (example_trees s)) 20).
      dl (zip_bl_tree (example_trees s) (fst u)) > 0"
    by (auto simp: list_all_iff example_trees_def)
qed

theorem sent_tree_decodes_witness:
  "\<forall>s. \<exists>bits. out_stream (zip_send_tree Dyn_dtree 20 (example_trees s)) =
        out_stream (example_trees s) @ bits \<and>
      inflate_lengths (code_bits (zip_bl_tree (example_trees s))) (nat (20 + 1)) [] (bits @ []) =
        Some (map (\<lambda>n. dl (get_tree Dyn_dtree (example_trees s) n)) [0..20], [])"
proof
  fix s
  show "\<exists>bits. out_stream (zip_send_tree Dyn_dtree 20 (example_trees s)) =
        out_stream (example_trees s) @ bits \<and>
      inflate_lengths (code_bits (zip_bl_tree (example_trees s))) (nat (20 + 1)) [] (bits @ []) =
        Some (map (\<lambda>n. dl (get_tree Dyn_dtree (example_trees s) n)) [0..20], [])"
    by (rule sent_tree_decodes [OF example_trees_ok(1-3) _ _ _ example_trees_ok(4)])
      (simp_all add: example_trees_def example_runs_def)
qed

end
