(* ===== verification/Plantuml.thy ===== *)
theory Plantuml
  imports Js_Prelude
begin

text \<open>
  The text encoding of \<open>assets/js/plantuml.js\<close>: bytes, three at a time, become four characters of an
  alphabet of 64.  The input is the output of \<open>deflate\<close>, a string of character codes 0 to 255, here
  the list of the codes.  \<open>decode64\<close> is the specification's side: what the PlantUML server undoes.

  The source's variable \<open>r\<close> is one global that both \<open>encode64\<close> and \<open>append3bytes\<close> assign.  In
  \<open>r += append3bytes(..)\<close> the old value of \<open>r\<close> is read before the call, so the call's assignments
  are lost when the sum is stored; the model passes \<open>r\<close> along and shows the store.
\<close>

section \<open>The encoder\<close>

definition fromCharCode :: "int \<Rightarrow> char" where
  "fromCharCode n = char_of n"

definition encode6bit :: "int \<Rightarrow> string" where
  "encode6bit b =
     (if b < 10 then [fromCharCode (48 + b)]
      else let b = b - 10 in
        if b < 26 then [fromCharCode (65 + b)]
        else let b = b - 26 in
          if b < 26 then [fromCharCode (97 + b)]
          else let b = b - 26 in
            if b = 0 then ''-'' else if b = 1 then ''_'' else ''?'')"

definition append3bytes :: "int \<Rightarrow> int \<Rightarrow> int \<Rightarrow> string" where
  "append3bytes b1 b2 b3 =
     (let c1 = js_shr b1 2;
          c2 = js_or (js_shl (js_and b1 3) 4) (js_shr b2 4);
          c3 = js_or (js_shl (js_and b2 15) 2) (js_shr b3 6);
          c4 = js_and b3 63;
          r = [];
          r = r @ encode6bit (js_and c1 63);
          r = r @ encode6bit (js_and c2 63);
          r = r @ encode6bit (js_and c3 63);
          r = r @ encode6bit (js_and c4 63)
      in r)"

function encode64_loop :: "int list \<Rightarrow> int \<Rightarrow> string \<Rightarrow> string" where
  "encode64_loop data i r =
     (if i < int (length data) then
        let r = (if i + 2 = int (length data) then
                   r @ append3bytes (data ! nat i) (data ! nat (i + 1)) 0
                 else if i + 1 = int (length data) then
                   r @ append3bytes (data ! nat i) 0 0
                 else
                   r @ append3bytes (data ! nat i) (data ! nat (i + 1)) (data ! nat (i + 2)))
        in encode64_loop data (i + 3) r
      else r)"
  by pat_completeness auto
termination
  by (relation "measure (\<lambda>(data, i, _). nat (int (length data) - i))") auto

declare encode64_loop.simps [simp del]

definition encode64 :: "int list \<Rightarrow> string" where
  "encode64 data = encode64_loop data 0 []"

section \<open>The decoder\<close>

definition decode6bit :: "char \<Rightarrow> int option" where
  "decode6bit c =
     (let n = of_char c in
      if 48 \<le> n \<and> n \<le> 57 then Some (n - 48)
      else if 65 \<le> n \<and> n \<le> 90 then Some (n - 65 + 10)
      else if 97 \<le> n \<and> n \<le> 122 then Some (n - 97 + 36)
      else if c = CHR ''-'' then Some 62
      else if c = CHR ''_'' then Some 63
      else None)"

fun decode64 :: "string \<Rightarrow> int list option" where
  "decode64 [] = Some []"
| "decode64 (w # x # y # z # rest) =
     (case (decode6bit w, decode6bit x, decode6bit y, decode6bit z, decode64 rest) of
        (Some a, Some b, Some c, Some d, Some bs) \<Rightarrow>
          Some ((4 * a + b div 16) # (16 * (b mod 16) + c div 4) # (64 * (c mod 4) + d) # bs)
      | _ \<Rightarrow> None)"
| "decode64 _ = None"

section \<open>One character\<close>

lemma of_char_fromCharCode: "0 \<le> n \<Longrightarrow> n < 256 \<Longrightarrow> of_char (fromCharCode n) = n"
  by (simp add: fromCharCode_def of_char_of)

definition digit64 :: "int \<Rightarrow> char" where
  "digit64 b = hd (encode6bit b)"

lemma encode6bit_digit: "encode6bit b = [digit64 b]"
  by (simp add: digit64_def encode6bit_def Let_def)

lemma digit64_round: "0 \<le> b \<Longrightarrow> b < 64 \<Longrightarrow> decode6bit (digit64 b) = Some b"
proof -
  assume b: "0 \<le> b" "b < 64"
  consider "b < 10" | "10 \<le> b" "b < 36" | "36 \<le> b" "b < 62" | "b = 62" | "b = 63"
    using b by linarith
  then show ?thesis
    by cases (use b in \<open>simp_all add: digit64_def encode6bit_def decode6bit_def of_char_fromCharCode\<close>)
qed

section \<open>Three bytes\<close>

lemma js_or_concat:
  assumes "0 \<le> x" "0 \<le> y" "y < 2 ^ n" "n < 16" "x < 2 ^ 8"
  shows "js_or (js_shl x (int n)) y = x * 2 ^ n + y"
proof -
  have p: "(2::int) ^ n \<le> 2 ^ 15" using assms(4) by (intro power_increasing) simp_all
  have "x * 2 ^ n \<le> 2 ^ 8 * 2 ^ 15" using assms p by (intro mult_mono) simp_all
  then have xn: "x * 2 ^ n < 2 ^ 30" by simp
  then have sh: "js_shl x (int n) = push_bit n x"
    using assms by (subst js_shl_small) (simp_all add: push_bit_eq_mult)
  have "y < 2 ^ 15" using assms(3) p by linarith
  then have "js_or (push_bit n x) y = push_bit n x OR y"
    using assms xn by (simp add: js_or_def push_bit_eq_mult)
  also have "\<dots> = concat_bit n y x"
    using assms by (simp add: concat_bit_def take_bit_int_eq_self or.commute)
  also have "\<dots> = x * 2 ^ n + y"
    using assms by (simp add: concat_bit_eq take_bit_int_eq_self push_bit_eq_mult)
  finally show ?thesis by (simp add: sh)
qed

lemma js_or_4: "0 \<le> x \<Longrightarrow> x < 256 \<Longrightarrow> 0 \<le> y \<Longrightarrow> y < 16 \<Longrightarrow> js_or (js_shl x 4) y = x * 16 + y"
  and js_or_2: "0 \<le> x \<Longrightarrow> x < 256 \<Longrightarrow> 0 \<le> y \<Longrightarrow> y < 4 \<Longrightarrow> js_or (js_shl x 2) y = x * 4 + y"
  using js_or_concat [of x y 4] js_or_concat [of x y 2] by simp_all

lemma js_and_3f: "js_and x 63 = x mod 64" and js_and_3: "js_and x 3 = x mod 4"
  and js_and_f: "js_and x 15 = x mod 16"
  using js_and_mask [of 6 x] js_and_mask [of 2 x] js_and_mask [of 4 x] by (simp_all add: take_bit_eq_mod)

definition byte :: "int \<Rightarrow> bool" where
  "byte b \<longleftrightarrow> 0 \<le> b \<and> b < 256"

text \<open>The four digits of three bytes, as sums of the bytes' parts.\<close>

lemma byte_parts:
  assumes "byte b"
  shows "0 \<le> b div 4" "b div 4 < 64" "0 \<le> b div 16" "b div 16 < 16" "0 \<le> b div 64" "b div 64 < 4"
    "0 \<le> b mod 4" "b mod 4 < 4" "0 \<le> b mod 16" "b mod 16 < 16" "0 \<le> b mod 64" "b mod 64 < 64"
  using assms int_div_less [of b 64 4] int_div_less [of b 16 16] int_div_less [of b 4 64]
  by (simp_all add: byte_def pos_imp_zdiv_nonneg_iff)

lemma digit_ranges:
  assumes "byte b1" "byte b2" "byte b3"
  shows "0 \<le> b1 mod 4 * 16 + b2 div 16" "b1 mod 4 * 16 + b2 div 16 < 64"
    "0 \<le> b2 mod 16 * 4 + b3 div 64" "b2 mod 16 * 4 + b3 div 64 < 64"
proof -
  have sum: "0 \<le> x * m + y \<and> x * m + y < 64"
    if "0 \<le> x" "x \<le> k" "0 \<le> y" "y < m" "0 \<le> m" "k * m + m \<le> 64" for x y k m :: int
  proof -
    have "0 \<le> x * m" "x * m \<le> k * m" using that by (simp_all add: mult_right_mono)
    with that show ?thesis by linarith
  qed
  show "0 \<le> b1 mod 4 * 16 + b2 div 16" "b1 mod 4 * 16 + b2 div 16 < 64"
    using sum [of "b1 mod 4" 3 "b2 div 16" 16] byte_parts(7,8) [OF assms(1)] byte_parts(3,4) [OF assms(2)]
    by simp_all
  show "0 \<le> b2 mod 16 * 4 + b3 div 64" "b2 mod 16 * 4 + b3 div 64 < 64"
    using sum [of "b2 mod 16" 15 "b3 div 64" 4] byte_parts(9,10) [OF assms(2)] byte_parts(5,6) [OF assms(3)]
    by simp_all
qed

lemma append3bytes_digits:
  assumes "byte b1" "byte b2" "byte b3"
  shows "append3bytes b1 b2 b3 =
    [digit64 (b1 div 4), digit64 (b1 mod 4 * 16 + b2 div 16),
     digit64 (b2 mod 16 * 4 + b3 div 64), digit64 (b3 mod 64)]"
proof -
  note p1 = byte_parts [OF assms(1)] and p2 = byte_parts [OF assms(2)] and p3 = byte_parts [OF assms(3)]
  have c2: "js_or (js_shl (b1 mod 4) 4) (b2 div 16) = b1 mod 4 * 16 + b2 div 16"
    by (rule js_or_4) (use p1(7,8) p2(3,4) in linarith)+
  have c3: "js_or (js_shl (b2 mod 16) 2) (b3 div 64) = b2 mod 16 * 4 + b3 div 64"
    by (rule js_or_2) (use p2(9,10) p3(5,6) in linarith)+
  have shr: "js_shr b1 2 = b1 div 4" "js_shr b2 4 = b2 div 16" "js_shr b3 6 = b3 div 64"
    using assms by (simp_all add: js_shr_nonneg byte_def)
  have small: "b1 div 4 mod 64 = b1 div 4" "(b1 mod 4 * 16 + b2 div 16) mod 64 = b1 mod 4 * 16 + b2 div 16"
    "(b2 mod 16 * 4 + b3 div 64) mod 64 = b2 mod 16 * 4 + b3 div 64"
    by (rule mod_pos_pos_trivial; rule p1 digit_ranges [OF assms])+
  show ?thesis
    unfolding append3bytes_def Let_def js_and_3f js_and_3 js_and_f shr c2 c3 small encode6bit_digit
    by (simp only: mod_mod_trivial append_Nil append_Cons)
qed

lemma join_parts:
  assumes "0 \<le> y" "y < (k::int)"
  shows "(x * k + y) div k = x" "(x * k + y) mod k = y"
  using assms by (simp_all add: div_pos_pos_trivial mod_pos_pos_trivial)

lemma decode64_digits:
  assumes "0 \<le> a" "a < 64" "0 \<le> b" "b < 64" "0 \<le> c" "c < 64" "0 \<le> d" "d < 64"
  shows "decode64 ([digit64 a, digit64 b, digit64 c, digit64 d] @ rest) =
    map_option (\<lambda>bs. (4 * a + b div 16) # (16 * (b mod 16) + c div 4) # (64 * (c mod 4) + d) # bs)
      (decode64 rest)"
  using assms by (cases "decode64 rest") (simp_all add: digit64_round)

lemma decode_append3bytes:
  assumes "byte b1" "byte b2" "byte b3"
  shows "decode64 (append3bytes b1 b2 b3 @ rest) = map_option (\<lambda>bs. b1 # b2 # b3 # bs) (decode64 rest)"
proof -
  note p1 = byte_parts [OF assms(1)] and p2 = byte_parts [OF assms(2)] and p3 = byte_parts [OF assms(3)]
  have e: "4 * (b1 div 4) + (b1 mod 4 * 16 + b2 div 16) div 16 = b1"
    "16 * ((b1 mod 4 * 16 + b2 div 16) mod 16) + (b2 mod 16 * 4 + b3 div 64) div 4 = b2"
    "64 * ((b2 mod 16 * 4 + b3 div 64) mod 4) + b3 mod 64 = b3"
    unfolding join_parts [OF p2(3,4)] join_parts [OF p3(5,6)] by (rule mult_div_mod_eq)+
  show ?thesis
    unfolding append3bytes_digits [OF assms]
    unfolding decode64_digits [OF p1(1,2) digit_ranges [OF assms] p3(11,12)] e ..
qed

section \<open>The whole text\<close>

fun encode_groups :: "int list \<Rightarrow> string" where
  "encode_groups (a # b # c # rest) = append3bytes a b c @ encode_groups rest"
| "encode_groups [a, b] = append3bytes a b 0"
| "encode_groups [a] = append3bytes a 0 0"
| "encode_groups [] = []"

lemma encode64_loop_groups:
  assumes "0 \<le> i"
  shows "encode64_loop data i r = r @ encode_groups (drop (nat i) data)"
  using assms
proof (induction data i r rule: encode64_loop.induct)
  case (1 data i r)
  define xs where "xs = drop (nat i) data"
  have len: "int (length xs) = max 0 (int (length data) - i)" using "1.prems" by (simp add: xs_def)
  have nth: "data ! nat (i + int k) = xs ! k" if "k < length xs" for k
    using "1.prems" that by (simp add: xs_def nat_add_distrib add.commute)
  show ?case
  proof (cases "i < int (length data)")
    case False
    then have "xs = []" using len by simp
    with False show ?thesis by (subst encode64_loop.simps) (simp flip: xs_def)
  next
    case True
    have tail: "drop (nat (i + 3)) data = drop 3 xs"
      using "1.prems" by (simp add: xs_def nat_add_distrib add.commute)
    note IH = "1.IH" [OF True refl, unfolded tail]
    have IH: "encode64_loop data (i + 3) r' = r' @ encode_groups (drop 3 xs)" if
      "r' = (if i + 2 = int (length data) then r @ append3bytes (data ! nat i) (data ! nat (i + 1)) 0
         else if i + 1 = int (length data) then r @ append3bytes (data ! nat i) 0 0
         else r @ append3bytes (data ! nat i) (data ! nat (i + 1)) (data ! nat (i + 2)))" for r'
      using IH "1.prems" that by simp
    consider a where "xs = [a]" | a b where "xs = [a, b]" | a b c rest where "xs = a # b # c # rest"
    proof -
      have "xs \<noteq> []" using True len by auto
      with that show thesis by (metis list.exhaust)
    qed
    then show ?thesis
    proof cases
      case 1
      then have "i + 1 = int (length data)" using len True by simp
      then show ?thesis using 1 nth [of 0] True IH
        by (subst encode64_loop.simps) (simp flip: xs_def)
    next
      case 2
      then have "i + 2 = int (length data)" using len True by simp
      then show ?thesis using 2 nth [of 0] nth [of 1] True IH
        by (subst encode64_loop.simps) (simp flip: xs_def)
    next
      case 3
      then have "i + 2 < int (length data)" using len True by simp
      then show ?thesis using 3 nth [of 0] nth [of 1] nth [of 2] True IH
        by (subst encode64_loop.simps) (simp flip: xs_def)
    qed
  qed
qed

lemma encode64_groups: "encode64 data = encode_groups data"
  by (simp add: encode64_def encode64_loop_groups)

section \<open>Properties\<close>

text \<open>
  C40: the encoding loses nothing: decoding the text gives the bytes back, filled up with zero bytes
  to a multiple of three.
\<close>

theorem encode64_round:
  assumes "\<forall>b \<in> set data. byte b"
  shows "decode64 (encode64 data) = Some (data @ replicate ((3 - length data mod 3) mod 3) 0)"
  unfolding encode64_groups using assms
proof (induction data rule: encode_groups.induct)
  case (1 a b c rest)
  then show ?case by (simp add: decode_append3bytes mod_Suc)
next
  case (2 a b)
  then show ?case using decode_append3bytes [of a b 0 "[]"] by (simp add: byte_def)
next
  case (3 a)
  then show ?case using decode_append3bytes [of a 0 0 "[]"] by (simp add: byte_def numeral_2_eq_2)
qed simp

theorem encode64_round_witness:
  "decode64 (encode64 [120, 255, 3, 0]) = Some ([120, 255, 3, 0] @ replicate ((3 - length [120::int, 255, 3, 0] mod 3) mod 3) 0)"
  by (rule encode64_round) (simp add: byte_def)

text \<open>
  The text has four characters for every three bytes begun, all of them of the alphabet: digits,
  letters, hyphen and underscore, so the fallback \<open>'?'\<close> of \<open>encode6bit\<close> is never reached.
\<close>

theorem encode64_alphabet:
  assumes "\<forall>b \<in> set data. byte b"
  shows "length (encode64 data) = 4 * ((length data + 2) div 3) \<and>
    (\<forall>c \<in> set (encode64 data). decode6bit c \<noteq> None)"
proof -
  have three: "length (append3bytes a b c) = 4 \<and> (\<forall>x \<in> set (append3bytes a b c). decode6bit x \<noteq> None)"
    if "byte a" "byte b" "byte c" for a b c
    unfolding append3bytes_digits [OF that]
    using byte_parts [OF that(1)] byte_parts [OF that(3)] digit_ranges [OF that] by (simp add: digit64_round)
  show ?thesis
    unfolding encode64_groups using assms
  proof (induction data rule: encode_groups.induct)
    case (1 a b c rest)
    moreover have "(length (a # b # c # rest) + 2) div 3 = (length rest + 2) div 3 + 1" by simp
    ultimately show ?case using three [of a b c] by (auto simp del: div_mult_self1)
  next
    case (2 a b)
    then show ?case using three [of a b 0] by (simp add: byte_def)
  next
    case (3 a)
    then show ?case using three [of a 0 0] by (simp add: byte_def)
  qed simp
qed

theorem encode64_alphabet_witness:
  "length (encode64 [120, 255, 3, 0]) = 8 \<and> decode6bit (hd (encode64 [120, 255, 3, 0])) \<noteq> None"
proof -
  have "length (encode64 [120, 255, 3, 0]) = 4 * ((length [120::int, 255, 3, 0] + 2) div 3) \<and>
    (\<forall>c \<in> set (encode64 [120, 255, 3, 0]). decode6bit c \<noteq> None)"
    by (rule encode64_alphabet) (simp add: byte_def)
  then show ?thesis by (cases "encode64 [120, 255, 3, 0]") simp_all
qed

end
