(* ===== verification/Js_Value.thy ===== *)
theory Js_Value
  imports Main
begin

text \<open>
  JavaScript values the presentation code handles: numbers that may be \<open>undefined\<close> or NaN, decimal
  strings, and \<open>parseInt\<close>.  All numbers the modelled code computes are whole.
\<close>

section \<open>Numbers\<close>

datatype jsnum = Undef | NaN | Num int

text \<open>Adding a number; \<open>x > k\<close>; \<open>x || 0\<close>; truth.\<close>

fun num_add :: "jsnum \<Rightarrow> int \<Rightarrow> jsnum" where
  "num_add (Num n) k = Num (n + k)"
| "num_add _ k = NaN"

fun num_gt :: "jsnum \<Rightarrow> int \<Rightarrow> bool" where
  "num_gt (Num n) k \<longleftrightarrow> n > k"
| "num_gt _ k \<longleftrightarrow> False"

fun num_lt :: "jsnum \<Rightarrow> int \<Rightarrow> bool" where
  "num_lt (Num n) k \<longleftrightarrow> n < k"
| "num_lt _ k \<longleftrightarrow> False"

fun num_le :: "jsnum \<Rightarrow> jsnum \<Rightarrow> bool" where
  "num_le (Num a) (Num b) \<longleftrightarrow> a \<le> b"
| "num_le _ _ \<longleftrightarrow> False"

fun num_or0 :: "jsnum \<Rightarrow> int" where
  "num_or0 (Num n) = n"
| "num_or0 _ = 0"

fun num_true :: "jsnum \<Rightarrow> bool" where
  "num_true (Num n) \<longleftrightarrow> n \<noteq> 0"
| "num_true _ \<longleftrightarrow> False"

text \<open>Strict equality: NaN differs from itself.\<close>

fun num_eq :: "jsnum \<Rightarrow> jsnum \<Rightarrow> bool" where
  "num_eq (Num a) (Num b) \<longleftrightarrow> a = b"
| "num_eq Undef Undef \<longleftrightarrow> True"
| "num_eq _ _ \<longleftrightarrow> False"

lemma num_eq_iff: "num_eq a b \<longleftrightarrow> a = b \<and> a \<noteq> NaN"
  by (cases a; cases b) auto

text \<open>The remainder \<open>%\<close>, which takes the sign of the dividend.\<close>

definition js_rem :: "int \<Rightarrow> int \<Rightarrow> int" where
  "js_rem a b = (if a < 0 then - ((- a) mod \<bar>b\<bar>) else a mod \<bar>b\<bar>)"

lemma js_rem_loop:
  assumes "0 < n"
  shows "(if js_rem i n < 0 then n + js_rem i n else js_rem i n) = i mod n"
proof (cases "i < 0")
  case True
  then have "js_rem i n = - ((- i) mod n)" using assms by (simp add: js_rem_def)
  moreover have "i mod n = (if (- i) mod n = 0 then 0 else n - (- i) mod n)"
    using zmod_zminus1_eq_if [of "- i" n] by simp
  moreover have "0 \<le> (- i) mod n" using assms by simp
  ultimately show ?thesis by auto
next
  case False
  moreover have "0 \<le> i mod n" using assms by simp
  ultimately show ?thesis using assms by (simp add: js_rem_def not_less)
qed

section \<open>Decimal strings\<close>

definition is_digit :: "char \<Rightarrow> bool" where
  "is_digit c \<longleftrightarrow> 48 \<le> (of_char c :: nat) \<and> (of_char c :: nat) \<le> 57"

definition digit_val :: "char \<Rightarrow> int" where
  "digit_val c = of_char c - 48"

definition digit_char :: "int \<Rightarrow> char" where
  "digit_char d = char_of (nat d + 48)"

fun parse_digits :: "int \<Rightarrow> string \<Rightarrow> int" where
  "parse_digits acc [] = acc"
| "parse_digits acc (c # cs) = (if is_digit c then parse_digits (10 * acc + digit_val c) cs else acc)"

text \<open>\<open>parseInt(s, 10)\<close>: blanks, a sign, and the longest run of digits; none is NaN.\<close>

definition is_blank :: "char \<Rightarrow> bool" where
  "is_blank c \<longleftrightarrow> (of_char c :: nat) \<in> {9, 10, 11, 12, 13, 32, 160}"

definition parse_unsigned :: "string \<Rightarrow> jsnum" where
  "parse_unsigned s = (case s of c # _ \<Rightarrow> if is_digit c then Num (parse_digits 0 s) else NaN | [] \<Rightarrow> NaN)"

definition js_parse_int :: "string \<Rightarrow> jsnum" where
  "js_parse_int s =
     (case dropWhile is_blank s of
        [] \<Rightarrow> NaN
      | c # cs \<Rightarrow>
          if c = CHR ''-'' then (case parse_unsigned cs of Num n \<Rightarrow> Num (- n) | x \<Rightarrow> x)
          else if c = CHR ''+'' then parse_unsigned cs
          else parse_unsigned (c # cs))"

text \<open>Writing a number.\<close>

function show_nat :: "int \<Rightarrow> string" where
  "show_nat n = (if n < 10 then [digit_char n] else show_nat (n div 10) @ [digit_char (n mod 10)])"
  by pat_completeness auto
termination
  by (relation "measure nat") auto

declare show_nat.simps [simp del]

definition js_show_int :: "int \<Rightarrow> string" where
  "js_show_int n = (if n < 0 then CHR ''-'' # show_nat (- n) else show_nat n)"

lemma of_char_digit:
  assumes "0 \<le> d" "d < 10"
  shows "(of_char (digit_char d) :: nat) = nat d + 48"
proof -
  have "(of_char (char_of (nat d + 48) :: char) :: nat) = (nat d + 48) mod 256" by simp
  also have "\<dots> = nat d + 48" using assms by simp
  finally show ?thesis by (simp add: digit_char_def)
qed

lemma digit_char_props:
  assumes "0 \<le> d" "d < 10"
  shows "is_digit (digit_char d)" "digit_val (digit_char d) = d" "\<not> is_blank (digit_char d)"
    "digit_char d \<noteq> CHR ''-''" "digit_char d \<noteq> CHR ''+''"
proof -
  note o = of_char_digit [OF assms]
  show "is_digit (digit_char d)" using assms by (simp add: is_digit_def o)
  have "(of_char (digit_char d) :: int) = int (of_char (digit_char d))" by (simp add: of_char_def)
  then show "digit_val (digit_char d) = d" using assms by (simp add: digit_val_def o)
  show "\<not> is_blank (digit_char d)" using assms by (auto simp: is_blank_def o)
  have "(of_char (CHR ''-'') :: nat) = 45" "(of_char (CHR ''+'') :: nat) = 43" by simp_all
  with o show "digit_char d \<noteq> CHR ''-''" "digit_char d \<noteq> CHR ''+''" by force+
qed

lemma parse_digits_append:
  "list_all is_digit ds \<Longrightarrow> parse_digits acc (ds @ rest) = parse_digits (parse_digits acc ds) rest"
  by (induction ds arbitrary: acc) simp_all

lemma show_nat_digits:
  assumes "0 \<le> n"
  shows "list_all is_digit (show_nat n) \<and> show_nat n \<noteq> [] \<and> parse_digits 0 (show_nat n) = n"
  using assms
proof (induction n rule: show_nat.induct)
  case (1 n)
  show ?case
  proof (cases "n < 10")
    case True
    with 1 show ?thesis using digit_char_props [of n] by (subst (1 2 3) show_nat.simps) simp
  next
    case False
    with 1 have "list_all is_digit (show_nat (n div 10))" "parse_digits 0 (show_nat (n div 10)) = n div 10"
      by simp_all
    moreover have "show_nat n = show_nat (n div 10) @ [digit_char (n mod 10)]"
      using False by (subst show_nat.simps) simp
    ultimately show ?thesis
      using digit_char_props [of "n mod 10"] 1
      by (simp add: parse_digits_append mult.commute)
  qed
qed

text \<open>Reading back what was written, whatever non-digit follows.\<close>

lemma parse_unsigned_show:
  assumes "0 \<le> n" "rest = [] \<or> \<not> is_digit (hd rest)"
  shows "parse_unsigned (show_nat n @ rest) = Num n"
proof -
  obtain c cs where s: "show_nat n = c # cs" using show_nat_digits [OF assms(1)] by (cases "show_nat n") auto
  with show_nat_digits [OF assms(1)] have "is_digit c" by simp
  moreover have "parse_digits n rest = n" using assms(2) by (cases rest) auto
  ultimately show ?thesis
    using parse_digits_append [of "show_nat n" 0 rest] show_nat_digits [OF assms(1)]
    by (simp add: parse_unsigned_def s)
qed

lemma parse_show_int:
  assumes "rest = [] \<or> \<not> is_digit (hd rest)"
  shows "js_parse_int (js_show_int n @ rest) = Num n"
proof (cases "n < 0")
  case True
  then have "parse_unsigned (show_nat (- n) @ rest) = Num (- n)"
    by (intro parse_unsigned_show assms) simp
  with True show ?thesis
    by (simp add: js_parse_int_def js_show_int_def is_blank_def)
next
  case False
  obtain c cs where s: "show_nat n = c # cs" using show_nat_digits [of n] False by (cases "show_nat n") auto
  then have "is_digit c" using show_nat_digits [of n] False by simp
  then have "\<not> is_blank c" "c \<noteq> CHR ''-''" "c \<noteq> CHR ''+''"
    by (auto simp: is_digit_def is_blank_def)
  then show ?thesis
    using parse_unsigned_show [OF _ assms, of n] False s
    by (simp add: js_parse_int_def js_show_int_def)
qed

lemma parse_show_int' [simp]: "js_parse_int (js_show_int n) = Num n"
  using parse_show_int [of "[]" n] by simp

end
