(* ===== verification/Reveal_State.thy ===== *)
theory Reveal_State
  imports Complex_Main Js_Value
begin

text \<open>
  The state of a \<open>reveal.js\<close> presentation: the part of the document it works on, its configuration,
  its variables, pending timers and what it asks of the browser.

  The document is the browser's, not the program's.  Its shape (tags, parents, children, descendants
  in document order) is a parameter: the fields of \<open>dom\<close> that no modelled operation changes.  What
  the program writes (classes, attributes, the \<open>display\<close> style, text) is state.  The facts about the
  shape that the proofs need are the hypothesis \<open>dom_ok\<close>, stated with the queries below.

  Calls whose only effect is on the browser (media playback, layout, events to listeners, the URL)
  are appended to a log in the order they are made, with their arguments.
\<close>

section \<open>Document\<close>

type_synonym node = nat

record dom =
  d_nodes :: "node list"
  d_tag :: "node \<Rightarrow> string"
  d_parent :: "node \<Rightarrow> node option"
  d_kids :: "node \<Rightarrow> node list"
  d_desc :: "node \<Rightarrow> node list"
  d_class :: "node \<Rightarrow> string list"
  d_attr :: "node \<Rightarrow> string \<Rightarrow> string option"
  d_display :: "node \<Rightarrow> string"
  d_text :: "node \<Rightarrow> string"

text \<open>\<open>classList\<close>, attributes and the display style.\<close>

definition has_class :: "string \<Rightarrow> dom \<Rightarrow> node \<Rightarrow> bool" where
  "has_class c d n \<longleftrightarrow> c \<in> set (d_class d n)"

definition add_class :: "string \<Rightarrow> node \<Rightarrow> dom \<Rightarrow> dom" where
  "add_class c n d =
     (if has_class c d n then d else d\<lparr>d_class := (d_class d)(n := d_class d n @ [c])\<rparr>)"

definition remove_class :: "string \<Rightarrow> node \<Rightarrow> dom \<Rightarrow> dom" where
  "remove_class c n d = d\<lparr>d_class := (d_class d)(n := removeAll c (d_class d n))\<rparr>"

definition set_attr :: "string \<Rightarrow> string \<Rightarrow> node \<Rightarrow> dom \<Rightarrow> dom" where
  "set_attr a v n d = d\<lparr>d_attr := (d_attr d)(n := (d_attr d n)(a := Some v))\<rparr>"

definition remove_attr :: "string \<Rightarrow> node \<Rightarrow> dom \<Rightarrow> dom" where
  "remove_attr a n d = d\<lparr>d_attr := (d_attr d)(n := (d_attr d n)(a := None))\<rparr>"

definition has_attr :: "string \<Rightarrow> dom \<Rightarrow> node \<Rightarrow> bool" where
  "has_attr a d n \<longleftrightarrow> d_attr d n a \<noteq> None"

definition set_display :: "string \<Rightarrow> node \<Rightarrow> dom \<Rightarrow> dom" where
  "set_display v n d = d\<lparr>d_display := (d_display d)(n := v)\<rparr>"

definition set_text :: "string \<Rightarrow> node \<Rightarrow> dom \<Rightarrow> dom" where
  "set_text v n d = d\<lparr>d_text := (d_text d)(n := v)\<rparr>"

text \<open>What stays: the shape.\<close>

definition same_shape :: "dom \<Rightarrow> dom \<Rightarrow> bool" where
  "same_shape d d' \<longleftrightarrow> d_nodes d = d_nodes d' \<and> d_tag d = d_tag d' \<and> d_parent d = d_parent d' \<and>
     d_kids d = d_kids d' \<and> d_desc d = d_desc d'"

section \<open>Queries\<close>

definition is_section :: "dom \<Rightarrow> node \<Rightarrow> bool" where
  "is_section d n \<longleftrightarrow> d_tag d n = ''section''"

definition parent_has_class :: "string \<Rightarrow> dom \<Rightarrow> node \<Rightarrow> bool" where
  "parent_has_class c d n = (case d_parent d n of None \<Rightarrow> False | Some p \<Rightarrow> has_class c d p)"

definition parent_is_section :: "dom \<Rightarrow> node \<Rightarrow> bool" where
  "parent_is_section d n = (case d_parent d n of None \<Rightarrow> False | Some p \<Rightarrow> is_section d p)"

text \<open>\<open>.slides>section\<close>\<close>

definition horizontal_sel :: "dom \<Rightarrow> node \<Rightarrow> bool" where
  "horizontal_sel d n \<longleftrightarrow> is_section d n \<and> parent_has_class ''slides'' d n"

text \<open>\<open>.slides>section.present>section\<close>\<close>

definition vertical_sel :: "dom \<Rightarrow> node \<Rightarrow> bool" where
  "vertical_sel d n \<longleftrightarrow> is_section d n \<and>
     (case d_parent d n of None \<Rightarrow> False
      | Some p \<Rightarrow> horizontal_sel d p \<and> has_class ''present'' d p)"

text \<open>\<open>.slides section\<close>\<close>

definition slides_sel :: "dom \<Rightarrow> node \<Rightarrow> bool" where
  "slides_sel d n \<longleftrightarrow> is_section d n \<and>
     list_ex (\<lambda>a. has_class ''slides'' d a \<and> n \<in> set (d_desc d a)) (d_nodes d)"

text \<open>\<open>element.querySelectorAll(sel)\<close>: the matching descendants in document order.\<close>

definition query_all :: "(dom \<Rightarrow> node \<Rightarrow> bool) \<Rightarrow> dom \<Rightarrow> node \<Rightarrow> node list" where
  "query_all sel d n = filter (sel d) (d_desc d n)"

definition query :: "(dom \<Rightarrow> node \<Rightarrow> bool) \<Rightarrow> dom \<Rightarrow> node \<Rightarrow> node option" where
  "query sel d n = List.find (sel d) (d_desc d n)"

definition fragment_sel :: "dom \<Rightarrow> node \<Rightarrow> bool" where
  "fragment_sel = has_class ''fragment''"

definition fragment_visible_sel :: "dom \<Rightarrow> node \<Rightarrow> bool" where
  "fragment_visible_sel d n \<longleftrightarrow> has_class ''fragment'' d n \<and> has_class ''visible'' d n"

definition fragment_hidden_sel :: "dom \<Rightarrow> node \<Rightarrow> bool" where
  "fragment_hidden_sel d n \<longleftrightarrow> has_class ''fragment'' d n \<and> \<not> has_class ''visible'' d n"

text \<open>
  \<open>closestParent\<close>: the nearest node above that matches.  A chain of parents has no more nodes than the
  document, which bounds the search.
\<close>

fun closest_from :: "(dom \<Rightarrow> node \<Rightarrow> bool) \<Rightarrow> dom \<Rightarrow> nat \<Rightarrow> node option \<Rightarrow> node option" where
  "closest_from sel d 0 p = None"
| "closest_from sel d (Suc k) p =
     (case p of None \<Rightarrow> None
      | Some n \<Rightarrow> if sel d n then Some n else closest_from sel d k (d_parent d n))"

definition closestParent :: "(dom \<Rightarrow> node \<Rightarrow> bool) \<Rightarrow> dom \<Rightarrow> node \<Rightarrow> node option" where
  "closestParent sel d n = closest_from sel d (length (d_nodes d)) (d_parent d n)"

fun next_in :: "'a \<Rightarrow> 'a list \<Rightarrow> 'a option" where
  "next_in n (a # b # rest) = (if a = n then Some b else next_in n (b # rest))"
| "next_in n _ = None"

definition nextElementSibling :: "dom \<Rightarrow> node \<Rightarrow> node option" where
  "nextElementSibling d n = (case d_parent d n of None \<Rightarrow> None | Some p \<Rightarrow> next_in n (d_kids d p))"

section \<open>Configuration, timers, log\<close>

text \<open>\<open>autoSlide\<close> may be \<open>false\<close> (\<open>None\<close>); \<open>autoPlayMedia\<close> may be null (\<open>None\<close>).\<close>

datatype slide_number = Number_off | Number_on | Number_format string

record config =
  c_controlsTutorial :: bool
  c_progress :: bool
  c_slideNumber :: slide_number
  c_history :: bool
  c_overview :: bool
  c_loop :: bool
  c_rtl :: bool
  c_fragments :: bool
  c_embedded :: bool
  c_pause :: bool
  c_showNotes :: bool
  c_autoPlayMedia :: "bool option"
  c_autoSlide :: "int option"
  c_autoSlideStoppable :: bool
  c_viewDistance :: int
  c_display :: string

text \<open>
  The callbacks that \<open>setTimeout\<close> is given.  A pending timer has the number \<open>setTimeout\<close> returned.
\<close>

datatype timer_call =
  Timer_auto_slide | Timer_write_url | Timer_reset_stacks | Timer_overview_animated
| Timer_overview_deactivated | Timer_background_transition

record timer =
  t_id :: int
  t_call :: timer_call
  t_delay :: int

text \<open>
  What \<open>loadSlide\<close> puts into a background: a video with its properties and sources, or an iframe with
  the attribute (\<open>src\<close> or \<open>data-src\<close>) that holds its address.
\<close>

record video =
  v_loop :: bool
  v_muted :: bool
  v_inline :: bool
  v_sources :: "string list"

datatype effect =
  Dispatch string
| Dispatch_slide string jsnum jsnum "node option" "node option"
| Dispatch_fragments string "node list"
| Do_layout
| Do_parallax
| Media_load node
| Media_rewind node
| Media_play node
| Media_pause node
| Media_controls node
| Restart_image node
| Post_message node string
| Append_video node video
| Append_iframe node string string
| Create_backgrounds
| Set_hash string
| Set_width node "rat option"
| Set_html node string
| Transform node "(int \<times> int) option"
| Transform_slides "(rat \<times> jsnum \<times> jsnum) option"
| Append_child node node
| Add_click_listener node
| Remove_click_listener node
| Set_playing bool
| Call_requestFullscreen
| Prevent_default
| Show_help
| Close_overlay
| Blur_focus

section \<open>The presentation\<close>

record reveal =
  r_dom :: dom
  r_config :: config
  r_wrapper :: node
  r_slides :: node
  r_background :: node
  r_root :: node
  r_progressbar :: "node option"
  r_slideNumber :: "node option"
  r_speakerNotes :: "node option"
  r_statusDiv :: node
  r_controlsLeft :: "node list"
  r_controlsRight :: "node list"
  r_controlsUp :: "node list"
  r_controlsDown :: "node list"
  r_controlsPrev :: "node list"
  r_controlsNext :: "node list"
  r_controlsRightArrow :: node
  r_controlsDownArrow :: node
  r_overlay :: bool
  r_autoSlidePlayer :: bool
  r_slideBackground :: "node \<Rightarrow> node option"
  r_printing :: bool
  r_speakerView :: bool
  r_readyState :: "node \<Rightarrow> int"
  r_contentWindow :: "node \<Rightarrow> bool"
  r_bgImage :: "node \<Rightarrow> string"
  r_listening :: "(node \<times> string) list"
  r_mobile :: bool
  r_transforms3d :: bool
  r_overviewTransitions :: bool
  r_slideWidth :: int
  r_slideHeight :: int
  r_innerWidth :: int
  r_innerHeight :: int
  r_hash :: string
  r_media_ms :: "node \<Rightarrow> int"
  r_status_text :: "node \<Rightarrow> string"
  indexh :: jsnum
  indexv :: jsnum
  previousSlide :: "node option"
  currentSlide :: "node option"
  previousBackground :: "node option"
  hasNavigatedRight :: bool
  hasNavigatedDown :: bool
  slide_state :: "string list"
  overview :: bool
  overviewSlideWidth :: int
  overviewSlideHeight :: int
  autoSlide :: jsnum
  autoSlideTimeout :: int
  autoSlidePaused :: bool
  writeURLTimeout :: int
  eventsAreBound :: bool
  lastMouseWheelStep :: int
  autoSlideStartTime :: int
  r_now :: int
  touch_startX :: int
  touch_startY :: int
  touch_startSpan :: int
  touch_startCount :: int
  touch_captured :: bool
  r_timers :: "timer list"
  r_next_timer :: int
  r_log :: "effect list"

definition log_effect :: "effect \<Rightarrow> reveal \<Rightarrow> reveal" where
  "log_effect e s = s\<lparr>r_log := r_log s @ [e]\<rparr>"

definition upd_dom :: "(dom \<Rightarrow> dom) \<Rightarrow> reveal \<Rightarrow> reveal" where
  "upd_dom f s = s\<lparr>r_dom := f (r_dom s)\<rparr>"

text \<open>\<open>setTimeout\<close> hands out fresh numbers; \<open>clearTimeout\<close> drops a pending timer, or nothing.\<close>

definition set_timeout :: "timer_call \<Rightarrow> int \<Rightarrow> reveal \<Rightarrow> int \<times> reveal" where
  "set_timeout call delay s =
     (r_next_timer s,
      s\<lparr>r_timers := r_timers s @ [\<lparr>t_id = r_next_timer s, t_call = call, t_delay = delay\<rparr>],
        r_next_timer := r_next_timer s + 1\<rparr>)"

definition clear_timeout :: "int \<Rightarrow> reveal \<Rightarrow> reveal" where
  "clear_timeout i s = s\<lparr>r_timers := filter (\<lambda>t. t_id t \<noteq> i) (r_timers s)\<rparr>"

definition horizontalSlides :: "reveal \<Rightarrow> node list" where
  "horizontalSlides s = query_all horizontal_sel (r_dom s) (r_wrapper s)"

definition verticalSlides :: "reveal \<Rightarrow> node list" where
  "verticalSlides s = query_all vertical_sel (r_dom s) (r_wrapper s)"

definition sections_in :: "reveal \<Rightarrow> node \<Rightarrow> node list" where
  "sections_in s n = query_all is_section (r_dom s) n"

text \<open>\<open>list[i]\<close>: \<open>undefined\<close> outside the list, and for an index that is no number.\<close>

definition js_nth :: "'a list \<Rightarrow> jsnum \<Rightarrow> 'a option" where
  "js_nth xs i = (case i of Num k \<Rightarrow> if 0 \<le> k \<and> k < int (length xs) then Some (xs ! nat k) else None
     | _ \<Rightarrow> None)"

definition isVerticalSlide :: "node option \<Rightarrow> reveal \<Rightarrow> bool" where
  "isVerticalSlide sl s =
     (case (case sl of Some n \<Rightarrow> Some n | None \<Rightarrow> currentSlide s) of
        None \<Rightarrow> False
      | Some n \<Rightarrow> parent_is_section (r_dom s) n)"

definition isOverview :: "reveal \<Rightarrow> bool" where
  "isOverview s = overview s"

definition isPaused :: "reveal \<Rightarrow> bool" where
  "isPaused s = has_class ''paused'' (r_dom s) (r_wrapper s)"

definition isPrintingPDF :: "reveal \<Rightarrow> bool" where
  "isPrintingPDF s = r_printing s"

definition isSpeakerNotes :: "reveal \<Rightarrow> bool" where
  "isSpeakerNotes s = r_speakerView s"

definition isAutoSliding :: "reveal \<Rightarrow> bool" where
  "isAutoSliding s \<longleftrightarrow> num_true (autoSlide s) \<and> \<not> autoSlidePaused s"

section \<open>Facts about the document\<close>

lemma dom_upd_shape [simp]:
  "same_shape d d" "same_shape (add_class c n d) d" "same_shape (remove_class c n d) d"
  "same_shape (set_attr a v n d) d" "same_shape (remove_attr a n d) d"
  "same_shape (set_display w n d) d" "same_shape (set_text w n d) d"
  by (simp_all add: same_shape_def add_class_def remove_class_def set_attr_def remove_attr_def
      set_display_def set_text_def)

lemma same_shape_sym: "same_shape d d' \<Longrightarrow> same_shape d' d"
  by (simp add: same_shape_def)

lemma same_shape_trans: "same_shape a b \<Longrightarrow> same_shape b c \<Longrightarrow> same_shape a c"
  by (simp add: same_shape_def)

lemma has_class_add [simp]:
  "has_class c (add_class c' n d) m \<longleftrightarrow> (m = n \<and> c = c') \<or> has_class c d m"
  by (auto simp: has_class_def add_class_def)

lemma has_class_remove [simp]:
  "has_class c (remove_class c' n d) m \<longleftrightarrow> has_class c d m \<and> \<not> (m = n \<and> c = c')"
  by (auto simp: has_class_def remove_class_def)

lemma has_class_other [simp]:
  "has_class c (set_attr a v n d) m = has_class c d m"
  "has_class c (remove_attr a n d) m = has_class c d m"
  "has_class c (set_display w n d) m = has_class c d m"
  "has_class c (set_text w n d) m = has_class c d m"
  by (simp_all add: has_class_def set_attr_def remove_attr_def set_display_def set_text_def)

lemma attr_upd [simp]:
  "d_attr (add_class c n d) = d_attr d" "d_attr (remove_class c n d) = d_attr d"
  "d_attr (set_display w n d) = d_attr d" "d_attr (set_text w n d) = d_attr d"
  "d_attr (set_attr a v n d) m b = (if m = n \<and> b = a then Some v else d_attr d m b)"
  "d_attr (remove_attr a n d) m b = (if m = n \<and> b = a then None else d_attr d m b)"
  by (simp_all add: add_class_def remove_class_def set_attr_def remove_attr_def
      set_display_def set_text_def)

lemma is_section_shape: "same_shape d d' \<Longrightarrow> is_section d n = is_section d' n"
  by (simp add: same_shape_def is_section_def)

end
