(* ===== verification/Reveal_Media.thy ===== *)
theory Reveal_Media
  imports Reveal_State
begin

text \<open>
  Media inside slides and backgrounds: starting and stopping what is embedded in an element, the
  parameters video iframes need, and the lazy loading of media (the attribute \<open>data-src\<close> becomes
  \<open>src\<close>, and back).  Calls into players (play, pause, messages to frames) are effects in the log;
  which frames have a window and which media are loaded is the browser's.
\<close>

section \<open>Selectors\<close>

definition contains :: "string \<Rightarrow> string \<Rightarrow> bool" where
  "contains pat x \<longleftrightarrow> list_ex (\<lambda>i. take (length pat) (drop i x) = pat) [0..<Suc (length x)]"

definition ends_with :: "string \<Rightarrow> string \<Rightarrow> bool" where
  "ends_with pat x \<longleftrightarrow> length pat \<le> length x \<and> drop (length x - length pat) x = pat"

definition tag_sel :: "string list \<Rightarrow> dom \<Rightarrow> node \<Rightarrow> bool" where
  "tag_sel tags d n \<longleftrightarrow> d_tag d n \<in> set tags"

text \<open>\<open>video, audio\<close>; a tag with an attribute, or with a substring of it.\<close>

definition media_sel :: "dom \<Rightarrow> node \<Rightarrow> bool" where
  "media_sel = tag_sel [''video'', ''audio'']"

definition tag_attr_sel :: "string list \<Rightarrow> string \<Rightarrow> dom \<Rightarrow> node \<Rightarrow> bool" where
  "tag_attr_sel tags a d n \<longleftrightarrow> tag_sel tags d n \<and> has_attr a d n"

definition iframe_from_sel :: "string \<Rightarrow> string \<Rightarrow> dom \<Rightarrow> node \<Rightarrow> bool" where
  "iframe_from_sel a pat d n \<longleftrightarrow> d_tag d n = ''iframe'' \<and>
     (case d_attr d n a of None \<Rightarrow> False | Some v \<Rightarrow> contains pat v)"

definition gif_sel :: "dom \<Rightarrow> node \<Rightarrow> bool" where
  "gif_sel d n \<longleftrightarrow> d_tag d n = ''img'' \<and>
     (case d_attr d n ''src'' of None \<Rightarrow> False | Some v \<Rightarrow> ends_with ''.gif'' v)"

text \<open>\<open>video[data-lazy-loaded] source[src], audio source[src]\<close>\<close>

definition lazy_source_sel :: "dom \<Rightarrow> node \<Rightarrow> bool" where
  "lazy_source_sel d n \<longleftrightarrow> tag_attr_sel [''source''] ''src'' d n \<and>
     (closestParent (tag_attr_sel [''video''] ''data-lazy-loaded'') d n \<noteq> None \<or>
      closestParent (tag_sel [''audio'']) d n \<noteq> None)"

section \<open>Listeners\<close>

text \<open>Adding a listener that is there changes nothing; the two listeners are told apart by their event.\<close>

definition listen :: "string \<Rightarrow> node \<Rightarrow> reveal \<Rightarrow> reveal" where
  "listen ev n s = (if (n, ev) \<in> set (r_listening s) then s else s\<lparr>r_listening := r_listening s @ [(n, ev)]\<rparr>)"

definition unlisten :: "string \<Rightarrow> node \<Rightarrow> reveal \<Rightarrow> reveal" where
  "unlisten ev n s = s\<lparr>r_listening := removeAll (n, ev) (r_listening s)\<rparr>"

section \<open>Starting and stopping\<close>

definition attached_and_present :: "dom \<Rightarrow> node \<Rightarrow> bool" where
  "attached_and_present d n \<longleftrightarrow>
     closestParent (tag_sel [''html'']) d n \<noteq> None \<and> closestParent (has_class ''present'') d n \<noteq> None"

definition wants_autoplay :: "node \<Rightarrow> reveal \<Rightarrow> bool" where
  "wants_autoplay n s =
     (case c_autoPlayMedia (r_config s) of
        Some b \<Rightarrow> b
      | None \<Rightarrow> has_attr ''data-autoplay'' (r_dom s) n \<or>
                closestParent (has_class ''slide-background'') (r_dom s) n \<noteq> None)"

definition in_hidden_fragment :: "dom \<Rightarrow> node \<Rightarrow> bool" where
  "in_hidden_fragment d n \<longleftrightarrow>
     closestParent fragment_sel d n \<noteq> None \<and> closestParent fragment_visible_sel d n = None"

definition startEmbeddedMedia :: "node \<Rightarrow> reveal \<Rightarrow> reveal" where
  "startEmbeddedMedia n s =
     unlisten ''loadeddata'' n
       (if attached_and_present (r_dom s) n
        then log_effect (Media_play n) (log_effect (Media_rewind n) s) else s)"

definition frame_message :: "node \<Rightarrow> reveal \<Rightarrow> string" where
  "frame_message n s =
     (let src = (case d_attr (r_dom s) n ''src'' of None \<Rightarrow> ''null'' | Some v \<Rightarrow> v);
          autoplay = wants_autoplay n s
      in if contains ''youtube.com/embed/'' src \<and> autoplay
         then ''{\"event\":\"command\",\"func\":\"playVideo\",\"args\":\"\"}''
         else if contains ''player.vimeo.com/'' src \<and> autoplay then ''{\"method\":\"play\"}''
         else ''slide:start'')"

definition startEmbeddedIframe :: "node \<Rightarrow> reveal \<Rightarrow> reveal" where
  "startEmbeddedIframe n s =
     (if r_contentWindow s n \<and> attached_and_present (r_dom s) n
      then log_effect (Post_message n (frame_message n s)) s else s)"

definition start_media :: "node \<Rightarrow> reveal \<Rightarrow> reveal" where
  "start_media n s =
     (if in_hidden_fragment (r_dom s) n then s
      else if wants_autoplay n s then
        if r_readyState s n > 1 then startEmbeddedMedia n s
        else listen ''loadeddata'' n (unlisten ''loadeddata'' n s)
      else s)"

definition start_iframe :: "node \<Rightarrow> reveal \<Rightarrow> reveal" where
  "start_iframe n s = (if in_hidden_fragment (r_dom s) n then s else startEmbeddedIframe n s)"

definition start_lazy_iframe :: "node \<Rightarrow> reveal \<Rightarrow> reveal" where
  "start_lazy_iframe n s =
     (if in_hidden_fragment (r_dom s) n then s
      else
        case d_attr (r_dom s) n ''data-src'' of
          None \<Rightarrow> s
        | Some v \<Rightarrow>
            if d_attr (r_dom s) n ''src'' \<noteq> Some v then
              upd_dom (set_attr ''src'' v n) (listen ''load'' n (unlisten ''load'' n s))
            else s)"

definition restart_gif :: "node \<Rightarrow> reveal \<Rightarrow> reveal" where
  "restart_gif n s = log_effect (Restart_image n) s"

definition startEmbeddedContent :: "node \<Rightarrow> reveal \<Rightarrow> reveal" where
  "startEmbeddedContent el s =
     (if isSpeakerNotes s then s
      else
        let s = fold restart_gif (query_all gif_sel (r_dom s) el) s;
            s = fold start_media (query_all media_sel (r_dom s) el) s;
            s = fold start_iframe (query_all (tag_attr_sel [''iframe''] ''src'') (r_dom s) el) s
        in fold start_lazy_iframe (query_all (tag_attr_sel [''iframe''] ''data-src'') (r_dom s) el) s)"

definition stop_media :: "node \<Rightarrow> reveal \<Rightarrow> reveal" where
  "stop_media n s =
     (if \<not> has_attr ''data-ignore'' (r_dom s) n
      then log_effect (Media_pause n) (upd_dom (set_attr ''data-paused-by-reveal'' [] n) s) else s)"

definition stop_iframe :: "node \<Rightarrow> reveal \<Rightarrow> reveal" where
  "stop_iframe n s =
     unlisten ''load'' n (if r_contentWindow s n then log_effect (Post_message n ''slide:stop'') s else s)"

definition post_unless_ignored :: "string \<Rightarrow> node \<Rightarrow> reveal \<Rightarrow> reveal" where
  "post_unless_ignored msg n s =
     (if \<not> has_attr ''data-ignore'' (r_dom s) n \<and> r_contentWindow s n
      then log_effect (Post_message n msg) s else s)"

definition unload_iframe :: "node \<Rightarrow> reveal \<Rightarrow> reveal" where
  "unload_iframe n s = upd_dom (remove_attr ''src'' n) (upd_dom (set_attr ''src'' ''about:blank'' n) s)"

definition stopEmbeddedContent :: "bool \<Rightarrow> node option \<Rightarrow> reveal \<Rightarrow> reveal" where
  "stopEmbeddedContent unloadIframes element s =
     (case element of
        None \<Rightarrow> s
      | Some el \<Rightarrow>
          if d_parent (r_dom s) el = None then s
          else
            let s = fold stop_media (query_all media_sel (r_dom s) el) s;
                s = fold stop_iframe (query_all (tag_sel [''iframe'']) (r_dom s) el) s;
                s = fold (post_unless_ignored ''{\"event\":\"command\",\"func\":\"pauseVideo\",\"args\":\"\"}'')
                      (query_all (iframe_from_sel ''src'' ''youtube.com/embed/'') (r_dom s) el) s;
                s = fold (post_unless_ignored ''{\"method\":\"pause\"}'')
                      (query_all (iframe_from_sel ''src'' ''player.vimeo.com/'') (r_dom s) el) s
            in if unloadIframes
               then fold unload_iframe (query_all (tag_attr_sel [''iframe''] ''data-src'') (r_dom s) el) s
               else s)"

section \<open>Parameters of video frames\<close>

definition append_param :: "string \<Rightarrow> string \<Rightarrow> node \<Rightarrow> dom \<Rightarrow> dom" where
  "append_param attribute param n d =
     (case d_attr d n attribute of
        Some (c # cs) \<Rightarrow>
          if \<not> contains param (c # cs)
          then set_attr attribute
                 ((c # cs) @ (if CHR ''?'' \<notin> set (c # cs) then ''?'' else ''&'') @ param) n d
          else d
      | _ \<Rightarrow> d)"

definition append_params :: "string \<Rightarrow> string \<Rightarrow> string \<Rightarrow> reveal \<Rightarrow> reveal" where
  "append_params attribute url param s =
     upd_dom (fold (append_param attribute param)
       (query_all (iframe_from_sel attribute url) (r_dom s) (r_slides s))) s"

definition formatEmbeddedContent :: "reveal \<Rightarrow> reveal" where
  "formatEmbeddedContent s =
     (let s = append_params ''src'' ''youtube.com/embed/'' ''enablejsapi=1'' s;
          s = append_params ''data-src'' ''youtube.com/embed/'' ''enablejsapi=1'' s;
          s = append_params ''src'' ''player.vimeo.com/'' ''api=1'' s;
          s = append_params ''data-src'' ''player.vimeo.com/'' ''api=1'' s
      in if r_mobile s
         then fold (\<lambda>n. log_effect (Media_controls n)) (query_all media_sel (r_dom s) (r_slides s)) s
         else s)"

section \<open>Lazy loading\<close>

definition move_attr :: "string \<Rightarrow> string \<Rightarrow> node \<Rightarrow> dom \<Rightarrow> dom" where
  "move_attr a b n d =
     (case d_attr d n a of None \<Rightarrow> d | Some v \<Rightarrow> remove_attr a n (set_attr b v n d))"

text \<open>An element that has \<open>data-src\<close> gets it as its \<open>src\<close>, and a mark.\<close>

definition load_element :: "node \<Rightarrow> dom \<Rightarrow> dom" where
  "load_element n d = set_attr ''data-lazy-loaded'' [] n (move_attr ''data-src'' ''src'' n d)"

definition unload_element :: "node \<Rightarrow> dom \<Rightarrow> dom" where
  "unload_element n d = move_attr ''src'' ''data-src'' n d"

definition load_sources :: "node \<Rightarrow> reveal \<Rightarrow> reveal" where
  "load_sources media s =
     (let sources = query_all (tag_attr_sel [''source''] ''data-src'') (r_dom s) media;
          s = upd_dom (fold load_element sources) s
      in if sources \<noteq> [] then log_effect (Media_load media) s else s)"

definition load_media :: "node \<Rightarrow> reveal \<Rightarrow> reveal" where
  "load_media sl s =
     (let s = upd_dom (fold load_element
                (query_all (tag_attr_sel [''img'', ''video'', ''audio''] ''data-src'') (r_dom s) sl)) s
      in fold load_sources (query_all media_sel (r_dom s) sl) s)"

definition lazy_media_sel :: "dom \<Rightarrow> node \<Rightarrow> bool" where
  "lazy_media_sel d n \<longleftrightarrow> media_sel d n \<and> has_attr ''data-lazy-loaded'' d n \<and> has_attr ''src'' d n"

definition unload_media :: "node \<Rightarrow> reveal \<Rightarrow> reveal" where
  "unload_media sl s =
     (let s = upd_dom (fold unload_element (query_all lazy_media_sel (r_dom s) sl)) s
      in upd_dom (fold unload_element (query_all lazy_source_sel (r_dom s) sl)) s)"

text \<open>Filling a background, once.\<close>

fun split_on :: "char \<Rightarrow> string \<Rightarrow> string list" where
  "split_on c [] = [[]]"
| "split_on c (x # xs) =
     (if x = c then [] # split_on c xs
      else (case split_on c xs of w # ws \<Rightarrow> (x # w) # ws | [] \<Rightarrow> [[x]]))"

definition lower_char :: "char \<Rightarrow> char" where
  "lower_char c = (let n = (of_char c :: nat) in if 65 \<le> n \<and> n \<le> 90 then char_of (n + 32) else c)"

text \<open>\<open>/autoplay=(1|true|yes)/gi\<close>\<close>

definition autoplay_url :: "string \<Rightarrow> bool" where
  "autoplay_url x \<longleftrightarrow> list_ex (\<lambda>pat. contains pat (map lower_char x))
     [''autoplay=1'', ''autoplay=true'', ''autoplay=yes'']"

definition background_video :: "dom \<Rightarrow> node \<Rightarrow> string \<Rightarrow> bool \<Rightarrow> video" where
  "background_video d sl sources mobile =
     \<lparr>v_loop = has_attr ''data-background-video-loop'' d sl,
      v_muted = has_attr ''data-background-video-muted'' d sl \<or> mobile,
      v_inline = mobile, v_sources = split_on (CHR '','') sources\<rparr>"

definition fill_background :: "bool \<Rightarrow> node \<Rightarrow> node \<Rightarrow> reveal \<Rightarrow> reveal" where
  "fill_background excludeIframes sl bg s =
     (let given = (\<lambda>a. case d_attr (r_dom s) sl a of Some (c # cs) \<Rightarrow> Some (c # cs) | _ \<Rightarrow> None) in
      case given ''data-background-image'' of
        Some url \<Rightarrow> s\<lparr>r_bgImage := (r_bgImage s)(bg := ''url('' @ url @ '')'')\<rparr>
      | None \<Rightarrow>
          if given ''data-background-video'' \<noteq> None \<and> \<not> isSpeakerNotes s then
            log_effect (Append_video bg (background_video (r_dom s) sl
              (the (given ''data-background-video'')) (r_mobile s))) s
          else case given ''data-background-iframe'' of
            Some url \<Rightarrow>
              if \<not> excludeIframes then
                log_effect (Append_iframe bg (if autoplay_url url then ''data-src'' else ''src'') url) s
              else s
          | None \<Rightarrow> s)"

end
