(* ===== verification/Reveal_Fragments.thy ===== *)
theory Reveal_Fragments
  imports Reveal_Media
begin

text \<open>
  Where the presentation is (indices, counts, progress), what can be reached from there (routes,
  fragments), the controls that show it, and the fragments of a slide: \<open>sortFragments\<close> and
  \<open>navigateFragment\<close>.
\<close>

section \<open>Positions\<close>

definition find_index :: "'a \<Rightarrow> 'a list \<Rightarrow> int" where
  "find_index x xs = (if x \<in> set xs then int (length (takeWhile (\<lambda>y. y \<noteq> x) xs)) else -1)"

text \<open>\<open>getIndices( slide )\<close> for a given slide, and \<open>getIndices()\<close> for the current one.\<close>

definition getIndices_of :: "node \<Rightarrow> reveal \<Rightarrow> jsnum \<times> jsnum" where
  "getIndices_of sl s =
     (let isVertical = parent_is_section (r_dom s) sl;
          slideh = (if isVertical then the (d_parent (r_dom s) sl) else sl);
          h = max (find_index slideh (horizontalSlides s)) 0
      in (Num h, if isVertical then Num (max (find_index sl (sections_in s slideh)) 0) else Undef))"

definition getIndices :: "reveal \<Rightarrow> jsnum \<times> jsnum \<times> jsnum" where
  "getIndices s =
     (indexh s, indexv s,
      (case currentSlide s of
         None \<Rightarrow> Undef
       | Some cur \<Rightarrow>
           if query_all fragment_sel (r_dom s) cur \<noteq> [] then
             (case query (has_class ''current-fragment'') (r_dom s) cur of
                Some fr \<Rightarrow>
                  (case d_attr (r_dom s) fr ''data-fragment-index'' of
                     Some a \<Rightarrow> js_parse_int a
                   | None \<Rightarrow> Num (int (length (query_all fragment_visible_sel (r_dom s) cur)) - 1))
              | None \<Rightarrow> Num (int (length (query_all fragment_visible_sel (r_dom s) cur)) - 1))
           else Undef))"

definition getSlides :: "reveal \<Rightarrow> node list" where
  "getSlides s = query_all (\<lambda>d n. slides_sel d n \<and> \<not> has_class ''stack'' d n) (r_dom s) (r_wrapper s)"

definition getTotalSlides :: "reveal \<Rightarrow> int" where
  "getTotalSlides s = int (length (getSlides s))"

definition getSlide :: "jsnum \<Rightarrow> jsnum \<Rightarrow> reveal \<Rightarrow> node option" where
  "getSlide x y s =
     (case js_nth (horizontalSlides s) x of
        None \<Rightarrow> None
      | Some hs \<Rightarrow>
          let vs = sections_in s hs in
          if vs \<noteq> [] \<and> y \<noteq> Undef then js_nth vs y else Some hs)"

definition getSlideBackground :: "jsnum \<Rightarrow> jsnum \<Rightarrow> reveal \<Rightarrow> node option" where
  "getSlideBackground x y s =
     (case getSlide x y s of None \<Rightarrow> None | Some sl \<Rightarrow> r_slideBackground s sl)"

definition notes_sel :: "dom \<Rightarrow> node \<Rightarrow> bool" where
  "notes_sel d n \<longleftrightarrow> d_tag d n = ''aside'' \<and> has_class ''notes'' d n"

definition getSlideNotes :: "node \<Rightarrow> reveal \<Rightarrow> string option" where
  "getSlideNotes sl s =
     (if has_attr ''data-notes'' (r_dom s) sl then d_attr (r_dom s) sl ''data-notes''
      else map_option (d_text (r_dom s)) (query notes_sel (r_dom s) sl))"

definition isFirstSlide :: "reveal \<Rightarrow> bool" where
  "isFirstSlide s \<longleftrightarrow> indexh s = Num 0 \<and> indexv s = Num 0"

definition isLastSlide :: "reveal \<Rightarrow> bool" where
  "isLastSlide s =
     (case currentSlide s of
        None \<Rightarrow> False
      | Some cur \<Rightarrow>
          if nextElementSibling (r_dom s) cur \<noteq> None then False
          else if isVerticalSlide (Some cur) s \<and>
            (case d_parent (r_dom s) cur of None \<Rightarrow> False
             | Some p \<Rightarrow> nextElementSibling (r_dom s) p \<noteq> None) then False
          else True)"

text \<open>
  \<open>getSlidePastCount\<close>: the loops as recursion over the slides; the flag says that the present slide
  was met, where the source leaves \<open>mainLoop\<close>.
\<close>

fun past_vertical :: "dom \<Rightarrow> node list \<Rightarrow> int \<Rightarrow> bool \<times> int" where
  "past_vertical d [] pastCount = (False, pastCount)"
| "past_vertical d (v # vs) pastCount =
     (if has_class ''present'' d v then (True, pastCount) else past_vertical d vs (pastCount + 1))"

fun past_horizontal :: "dom \<Rightarrow> node list \<Rightarrow> int \<Rightarrow> int" where
  "past_horizontal d [] pastCount = pastCount"
| "past_horizontal d (h # hs) pastCount =
     (let (stop, pastCount) = past_vertical d (query_all is_section d h) pastCount in
      if stop then pastCount
      else if has_class ''present'' d h then pastCount
      else past_horizontal d hs (if has_class ''stack'' d h then pastCount else pastCount + 1))"

definition getSlidePastCount :: "reveal \<Rightarrow> int" where
  "getSlidePastCount s = past_horizontal (r_dom s) (horizontalSlides s) 0"

text \<open>
  \<open>getProgress\<close>, exact: the source computes it in floating point.  \<open>None\<close> is the division by zero
  of a presentation with one slide (NaN, or Infinity).
\<close>

definition getProgress :: "reveal \<Rightarrow> rat option" where
  "getProgress s =
     (let totalCount = getTotalSlides s;
          pastCount = of_int (getSlidePastCount s);
          pastCount = (case currentSlide s of
              None \<Rightarrow> pastCount
            | Some cur \<Rightarrow>
                let allFragments = query_all fragment_sel (r_dom s) cur in
                if length allFragments > 0 then
                  pastCount + of_nat (length (query_all fragment_visible_sel (r_dom s) cur)) /
                    of_nat (length allFragments) * (9 / 10)
                else pastCount)
      in if totalCount = 1 then None else Some (pastCount / of_int (totalCount - 1)))"

section \<open>Routes\<close>

record routes =
  left :: bool
  right :: bool
  up :: bool
  down :: bool

definition availableRoutes :: "reveal \<Rightarrow> routes" where
  "availableRoutes s =
     (let r = \<lparr>left = num_gt (indexh s) 0 \<or> c_loop (r_config s),
               right = num_lt (indexh s) (int (length (horizontalSlides s)) - 1) \<or> c_loop (r_config s),
               up = num_gt (indexv s) 0,
               down = num_lt (indexv s) (int (length (verticalSlides s)) - 1)\<rparr>
      in if c_rtl (r_config s) then r\<lparr>left := right r, right := left r\<rparr> else r)"

text \<open>\<open>availableFragments\<close>: the pair (prev, next).\<close>

definition availableFragments :: "reveal \<Rightarrow> bool \<times> bool" where
  "availableFragments s =
     (case currentSlide s of
        None \<Rightarrow> (False, False)
      | Some cur \<Rightarrow>
          if c_fragments (r_config s) then
            let fragments = query_all fragment_sel (r_dom s) cur;
                hiddenFragments = query_all fragment_hidden_sel (r_dom s) cur
            in (int (length fragments) - int (length hiddenFragments) > 0, hiddenFragments \<noteq> [])
          else (False, False))"

section \<open>Controls, progress, notes\<close>

definition upd_all :: "(node \<Rightarrow> dom \<Rightarrow> dom) \<Rightarrow> node list \<Rightarrow> reveal \<Rightarrow> reveal" where
  "upd_all f ns s = upd_dom (fold f ns) s"

definition control_off :: "node \<Rightarrow> dom \<Rightarrow> dom" where
  "control_off n d =
     set_attr ''disabled'' ''disabled'' n (remove_class ''fragmented'' n (remove_class ''enabled'' n d))"

definition control_on :: "node \<Rightarrow> dom \<Rightarrow> dom" where
  "control_on n d = remove_attr ''disabled'' n (add_class ''enabled'' n d)"

definition control_fragmented :: "node \<Rightarrow> dom \<Rightarrow> dom" where
  "control_fragmented n d =
     remove_attr ''disabled'' n (add_class ''enabled'' n (add_class ''fragmented'' n d))"

definition upd_if :: "bool \<Rightarrow> (node \<Rightarrow> dom \<Rightarrow> dom) \<Rightarrow> node list \<Rightarrow> reveal \<Rightarrow> reveal" where
  "upd_if b f ns s = (if b then upd_all f ns s else s)"

definition updateControls :: "reveal \<Rightarrow> reveal" where
  "updateControls s =
     (let routes = availableRoutes s;
          (prev, next) = availableFragments s;
          s = upd_all control_off (r_controlsLeft s @ r_controlsRight s @ r_controlsUp s @
                r_controlsDown s @ r_controlsPrev s @ r_controlsNext s) s;
          s = upd_if (left routes) control_on (r_controlsLeft s) s;
          s = upd_if (right routes) control_on (r_controlsRight s) s;
          s = upd_if (up routes) control_on (r_controlsUp s) s;
          s = upd_if (down routes) control_on (r_controlsDown s) s;
          s = upd_if (left routes \<or> up routes) control_on (r_controlsPrev s) s;
          s = upd_if (right routes \<or> down routes) control_on (r_controlsNext s) s;
          s = (case currentSlide s of
                 None \<Rightarrow> s
               | Some cur \<Rightarrow>
                   let s = upd_if prev control_fragmented (r_controlsPrev s) s;
                       s = upd_if next control_fragmented (r_controlsNext s) s
                   in if isVerticalSlide (Some cur) s then
                        upd_if next control_fragmented (r_controlsDown s)
                          (upd_if prev control_fragmented (r_controlsUp s) s)
                      else
                        upd_if next control_fragmented (r_controlsRight s)
                          (upd_if prev control_fragmented (r_controlsLeft s) s))
      in if c_controlsTutorial (r_config s) then
           if \<not> hasNavigatedDown s \<and> down routes
           then upd_dom (add_class ''highlight'' (r_controlsDownArrow s)) s
           else
             let s = upd_dom (remove_class ''highlight'' (r_controlsDownArrow s)) s in
             if \<not> hasNavigatedRight s \<and> right routes \<and> indexv s = Num 0
             then upd_dom (add_class ''highlight'' (r_controlsRightArrow s)) s
             else upd_dom (remove_class ''highlight'' (r_controlsRightArrow s)) s
         else s)"

definition updateProgress :: "reveal \<Rightarrow> reveal" where
  "updateProgress s =
     (case r_progressbar s of
        None \<Rightarrow> s
      | Some bar \<Rightarrow>
          if c_progress (r_config s) then log_effect (Set_width bar (getProgress s)) s else s)"

definition show_num :: "jsnum \<Rightarrow> string" where
  "show_num x = (case x of Num n \<Rightarrow> js_show_int n | NaN \<Rightarrow> ''NaN'' | Undef \<Rightarrow> ''undefined'')"

text \<open>\<open>formatSlideNumber\<close>: the second number is absent when it is no number.\<close>

definition formatSlideNumber :: "string \<Rightarrow> string \<Rightarrow> jsnum \<Rightarrow> string" where
  "formatSlideNumber a delimiter b =
     (case b of
        Num n \<Rightarrow> ''<span class=\"slide-number-a\">'' @ a @ ''</span>'' @
                 ''<span class=\"slide-number-delimiter\">'' @ delimiter @ ''</span>'' @
                 ''<span class=\"slide-number-b\">'' @ js_show_int n @ ''</span>''
      | _ \<Rightarrow> ''<span class=\"slide-number-a\">'' @ a @ ''</span>'')"

definition slide_number_text :: "string \<Rightarrow> reveal \<Rightarrow> string" where
  "slide_number_text format s =
     (if format = ''c'' then formatSlideNumber (js_show_int (getSlidePastCount s + 1)) ''undefined'' Undef
      else if format = ''c/t'' then
        formatSlideNumber (js_show_int (getSlidePastCount s + 1)) ''/'' (Num (getTotalSlides s))
      else
        let sep = (if format = ''h/v'' then ''/'' else ''.''); a = show_num (num_add (indexh s) 1) in
        if isVerticalSlide None s then formatSlideNumber a sep (num_add (indexv s) 1)
        else formatSlideNumber a ''undefined'' Undef)"

definition updateSlideNumber :: "reveal \<Rightarrow> reveal" where
  "updateSlideNumber s =
     (case r_slideNumber s of
        None \<Rightarrow> s
      | Some n \<Rightarrow>
          (case c_slideNumber (r_config s) of
             Number_off \<Rightarrow> s
           | Number_on \<Rightarrow> log_effect (Set_html n (slide_number_text ''h.v'' s)) s
           | Number_format f \<Rightarrow> log_effect (Set_html n (slide_number_text f s)) s))"

definition updateNotes :: "reveal \<Rightarrow> reveal" where
  "updateNotes s =
     (case (r_speakerNotes s, currentSlide s) of
        (Some n, Some cur) \<Rightarrow>
          if c_showNotes (r_config s) \<and> \<not> isPrintingPDF s then
            log_effect (Set_html n
              (case getSlideNotes cur s of
                 Some (c # cs) \<Rightarrow> c # cs
               | _ \<Rightarrow> ''<span class=\"notes-placeholder\">No notes on this slide.</span>'')) s
          else s
      | _ \<Rightarrow> s)"

definition hasNotes :: "reveal \<Rightarrow> bool" where
  "hasNotes s \<longleftrightarrow>
     query_all (\<lambda>d n. has_attr ''data-notes'' d n \<or> notes_sel d n) (r_dom s) (r_slides s) \<noteq> []"

definition updateNotesVisibility :: "reveal \<Rightarrow> reveal" where
  "updateNotesVisibility s =
     (if c_showNotes (r_config s) \<and> hasNotes s then upd_dom (add_class ''show-notes'' (r_wrapper s)) s
      else upd_dom (remove_class ''show-notes'' (r_wrapper s)) s)"

section \<open>Sorting fragments\<close>

text \<open>
  \<open>ordered\<close> is a sparse array of groups: here the list of its elements with their indices, kept in
  index order, which is the order \<open>forEach\<close> visits them in.  An index that is no array index (NaN,
  negative, too large) makes \<open>ordered[index]\<close> a plain property, which \<open>concat\<close> and \<open>forEach\<close> do not
  see: such a fragment is not in the result.
\<close>

fun push_group :: "int \<Rightarrow> 'a \<Rightarrow> (int \<times> 'a list) list \<Rightarrow> (int \<times> 'a list) list" where
  "push_group k n [] = [(k, [n])]"
| "push_group k n ((j, g) # rest) =
     (if j = k then (j, g @ [n]) # rest
      else if k < j then (k, [n]) # (j, g) # rest
      else (j, g) # push_group k n rest)"

definition array_index :: "jsnum \<Rightarrow> int option" where
  "array_index x = (case x of Num k \<Rightarrow> if 0 \<le> k \<and> k < 4294967295 then Some k else None | _ \<Rightarrow> None)"

definition group_step ::
  "dom \<Rightarrow> node \<Rightarrow> (int \<times> node list) list \<times> node list list \<Rightarrow> (int \<times> node list) list \<times> node list list"
  where
  "group_step d fr = (\<lambda>(ordered, unordered).
     (case d_attr d fr ''data-fragment-index'' of
        Some a \<Rightarrow> (case array_index (js_parse_int a) of
                     Some k \<Rightarrow> (push_group k fr ordered, unordered)
                   | None \<Rightarrow> (ordered, unordered))
      | None \<Rightarrow> (ordered, unordered @ [[fr]])))"

definition fragment_groups :: "dom \<Rightarrow> node list \<Rightarrow> node list list" where
  "fragment_groups d frs =
     (let (ordered, unordered) = fold (group_step d) frs ([], []) in map snd ordered @ unordered)"

definition number_group :: "node list \<Rightarrow> int \<times> dom \<Rightarrow> int \<times> dom" where
  "number_group grp = (\<lambda>(index, d).
     (index + 1, fold (\<lambda>fr. set_attr ''data-fragment-index'' (js_show_int index) fr) grp d))"

definition sort_fragments :: "node list \<Rightarrow> dom \<Rightarrow> node list \<times> dom" where
  "sort_fragments frs d =
     (let groups = fragment_groups d frs in (concat groups, snd (fold number_group groups (0, d))))"

definition sortFragments :: "node list \<Rightarrow> reveal \<Rightarrow> node list \<times> reveal" where
  "sortFragments frs s =
     (let (sorted, d) = sort_fragments frs (r_dom s) in (sorted, s\<lparr>r_dom := d\<rparr>))"

definition sortAllFragments :: "reveal \<Rightarrow> reveal" where
  "sortAllFragments s =
     fold (\<lambda>h s.
       let vs = sections_in s h;
           s = fold (\<lambda>v s. snd (sortFragments (query_all fragment_sel (r_dom s) v) s)) vs s
       in if vs = [] then snd (sortFragments (query_all fragment_sel (r_dom s) h) s) else s)
     (horizontalSlides s) s"

section \<open>Navigating fragments\<close>

definition fragment_step ::
  "jsnum \<Rightarrow> int \<times> node \<Rightarrow> node list \<times> node list \<times> reveal \<Rightarrow> node list \<times> node list \<times> reveal" where
  "fragment_step index = (\<lambda>(i, el) (shown, hidden, s).
     let i = (case d_attr (r_dom s) el ''data-fragment-index'' of
                Some a \<Rightarrow> js_parse_int a | None \<Rightarrow> Num i)
     in if num_le i index then
          let shown = (if has_class ''visible'' (r_dom s) el then shown else shown @ [el]);
              s = upd_dom (add_class ''visible'' el) s;
              s = upd_dom (remove_class ''current-fragment'' el) s;
              s = upd_dom (set_text (r_status_text s el) (r_statusDiv s)) s
          in if i = index
             then (shown, hidden, startEmbeddedContent el (upd_dom (add_class ''current-fragment'' el) s))
             else (shown, hidden, s)
        else
          let hidden = (if has_class ''visible'' (r_dom s) el then hidden @ [el] else hidden);
              s = upd_dom (remove_class ''visible'' el) s;
              s = upd_dom (remove_class ''current-fragment'' el) s
          in (shown, hidden, s))"

text \<open>
  The index to go to: a given number, or the index of the last visible fragment, or -1.
\<close>

definition fragment_target :: "jsnum \<Rightarrow> node \<Rightarrow> reveal \<Rightarrow> jsnum \<times> reveal" where
  "fragment_target index cur s =
     (if index = Undef then
        let (visible, s) = sortFragments (query_all fragment_visible_sel (r_dom s) cur) s in
        (case rev visible of
           [] \<Rightarrow> (Num (-1), s)
         | fr # _ \<Rightarrow>
             (case d_attr (r_dom s) fr ''data-fragment-index'' of
                Some (c # cs) \<Rightarrow> (js_parse_int (c # cs), s)
              | _ \<Rightarrow> (Num 0, s)))
      else (index, s))"

definition navigateFragment :: "jsnum \<Rightarrow> jsnum \<Rightarrow> reveal \<Rightarrow> bool \<times> reveal" where
  "navigateFragment index offset s =
     (case currentSlide s of
        None \<Rightarrow> (False, s)
      | Some cur \<Rightarrow>
          if c_fragments (r_config s) then
            let (fragments, s) = sortFragments (query_all fragment_sel (r_dom s) cur) s in
            if fragments \<noteq> [] then
              let (index, s) = fragment_target index cur s;
                  index = (case offset of Num k \<Rightarrow> num_add index k | NaN \<Rightarrow> NaN | Undef \<Rightarrow> index);
                  (shown, hidden, s) =
                    fold (fragment_step index) (zip [0..int (length fragments) - 1] fragments) ([], [], s);
                  s = (if hidden \<noteq> [] then log_effect (Dispatch_fragments ''fragmenthidden'' hidden) s else s);
                  s = (if shown \<noteq> [] then log_effect (Dispatch_fragments ''fragmentshown'' shown) s else s);
                  s = updateProgress (updateControls s)
              in (shown \<noteq> [] \<or> hidden \<noteq> [], s)
            else (False, s)
          else (False, s))"

definition nextFragment :: "reveal \<Rightarrow> bool \<times> reveal" where
  "nextFragment s = navigateFragment Undef (Num 1) s"

definition previousFragment :: "reveal \<Rightarrow> bool \<times> reveal" where
  "previousFragment s = navigateFragment Undef (Num (-1)) s"

end
