(* ===== verification/Reveal_Slides.thy ===== *)
theory Reveal_Slides
  imports Reveal_Fragments
begin

text \<open>
  Changing the slide: auto-sliding, the URL, loading slides, backgrounds, \<open>updateSlides\<close> and
  \<open>updateSlidesVisibility\<close>, and \<open>slide\<close> itself, with the reactions that start from it.

  A JavaScript \<open>TypeError\<close> (reading a property of \<open>undefined\<close>) is the value \<open>None\<close>.
\<close>

section \<open>Auto-sliding\<close>

definition cancelAutoSlide :: "reveal \<Rightarrow> reveal" where
  "cancelAutoSlide s = (clear_timeout (autoSlideTimeout s) s)\<lparr>autoSlideTimeout := -1\<rparr>"

definition set_playing :: "bool \<Rightarrow> reveal \<Rightarrow> reveal" where
  "set_playing b s = (if r_autoSlidePlayer s then log_effect (Set_playing b) s else s)"

text \<open>An attribute that is there and not empty, as a number.\<close>

definition attr_number :: "string option \<Rightarrow> jsnum option" where
  "attr_number a = (case a of Some (c # cs) \<Rightarrow> Some (js_parse_int (c # cs)) | _ \<Rightarrow> None)"

definition configured_autoSlide :: "reveal \<Rightarrow> jsnum" where
  "configured_autoSlide s = (case c_autoSlide (r_config s) of None \<Rightarrow> Undef | Some n \<Rightarrow> Num n)"

definition autoslide_value :: "node \<Rightarrow> reveal \<Rightarrow> jsnum" where
  "autoslide_value cur s =
     (let d = r_dom s;
          fragment = (case query (has_class ''current-fragment'') d cur of
                        Some fr \<Rightarrow> Some fr | None \<Rightarrow> query fragment_sel d cur);
          fragmentAutoSlide = (case fragment of None \<Rightarrow> None | Some fr \<Rightarrow> d_attr d fr ''data-autoslide'');
          parentAutoSlide = (case d_parent d cur of None \<Rightarrow> None | Some p \<Rightarrow> d_attr d p ''data-autoslide'');
          slideAutoSlide = d_attr d cur ''data-autoslide''
      in case attr_number fragmentAutoSlide of
           Some n \<Rightarrow> n
         | None \<Rightarrow> (case attr_number slideAutoSlide of
             Some n \<Rightarrow> n
           | None \<Rightarrow> (case attr_number parentAutoSlide of
               Some n \<Rightarrow> n
             | None \<Rightarrow> configured_autoSlide s)))"

text \<open>Media that plays longer than the slide would stay stretches it.\<close>

definition media_stretch :: "reveal \<Rightarrow> node \<Rightarrow> jsnum \<Rightarrow> jsnum" where
  "media_stretch s el dur =
     (if has_attr ''data-autoplay'' (r_dom s) el \<and> num_true dur \<and> num_lt dur (r_media_ms s el)
      then Num (r_media_ms s el + 1000) else dur)"

definition auto_duration :: "node \<Rightarrow> reveal \<Rightarrow> jsnum" where
  "auto_duration cur s =
     (let dur = autoslide_value cur s
      in if query_all fragment_sel (r_dom s) cur = []
         then fold (media_stretch s) (query_all media_sel (r_dom s) cur) dur else dur)"

definition cue_timer :: "reveal \<Rightarrow> reveal" where
  "cue_timer s =
     (if num_true (autoSlide s) \<and> \<not> autoSlidePaused s \<and> \<not> isPaused s \<and> \<not> isOverview s \<and>
         (\<not> isLastSlide s \<or> snd (availableFragments s) \<or> c_loop (r_config s))
      then let (i, s) = set_timeout Timer_auto_slide (num_or0 (autoSlide s)) s
           in s\<lparr>autoSlideTimeout := i, autoSlideStartTime := r_now s\<rparr>
      else s)"

definition cueAutoSlide :: "reveal \<Rightarrow> reveal" where
  "cueAutoSlide s =
     (let s = cancelAutoSlide s in
      case currentSlide s of
        None \<Rightarrow> s
      | Some cur \<Rightarrow>
          if c_autoSlide (r_config s) = None then s
          else
            let s = cue_timer (s\<lparr>autoSlide := auto_duration cur s\<rparr>)
            in set_playing (autoSlideTimeout s \<noteq> -1) s)"

definition pauseAutoSlide :: "reveal \<Rightarrow> reveal" where
  "pauseAutoSlide s =
     (if num_true (autoSlide s) \<and> \<not> autoSlidePaused s then
        let s = s\<lparr>autoSlidePaused := True\<rparr>;
            s = log_effect (Dispatch ''autoslidepaused'') s;
            s = clear_timeout (autoSlideTimeout s) s
        in set_playing False s
      else s)"

definition resumeAutoSlide :: "reveal \<Rightarrow> reveal" where
  "resumeAutoSlide s =
     (if num_true (autoSlide s) \<and> autoSlidePaused s then
        cueAutoSlide (log_effect (Dispatch ''autoslideresumed'') (s\<lparr>autoSlidePaused := False\<rparr>))
      else s)"

definition toggleAutoSlide :: "bool option \<Rightarrow> reveal \<Rightarrow> reveal" where
  "toggleAutoSlide ov s =
     (case ov of
        Some b \<Rightarrow> if b then resumeAutoSlide s else pauseAutoSlide s
      | None \<Rightarrow> if autoSlidePaused s then resumeAutoSlide s else pauseAutoSlide s)"

section \<open>The URL\<close>

definition id_char :: "char \<Rightarrow> bool" where
  "id_char c \<longleftrightarrow> (let n = (of_char c :: nat) in
     (97 \<le> n \<and> n \<le> 122) \<or> (65 \<le> n \<and> n \<le> 90) \<or> (48 \<le> n \<and> n \<le> 57) \<or>
     c = CHR ''-'' \<or> c = CHR ''_'' \<or> c = CHR '':'' \<or> c = CHR ''.'')"

definition slide_url :: "node \<Rightarrow> reveal \<Rightarrow> string" where
  "slide_url cur s =
     (let ident = map_option (filter id_char) (d_attr (r_dom s) cur ''id'') in
      case ident of
        Some (c # cs) \<Rightarrow> ''/'' @ c # cs
      | _ \<Rightarrow>
          ''/'' @ (if num_gt (indexh s) 0 \<or> num_gt (indexv s) 0 then show_num (indexh s) else []) @
                 (if num_gt (indexv s) 0 then ''/'' @ show_num (indexv s) else []))"

definition writeURL :: "int option \<Rightarrow> reveal \<Rightarrow> reveal" where
  "writeURL delay s =
     (if c_history (r_config s) then
        let s = clear_timeout (writeURLTimeout s) s in
        case delay of
          Some t \<Rightarrow> let (i, s) = set_timeout Timer_write_url t s in s\<lparr>writeURLTimeout := i\<rparr>
        | None \<Rightarrow>
            (case currentSlide s of
               None \<Rightarrow> s
             | Some cur \<Rightarrow> log_effect (Set_hash (slide_url cur s)) (s\<lparr>r_hash := CHR ''#'' # slide_url cur s\<rparr>))
      else s)"

section \<open>Stacks and slide contents\<close>

definition setPreviousVerticalIndex :: "node \<Rightarrow> jsnum \<Rightarrow> dom \<Rightarrow> dom" where
  "setPreviousVerticalIndex stack v d = set_attr ''data-previous-indexv'' (js_show_int (num_or0 v)) stack d"

definition getPreviousVerticalIndex :: "node option \<Rightarrow> dom \<Rightarrow> jsnum" where
  "getPreviousVerticalIndex stack d =
     (case stack of
        None \<Rightarrow> Num 0
      | Some n \<Rightarrow>
          if has_class ''stack'' d n then
            let a = (if has_attr ''data-start-indexv'' d n then ''data-start-indexv''
                     else ''data-previous-indexv'')
            in case d_attr d n a of Some (c # cs) \<Rightarrow> js_parse_int (c # cs) | _ \<Rightarrow> Num 0
          else Num 0)"

definition loadSlide :: "bool \<Rightarrow> node \<Rightarrow> reveal \<Rightarrow> reveal" where
  "loadSlide excludeIframes sl s =
     (let s = upd_dom (set_display (c_display (r_config s)) sl) s;
          s = load_media sl s;
          (h, v) = getIndices_of sl s
      in case getSlideBackground h v s of
           None \<Rightarrow> s
         | Some bg \<Rightarrow>
             let s = upd_dom (set_display ''block'' bg) s in
             if \<not> has_attr ''data-loaded'' (r_dom s) bg
             then fill_background excludeIframes sl bg (upd_dom (set_attr ''data-loaded'' ''true'' bg) s)
             else s)"

definition unloadSlide :: "node \<Rightarrow> reveal \<Rightarrow> reveal" where
  "unloadSlide sl s =
     (let s = upd_dom (set_display ''none'' sl) s;
          (h, v) = getIndices_of sl s;
          s = (case getSlideBackground h v s of
                 None \<Rightarrow> s | Some bg \<Rightarrow> upd_dom (set_display ''none'' bg) s)
      in unload_media sl s)"

definition resetVerticalSlides :: "reveal \<Rightarrow> reveal" where
  "resetVerticalSlides s =
     fold (\<lambda>h s.
       fold (\<lambda>(y, v) s.
         if y > 0 then
           upd_dom (set_attr ''aria-hidden'' ''true'' v) (upd_dom (add_class ''future'' v)
             (upd_dom (remove_class ''past'' v) (upd_dom (remove_class ''present'' v) s)))
         else s)
       (zip [0..int (length (sections_in s h)) - 1] (sections_in s h)) s)
     (horizontalSlides s) s"

section \<open>\<open>updateSlides\<close>\<close>

text \<open>The index after looping and clamping.\<close>

definition clamp_index :: "bool \<Rightarrow> int \<Rightarrow> int \<Rightarrow> int" where
  "clamp_index loop n index =
     (let index = (if loop then
                     let index = js_rem index n in if index < 0 then n + index else index
                   else index)
      in max (min index (n - 1)) 0)"

definition clear_classes :: "node \<Rightarrow> dom \<Rightarrow> dom" where
  "clear_classes n d = remove_class ''future'' n (remove_class ''present'' n (remove_class ''past'' n d))"

text \<open>\<open>while( list.length ) { e = list.pop(); ... }\<close> visits a list from its end.\<close>

definition show_fragments :: "node \<Rightarrow> dom \<Rightarrow> dom" where
  "show_fragments el d =
     fold (\<lambda>fr d. remove_class ''current-fragment'' fr (add_class ''visible'' fr d))
       (rev (query_all fragment_sel d el)) d"

definition hide_fragments :: "node \<Rightarrow> dom \<Rightarrow> dom" where
  "hide_fragments el d =
     fold (\<lambda>fr d. remove_class ''current-fragment'' fr (remove_class ''visible'' fr d))
       (rev (query_all fragment_visible_sel d el)) d"

definition update_slide :: "config \<Rightarrow> bool \<Rightarrow> int \<Rightarrow> int \<times> node \<Rightarrow> dom \<Rightarrow> dom" where
  "update_slide cfg printMode index = (\<lambda>(i, el) d.
     let reverse = c_rtl cfg \<and> \<not> parent_is_section d el;
         d = clear_classes el d;
         d = set_attr ''hidden'' '''' el d;
         d = set_attr ''aria-hidden'' ''true'' el d;
         d = (if query is_section d el \<noteq> None then add_class ''stack'' el d else d)
     in if printMode then add_class ''present'' el d
        else if i < index then
          let d = add_class (if reverse then ''future'' else ''past'') el d
          in if c_fragments cfg then show_fragments el d else d
        else if i > index then
          let d = add_class (if reverse then ''past'' else ''future'') el d
          in if c_fragments cfg then hide_fragments el d else d
        else d)"

definition mark_present :: "node \<Rightarrow> dom \<Rightarrow> dom" where
  "mark_present el d =
     remove_attr ''aria-hidden'' el (remove_attr ''hidden'' el (add_class ''present'' el d))"

definition slide_states :: "node \<Rightarrow> dom \<Rightarrow> string list" where
  "slide_states el d = (case d_attr d el ''data-state'' of
     Some (c # cs) \<Rightarrow> split_on (CHR '' '') (c # cs) | _ \<Rightarrow> [])"

text \<open>The argument is the list the selector yields.  With no slides the index is 0.\<close>

definition updateSlides :: "node list \<Rightarrow> jsnum \<Rightarrow> reveal \<Rightarrow> (int \<times> reveal) option" where
  "updateSlides slides index s =
     (if slides = [] then Some (0, s)
      else case index of
        Num i \<Rightarrow>
          let n = int (length slides);
              k = clamp_index (c_loop (r_config s)) n i;
              s = upd_dom (fold (update_slide (r_config s) (isPrintingPDF s) k) (zip [0..n - 1] slides)) s;
              s = upd_dom (mark_present (slides ! nat k)) s
          in Some (k, s\<lparr>slide_state := slide_state s @ slide_states (slides ! nat k) (r_dom s)\<rparr>)
      | _ \<Rightarrow> None)"

section \<open>Visibility\<close>

definition view_distance :: "reveal \<Rightarrow> int" where
  "view_distance s =
     (if isPrintingPDF s then 2 ^ 1024 - 2 ^ 971
      else if r_mobile s then (if isOverview s then 6 else 2)
      else if isOverview s then 10 else c_viewDistance (r_config s))"

definition distance_x :: "reveal \<Rightarrow> int \<Rightarrow> int \<Rightarrow> int" where
  "distance_x s n x =
     (let a = num_or0 (indexh s) - x in
      if c_loop (r_config s) then
        if n - view_distance s = 0 then 0 else \<bar>js_rem a (n - view_distance s)\<bar>
      else \<bar>a\<bar>)"

definition distance_y :: "reveal \<Rightarrow> int \<Rightarrow> jsnum \<Rightarrow> int \<Rightarrow> jsnum" where
  "distance_y s x oy y =
     (if x = num_or0 (indexh s) then Num \<bar>num_or0 (indexv s) - y\<bar>
      else case oy of Num o' \<Rightarrow> Num \<bar>y - o'\<bar> | _ \<Rightarrow> NaN)"

definition show_if :: "bool \<Rightarrow> node \<Rightarrow> reveal \<Rightarrow> reveal" where
  "show_if b sl s = (if b then loadSlide False sl s else unloadSlide sl s)"

definition slide_visibility :: "int \<Rightarrow> int \<times> node \<Rightarrow> reveal \<Rightarrow> reveal" where
  "slide_visibility n = (\<lambda>(x, hs) s.
     let vs = sections_in s hs;
         dx = distance_x s n x;
         s = show_if (dx < view_distance s) hs s
     in if vs \<noteq> [] then
          let oy = getPreviousVerticalIndex (Some hs) (r_dom s) in
          fold (\<lambda>(y, v) s. show_if (num_lt (num_add (distance_y s x oy y) dx) (view_distance s)) v s)
            (zip [0..int (length vs) - 1] vs) s
        else s)"

definition flag_class :: "bool \<Rightarrow> string \<Rightarrow> node \<Rightarrow> dom \<Rightarrow> dom" where
  "flag_class b c n d = (if b then add_class c n d else remove_class c n d)"

definition nested_sel :: "dom \<Rightarrow> node \<Rightarrow> bool" where
  "nested_sel d n \<longleftrightarrow> is_section d n \<and>
     (case d_parent d n of None \<Rightarrow> False | Some p \<Rightarrow> horizontal_sel d p)"

definition updateSlidesVisibility :: "reveal \<Rightarrow> reveal" where
  "updateSlidesVisibility s =
     (let hs = horizontalSlides s; n = int (length hs) in
      if hs \<noteq> [] \<and> indexh s \<noteq> Undef then
        let s = fold (slide_visibility n) (zip [0..n - 1] hs) s;
            s = upd_dom (flag_class (query_all nested_sel (r_dom s) (r_wrapper s) \<noteq> [])
                           ''has-vertical-slides'' (r_wrapper s)) s
        in upd_dom (flag_class (length (horizontalSlides s) > 1)
                      ''has-horizontal-slides'' (r_wrapper s)) s
      else s)"

section \<open>Backgrounds\<close>

definition background_class :: "string \<Rightarrow> string \<Rightarrow> int \<Rightarrow> jsnum \<Rightarrow> string" where
  "background_class past future i index =
     (if num_gt index i then past else if num_lt index i then future else ''present'')"

definition slide_background_sel :: "dom \<Rightarrow> node \<Rightarrow> bool" where
  "slide_background_sel = has_class ''slide-background''"

definition background_vertical ::
  "int \<Rightarrow> int \<times> node \<Rightarrow> node option \<times> reveal \<Rightarrow> node option \<times> reveal" where
  "background_vertical h = (\<lambda>(v, b) (cur, s).
     let c = background_class ''past'' ''future'' v (indexv s);
         s = upd_dom (add_class c b) (upd_dom (clear_classes b) s)
     in (if c = ''present'' \<and> Num h = indexh s then Some b else cur, s))"

definition background_horizontal ::
  "bool \<Rightarrow> int \<times> node \<Rightarrow> node option \<times> reveal \<Rightarrow> node option \<times> reveal" where
  "background_horizontal includeAll = (\<lambda>(h, b) (cur, s).
     let rtl = c_rtl (r_config s);
         c = background_class (if rtl then ''future'' else ''past'') (if rtl then ''past'' else ''future'')
               h (indexh s);
         s = upd_dom (add_class c b) (upd_dom (clear_classes b) s);
         cur = (if c = ''present'' then Some b else cur);
         vs = query_all slide_background_sel (r_dom s) b
     in if includeAll \<or> Num h = indexh s
        then fold (background_vertical h) (zip [0..int (length vs) - 1] vs) (cur, s)
        else (cur, s))"

definition updateBackground :: "bool \<Rightarrow> reveal \<Rightarrow> reveal" where
  "updateBackground includeAll s =
     (let kids = d_kids (r_dom s) (r_background s);
          (cur, s) = fold (background_horizontal includeAll) (zip [0..int (length kids) - 1] kids) (None, s);
          s = (if previousBackground s \<noteq> None then stopEmbeddedContent True (previousBackground s) s else s);
          s = (case cur of
                 None \<Rightarrow> s
               | Some b \<Rightarrow>
                   let s = startEmbeddedContent b s;
                       s = (if contains ''.gif'' (map lower_char (r_bgImage s b))
                            then log_effect (Restart_image b) s else s);
                       previousHash = (case previousBackground s of
                          None \<Rightarrow> None | Some p \<Rightarrow> d_attr (r_dom s) p ''data-background-hash'');
                       currentHash = d_attr (r_dom s) b ''data-background-hash'';
                       s = (if currentHash \<noteq> None \<and> currentHash \<noteq> Some [] \<and>
                               currentHash = previousHash \<and> Some b \<noteq> previousBackground s
                            then upd_dom (add_class ''no-transition'' (r_background s)) s else s)
                   in s\<lparr>previousBackground := Some b\<rparr>);
          s = (case currentSlide s of
                 None \<Rightarrow> s
               | Some sl \<Rightarrow>
                   fold (\<lambda>c s. upd_dom (flag_class (has_class c (r_dom s) sl) c (r_wrapper s)) s)
                     [''has-light-background'', ''has-dark-background''] s)
      in snd (set_timeout Timer_background_transition 1 s))"

section \<open>The overview's viewport\<close>

text \<open>\<open>scale = Math.max( vmin / 5, 150 ) / vmin\<close>, and the negated position of the current slide.\<close>

definition num_times_neg :: "jsnum \<Rightarrow> int \<Rightarrow> jsnum" where
  "num_times_neg x w = (case x of Num n \<Rightarrow> Num (- n * w) | _ \<Rightarrow> NaN)"

definition updateOverview :: "reveal \<Rightarrow> reveal" where
  "updateOverview s =
     (let vmin = min (r_innerWidth s) (r_innerHeight s);
          scale = max (of_int vmin / 5) 150 / of_int vmin
      in log_effect (Transform_slides (Some (scale,
           num_times_neg (indexh s) (overviewSlideWidth s),
           num_times_neg (indexv s) (overviewSlideHeight s)))) s)"

section \<open>\<open>slide\<close>\<close>

text \<open>
  The classes of the document element: a state already there stays, a new one is added and
  announced, and what remains of the old ones is removed.
\<close>

fun apply_states :: "string list \<Rightarrow> string list \<Rightarrow> reveal \<Rightarrow> string list \<times> reveal" where
  "apply_states [] before s = (before, s)"
| "apply_states (c # cs) before s =
     (if c \<in> set before then apply_states cs (remove1 c before) s
      else apply_states cs before (log_effect (Dispatch c) (upd_dom (add_class c (r_root s)) s)))"

definition change_states :: "string list \<Rightarrow> reveal \<Rightarrow> reveal" where
  "change_states stateBefore s =
     (let (remaining, s) = apply_states (slide_state s) stateBefore s
      in fold (\<lambda>c s. upd_dom (remove_class c (r_root s)) s) (rev remaining) s)"

definition or_default :: "jsnum \<Rightarrow> jsnum \<Rightarrow> jsnum" where
  "or_default x y = (if x = Undef then y else x)"

text \<open>The part of \<open>slide\<close> that moves: both dimensions, and the vertical index of the stack left.\<close>

definition slide_move :: "jsnum \<Rightarrow> jsnum \<Rightarrow> reveal \<Rightarrow> reveal option" where
  "slide_move h v s =
     (let v = (if v = Undef \<and> \<not> isOverview s
               then getPreviousVerticalIndex (js_nth (horizontalSlides s) h) (r_dom s) else v);
          s = (case previousSlide s of
                 None \<Rightarrow> s
               | Some p \<Rightarrow>
                   (case d_parent (r_dom s) p of
                      None \<Rightarrow> s
                    | Some st \<Rightarrow>
                        if has_class ''stack'' (r_dom s) st
                        then upd_dom (setPreviousVerticalIndex st (indexv s)) s else s));
          s = s\<lparr>slide_state := []\<rparr>
      in case updateSlides (horizontalSlides s) (or_default h (indexh s)) s of
           None \<Rightarrow> None
         | Some (ih, s) \<Rightarrow>
             let s = s\<lparr>indexh := Num ih\<rparr> in
             (case updateSlides (verticalSlides s) (or_default v (indexv s)) s of
                None \<Rightarrow> None
              | Some (iv, s) \<Rightarrow> Some (s\<lparr>indexv := Num iv\<rparr>)))"

text \<open>The previous slide loses what it may have kept; home resets the stacks, later.\<close>

definition leave_previous :: "reveal \<Rightarrow> reveal" where
  "leave_previous s =
     (case previousSlide s of
        None \<Rightarrow> s
      | Some p \<Rightarrow>
          let s = upd_dom (remove_class ''present'' p) s;
              s = upd_dom (set_attr ''aria-hidden'' ''true'' p) s
          in (case horizontalSlides s of
                home # _ \<Rightarrow> if has_class ''present'' (r_dom s) home
                            then snd (set_timeout Timer_reset_stacks 0 s) else s
              | [] \<Rightarrow> s))"

text \<open>What follows once the current slide is known: media, announcements, controls, URL, timer.\<close>

definition slide_settle :: "bool \<Rightarrow> reveal \<Rightarrow> reveal" where
  "slide_settle slideChanged s =
     (let s = (if slideChanged \<or> previousSlide s = None
               then startEmbeddedContent (the (currentSlide s))
                      (stopEmbeddedContent True (previousSlide s) s)
               else s);
          s = upd_dom (set_text (r_status_text s (the (currentSlide s))) (r_statusDiv s)) s;
          s = updateControls s;
          s = updateProgress s;
          s = updateBackground False s;
          s = log_effect Do_parallax s;
          s = updateSlideNumber s;
          s = updateNotes s;
          s = writeURL None s
      in cueAutoSlide s)"

text \<open>
  Up to the event of the change: the move, the slides' visibility, states, the current slide and its
  fragments.  The flag says whether the slide changed.
\<close>

definition slide_enter :: "jsnum \<Rightarrow> jsnum \<Rightarrow> jsnum \<Rightarrow> reveal \<Rightarrow> (bool \<times> reveal) option" where
  "slide_enter h v f s =
     (let hs = horizontalSlides s;
          stateBefore = slide_state s;
          indexhBefore = num_or0 (indexh s); indexvBefore = num_or0 (indexv s)
      in case slide_move h v s of
           None \<Rightarrow> None
         | Some s \<Rightarrow>
             let s = updateSlidesVisibility s;
                 s = log_effect Do_layout s;
                 s = change_states stateBefore s;
                 s = (if isOverview s then updateOverview s else s)
             in case js_nth hs (indexh s) of
               None \<Rightarrow> None
             | Some currentHorizontalSlide \<Rightarrow>
                 let s = s\<lparr>currentSlide :=
                       (case js_nth (sections_in s currentHorizontalSlide) (indexv s) of
                          Some n \<Rightarrow> Some n | None \<Rightarrow> Some currentHorizontalSlide)\<rparr>;
                     s = (if f \<noteq> Undef then snd (navigateFragment f Undef s) else s);
                     slideChanged = (indexh s \<noteq> Num indexhBefore \<or> indexv s \<noteq> Num indexvBefore)
                 in Some (slideChanged,
                      if slideChanged
                      then log_effect (Dispatch_slide ''slidechanged'' (indexh s) (indexv s)
                             (previousSlide s) (currentSlide s)) s
                      else s\<lparr>previousSlide := None\<rparr>))"

definition slide :: "jsnum \<Rightarrow> jsnum \<Rightarrow> jsnum \<Rightarrow> reveal \<Rightarrow> reveal option" where
  "slide h v f s =
     (let s = s\<lparr>previousSlide := currentSlide s\<rparr> in
      if horizontalSlides s = [] then Some s
      else case slide_enter h v f s of
             None \<Rightarrow> None
           | Some (slideChanged, s) \<Rightarrow> Some (slide_settle slideChanged (leave_previous s)))"

text \<open>The callback of \<open>Timer_reset_stacks\<close>.\<close>

definition reset_stacks :: "reveal \<Rightarrow> reveal" where
  "reset_stacks s =
     fold (\<lambda>n s. upd_dom (setPreviousVerticalIndex n (Num 0)) s)
       (filter (has_class ''stack'' (r_dom s)) (horizontalSlides s)) s"

section \<open>Reading the URL\<close>

fun js_slice :: "nat \<Rightarrow> string \<Rightarrow> string" where
  "js_slice n s = drop n s"

definition alpha_char :: "char \<Rightarrow> bool" where
  "alpha_char c \<longleftrightarrow> (let n = (of_char c :: nat) in (97 \<le> n \<and> n \<le> 122) \<or> (65 \<le> n \<and> n \<le> 90))"

text \<open>\<open>/^[a-zA-Z][\w:.-]*$/\<close>; \<open>id_char\<close> is the class \<open>[\w:.-]\<close>.\<close>

definition valid_id :: "string \<Rightarrow> bool" where
  "valid_id name = (case name of [] \<Rightarrow> False | c # cs \<Rightarrow> alpha_char c \<and> list_all id_char cs)"

definition parse_bit :: "string list \<Rightarrow> nat \<Rightarrow> jsnum" where
  "parse_bit bits i = (if i < length bits then js_parse_int (bits ! i) else NaN)"

definition readURL :: "reveal \<Rightarrow> reveal option" where
  "readURL s =
     (let hash = r_hash s;
          bits = split_on (CHR ''/'') (js_slice 2 hash);
          name = filter (\<lambda>c. c \<noteq> CHR ''#'' \<and> c \<noteq> CHR ''/'') hash
      in if parse_bit bits 0 = NaN \<and> name \<noteq> [] then
           case (if valid_id name
                 then List.find (\<lambda>n. d_attr (r_dom s) n ''id'' = Some name) (d_nodes (r_dom s)) else None) of
             Some element \<Rightarrow> let (h, v) = getIndices_of element s in slide h v Undef s
           | None \<Rightarrow> slide (Num (num_or0 (indexh s))) (Num (num_or0 (indexv s))) Undef s
         else
           let h = num_or0 (parse_bit bits 0); v = num_or0 (parse_bit bits 1) in
           if Num h \<noteq> indexh s \<or> Num v \<noteq> indexv s then slide (Num h) (Num v) Undef s else Some s)"

end
