(* ===== verification/Reveal_Input.thy ===== *)
theory Reveal_Input
  imports Reveal_Slides
begin

text \<open>
  What the user does: the overview, pausing, navigation in the six directions, keys, touch, the mouse
  wheel, clicks, the timers' callbacks, and saving and restoring the state.
\<close>

section \<open>The overview\<close>

definition translate :: "int \<Rightarrow> int \<Rightarrow> node \<Rightarrow> reveal \<Rightarrow> reveal" where
  "translate x y n s = log_effect (Transform n (Some (x, y))) s"

definition layout_vertical :: "int \<Rightarrow> int \<times> node \<Rightarrow> reveal \<Rightarrow> reveal" where
  "layout_vertical h = (\<lambda>(v, n) s.
     let s = upd_dom (set_attr ''data-index-h'' (js_show_int h) n) s;
         s = upd_dom (set_attr ''data-index-v'' (js_show_int v) n) s
     in translate 0 (v * overviewSlideHeight s) n s)"

definition layout_horizontal :: "int \<times> node \<Rightarrow> reveal \<Rightarrow> reveal" where
  "layout_horizontal = (\<lambda>(h, n) s.
     let s = upd_dom (set_attr ''data-index-h'' (js_show_int h) n) s;
         s = translate (h * overviewSlideWidth s) 0 n s
     in if has_class ''stack'' (r_dom s) n then
          fold (layout_vertical h) (zip [0..int (length (sections_in s n)) - 1] (sections_in s n)) s
        else s)"

definition layoutOverview :: "reveal \<Rightarrow> reveal" where
  "layoutOverview s =
     (let hs = horizontalSlides s;
          s = fold layout_horizontal (zip [0..int (length hs) - 1] hs) s;
          bs = d_kids (r_dom s) (r_background s)
      in fold (\<lambda>(h, b) s.
           let s = translate (h * overviewSlideWidth s) 0 b s;
               vs = query_all slide_background_sel (r_dom s) b
           in fold (\<lambda>(v, b) s. translate 0 (v * overviewSlideHeight s) b s)
                (zip [0..int (length vs) - 1] vs) s)
         (zip [0..int (length bs) - 1] bs) s)"

definition activateOverview :: "reveal \<Rightarrow> reveal" where
  "activateOverview s =
     (if c_overview (r_config s) \<and> \<not> isOverview s then
        let s = s\<lparr>overview := True\<rparr>;
            s = upd_dom (add_class ''overview'' (r_wrapper s)) s;
            s = upd_dom (remove_class ''overview-deactivating'' (r_wrapper s)) s;
            s = (if r_overviewTransitions s then snd (set_timeout Timer_overview_animated 1 s) else s);
            s = cancelAutoSlide s;
            s = log_effect (Append_child (r_slides s) (r_background s)) s;
            s = fold (\<lambda>n s. if \<not> has_class ''stack'' (r_dom s) n then log_effect (Add_click_listener n) s else s)
                  (query_all slides_sel (r_dom s) (r_wrapper s)) s;
            s = s\<lparr>overviewSlideWidth := r_slideWidth s + 70, overviewSlideHeight := r_slideHeight s + 70\<rparr>;
            s = (if c_rtl (r_config s) then s\<lparr>overviewSlideWidth := - overviewSlideWidth s\<rparr> else s);
            s = updateSlidesVisibility s;
            s = layoutOverview s;
            s = updateOverview s;
            s = log_effect Do_layout s
        in log_effect (Dispatch_slide ''overviewshown'' (indexh s) (indexv s) None (currentSlide s)) s
      else s)"

definition deactivateOverview :: "reveal \<Rightarrow> reveal option" where
  "deactivateOverview s =
     (if c_overview (r_config s) then
        let s = s\<lparr>overview := False\<rparr>;
            s = upd_dom (remove_class ''overview'' (r_wrapper s)) s;
            s = upd_dom (remove_class ''overview-animated'' (r_wrapper s)) s;
            s = upd_dom (add_class ''overview-deactivating'' (r_wrapper s)) s;
            s = snd (set_timeout Timer_overview_deactivated 1 s);
            s = log_effect (Append_child (r_wrapper s) (r_background s)) s;
            s = fold (\<lambda>n s. log_effect (Remove_click_listener n) (log_effect (Transform n None) s))
                  (query_all slides_sel (r_dom s) (r_wrapper s)) s;
            s = fold (\<lambda>n s. log_effect (Transform n None) s)
                  (query_all slide_background_sel (r_dom s) (r_background s)) s;
            s = log_effect (Transform_slides None) s
        in case slide (indexh s) (indexv s) Undef s of
             None \<Rightarrow> None
           | Some s \<Rightarrow>
               let s = cueAutoSlide (log_effect Do_layout s)
               in Some (log_effect (Dispatch_slide ''overviewhidden'' (indexh s) (indexv s) None
                          (currentSlide s)) s)
      else Some s)"

definition toggleOverview :: "bool option \<Rightarrow> reveal \<Rightarrow> reveal option" where
  "toggleOverview ov s =
     (if (case ov of Some b \<Rightarrow> b | None \<Rightarrow> \<not> isOverview s)
      then Some (activateOverview s) else deactivateOverview s)"

section \<open>Pausing\<close>

definition pause :: "reveal \<Rightarrow> reveal" where
  "pause s =
     (if c_pause (r_config s) then
        let wasPaused = has_class ''paused'' (r_dom s) (r_wrapper s);
            s = cancelAutoSlide s;
            s = upd_dom (add_class ''paused'' (r_wrapper s)) s
        in if \<not> wasPaused then log_effect (Dispatch ''paused'') s else s
      else s)"

definition resume :: "reveal \<Rightarrow> reveal" where
  "resume s =
     (let wasPaused = has_class ''paused'' (r_dom s) (r_wrapper s);
          s = upd_dom (remove_class ''paused'' (r_wrapper s)) s;
          s = cueAutoSlide s
      in if wasPaused then log_effect (Dispatch ''resumed'') s else s)"

definition togglePause :: "bool option \<Rightarrow> reveal \<Rightarrow> reveal" where
  "togglePause ov s =
     (if (case ov of Some b \<Rightarrow> b | None \<Rightarrow> \<not> isPaused s) then pause s else resume s)"

section \<open>Navigation\<close>

text \<open>
  The common shape \<open>( isOverview() || fragment() === false ) && route\<close>: outside the overview the
  fragment step is made, and the move only follows when it changed nothing.
\<close>

definition try_fragment :: "(reveal \<Rightarrow> bool \<times> reveal) \<Rightarrow> reveal \<Rightarrow> bool \<times> reveal" where
  "try_fragment step s =
     (if isOverview s then (True, s) else let (changed, s) = step s in (\<not> changed, s))"

definition navigateLeft :: "reveal \<Rightarrow> reveal option" where
  "navigateLeft s =
     (if c_rtl (r_config s) then
        let (go, s) = try_fragment nextFragment s in
        if go \<and> left (availableRoutes s) then slide (num_add (indexh s) 1) Undef Undef s else Some s
      else
        let (go, s) = try_fragment previousFragment s in
        if go \<and> left (availableRoutes s) then slide (num_add (indexh s) (-1)) Undef Undef s else Some s)"

definition navigateRight :: "reveal \<Rightarrow> reveal option" where
  "navigateRight s =
     (let s = s\<lparr>hasNavigatedRight := True\<rparr> in
      if c_rtl (r_config s) then
        let (go, s) = try_fragment previousFragment s in
        if go \<and> right (availableRoutes s) then slide (num_add (indexh s) (-1)) Undef Undef s else Some s
      else
        let (go, s) = try_fragment nextFragment s in
        if go \<and> right (availableRoutes s) then slide (num_add (indexh s) 1) Undef Undef s else Some s)"

definition navigateUp :: "reveal \<Rightarrow> reveal option" where
  "navigateUp s =
     (let (go, s) = try_fragment previousFragment s in
      if go \<and> up (availableRoutes s) then slide (indexh s) (num_add (indexv s) (-1)) Undef s else Some s)"

definition navigateDown :: "reveal \<Rightarrow> reveal option" where
  "navigateDown s =
     (let s = s\<lparr>hasNavigatedDown := True\<rparr>;
          (go, s) = try_fragment nextFragment s in
      if go \<and> down (availableRoutes s) then slide (indexh s) (num_add (indexv s) 1) Undef s else Some s)"

text \<open>\<open>( sections.length - 1 ) || undefined\<close>: the last vertical slide, or none to ask for.\<close>

definition last_vertical :: "node \<Rightarrow> reveal \<Rightarrow> jsnum" where
  "last_vertical n s =
     (let k = int (length (sections_in s n)) - 1 in if k = 0 then Undef else Num k)"

definition navigatePrev :: "reveal \<Rightarrow> reveal option" where
  "navigatePrev s =
     (let (changed, s) = previousFragment s in
      if changed then Some s
      else if up (availableRoutes s) then navigateUp s
      else
        let c = (if c_rtl (r_config s) then ''future'' else ''past'') in
        case rev (filter (has_class c (r_dom s)) (horizontalSlides s)) of
          [] \<Rightarrow> Some s
        | p # _ \<Rightarrow> slide (num_add (indexh s) (-1)) (last_vertical p s) Undef s)"

definition navigateNext :: "reveal \<Rightarrow> reveal option" where
  "navigateNext s =
     (let s = s\<lparr>hasNavigatedRight := True, hasNavigatedDown := True\<rparr>;
          (changed, s) = nextFragment s in
      if changed then Some s
      else if down (availableRoutes s) then navigateDown s
      else if c_rtl (r_config s) then navigateLeft s
      else navigateRight s)"

section \<open>Saving and restoring the state\<close>

record saved_state =
  st_indexh :: jsnum
  st_indexv :: jsnum
  st_indexf :: jsnum
  st_paused :: bool
  st_overview :: bool

definition getState :: "reveal \<Rightarrow> saved_state" where
  "getState s =
     (let (h, v, f) = getIndices s in
      \<lparr>st_indexh = h, st_indexv = v, st_indexf = f, st_paused = isPaused s, st_overview = isOverview s\<rparr>)"

definition setState :: "saved_state \<Rightarrow> reveal \<Rightarrow> reveal option" where
  "setState st s =
     (case slide (st_indexh st) (st_indexv st) (st_indexf st) s of
        None \<Rightarrow> None
      | Some s \<Rightarrow>
          let s = (if st_paused st \<noteq> isPaused s then togglePause (Some (st_paused st)) s else s)
          in if st_overview st \<noteq> isOverview s then toggleOverview (Some (st_overview st)) s else Some s)"

section \<open>Timers\<close>

text \<open>What the browser runs when a pending timer is due; it is no longer pending then.\<close>

fun timer_callback :: "timer_call \<Rightarrow> reveal \<Rightarrow> reveal option" where
  "timer_callback Timer_auto_slide s = map_option cueAutoSlide (navigateNext s)"
| "timer_callback Timer_write_url s = Some (writeURL None s)"
| "timer_callback Timer_reset_stacks s = Some (reset_stacks s)"
| "timer_callback Timer_overview_animated s =
     Some (upd_dom (add_class ''overview-animated'' (r_wrapper s)) s)"
| "timer_callback Timer_overview_deactivated s =
     Some (upd_dom (remove_class ''overview-deactivating'' (r_wrapper s)) s)"
| "timer_callback Timer_background_transition s =
     Some (upd_dom (remove_class ''no-transition'' (r_background s)) s)"

definition fire_timer :: "timer \<Rightarrow> reveal \<Rightarrow> reveal option" where
  "fire_timer t s = timer_callback (t_call t) (clear_timeout (t_id t) s)"

section \<open>Keys\<close>

definition onUserInput :: "reveal \<Rightarrow> reveal" where
  "onUserInput s = (if c_autoSlideStoppable (r_config s) then pauseAutoSlide s else s)"

record key_event =
  k_code :: int
  k_shift :: bool
  k_alt :: bool
  k_ctrl :: bool
  k_meta :: bool

text \<open>
  The environment of a key press: whether the focused element takes keys (content-editable, input or
  notes).  User-defined bindings are callbacks of the page and are not modelled: \<open>config.keyboard\<close>
  is the default \<open>true\<close>, and \<open>config.keyboardCondition\<close> null.
\<close>

definition key_action :: "bool \<Rightarrow> key_event \<Rightarrow> reveal \<Rightarrow> (bool \<times> reveal) option" where
  "key_action autoSlideWasPaused e s =
     (let done = map_option (Pair True); c = k_code e in
      if c \<in> {80, 33} then done (navigatePrev s)
      else if c \<in> {78, 34} then done (navigateNext s)
      else if c \<in> {72, 37} then done (navigateLeft s)
      else if c \<in> {76, 39} then done (navigateRight s)
      else if c \<in> {75, 38} then done (navigateUp s)
      else if c \<in> {74, 40} then done (navigateDown s)
      else if c = 36 then done (slide (Num 0) Undef Undef s)
      else if c = 35 then done (slide (Num (2 ^ 1024 - 2 ^ 971)) Undef Undef s)
      else if c = 32 then
        done (if isOverview s then deactivateOverview s
              else if k_shift e then navigatePrev s else navigateNext s)
      else if c = 13 then
        if isOverview s then done (deactivateOverview s) else Some (False, s)
      else if c \<in> {58, 59, 66, 86, 190, 191} then Some (True, togglePause None s)
      else if c = 70 then Some (True, log_effect Call_requestFullscreen s)
      else if c = 65 then
        Some (True, if c_autoSlideStoppable (r_config s) then toggleAutoSlide (Some autoSlideWasPaused) s
                    else s)
      else Some (False, s))"

definition onDocumentKeyDown :: "bool \<Rightarrow> key_event \<Rightarrow> reveal \<Rightarrow> reveal option" where
  "onDocumentKeyDown focused e s =
     (let autoSlideWasPaused = autoSlidePaused s; s = onUserInput s in
      if focused \<or> (k_shift e \<and> k_code e \<noteq> 32) \<or> k_alt e \<or> k_ctrl e \<or> k_meta e then Some s
      else if isPaused s \<and> k_code e \<notin> {66, 86, 190, 191} then Some s
      else
        case key_action autoSlideWasPaused e s of
          None \<Rightarrow> None
        | Some (triggered, s) \<Rightarrow>
            (case (if triggered then Some (log_effect Prevent_default s)
                   else if k_code e \<in> {27, 79} \<and> r_transforms3d s then
                     map_option (log_effect Prevent_default)
                       (if r_overlay s then Some (log_effect Close_overlay (s\<lparr>r_overlay := False\<rparr>))
                        else toggleOverview None s)
                   else Some s) of
               None \<Rightarrow> None
             | Some s \<Rightarrow> Some (cueAutoSlide s)))"

text \<open>\<open>toggleHelp\<close> closes an overlay that is open and opens the help otherwise.\<close>

definition onDocumentKeyPress :: "bool \<Rightarrow> int \<Rightarrow> reveal \<Rightarrow> reveal" where
  "onDocumentKeyPress shiftKey charCode s =
     (if shiftKey \<and> charCode = 63 then
        if r_overlay s then log_effect Close_overlay (s\<lparr>r_overlay := False\<rparr>)
        else log_effect Show_help (s\<lparr>r_overlay := True\<rparr>)
      else s)"

section \<open>Touch\<close>

text \<open>
  A touch event: its points, and the chain of elements from its target up, each with the flag that it
  has the attribute \<open>data-prevent-swipe\<close>.
\<close>

record touch_event =
  te_points :: "(int \<times> int) list"
  te_prevent_swipe :: "bool list"

definition isSwipePrevented :: "touch_event \<Rightarrow> bool" where
  "isSwipePrevented e = list_ex (\<lambda>b. b) (te_prevent_swipe e)"

text \<open>
  Distances are kept as their squares, which are whole: \<open>distanceBetween\<close> is the radicand of the
  source's \<open>Math.sqrt\<close>, and \<open>spans_differ\<close> decides whether two distances differ by more than a
  threshold (\<open>spans_differ_sqrt\<close>).
\<close>

definition distanceBetween :: "int \<times> int \<Rightarrow> int \<times> int \<Rightarrow> int" where
  "distanceBetween a b = (let dx = fst a - fst b; dy = snd a - snd b in dx * dx + dy * dy)"

definition spans_differ :: "int \<Rightarrow> int \<Rightarrow> int \<Rightarrow> bool" where
  "spans_differ threshold a b \<longleftrightarrow>
     (let hi = max a b; lo = min a b; gap = hi - lo - threshold * threshold
      in gap > 0 \<and> gap * gap > 4 * threshold * threshold * lo)"

lemma sqrt_gap:
  fixes x y t :: real
  assumes "0 \<le> x" "x \<le> y" "0 < t"
  shows "y - x > t \<longleftrightarrow> y * y - x * x - t * t > 0 \<and>
    (y * y - x * x - t * t) * (y * y - x * x - t * t) > 4 * t * t * (x * x)"
proof -
  let ?g = "y * y - x * x - t * t"
  have "y - x > t \<longleftrightarrow> y * y > (x + t) * (x + t)"
  proof
    assume "y - x > t"
    then show "y * y > (x + t) * (x + t)" using assms by (intro mult_strict_mono') simp_all
  next
    assume "y * y > (x + t) * (x + t)"
    then show "y - x > t"
      using mult_mono [of y "x + t" y "x + t"] assms by force
  qed
  also have "\<dots> \<longleftrightarrow> ?g > 2 * t * x" by (simp add: algebra_simps)
  also have "\<dots> \<longleftrightarrow> ?g > 0 \<and> ?g * ?g > (2 * t * x) * (2 * t * x)"
  proof -
    have "0 \<le> 2 * t * x" using assms by simp
    then show ?thesis
      using mult_strict_mono' [of "2 * t * x" ?g "2 * t * x" ?g] mult_mono [of ?g "2 * t * x" ?g "2 * t * x"]
      by linarith
  qed
  also have "(2 * t * x) * (2 * t * x) = 4 * t * t * (x * x)" by simp
  finally show ?thesis .
qed

lemma spans_differ_sqrt:
  assumes "0 \<le> a" "0 \<le> b" "0 < t"
  shows "spans_differ t a b \<longleftrightarrow> \<bar>sqrt (of_int a) - sqrt (of_int b)\<bar> > of_int t"
proof -
  have main: "sqrt (of_int v) - sqrt (of_int u) > of_int t \<longleftrightarrow>
      v - u - t * t > 0 \<and> (v - u - t * t) * (v - u - t * t) > 4 * t * t * u"
    if "0 \<le> u" "u \<le> v" for u v :: int
  proof -
    have "sqrt (of_int v) - sqrt (of_int u) > of_int t \<longleftrightarrow>
        real_of_int (v - u - t * t) > 0 \<and>
        real_of_int ((v - u - t * t) * (v - u - t * t)) > of_int (4 * t * t * u)"
      using sqrt_gap [of "sqrt (of_int u)" "sqrt (of_int v)" "of_int t"] that assms(3) by simp
    then show ?thesis by (simp only: of_int_0_less_iff of_int_less_iff)
  qed
  show ?thesis
  proof (cases "a \<le> b")
    case True
    then have "\<bar>sqrt (of_int a) - sqrt (of_int b)\<bar> = sqrt (of_int b) - sqrt (real_of_int a)" by simp
    with True main [of a b] assms show ?thesis by (simp add: spans_differ_def Let_def max_def min_def)
  next
    case False
    then have "\<bar>sqrt (of_int a) - sqrt (of_int b)\<bar> = sqrt (of_int a) - sqrt (real_of_int b)" by simp
    with False main [of b a] assms show ?thesis by (simp add: spans_differ_def Let_def max_def min_def)
  qed
qed

definition touch_threshold :: int where "touch_threshold = 40"

definition onTouchStart :: "touch_event \<Rightarrow> reveal \<Rightarrow> reveal" where
  "onTouchStart e s =
     (if isSwipePrevented e then s
      else
        let p = te_points e ! 0;
            s = s\<lparr>touch_startX := fst p, touch_startY := snd p,
                   touch_startCount := int (length (te_points e))\<rparr>
        in if length (te_points e) = 2 \<and> c_overview (r_config s)
           then s\<lparr>touch_startSpan := distanceBetween (te_points e ! 1) (touch_startX s, touch_startY s)\<rparr>
           else s)"

definition pinch :: "touch_event \<Rightarrow> reveal \<Rightarrow> reveal option" where
  "pinch e s =
     (let currentSpan = distanceBetween (te_points e ! 1) (touch_startX s, touch_startY s) in
      if spans_differ touch_threshold (touch_startSpan s) currentSpan then
        let s = s\<lparr>touch_captured := True\<rparr> in
        if currentSpan < touch_startSpan s then Some (activateOverview s) else deactivateOverview s
      else Some s)"

definition swipe :: "int \<Rightarrow> int \<Rightarrow> reveal \<Rightarrow> reveal option" where
  "swipe deltaX deltaY s =
     (if deltaX > touch_threshold \<and> \<bar>deltaX\<bar> > \<bar>deltaY\<bar> then navigateLeft (s\<lparr>touch_captured := True\<rparr>)
      else if deltaX < - touch_threshold \<and> \<bar>deltaX\<bar> > \<bar>deltaY\<bar>
      then navigateRight (s\<lparr>touch_captured := True\<rparr>)
      else if deltaY > touch_threshold then navigateUp (s\<lparr>touch_captured := True\<rparr>)
      else if deltaY < - touch_threshold then navigateDown (s\<lparr>touch_captured := True\<rparr>)
      else Some s)"

definition onTouchMove :: "bool \<Rightarrow> touch_event \<Rightarrow> reveal \<Rightarrow> reveal option" where
  "onTouchMove android e s =
     (if isSwipePrevented e then Some s
      else if \<not> touch_captured s then
        let s = onUserInput s; p = te_points e ! 0; n = length (te_points e) in
        if n = 2 \<and> touch_startCount s = 2 \<and> c_overview (r_config s) then
          map_option (log_effect Prevent_default) (pinch e s)
        else if n = 1 \<and> touch_startCount s \<noteq> 2 then
          map_option
            (\<lambda>s. if c_embedded (r_config s) then
                    if touch_captured s \<or> isVerticalSlide (currentSlide s) s
                    then log_effect Prevent_default s else s
                  else log_effect Prevent_default s)
            (swipe (fst p - touch_startX s) (snd p - touch_startY s) s)
        else Some s
      else if android then Some (log_effect Prevent_default s)
      else Some s)"

definition onTouchEnd :: "reveal \<Rightarrow> reveal" where
  "onTouchEnd s = s\<lparr>touch_captured := False\<rparr>"

text \<open>Pointer events of a finger become touch events with one point.\<close>

definition pointer_touch :: "int \<times> int \<Rightarrow> bool list \<Rightarrow> touch_event" where
  "pointer_touch p prevent = \<lparr>te_points = [p], te_prevent_swipe = prevent\<rparr>"

definition onPointerDown :: "bool \<Rightarrow> int \<times> int \<Rightarrow> bool list \<Rightarrow> reveal \<Rightarrow> reveal" where
  "onPointerDown is_touch p prevent s = (if is_touch then onTouchStart (pointer_touch p prevent) s else s)"

definition onPointerMove :: "bool \<Rightarrow> bool \<Rightarrow> int \<times> int \<Rightarrow> bool list \<Rightarrow> reveal \<Rightarrow> reveal option" where
  "onPointerMove android is_touch p prevent s =
     (if is_touch then onTouchMove android (pointer_touch p prevent) s else Some s)"

definition onPointerUp :: "bool \<Rightarrow> reveal \<Rightarrow> reveal" where
  "onPointerUp is_touch s = (if is_touch then onTouchEnd s else s)"

section \<open>The mouse\<close>

text \<open>The wheel's delta is \<open>event.detail\<close>, or when that is 0 the negated \<open>wheelDelta\<close>.\<close>

definition onDocumentMouseScroll :: "int \<Rightarrow> int \<Rightarrow> reveal \<Rightarrow> reveal option" where
  "onDocumentMouseScroll detail wheelDelta s =
     (if r_now s - lastMouseWheelStep s > 600 then
        let s = s\<lparr>lastMouseWheelStep := r_now s\<rparr>;
            delta = (if detail \<noteq> 0 then detail else - wheelDelta)
        in if delta > 0 then navigateNext s else if delta < 0 then navigatePrev s else Some s
      else Some s)"

text \<open>\<open>Math.floor( ( clientX / offsetWidth ) * slidesTotal )\<close>, for a width that is not 0.\<close>

definition onProgressClicked :: "int \<Rightarrow> int \<Rightarrow> reveal \<Rightarrow> reveal option" where
  "onProgressClicked clientX offsetWidth s =
     (let s = log_effect Prevent_default (onUserInput s);
          slidesTotal = int (length (horizontalSlides s));
          slideIndex = (clientX * slidesTotal) div offsetWidth;
          slideIndex = (if c_rtl (r_config s) then slidesTotal - slideIndex else slideIndex)
      in slide (Num slideIndex) Undef Undef s)"

definition on_control :: "(reveal \<Rightarrow> reveal option) \<Rightarrow> reveal \<Rightarrow> reveal option" where
  "on_control navigate s = navigate (onUserInput (log_effect Prevent_default s))"

definition onNavigateLeftClicked :: "reveal \<Rightarrow> reveal option" where
  "onNavigateLeftClicked = on_control navigateLeft"

definition onNavigateRightClicked :: "reveal \<Rightarrow> reveal option" where
  "onNavigateRightClicked = on_control navigateRight"

definition onNavigateUpClicked :: "reveal \<Rightarrow> reveal option" where
  "onNavigateUpClicked = on_control navigateUp"

definition onNavigateDownClicked :: "reveal \<Rightarrow> reveal option" where
  "onNavigateDownClicked = on_control navigateDown"

definition onNavigatePrevClicked :: "reveal \<Rightarrow> reveal option" where
  "onNavigatePrevClicked = on_control navigatePrev"

definition onNavigateNextClicked :: "reveal \<Rightarrow> reveal option" where
  "onNavigateNextClicked = on_control navigateNext"

text \<open>A click on a slide of the overview; the argument is the section around the click's target.\<close>

definition attr_int :: "string \<Rightarrow> dom \<Rightarrow> node \<Rightarrow> jsnum" where
  "attr_int a d n = (case d_attr d n a of Some v \<Rightarrow> js_parse_int v | None \<Rightarrow> NaN)"

definition onOverviewSlideClicked :: "node option \<Rightarrow> reveal \<Rightarrow> reveal option" where
  "onOverviewSlideClicked element s =
     (if eventsAreBound s \<and> isOverview s then
        let s = log_effect Prevent_default s in
        case element of
          None \<Rightarrow> Some s
        | Some el \<Rightarrow>
            if has_class ''disabled'' (r_dom s) el then Some s
            else
              (case deactivateOverview s of
                 None \<Rightarrow> None
               | Some s \<Rightarrow>
                   slide (attr_int ''data-index-h'' (r_dom s) el) (attr_int ''data-index-v'' (r_dom s) el) Undef s)
      else Some s)"

definition onAutoSlidePlayerClick :: "reveal \<Rightarrow> reveal option" where
  "onAutoSlidePlayerClick s =
     (if isLastSlide s \<and> \<not> c_loop (r_config s) then
        map_option resumeAutoSlide (slide (Num 0) (Num 0) Undef s)
      else if autoSlidePaused s then Some (resumeAutoSlide s)
      else Some (pauseAutoSlide s))"

definition onWindowHashChange :: "reveal \<Rightarrow> reveal option" where
  "onWindowHashChange = readURL"

definition onWindowResize :: "reveal \<Rightarrow> reveal" where
  "onWindowResize = log_effect Do_layout"

definition onPageVisibilityChange :: "bool \<Rightarrow> bool \<Rightarrow> reveal \<Rightarrow> reveal" where
  "onPageVisibilityChange isHidden body_focused s =
     (if \<not> isHidden \<and> \<not> body_focused then log_effect Blur_focus s else s)"

section \<open>Synchronising\<close>

text \<open>\<open>sync\<close>; that listeners are bound is a flag, and the elements \<open>createBackgrounds\<close> makes are the
  browser's: the call is logged.\<close>

definition sync :: "reveal \<Rightarrow> reveal" where
  "sync s =
     (let s = log_effect Do_layout (s\<lparr>eventsAreBound := True\<rparr>);
          s = s\<lparr>autoSlide := configured_autoSlide s\<rparr>;
          s = cueAutoSlide s;
          s = log_effect Create_backgrounds s;
          s = writeURL None s;
          s = sortAllFragments s;
          s = updateControls s;
          s = updateProgress s;
          s = updateSlideNumber s;
          s = updateSlidesVisibility s;
          s = updateBackground True s;
          s = updateNotesVisibility s;
          s = updateNotes s;
          s = formatEmbeddedContent s;
          s = (if c_autoPlayMedia (r_config s) = Some False then stopEmbeddedContent False (currentSlide s) s
               else (case currentSlide s of None \<Rightarrow> s | Some n \<Rightarrow> startEmbeddedContent n s))
      in if isOverview s then layoutOverview s else s)"

end
