(* ===== verification/Reveal_Frame.thy ===== *)
theory Reveal_Frame
  imports Reveal_Input
begin

text \<open>
  Which operations only change the page: classes, attributes, styles, the log, listeners, backgrounds
  and the URL.  They leave the position, the timers, the configuration and the shape of the document
  alone.  What they keep of the classes is the parameter \<open>K\<close>: pairs of a class and a node, among the
  classes that the selectors rest on.  The locale \<open>kept\<close> is what \<open>K\<close> has to satisfy; it is interpreted
  for the class \<open>slides\<close> alone, and for the state of all slides.  The rules of \<open>page\<close> take an
  operation apart along the structure of its definition.
\<close>

named_theorems page

section \<open>Documents\<close>

type_synonym keep = "string \<Rightarrow> node \<Rightarrow> bool"

text \<open>
  Two attributes hold the index a stack is resumed at.  Whatever is written to them is a number, and an
  operation that is not about stacks writes neither.
\<close>

definition stack_attrs :: "string set" where
  "stack_attrs = {''data-start-indexv'', ''data-previous-indexv''}"

definition index_attr :: "string option \<Rightarrow> bool" where
  "index_attr a = (case a of Some (c # cs) \<Rightarrow> js_parse_int (c # cs) \<noteq> NaN | _ \<Rightarrow> True)"

definition attr_ok :: "string \<Rightarrow> string \<Rightarrow> bool" where
  "attr_ok a v \<longleftrightarrow> a \<notin> stack_attrs \<or> index_attr (Some v)"

lemma index_attr_None [simp]: "index_attr None"
  by (simp add: index_attr_def)

lemma attr_ok_other [simp]: "a \<notin> {''data-start-indexv'', ''data-previous-indexv''} \<Longrightarrow> attr_ok a v"
  by (simp add: attr_ok_def stack_attrs_def)

definition dom_keep :: "keep \<Rightarrow> dom \<Rightarrow> dom \<Rightarrow> bool" where
  "dom_keep K d d' \<longleftrightarrow> same_shape d d' \<and> (\<forall>c n. K c n \<longrightarrow> has_class c d' n = has_class c d n) \<and>
     (\<forall>a n. a \<in> stack_attrs \<longrightarrow> index_attr (d_attr d n a) \<longrightarrow> index_attr (d_attr d' n a))"

lemma attr_ok_number [simp]: "attr_ok a (js_show_int n)"
  by (simp add: attr_ok_def index_attr_def split: list.split) (metis jsnum.simps(6) parse_show_int')

lemma dom_keep_refl [page, simp]: "dom_keep K d d"
  by (simp add: dom_keep_def)

lemma dom_keep_trans: "dom_keep K a b \<Longrightarrow> dom_keep K b c \<Longrightarrow> dom_keep K a c"
  by (auto simp: dom_keep_def intro: same_shape_trans)

lemma dom_keep_upd [page]:
  "dom_keep K d x \<Longrightarrow> \<not> K c n \<Longrightarrow> dom_keep K d (add_class c n x)"
  "dom_keep K d x \<Longrightarrow> \<not> K c n \<Longrightarrow> dom_keep K d (remove_class c n x)"
  "dom_keep K d x \<Longrightarrow> attr_ok a v \<Longrightarrow> dom_keep K d (set_attr a v n x)"
  "dom_keep K d x \<Longrightarrow> dom_keep K d (remove_attr a n x)"
  "dom_keep K d x \<Longrightarrow> dom_keep K d (set_display w n x)"
  "dom_keep K d x \<Longrightarrow> dom_keep K d (set_text w n x)"
  by (auto simp: dom_keep_def attr_ok_def intro!: same_shape_trans [OF _ same_shape_sym [OF dom_upd_shape(2)]]
      same_shape_trans [OF _ same_shape_sym [OF dom_upd_shape(3)]]
      same_shape_trans [OF _ same_shape_sym [OF dom_upd_shape(4)]]
      same_shape_trans [OF _ same_shape_sym [OF dom_upd_shape(5)]]
      same_shape_trans [OF _ same_shape_sym [OF dom_upd_shape(6)]]
      same_shape_trans [OF _ same_shape_sym [OF dom_upd_shape(7)]])

lemma dom_keep_fold [page]:
  assumes "dom_keep K d x" "\<And>y e. dom_keep K d e \<Longrightarrow> dom_keep K d (f y e)"
  shows "dom_keep K d (fold f ys x)"
  using assms(1) by (induction ys arbitrary: x) (simp_all add: assms(2))

lemma dom_keep_if [page]:
  "(b \<Longrightarrow> dom_keep K d x) \<Longrightarrow> (\<not> b \<Longrightarrow> dom_keep K d y) \<Longrightarrow> dom_keep K d (if b then x else y)"
  by simp

lemma dom_keep_Let [page]:
  "dom_keep K d x \<Longrightarrow> (\<And>y. dom_keep K d y \<Longrightarrow> dom_keep K d (f y)) \<Longrightarrow> dom_keep K d (Let x f)"
  by simp

lemma dom_keep_option [page]:
  "(x = None \<Longrightarrow> dom_keep K d a) \<Longrightarrow> (\<And>y. x = Some y \<Longrightarrow> dom_keep K d (b y)) \<Longrightarrow>
    dom_keep K d (case x of None \<Rightarrow> a | Some y \<Rightarrow> b y)"
  by (cases x) simp_all

section \<open>Presentations\<close>

definition page_frame :: "keep \<Rightarrow> reveal \<Rightarrow> reveal \<Rightarrow> bool" where
  "page_frame K s s' \<longleftrightarrow> dom_keep K (r_dom s) (r_dom s') \<and>
     s' = s\<lparr>r_dom := r_dom s', r_log := r_log s', r_listening := r_listening s', r_bgImage := r_bgImage s',
            r_hash := r_hash s', previousBackground := previousBackground s'\<rparr>"

lemma page_frame_refl [page, simp]: "page_frame K s s"
  by (simp add: page_frame_def)

lemma page_frame_fields:
  assumes "page_frame K s s'"
  shows "indexh s' = indexh s" "indexv s' = indexv s" "currentSlide s' = currentSlide s"
    "previousSlide s' = previousSlide s" "r_config s' = r_config s" "overview s' = overview s"
    "r_timers s' = r_timers s" "r_next_timer s' = r_next_timer s" "slide_state s' = slide_state s"
    "autoSlide s' = autoSlide s" "autoSlideTimeout s' = autoSlideTimeout s"
    "autoSlidePaused s' = autoSlidePaused s" "writeURLTimeout s' = writeURLTimeout s"
    "r_wrapper s' = r_wrapper s" "r_slides s' = r_slides s" "r_background s' = r_background s"
    "r_root s' = r_root s" "r_printing s' = r_printing s" "r_slideBackground s' = r_slideBackground s"
    "r_autoSlidePlayer s' = r_autoSlidePlayer s" "same_shape (r_dom s) (r_dom s')"
  using assms unfolding page_frame_def dom_keep_def by (cases s; cases s'; simp)+

lemma page_frame_trans: "page_frame K s t \<Longrightarrow> page_frame K t u \<Longrightarrow> page_frame K s u"
  unfolding page_frame_def
  by (cases s; cases t; cases u) (auto intro: dom_keep_trans)

lemma page_upd_dom [page]:
  assumes "page_frame K s x" "dom_keep K (r_dom x) (f (r_dom x))"
  shows "page_frame K s (upd_dom f x)"
proof (rule page_frame_trans [OF assms(1)])
  show "page_frame K x (upd_dom f x)"
    using assms(2) by (simp add: page_frame_def upd_dom_def)
qed

lemma page_log [page]: "page_frame K s x \<Longrightarrow> page_frame K s (log_effect e x)"
  by (erule page_frame_trans) (simp add: page_frame_def log_effect_def)

lemma page_listen [page]:
  "page_frame K s x \<Longrightarrow> page_frame K s (listen ev n x)" "page_frame K s x \<Longrightarrow> page_frame K s (unlisten ev n x)"
  by (erule page_frame_trans; simp add: page_frame_def listen_def unlisten_def)+

lemma page_fields [page]:
  "page_frame K s x \<Longrightarrow> page_frame K s (x\<lparr>r_bgImage := b\<rparr>)" "page_frame K s x \<Longrightarrow> page_frame K s (x\<lparr>r_hash := h\<rparr>)"
  "page_frame K s x \<Longrightarrow> page_frame K s (x\<lparr>previousBackground := p\<rparr>)"
  by (erule page_frame_trans; simp add: page_frame_def)+

lemma page_fold [page]:
  assumes "page_frame K s x" "\<And>y t. page_frame K s t \<Longrightarrow> page_frame K s (f y t)"
  shows "page_frame K s (fold f ys x)"
  using assms(1) by (induction ys arbitrary: x) (simp_all add: assms(2))

lemma page_if [page]:
  "(b \<Longrightarrow> page_frame K s x) \<Longrightarrow> (\<not> b \<Longrightarrow> page_frame K s y) \<Longrightarrow> page_frame K s (if b then x else y)"
  by simp

lemma page_Let [page]:
  "page_frame K s x \<Longrightarrow> (\<And>y. page_frame K s y \<Longrightarrow> page_frame K s (f y)) \<Longrightarrow> page_frame K s (Let x f)"
  by simp

lemma page_Let_other:
  "(\<And>y. page_frame K s (f y)) \<Longrightarrow> page_frame K s (Let x f)"
  by simp

lemma page_option [page]:
  "(x = None \<Longrightarrow> page_frame K s a) \<Longrightarrow> (\<And>y. x = Some y \<Longrightarrow> page_frame K s (b y)) \<Longrightarrow>
    page_frame K s (case x of None \<Rightarrow> a | Some y \<Rightarrow> b y)"
  by (cases x) simp_all

lemma page_prod [page]:
  "(\<And>a b. x = (a, b) \<Longrightarrow> page_frame K s (f a b)) \<Longrightarrow> page_frame K s (case x of (a, b) \<Rightarrow> f a b)"
  by (cases x) simp

lemma page_list [page]:
  "(x = [] \<Longrightarrow> page_frame K s a) \<Longrightarrow> (\<And>y ys. x = y # ys \<Longrightarrow> page_frame K s (b y ys)) \<Longrightarrow>
    page_frame K s (case x of [] \<Rightarrow> a | y # ys \<Rightarrow> b y ys)"
  by (cases x) simp_all

text \<open>
  The classes that name the deck and its pause wherever they are, and the elements that \<open>K\<close> keeps no other
  class of: backgrounds are such.
\<close>

abbreviation name_classes :: "string set" where
  "name_classes \<equiv> {''slides'', ''paused''}"

definition unkept :: "keep \<Rightarrow> node \<Rightarrow> bool" where
  "unkept K n \<longleftrightarrow> (\<forall>c. K c n \<longrightarrow> c \<in> name_classes)"

lemma unkeptD: "unkept K n \<Longrightarrow> c \<notin> name_classes \<Longrightarrow> \<not> K c n"
  unfolding unkept_def by blast

lemma background_class_not_slides:
  "past \<notin> name_classes \<Longrightarrow> future \<notin> name_classes \<Longrightarrow> background_class past future i index \<notin> name_classes"
  by (simp add: background_class_def)

text \<open>
  The classes that selectors of slides rest on.  An operation that writes none of them keeps any \<open>K\<close>
  over them; the root element is exempt, it takes the classes that slides ask for.
\<close>

abbreviation key_classes :: "string set" where
  "key_classes \<equiv> {''slides'', ''paused'', ''past'', ''present'', ''future'', ''stack''}"

locale kept =
  fixes K :: keep and root :: node
  assumes key: "K c n \<Longrightarrow> c \<in> key_classes"
    and root: "\<not> K c root"
begin

lemma not_key [simp]: "c \<notin> key_classes \<Longrightarrow> \<not> K c n"
  by (rule notI) (drule key, erule notE, assumption)

section \<open>Media\<close>

lemma page_media [page]:
  assumes "page_frame K s x"
  shows "page_frame K s (startEmbeddedMedia n x)" "page_frame K s (startEmbeddedIframe n x)"
    "page_frame K s (start_lazy_iframe n x)" "page_frame K s (restart_gif n x)" "page_frame K s (stop_media n x)"
    "page_frame K s (stop_iframe n x)" "page_frame K s (post_unless_ignored m n x)"
    "page_frame K s (unload_iframe n x)"
  unfolding startEmbeddedMedia_def startEmbeddedIframe_def start_lazy_iframe_def restart_gif_def
    stop_media_def stop_iframe_def post_unless_ignored_def unload_iframe_def
  by (intro page assms; simp)+

lemma page_media2 [page]:
  assumes "page_frame K s x"
  shows "page_frame K s (start_media n x)" "page_frame K s (start_iframe n x)"
  unfolding start_media_def start_iframe_def
  by (intro page assms; simp)+

lemma page_embedded [page]:
  assumes "page_frame K s x"
  shows "page_frame K s (startEmbeddedContent n x)" "page_frame K s (stopEmbeddedContent b m x)"
  unfolding startEmbeddedContent_def stopEmbeddedContent_def
  by (intro page assms; simp)+

lemma dom_keep_move_attr [page]:
  "dom_keep K d x \<Longrightarrow> b \<notin> stack_attrs \<Longrightarrow> dom_keep K d (move_attr a b n x)"
  unfolding move_attr_def by (intro page; simp add: attr_ok_def)

lemma dom_keep_elements [page]:
  "dom_keep K d x \<Longrightarrow> dom_keep K d (load_element n x)"
  "dom_keep K d x \<Longrightarrow> dom_keep K d (unload_element n x)"
  unfolding load_element_def unload_element_def
  by (intro page; simp add: stack_attrs_def)+

lemma dom_keep_append_param [page]:
  assumes "dom_keep K d x" "a \<notin> stack_attrs"
  shows "dom_keep K d (append_param a q n x)"
proof -
  have "attr_ok a v" for v using assms(2) by (simp add: attr_ok_def)
  then show ?thesis
    unfolding append_param_def using assms(1)
    by (cases "d_attr x n a") (auto simp only: option.case intro!: page split: list.split)
qed

lemma page_loading [page]:
  assumes "page_frame K s x"
  shows "page_frame K s (load_sources n x)" "page_frame K s (unload_media n x)"
    "a \<notin> stack_attrs \<Longrightarrow> page_frame K s (append_params a u q x)" "page_frame K s (fill_background b sl bg x)"
  unfolding load_sources_def unload_media_def append_params_def fill_background_def
  by (intro page assms page_Let_other; simp)+

lemma page_load_media [page]: "page_frame K s x \<Longrightarrow> page_frame K s (load_media n x)"
  unfolding load_media_def by (intro page; simp)

lemma page_format [page]: "page_frame K s x \<Longrightarrow> page_frame K s (formatEmbeddedContent x)"
  unfolding formatEmbeddedContent_def by (intro page; simp add: stack_attrs_def)

section \<open>Fragments, controls, notes\<close>

lemma dom_keep_controls [page]:
  "dom_keep K d x \<Longrightarrow> dom_keep K d (control_off n x)" "dom_keep K d x \<Longrightarrow> dom_keep K d (control_on n x)"
  "dom_keep K d x \<Longrightarrow> dom_keep K d (control_fragmented n x)"
  unfolding control_off_def control_on_def control_fragmented_def by (intro page; simp)+

lemma page_upd_if [page]:
  assumes "page_frame K s x" "\<And>n d e. dom_keep K d e \<Longrightarrow> dom_keep K d (f n e)"
  shows "page_frame K s (upd_if b f ns x)" "page_frame K s (upd_all f ns x)"
  unfolding upd_if_def upd_all_def by (intro page assms; simp)+

lemma page_updates [page]:
  assumes "page_frame K s x"
  shows "page_frame K s (updateProgress x)" "page_frame K s (updateSlideNumber x)"
    "page_frame K s (updateNotesVisibility x)"
  unfolding updateProgress_def updateSlideNumber_def updateNotesVisibility_def
  using assms by (auto intro!: page split: option.split slide_number.split)

lemma page_updateNotes [page]: "page_frame K s x \<Longrightarrow> page_frame K s (updateNotes x)"
  unfolding updateNotes_def by (auto intro!: page split: option.split)

lemma page_updateControls [page]: "page_frame K s x \<Longrightarrow> page_frame K s (updateControls x)"
  unfolding updateControls_def
  by (rule page_Let_other, rule page_Let_other, rule page_prod; intro page; simp)

lemma dom_keep_number_group:
  "dom_keep K d (snd x) \<Longrightarrow> dom_keep K d (snd (number_group g x))"
  unfolding number_group_def by (cases x) (auto intro!: page)

lemma dom_keep_sort [page]: "dom_keep K d (snd (sort_fragments fs d))"
proof -
  have "dom_keep K d (snd x) \<Longrightarrow> dom_keep K d (snd (fold number_group gs x))" for gs and x :: "int \<times> dom"
    by (induction gs arbitrary: x) (simp_all add: dom_keep_number_group)
  then show ?thesis by (simp add: sort_fragments_def Let_def)
qed

lemma page_sortFragments [page]:
  assumes "page_frame K s x"
  shows "page_frame K s (snd (sortFragments fs x))"
proof (rule page_frame_trans [OF assms])
  show "page_frame K x (snd (sortFragments fs x))"
    using dom_keep_sort [of "r_dom x" fs]
    by (cases "sort_fragments fs (r_dom x)") (simp add: sortFragments_def page_frame_def dom_keep_def)
qed

lemma page_sortAllFragments [page]: "page_frame K s x \<Longrightarrow> page_frame K s (sortAllFragments x)"
  unfolding sortAllFragments_def
  by (rule page_fold, assumption, rule page_Let_other, intro page; simp)

lemma page_fragment_target [page]:
  assumes "page_frame K s x"
  shows "page_frame K s (snd (fragment_target i cur x))"
proof (rule page_frame_trans [OF assms])
  have "page_frame K x (snd (sortFragments (query_all fragment_visible_sel (r_dom x) cur) x))"
    by (rule page_sortFragments) simp
  then show "page_frame K x (snd (fragment_target i cur x))"
    by (auto simp: fragment_target_def Let_def split: prod.split list.split option.split)
qed

lemma page_fragment_step [page]:
  "page_frame K s (snd (snd t)) \<Longrightarrow> page_frame K s (snd (snd (fragment_step i ie t)))"
  unfolding fragment_step_def
  by (cases t; cases ie) (auto simp: Let_def intro!: page)

lemma page_navigateFragment [page]:
  assumes "page_frame K s x"
  shows "page_frame K s (snd (navigateFragment i k x))"
proof (rule page_frame_trans [OF assms])
  have fold: "page_frame K y (snd (snd t)) \<Longrightarrow> page_frame K y (snd (snd (fold (fragment_step j) ies t)))"
    for y j ies t
    by (induction ies arbitrary: t) (simp_all add: page_fragment_step)
  show "page_frame K x (snd (navigateFragment i k x))"
  proof (cases "currentSlide x")
    case None
    then show ?thesis by (simp add: navigateFragment_def)
  next
    case (Some cur)
    obtain fs y where y: "sortFragments (query_all fragment_sel (r_dom x) cur) x = (fs, y)" by fastforce
    obtain j z where z: "fragment_target i cur y = (j, z)" by fastforce
    define j' where "j' = (case k of Num k \<Rightarrow> num_add j k | NaN \<Rightarrow> NaN | Undef \<Rightarrow> j)"
    obtain sh hi w where w: "fold (fragment_step j') (zip [0..int (length fs) - 1] fs) ([], [], z) = (sh, hi, w)"
      by (metis prod_cases3)
    have xy: "page_frame K x y" using page_sortFragments [of x x "query_all fragment_sel (r_dom x) cur"] y by simp
    have "page_frame K x z" using page_fragment_target [OF xy, of i cur] z by simp
    then have xw: "page_frame K x w" using fold [of x "([], [], z)" j' "zip [0..int (length fs) - 1] fs"] w by simp
    show ?thesis
      using Some y z w xy xw
      by (auto simp: navigateFragment_def Let_def j'_def [symmetric] intro!: page split: if_splits)
  qed
qed

section \<open>Slides and backgrounds\<close>

lemma page_loadSlide [page]:
  assumes "page_frame K s x"
  shows "page_frame K s (loadSlide b n x)" "page_frame K s (unloadSlide n x)"
  unfolding loadSlide_def unloadSlide_def
  by (intro page assms; simp)+

lemma page_show_if [page]: "page_frame K s x \<Longrightarrow> page_frame K s (show_if b n x)"
  unfolding show_if_def by (intro page)

lemma page_slide_visibility [page]: "page_frame K s x \<Longrightarrow> page_frame K s (slide_visibility n yh x)"
  unfolding slide_visibility_def
  by (cases yh) (auto simp: Let_def intro!: page)

lemma dom_keep_flag_class [page]: "dom_keep K d x \<Longrightarrow> \<not> K c n \<Longrightarrow> dom_keep K d (flag_class b c n x)"
  unfolding flag_class_def by (intro page)

lemma page_updateSlidesVisibility [page]: "page_frame K s x \<Longrightarrow> page_frame K s (updateSlidesVisibility x)"
  unfolding updateSlidesVisibility_def
  by (auto simp: Let_def intro!: page)

lemma dom_keep_setPrevious [page]: "dom_keep K d x \<Longrightarrow> dom_keep K d (setPreviousVerticalIndex n v x)"
  unfolding setPreviousVerticalIndex_def by (intro page) simp_all

lemma page_resets [page]:
  assumes "page_frame K s x"
  shows "page_frame K s (reset_stacks x)" "page_frame K s (set_playing b x)"
    "page_frame K s (updateOverview x)"
  unfolding reset_stacks_def set_playing_def updateOverview_def
  by (intro page page_Let_other assms; simp)+

lemma page_translate [page]: "page_frame K s x \<Longrightarrow> page_frame K s (translate a b n x)"
  unfolding translate_def by (intro page)

lemma page_layout_vertical [page]: "page_frame K s x \<Longrightarrow> page_frame K s (layout_vertical h vn x)"
  unfolding layout_vertical_def by (cases vn) (simp add: Let_def; intro page; simp)

lemma page_layout_horizontal [page]: "page_frame K s x \<Longrightarrow> page_frame K s (layout_horizontal hn x)"
  unfolding layout_horizontal_def by (cases hn) (simp only: prod.case Let_def; intro page; simp)

lemma page_layoutOverview [page]: "page_frame K s x \<Longrightarrow> page_frame K s (layoutOverview x)"
  unfolding layoutOverview_def
  by (rule page_Let_other) (simp only: Let_def split_def; intro page)

section \<open>Backgrounds\<close>

lemma dom_keep_clear_classes: "dom_keep K d x \<Longrightarrow> unkept K n \<Longrightarrow> dom_keep K d (clear_classes n x)"
  unfolding clear_classes_def by (intro page unkeptD [of K]) simp_all

lemma dom_keep_background_class:
  "dom_keep K d x \<Longrightarrow> unkept K n \<Longrightarrow> c \<notin> name_classes \<Longrightarrow> dom_keep K d (add_class c n x)"
  by (intro page unkeptD [of K])

lemma page_background_vertical:
  assumes "page_frame K s (snd t)" "unkept K (snd vb)"
  shows "page_frame K s (snd (background_vertical h vb t))"
  using assms unfolding background_vertical_def
  by (cases t; cases vb)
    (simp add: Let_def; intro page dom_keep_background_class dom_keep_clear_classes
      background_class_not_slides; simp)

lemma page_background_horizontal:
  assumes "page_frame K s (snd t)" "unkept K (snd hb)"
    "\<And>v. v \<in> set (d_desc (r_dom s) (snd hb)) \<Longrightarrow> unkept K v"
  shows "page_frame K s (snd (background_horizontal b hb t))"
proof -
  have fold: "page_frame K s (snd (fold (background_vertical h) vs t))"
    if "page_frame K s (snd t)" "\<And>v. v \<in> set vs \<Longrightarrow> unkept K (snd v)" for h vs and t :: "node option \<times> reveal"
    using that by (induction vs arbitrary: t) (simp_all add: page_background_vertical)
  obtain h n where hb: "hb = (h, n)" by (cases hb)
  obtain cur u where t: "t = (cur, u)" by (cases t)
  let ?c = "background_class (if c_rtl (r_config u) then ''future'' else ''past'')
    (if c_rtl (r_config u) then ''past'' else ''future'') h (indexh u)"
  let ?u = "upd_dom (add_class ?c n) (upd_dom (clear_classes n) u)"
  have pu: "page_frame K s ?u"
    using assms by (intro page dom_keep_background_class dom_keep_clear_classes background_class_not_slides)
      (simp_all add: hb t)
  have "d_desc (r_dom ?u) = d_desc (r_dom s)"
    using page_frame_fields(21) [OF pu] by (simp add: same_shape_def)
  then have vs: "unkept K (snd v)" if "v \<in> set (zip ks (query_all slide_background_sel (r_dom ?u) n))" for v ks
    using that assms(3) by (cases v) (auto simp: query_all_def hb dest: set_zip_rightD)
  show ?thesis
    unfolding background_horizontal_def hb t prod.case Let_def
    using pu vs by (auto intro!: fold)
qed

lemma page_change_states:
  assumes "page_frame K s x" "r_root s = root"
  shows "page_frame K s (change_states before x)"
proof -
  have adds: "page_frame K s (snd (apply_states cs before x))" if "page_frame K s x" for cs before x
    using that
  proof (induction cs before x rule: apply_states.induct)
    case (2 c cs before x)
    then have "r_root x = root" using page_frame_fields(17) [OF 2(3)] assms(2) by simp
    then have "page_frame K s (log_effect (Dispatch c) (upd_dom (add_class c (r_root x)) x))"
      using 2(3) root by (intro page) simp_all
    with 2 show ?case by simp
  qed simp
  have "page_frame K s (fold (\<lambda>c y. upd_dom (remove_class c (r_root y)) y) cs x)" if "page_frame K s x" for cs x
    using that
  proof (induction cs arbitrary: x)
    case (Cons c cs)
    then have "r_root x = root" using page_frame_fields(17) [OF Cons(2)] assms(2) by simp
    then have "page_frame K s (upd_dom (remove_class c (r_root x)) x)"
      using Cons(2) root by (intro page) simp_all
    with Cons show ?case by simp
  qed simp
  with adds [OF assms(1), of "slide_state x" before] show ?thesis
    by (auto simp: change_states_def split: prod.split)
qed

end

section \<open>What is kept\<close>

text \<open>The names on all elements but the root; and with them the state classes of the sections.\<close>

definition keep_names :: "node \<Rightarrow> keep" where
  "keep_names r c n \<longleftrightarrow> c \<in> name_classes \<and> n \<noteq> r"

definition keep_slides :: "dom \<Rightarrow> node \<Rightarrow> keep" where
  "keep_slides d r c n \<longleftrightarrow> n \<noteq> r \<and> (c \<in> name_classes \<or> (c \<in> key_classes \<and> is_section d n))"

interpretation kn: kept "keep_names r" r for r
  by unfold_locales (auto simp: keep_names_def)

interpretation ks: kept "keep_slides d r" r for d r
  by unfold_locales (auto simp: keep_slides_def)

lemma keep_names_other [simp]: "c \<notin> name_classes \<Longrightarrow> \<not> keep_names r c n"
  by (simp add: keep_names_def)

lemma unkept_names [simp]: "unkept (keep_names r) n"
  by (simp add: unkept_def keep_names_def)

lemma unkept_slides: "\<not> is_section d n \<Longrightarrow> unkept (keep_slides d r) n"
  by (auto simp: unkept_def keep_slides_def)

lemma dom_keep_mono: "dom_keep K d d' \<Longrightarrow> (\<And>c n. L c n \<Longrightarrow> K c n) \<Longrightarrow> dom_keep L d d'"
  by (simp add: dom_keep_def)

lemma page_frame_mono: "page_frame K s s' \<Longrightarrow> (\<And>c n. L c n \<Longrightarrow> K c n) \<Longrightarrow> page_frame L s s'"
  unfolding page_frame_def using dom_keep_mono by blast

lemma page_frame_names: "page_frame (keep_slides d r) s s' \<Longrightarrow> page_frame (keep_names r) s s'"
  by (erule page_frame_mono) (simp add: keep_names_def keep_slides_def)

end
