(* ===== verification/Reveal_Deck.thy ===== *)
theory Reveal_Deck
  imports Reveal_Frame
begin

text \<open>
  What \<open>updateSlides\<close> makes of a list of slides: which one is present, which are past and future.
\<close>

section \<open>Indices\<close>

lemma clamp_index_range: "0 < n \<Longrightarrow> 0 \<le> clamp_index loop n i \<and> clamp_index loop n i < n"
  by (auto simp: clamp_index_def Let_def)

lemma clamp_index_loop: "0 < n \<Longrightarrow> clamp_index True n i = i mod n"
proof -
  assume n: "0 < n"
  have "0 \<le> i mod n" "i mod n < n" using n by simp_all
  then show ?thesis
    unfolding clamp_index_def Let_def if_True js_rem_loop [OF n, of i] by simp
qed

lemma clamp_index_id: "0 \<le> i \<Longrightarrow> i < n \<Longrightarrow> clamp_index loop n i = i"
  using clamp_index_loop [of n i] by (cases loop) (auto simp: clamp_index_def)

section \<open>Classes\<close>

definition state_class :: "string \<Rightarrow> bool" where
  "state_class c \<longleftrightarrow> c \<in> {''past'', ''present'', ''future''}"

lemma has_class_fold_other:
  assumes "\<And>e x d. has_class c (f e d) x = has_class c d x"
  shows "has_class c (fold f es d) x = has_class c d x"
  by (induction es arbitrary: d) (simp_all add: assms)

lemma fragments_keep_state:
  assumes "c \<noteq> ''visible''" "c \<noteq> ''current-fragment''"
  shows "has_class c (show_fragments el d) x = has_class c d x"
    "has_class c (hide_fragments el d) x = has_class c d x"
  unfolding show_fragments_def hide_fragments_def
  by (rule has_class_fold_other; use assms in auto)+

text \<open>The class \<open>updateSlides\<close> gives the slide at \<open>i\<close>.\<close>

definition placed_class :: "bool \<Rightarrow> int \<Rightarrow> int \<Rightarrow> string option" where
  "placed_class reverse index i =
     (if i < index then Some (if reverse then ''future'' else ''past'')
      else if i > index then Some (if reverse then ''past'' else ''future'') else None)"

lemma has_class_update_slide:
  assumes "state_class c"
  shows "has_class c (update_slide cfg False k (i, el) d) x =
    (if x = el then Some c = placed_class (c_rtl cfg \<and> \<not> parent_is_section d el) k i
     else has_class c d x)"
  using assms
  by (auto simp: update_slide_def Let_def placed_class_def state_class_def clear_classes_def
      fragments_keep_state)

lemma dom_keep_update_slide [page]:
  "dom_keep (keep_names r) d x \<Longrightarrow> dom_keep (keep_names r) d (update_slide cfg pm k ie x)"
  unfolding update_slide_def show_fragments_def hide_fragments_def
  by (cases ie) (simp only: prod.case Let_def; intro page kn.dom_keep_clear_classes; simp)

lemma parent_is_section_keep: "dom_keep K d d' \<Longrightarrow> parent_is_section d' n = parent_is_section d n"
  by (simp add: dom_keep_def same_shape_def parent_is_section_def is_section_def split: option.split)

lemma parent_is_section_update_slide [simp]:
  "parent_is_section (update_slide cfg pm k ie d) n = parent_is_section d n"
  using parent_is_section_keep [OF dom_keep_update_slide [OF dom_keep_refl]] by blast

lemma has_class_update_slides:
  assumes "state_class c" "distinct (map snd ies)"
  shows "has_class c (fold (update_slide cfg False k) ies d) x =
    (case map_of (map (\<lambda>(i, el). (el, i)) ies) x of
       None \<Rightarrow> has_class c d x
     | Some i \<Rightarrow> Some c = placed_class (c_rtl cfg \<and> \<not> parent_is_section d x) k i)"
  using assms(2)
proof (induction ies arbitrary: d)
  case (Cons ie ies)
  obtain i el where ie: "ie = (i, el)" by (cases ie)
  have "map_of (map (\<lambda>(i, el). (el, i)) ies) el = None"
    using Cons.prems by (auto simp: ie map_of_eq_None_iff image_iff)
  then show ?case
    using Cons ie
    by (auto simp: has_class_update_slide [OF assms(1)] split: option.split)
qed simp

lemma map_of_zip_upto:
  assumes "distinct xs" "j < length xs"
  shows "map_of (map (\<lambda>(i, el). (el, i)) (zip [0..int (length xs) - 1] xs)) (xs ! j) = Some (int j)"
proof -
  let ?zs = "map (\<lambda>(i, el). (el, i)) (zip [0..int (length xs) - 1] xs)"
  have "map fst ?zs = xs" by (rule nth_equalityI) (auto simp: split_beta)
  moreover have "(xs ! j, int j) \<in> set ?zs"
    using assms(2) by (force simp: set_zip image_iff)
  ultimately show ?thesis using assms(1) by (metis map_of_is_SomeI)
qed

lemma map_of_zip_upto_other:
  "x \<notin> set xs \<Longrightarrow> map_of (map (\<lambda>(i, el). (el, i)) (zip is xs)) x = None"
  by (auto simp: map_of_eq_None_iff image_iff dest: set_zip_rightD)

section \<open>\<open>updateSlides\<close>\<close>

lemma has_class_mark_present:
  "has_class c (mark_present el d) x \<longleftrightarrow> (x = el \<and> c = ''present'') \<or> has_class c d x"
  by (auto simp: mark_present_def)

lemma dom_keep_mark_present [page]: "dom_keep (keep_names r) d x \<Longrightarrow> dom_keep (keep_names r) d (mark_present el x)"
  unfolding mark_present_def by (intro page; simp)

lemma updateSlides_result:
  assumes "slides \<noteq> []"
  obtains s' where "updateSlides slides (Num i) s =
      Some (clamp_index (c_loop (r_config s)) (int (length slides)) i, s')"
    "page_frame (keep_names r) s (s'\<lparr>slide_state := slide_state s\<rparr>)"
    "r_dom s' = mark_present (slides ! nat (clamp_index (c_loop (r_config s)) (int (length slides)) i))
      (fold (update_slide (r_config s) (isPrintingPDF s)
          (clamp_index (c_loop (r_config s)) (int (length slides)) i))
        (zip [0..int (length slides) - 1] slides) (r_dom s))"
proof -
  define k where "k = clamp_index (c_loop (r_config s)) (int (length slides)) i"
  define d where "d = mark_present (slides ! nat k)
    (fold (update_slide (r_config s) (isPrintingPDF s) k) (zip [0..int (length slides) - 1] slides) (r_dom s))"
  define t where "t = s\<lparr>r_dom := d\<rparr>"
  have "updateSlides slides (Num i) s =
      Some (k, t\<lparr>slide_state := slide_state t @ slide_states (slides ! nat k) (r_dom t)\<rparr>)"
    using assms by (simp add: updateSlides_def Let_def k_def [symmetric] upd_dom_def d_def t_def)
  moreover have "dom_keep (keep_names r) (r_dom s) d" unfolding d_def by (intro page)
  then have "page_frame (keep_names r) s t" by (simp add: page_frame_def t_def dom_keep_def)
  ultimately show ?thesis by (intro that) (auto simp: k_def d_def t_def)
qed

lemma updateSlides_classes:
  assumes "distinct slides" "j < length slides" "\<not> isPrintingPDF s" "state_class c"
    "updateSlides slides (Num i) s = Some (k, s')"
  shows "has_class c (r_dom s') (slides ! j) \<longleftrightarrow>
    (if int j = k then c = ''present''
     else Some c = placed_class (c_rtl (r_config s) \<and> \<not> parent_is_section (r_dom s) (slides ! j)) k (int j))"
proof -
  have ne: "slides \<noteq> []" using assms(2) by auto
  let ?k = "clamp_index (c_loop (r_config s)) (int (length slides)) i"
  from updateSlides_result [OF ne, of i s] assms(5)
  have k: "k = ?k" and d: "r_dom s' = mark_present (slides ! nat k)
      (fold (update_slide (r_config s) False k) (zip [0..int (length slides) - 1] slides) (r_dom s))"
    using assms(3) by (auto simp: isPrintingPDF_def)
  have "0 \<le> k" "k < int (length slides)" using clamp_index_range [of "int (length slides)"] ne k by auto
  then have eq: "slides ! j = slides ! nat k \<longleftrightarrow> int j = k"
    using assms(1,2) by (auto simp: nth_eq_iff_index_eq)
  have "distinct (map snd (zip [0..int (length slides) - 1] slides))" using assms(1) by simp
  from has_class_update_slides [OF assms(4) this, of "r_config s" k "r_dom s" "slides ! j"]
  show ?thesis
    unfolding d has_class_mark_present eq
    by (auto simp: map_of_zip_upto [OF assms(1,2)] placed_class_def)
qed

section \<open>Properties\<close>

text \<open>
  C15: of a list of slides \<open>updateSlides\<close> makes exactly one present: the one at the index, taken modulo
  their number when the presentation loops and else brought into range.  Those before it are past,
  those after it future, and the other way round for horizontal slides of a right-to-left deck.
\<close>

theorem updateSlides_places:
  assumes "distinct slides" "j < length slides" "\<not> isPrintingPDF s"
  shows "\<exists>k s'. updateSlides slides (Num i) s = Some (k, s') \<and>
    k = (if c_loop (r_config s) then i mod int (length slides)
         else max (min i (int (length slides) - 1)) 0) \<and>
    has_class ''present'' (r_dom s') (slides ! j) = (int j = k) \<and>
    has_class ''past'' (r_dom s') (slides ! j) =
      (if c_rtl (r_config s) \<and> \<not> parent_is_section (r_dom s) (slides ! j) then int j > k else int j < k) \<and>
    has_class ''future'' (r_dom s') (slides ! j) =
      (if c_rtl (r_config s) \<and> \<not> parent_is_section (r_dom s) (slides ! j) then int j < k else int j > k)"
proof -
  have ne: "slides \<noteq> []" using assms(2) by auto
  let ?k = "clamp_index (c_loop (r_config s)) (int (length slides)) i"
  obtain s' where u: "updateSlides slides (Num i) s = Some (?k, s')"
    by (rule updateSlides_result [OF ne, of i s 0])
  have "?k = (if c_loop (r_config s) then i mod int (length slides)
         else max (min i (int (length slides) - 1)) 0)"
    using clamp_index_loop [of "int (length slides)" i] ne by (auto simp: clamp_index_def)
  moreover have "has_class ''present'' (r_dom s') (slides ! j) = (int j = ?k)"
    using updateSlides_classes [OF assms(1-3) _ u, of "''present''"]
    by (simp add: state_class_def placed_class_def)
  moreover have "has_class ''past'' (r_dom s') (slides ! j) =
      (if c_rtl (r_config s) \<and> \<not> parent_is_section (r_dom s) (slides ! j) then int j > ?k else int j < ?k)"
    using updateSlides_classes [OF assms(1-3) _ u, of "''past''"]
    by (cases "int j = ?k") (simp_all add: state_class_def placed_class_def)
  moreover have "has_class ''future'' (r_dom s') (slides ! j) =
      (if c_rtl (r_config s) \<and> \<not> parent_is_section (r_dom s) (slides ! j) then int j < ?k else int j > ?k)"
    using updateSlides_classes [OF assms(1-3) _ u, of "''future''"]
    by (cases "int j = ?k") (simp_all add: state_class_def placed_class_def)
  ultimately show ?thesis using u by blast
qed

theorem updateSlides_places_witness:
  "\<forall>s. \<exists>k s'. updateSlides [3, 4] (Num 5) (s\<lparr>r_printing := False\<rparr>) = Some (k, s') \<and>
    has_class ''present'' (r_dom s') 4 = (1 = k)"
proof (rule allI)
  fix s :: reveal
  from updateSlides_places [of "[3, 4]" 1 "s\<lparr>r_printing := False\<rparr>" 5]
  show "\<exists>k s'. updateSlides [3, 4] (Num 5) (s\<lparr>r_printing := False\<rparr>) = Some (k, s') \<and>
    has_class ''present'' (r_dom s') 4 = (1 = k)"
    by (simp add: isPrintingPDF_def) blast
qed

end
