(* ===== verification/Reveal_Position.thy ===== *)
theory Reveal_Position
  imports Reveal_Deck
begin

text \<open>
  The position of a presentation: that \<open>slide\<close> never fails on a well-shaped document, that it brings
  the indices into range, and that the current slide is the one at the indices.
\<close>

section \<open>Well-shaped documents\<close>

text \<open>
  What the presentation takes for granted of its document: slides are sections inside the wrapper,
  nested only one level deep; the wrapper is not the root; a stack's sections are its own children; backgrounds are no sections;
  and the attributes a stack is resumed at are numbers.
\<close>

definition nested_in :: "dom \<Rightarrow> node \<Rightarrow> node \<Rightarrow> bool" where
  "nested_in d h n \<longleftrightarrow> is_section d n \<and> d_parent d n = Some h"

definition section_ok :: "dom \<Rightarrow> node \<Rightarrow> node \<Rightarrow> node \<Rightarrow> bool" where
  "section_ok d w r n \<longleftrightarrow> \<not> has_class ''slides'' d n \<and>
     (case d_parent d n of None \<Rightarrow> True
      | Some p \<Rightarrow> p \<noteq> r \<and> (is_section d p \<longrightarrow> p \<in> set (d_desc d w)))"

definition background_ok :: "dom \<Rightarrow> node \<Rightarrow> bool" where
  "background_ok d b \<longleftrightarrow> \<not> is_section d b \<and> (\<forall>v \<in> set (d_desc d b). \<not> is_section d v)"

definition deck_ok :: "reveal \<Rightarrow> bool" where
  "deck_ok s \<longleftrightarrow>
     (let d = r_dom s; w = r_wrapper s in
      distinct (d_desc d w) \<and> \<not> is_section d (r_root s) \<and> w \<noteq> r_root s \<and>
      (\<forall>n \<in> set (d_desc d w). is_section d n \<longrightarrow> section_ok d w (r_root s) n) \<and>
      (\<forall>h \<in> set (horizontalSlides s). sections_in s h = filter (nested_in d h) (d_desc d w)) \<and>
      (\<forall>b \<in> set (d_kids d (r_background s)). background_ok d b) \<and>
      (\<forall>n. \<forall>a \<in> stack_attrs. index_attr (d_attr d n a)))"

section \<open>Frames\<close>

definition doc_frame :: "keep \<Rightarrow> reveal \<Rightarrow> reveal \<Rightarrow> bool" where
  "doc_frame K s s' \<longleftrightarrow> dom_keep K (r_dom s) (r_dom s') \<and> r_config s' = r_config s \<and>
     r_wrapper s' = r_wrapper s \<and> r_slides s' = r_slides s \<and> r_background s' = r_background s \<and>
     r_root s' = r_root s \<and> r_printing s' = r_printing s \<and> r_slideBackground s' = r_slideBackground s"

definition pos_frame :: "keep \<Rightarrow> reveal \<Rightarrow> reveal \<Rightarrow> bool" where
  "pos_frame K s s' \<longleftrightarrow> doc_frame K s s' \<and> indexh s' = indexh s \<and> indexv s' = indexv s \<and>
     currentSlide s' = currentSlide s \<and> overview s' = overview s"

lemma doc_frame_refl [simp]: "doc_frame K s s"
  by (simp add: doc_frame_def)

lemma pos_frame_refl [simp]: "pos_frame K s s"
  by (simp add: pos_frame_def)

lemma doc_frame_trans: "doc_frame K s t \<Longrightarrow> doc_frame K t u \<Longrightarrow> doc_frame K s u"
  unfolding doc_frame_def by (auto intro: dom_keep_trans)

lemma pos_frame_trans: "pos_frame K s t \<Longrightarrow> pos_frame K t u \<Longrightarrow> pos_frame K s u"
  unfolding pos_frame_def by (auto intro: doc_frame_trans)

lemma page_frame_dom: "page_frame K s s' \<Longrightarrow> dom_keep K (r_dom s) (r_dom s')"
  unfolding page_frame_def by (rule conjunct1)

lemma page_pos_frame: "page_frame K s s' \<Longrightarrow> pos_frame K s s'"
  using page_frame_fields [of K s s'] page_frame_dom [of K s s'] by (simp add: pos_frame_def doc_frame_def)

lemma pos_doc_frame: "pos_frame K s s' \<Longrightarrow> doc_frame K s s'"
  by (simp add: pos_frame_def)

lemma doc_frame_names: "doc_frame (keep_slides d r) s s' \<Longrightarrow> doc_frame (keep_names r) s s'"
  unfolding doc_frame_def by (auto elim!: dom_keep_mono simp: keep_names_def keep_slides_def)

lemma pos_frame_fields:
  "pos_frame K s (x\<lparr>previousSlide := a\<rparr>) = pos_frame K s x"
  "pos_frame K s (x\<lparr>autoSlide := b\<rparr>) = pos_frame K s x"
  "pos_frame K s (x\<lparr>autoSlideTimeout := i\<rparr>) = pos_frame K s x"
  "pos_frame K s (x\<lparr>autoSlideStartTime := i\<rparr>) = pos_frame K s x"
  "pos_frame K s (x\<lparr>autoSlidePaused := p\<rparr>) = pos_frame K s x"
  "pos_frame K s (x\<lparr>writeURLTimeout := i\<rparr>) = pos_frame K s x"
  "pos_frame K s (x\<lparr>slide_state := st\<rparr>) = pos_frame K s x"
  "pos_frame K s (x\<lparr>hasNavigatedRight := p\<rparr>) = pos_frame K s x"
  "pos_frame K s (x\<lparr>hasNavigatedDown := p\<rparr>) = pos_frame K s x"
  "pos_frame K s (clear_timeout i x) = pos_frame K s x"
  "pos_frame K s (snd (set_timeout c i x)) = pos_frame K s x"
  by (simp_all add: pos_frame_def doc_frame_def clear_timeout_def set_timeout_def)

section \<open>Queries of a well-shaped document\<close>

lemma deck_okD:
  assumes "deck_ok s"
  shows "distinct (d_desc (r_dom s) (r_wrapper s))" "\<not> is_section (r_dom s) (r_root s)"
    "\<And>n. n \<in> set (d_desc (r_dom s) (r_wrapper s)) \<Longrightarrow> is_section (r_dom s) n \<Longrightarrow>
      section_ok (r_dom s) (r_wrapper s) (r_root s) n"
    "\<And>h. h \<in> set (horizontalSlides s) \<Longrightarrow>
      sections_in s h = filter (nested_in (r_dom s) h) (d_desc (r_dom s) (r_wrapper s))"
    "\<And>b. b \<in> set (d_kids (r_dom s) (r_background s)) \<Longrightarrow> background_ok (r_dom s) b"
    "\<And>n a. a \<in> stack_attrs \<Longrightarrow> index_attr (d_attr (r_dom s) n a)"
    "r_wrapper s \<noteq> r_root s"
  using assms by (simp_all add: deck_ok_def Let_def)

lemma doc_frame_shape:
  assumes "doc_frame K s s'"
  shows "d_desc (r_dom s') = d_desc (r_dom s)" "d_kids (r_dom s') = d_kids (r_dom s)"
    "d_parent (r_dom s') = d_parent (r_dom s)" "is_section (r_dom s') = is_section (r_dom s)"
    "sections_in s' = sections_in s" "r_wrapper s' = r_wrapper s" "r_root s' = r_root s"
    "r_background s' = r_background s" "r_config s' = r_config s" "r_printing s' = r_printing s"
  using assms
  by (simp_all add: doc_frame_def dom_keep_def same_shape_def is_section_def [abs_def] fun_eq_iff
      sections_in_def query_all_def)

lemma doc_frame_class:
  "doc_frame K s s' \<Longrightarrow> K c n \<Longrightarrow> has_class c (r_dom s') n = has_class c (r_dom s) n"
  by (simp add: doc_frame_def dom_keep_def)

lemma section_ok_frame:
  assumes "doc_frame (keep_names (r_root s)) s s'" "section_ok (r_dom s) w (r_root s) n"
    "\<not> is_section (r_dom s) (r_root s)" "is_section (r_dom s) n"
  shows "section_ok (r_dom s') w (r_root s) n"
    "horizontal_sel (r_dom s') n = horizontal_sel (r_dom s) n"
proof -
  note sh = doc_frame_shape [OF assms(1)]
  have c: "has_class ''slides'' (r_dom s') m = has_class ''slides'' (r_dom s) m" if "m \<noteq> r_root s" for m
    by (rule doc_frame_class [OF assms(1)]) (simp add: keep_names_def that)
  have "n \<noteq> r_root s" using assms(3,4) by blast
  with c assms(2) show "section_ok (r_dom s') w (r_root s) n"
    by (simp add: section_ok_def sh split: option.splits)
  show "horizontal_sel (r_dom s') n = horizontal_sel (r_dom s) n"
    using c assms(2) by (auto simp: horizontal_sel_def parent_has_class_def section_ok_def sh split: option.splits)
qed

lemma horizontalSlides_frame:
  assumes "deck_ok s" "doc_frame (keep_names (r_root s)) s s'"
  shows "horizontalSlides s' = horizontalSlides s"
proof -
  note sh = doc_frame_shape [OF assms(2)]
  have "horizontal_sel (r_dom s') n = horizontal_sel (r_dom s) n" if "n \<in> set (d_desc (r_dom s) (r_wrapper s))" for n
  proof (cases "is_section (r_dom s) n")
    case True
    then show ?thesis using section_ok_frame(2) [OF assms(2) deck_okD(3) [OF assms(1) that] deck_okD(2) [OF assms(1)]] by simp
  next
    case False
    then show ?thesis by (simp add: horizontal_sel_def sh)
  qed
  then show ?thesis unfolding horizontalSlides_def query_all_def sh by (rule filter_cong [OF refl])
qed

lemma deck_ok_frame:
  assumes "deck_ok s" "doc_frame (keep_names (r_root s)) s s'"
  shows "deck_ok s'"
proof -
  note sh = doc_frame_shape [OF assms(2)] and d = deck_okD [OF assms(1)]
  have "index_attr (d_attr (r_dom s') n a)" if "a \<in> stack_attrs" for n a
    using assms(2) d(6) [OF that] that by (simp add: doc_frame_def dom_keep_def)
  moreover have "background_ok (r_dom s') b" if "b \<in> set (d_kids (r_dom s) (r_background s))" for b
    using d(5) [OF that] by (simp add: background_ok_def sh)
  moreover have "sections_in s h = filter (nested_in (r_dom s') h) (d_desc (r_dom s) (r_wrapper s))"
    if "h \<in> set (horizontalSlides s)" for h
    using d(4) [OF that] by (simp add: nested_in_def [abs_def] sh)
  moreover have "section_ok (r_dom s') (r_wrapper s) (r_root s) n"
    if "n \<in> set (d_desc (r_dom s) (r_wrapper s))" "is_section (r_dom s) n" for n
    using section_ok_frame(1) [OF assms(2) d(3) [OF that] d(2) that(2)] .
  ultimately show ?thesis
    using d(1,2,7) unfolding deck_ok_def Let_def horizontalSlides_frame [OF assms] sh by blast
qed

text \<open>The slides of a stack are no horizontal slides.\<close>

lemma horizontal_in:
  "h \<in> set (horizontalSlides s) \<Longrightarrow> h \<in> set (d_desc (r_dom s) (r_wrapper s)) \<and> is_section (r_dom s) h"
  by (simp add: horizontalSlides_def query_all_def horizontal_sel_def)

lemma deck_distinct:
  assumes "deck_ok s"
  shows "distinct (horizontalSlides s)" "h \<in> set (horizontalSlides s) \<Longrightarrow> distinct (sections_in s h)"
    "h \<in> set (horizontalSlides s) \<Longrightarrow> v \<in> set (sections_in s h) \<Longrightarrow> v \<notin> set (horizontalSlides s)"
    "h \<in> set (horizontalSlides s) \<Longrightarrow> v \<in> set (sections_in s h) \<Longrightarrow> nested_in (r_dom s) h v"
proof -
  note d = deck_okD [OF assms]
  show "distinct (horizontalSlides s)" using d(1) by (simp add: horizontalSlides_def query_all_def)
  assume h: "h \<in> set (horizontalSlides s)"
  show "distinct (sections_in s h)" using d(1) d(4) [OF h] by simp
  assume "v \<in> set (sections_in s h)"
  then have v: "nested_in (r_dom s) h v" using d(4) [OF h] by simp
  then show "nested_in (r_dom s) h v" .
  show "v \<notin> set (horizontalSlides s)"
  proof
    assume "v \<in> set (horizontalSlides s)"
    then have "has_class ''slides'' (r_dom s) h"
      using v by (auto simp: horizontalSlides_def query_all_def horizontal_sel_def parent_has_class_def nested_in_def)
    moreover have "section_ok (r_dom s) (r_wrapper s) (r_root s) h"
      using d(3) horizontal_in [OF h] by blast
    ultimately show False by (simp add: section_ok_def)
  qed
qed

text \<open>The horizontal slides of which exactly one is present.\<close>

definition present_at :: "node list \<Rightarrow> int \<Rightarrow> dom \<Rightarrow> bool" where
  "present_at xs k d \<longleftrightarrow> (\<forall>j < length xs. has_class ''present'' d (xs ! j) \<longleftrightarrow> int j = k)"

lemma verticalSlides_present:
  assumes "deck_ok s" "present_at (horizontalSlides s) (int j) (r_dom s)" "j < length (horizontalSlides s)"
  shows "verticalSlides s = sections_in s (horizontalSlides s ! j)"
proof -
  note d = deck_okD [OF assms(1)]
  let ?h = "horizontalSlides s ! j"
  have h: "?h \<in> set (horizontalSlides s)" using assms(3) by simp
  have present: "has_class ''present'' (r_dom s) p \<longleftrightarrow> p = ?h" if "p \<in> set (horizontalSlides s)" for p
    using that assms(2,3) nth_eq_iff_index_eq [OF deck_distinct(1) [OF assms(1)]]
    by (auto simp: in_set_conv_nth present_at_def)
  have "vertical_sel (r_dom s) n = nested_in (r_dom s) ?h n" if n: "n \<in> set (d_desc (r_dom s) (r_wrapper s))" for n
  proof (cases "is_section (r_dom s) n \<and> (\<exists>p. d_parent (r_dom s) n = Some p \<and> horizontal_sel (r_dom s) p)")
    case True
    then obtain p where p: "is_section (r_dom s) n" "d_parent (r_dom s) n = Some p" "horizontal_sel (r_dom s) p" by blast
    then have "p \<in> set (d_desc (r_dom s) (r_wrapper s))"
      using d(3) [OF n] by (auto simp: section_ok_def horizontal_sel_def)
    with p(3) have "p \<in> set (horizontalSlides s)" by (simp add: horizontalSlides_def query_all_def)
    with present p show ?thesis by (simp add: vertical_sel_def nested_in_def)
  next
    case False
    with h show ?thesis
      by (auto simp: vertical_sel_def nested_in_def horizontalSlides_def query_all_def split: option.split)
  qed
  then show ?thesis
    unfolding verticalSlides_def query_all_def d(4) [OF h] by (intro filter_cong) simp_all
qed

section \<open>Moving\<close>

lemma updateSlides_ok:
  assumes "slides \<noteq> []" "\<not> isPrintingPDF s" "distinct slides"
  obtains s' k where "updateSlides slides (Num i) s = Some (k, s')"
    "k = clamp_index (c_loop (r_config s)) (int (length slides)) i"
    "0 \<le> k" "k < int (length slides)"
    "pos_frame (keep_names r) s s'" "previousSlide s' = previousSlide s"
    "present_at slides k (r_dom s')"
    "\<And>c n. state_class c \<Longrightarrow> n \<notin> set slides \<Longrightarrow> has_class c (r_dom s') n = has_class c (r_dom s) n"
proof -
  let ?k = "clamp_index (c_loop (r_config s)) (int (length slides)) i"
  obtain s' where u: "updateSlides slides (Num i) s = Some (?k, s')"
    and p: "page_frame (keep_names r) s (s'\<lparr>slide_state := slide_state s\<rparr>)"
    and d: "r_dom s' = mark_present (slides ! nat ?k)
      (fold (update_slide (r_config s) (isPrintingPDF s) ?k) (zip [0..int (length slides) - 1] slides) (r_dom s))"
    by (rule updateSlides_result [OF assms(1), of i s r])
  have k: "0 \<le> ?k" "?k < int (length slides)"
    using clamp_index_range [of "int (length slides)"] assms(1) by simp_all
  show ?thesis
  proof
    show "updateSlides slides (Num i) s = Some (?k, s')" by (fact u)
    show "0 \<le> ?k" "?k < int (length slides)" by (fact k)+
    show "pos_frame (keep_names r) s s'"
      using page_pos_frame [OF p] by (simp add: pos_frame_fields)
    show "previousSlide s' = previousSlide s"
      using page_frame_fields(4) [OF p] by simp
    show "present_at slides ?k (r_dom s')"
      unfolding present_at_def
      using updateSlides_classes [OF assms(3) _ assms(2) _ u, of _ "''present''"]
      by (auto simp: state_class_def placed_class_def split: if_splits)
    show "has_class c (r_dom s') n = has_class c (r_dom s) n" if "state_class c" "n \<notin> set slides" for c n
    proof -
      have "distinct (map snd (zip [0..int (length slides) - 1] slides))" using assms(3) by simp
      from has_class_update_slides [OF that(1) this, of "r_config s" ?k "r_dom s" n]
      have "has_class c (fold (update_slide (r_config s) False ?k) (zip [0..int (length slides) - 1] slides) (r_dom s)) n
          = has_class c (r_dom s) n"
        by (simp add: map_of_zip_upto_other [OF that(2)])
      moreover have "n \<noteq> slides ! nat ?k" using that(2) k by (metis nat_less_iff nth_mem)
      ultimately show ?thesis
        using assms(2) unfolding d has_class_mark_present by (simp add: isPrintingPDF_def)
    qed
  qed simp
qed

lemma updateSlides_none: "updateSlides [] i s = Some (0, s)"
  by (simp add: updateSlides_def)

text \<open>The vertical index that a move to the horizontal slide \<open>x\<close> asks for.\<close>

definition asked_index :: "jsnum \<Rightarrow> jsnum \<Rightarrow> reveal \<Rightarrow> jsnum" where
  "asked_index h v s =
     or_default (if v = Undef \<and> \<not> isOverview s
       then getPreviousVerticalIndex (js_nth (horizontalSlides s) h) (r_dom s) else v) (indexv s)"

definition clamp_in :: "reveal \<Rightarrow> node list \<Rightarrow> int \<Rightarrow> int" where
  "clamp_in s xs i = (if xs = [] then 0 else clamp_index (c_loop (r_config s)) (int (length xs)) i)"

lemma slide_move_at:
  assumes "deck_ok s" "\<not> isPrintingPDF s" "horizontalSlides s \<noteq> []"
    and h: "or_default h (indexh s) = Num i"
    and x: "x = horizontalSlides s ! nat (clamp_in s (horizontalSlides s) i)"
    and v: "sections_in s x = [] \<or> asked_index h v s = Num j"
  obtains s' where "slide_move h v s = Some s'" "doc_frame (keep_names (r_root s)) s s'"
    "indexh s' = Num (clamp_in s (horizontalSlides s) i)" "indexv s' = Num (clamp_in s (sections_in s x) j)"
    "previousSlide s' = previousSlide s" "currentSlide s' = currentSlide s" "overview s' = overview s"
    "present_at (horizontalSlides s) (clamp_in s (horizontalSlides s) i) (r_dom s')"
    "sections_in s x \<noteq> [] \<Longrightarrow> present_at (sections_in s x) (clamp_in s (sections_in s x) j) (r_dom s')"
proof -
  let ?r = "r_root s" and ?hs = "horizontalSlides s" and ?vs = "sections_in s x"
  define k where "k = clamp_in s ?hs i"
  define m where "m = clamp_in s ?vs j"
  have k: "0 \<le> k" "k < int (length ?hs)"
    using clamp_index_range [of "int (length ?hs)"] assms(3) by (simp_all add: k_def clamp_in_def)
  have xk: "?hs ! nat k = x" using x by (simp add: k_def)
  with k have xin: "x \<in> set ?hs" using nth_mem [of "nat k" ?hs] by auto
  define s0 where "s0 = (case previousSlide s of
      None \<Rightarrow> s
    | Some p \<Rightarrow> (case d_parent (r_dom s) p of
        None \<Rightarrow> s
      | Some st \<Rightarrow> if has_class ''stack'' (r_dom s) st
                   then upd_dom (setPreviousVerticalIndex st (indexv s)) s else s))"
  define s1 where "s1 = s0\<lparr>slide_state := []\<rparr>"
  have p0: "page_frame (keep_names ?r) s s0" unfolding s0_def by (intro page)
  then have p1: "pos_frame (keep_names ?r) s s1"
    using page_pos_frame [OF p0] by (simp add: s1_def pos_frame_fields)
  have prev1: "previousSlide s1 = previousSlide s" using page_frame_fields(4) [OF p0] by (simp add: s1_def)
  have f1: "doc_frame (keep_names ?r) s s1" using p1 by (rule pos_doc_frame)
  have sh1: "indexh s1 = indexh s" "indexv s1 = indexv s" "r_config s1 = r_config s" "overview s1 = overview s"
      "currentSlide s1 = currentSlide s" "isPrintingPDF s1 = isPrintingPDF s"
    using p1 by (simp_all add: pos_frame_def doc_frame_def isPrintingPDF_def)
  note d1 = deck_ok_frame [OF assms(1) f1] and hs1 = horizontalSlides_frame [OF assms(1) f1]
  have c1: "k = clamp_index (c_loop (r_config s1)) (int (length ?hs)) i"
    using assms(3) by (simp add: k_def clamp_in_def sh1)
  obtain s2 where u1: "updateSlides ?hs (Num i) s1 = Some (k, s2)"
    and p2: "pos_frame (keep_names ?r) s1 s2" "previousSlide s2 = previousSlide s1"
      "present_at ?hs k (r_dom s2)"
    using updateSlides_ok [of ?hs s1 i ?r] deck_distinct(1) [OF assms(1)] assms(2,3) sh1(6) c1 by metis
  define s3 where "s3 = s2\<lparr>indexh := Num k\<rparr>"
  have f3: "doc_frame (keep_names ?r) s s3"
    using doc_frame_trans [OF f1 pos_doc_frame [OF p2(1)]] by (simp add: s3_def doc_frame_def)
  note d3 = deck_ok_frame [OF assms(1) f3] and hs3 = horizontalSlides_frame [OF assms(1) f3]
    and sec3 = doc_frame_shape(5) [OF f3]
  have v3: "verticalSlides s3 = ?vs"
  proof -
    have "present_at (horizontalSlides s3) (int (nat k)) (r_dom s3)"
      using p2(3) k(1) unfolding hs3 by (simp add: s3_def)
    moreover have "nat k < length (horizontalSlides s3)" using k unfolding hs3 by simp
    ultimately show ?thesis using verticalSlides_present [OF d3] xk unfolding hs3 sec3 by metis
  qed
  have ind: "or_default (if v = Undef \<and> \<not> isOverview s
       then getPreviousVerticalIndex (js_nth ?hs h) (r_dom s) else v) (indexv s3) = asked_index h v s"
    using p2(1) sh1 by (simp add: asked_index_def pos_frame_def s3_def)
  have c3: "c_loop (r_config s3) = c_loop (r_config s)" using doc_frame_shape(9) [OF f3] by simp
  obtain s4 where u2: "updateSlides ?vs (asked_index h v s) s3 = Some (m, s4)"
    and p4: "pos_frame (keep_names ?r) s3 s4" "previousSlide s4 = previousSlide s3"
      "?vs \<noteq> [] \<Longrightarrow> present_at ?vs m (r_dom s4)"
      "\<And>c n. state_class c \<Longrightarrow> n \<notin> set ?vs \<Longrightarrow> has_class c (r_dom s4) n = has_class c (r_dom s3) n"
  proof (cases "?vs = []")
    case True
    then show ?thesis using that [of s3] by (simp add: updateSlides_none m_def clamp_in_def)
  next
    case False
    have "\<not> isPrintingPDF s3" using assms(2) doc_frame_shape(10) [OF f3] by (simp add: isPrintingPDF_def)
    moreover have "asked_index h v s = Num j" using v False by simp
    moreover have "m = clamp_index (c_loop (r_config s3)) (int (length ?vs)) j"
      using False by (simp add: m_def clamp_in_def c3)
    ultimately show ?thesis
      using updateSlides_ok [of ?vs s3 j ?r] deck_distinct(2) [OF assms(1) xin] False that by metis
  qed
  have move: "slide_move h v s = Some (s4\<lparr>indexv := Num m\<rparr>)"
  proof -
    have hs1': "horizontalSlides s1 = ?hs" by (rule hs1)
    have "or_default h (indexh s1) = Num i" using h sh1 by simp
    then show ?thesis
      unfolding slide_move_def Let_def s0_def [symmetric] s1_def [symmetric] hs1'
      using u1 u2 ind v3 by (simp add: s3_def)
  qed
  have p34: "indexh s4 = Num k" "currentSlide s4 = currentSlide s" "overview s4 = overview s"
      "previousSlide s4 = previousSlide s"
    using p4(1,2) p2 sh1 prev1 by (simp_all add: pos_frame_def s3_def)
  show ?thesis
  proof
    show "slide_move h v s = Some (s4\<lparr>indexv := Num m\<rparr>)" by (fact move)
    show "doc_frame (keep_names ?r) s (s4\<lparr>indexv := Num m\<rparr>)"
      using doc_frame_trans [OF f3 pos_doc_frame [OF p4(1)]] by (simp add: doc_frame_def)
    show "present_at ?hs (clamp_in s ?hs i) (r_dom (s4\<lparr>indexv := Num m\<rparr>))"
    proof -
      have "has_class ''present'' (r_dom s4) n = has_class ''present'' (r_dom s3) n" if "n \<in> set ?hs" for n
        using p4(4) [of "''present''" n] deck_distinct(3) [OF assms(1) xin] that by (auto simp: state_class_def)
      then show ?thesis using p2(3) by (simp add: present_at_def s3_def k_def)
    qed
    show "?vs \<noteq> [] \<Longrightarrow> present_at ?vs (clamp_in s ?vs j) (r_dom (s4\<lparr>indexv := Num m\<rparr>))"
      using p4(3) by (simp add: m_def)
  qed (simp_all add: p34 k_def m_def)
qed

section \<open>The rest of \<open>slide\<close>\<close>

context kept begin

lemma updateBackground_frame:
  assumes "\<And>b. b \<in> set (d_kids (r_dom s) (r_background s)) \<Longrightarrow>
    unkept K b \<and> (\<forall>v \<in> set (d_desc (r_dom s) b). unkept K v)"
  obtains t where "page_frame K s t"
    "updateBackground b s = snd (set_timeout Timer_background_transition 1 t)"
proof -
  let ?kids = "d_kids (r_dom s) (r_background s)"
  have "page_frame K s (snd (fold (background_horizontal b) hbs t))"
    if "page_frame K s (snd t)" "set hbs \<subseteq> set (zip js ?kids)" for hbs js and t :: "node option \<times> reveal"
    using that
  proof (induction hbs arbitrary: t)
    case (Cons hb hbs)
    then have "snd hb \<in> set ?kids" by (cases hb) (auto dest: set_zip_rightD)
    then have "page_frame K s (snd (background_horizontal b hb t))"
      using Cons.prems assms by (intro page_background_horizontal) auto
    with Cons show ?case by simp
  qed simp
  from this [OF _ subset_refl, of "(None, s)"]
  have bgs: "page_frame K s (snd (fold (background_horizontal b) (zip [0..int (length ?kids) - 1] ?kids) (None, s)))"
    by simp
  obtain cur t where t: "fold (background_horizontal b) (zip [0..int (length ?kids) - 1] ?kids) (None, s) = (cur, t)"
    by fastforce
  define t2 where "t2 = (if previousBackground t \<noteq> None then stopEmbeddedContent True (previousBackground t) t else t)"
  define t3 where "t3 = (case cur of
      None \<Rightarrow> t2
    | Some b \<Rightarrow>
       let s = startEmbeddedContent b t2;
           s = (if contains ''.gif'' (map lower_char (r_bgImage s b)) then log_effect (Restart_image b) s else s);
           previousHash = (case previousBackground s of
              None \<Rightarrow> None | Some p \<Rightarrow> d_attr (r_dom s) p ''data-background-hash'');
           currentHash = d_attr (r_dom s) b ''data-background-hash'';
           s = (if currentHash \<noteq> None \<and> currentHash \<noteq> Some [] \<and>
                   currentHash = previousHash \<and> Some b \<noteq> previousBackground s
                then upd_dom (add_class ''no-transition'' (r_background s)) s else s)
       in s\<lparr>previousBackground := Some b\<rparr>)"
  define t4 where "t4 = (case currentSlide t3 of
      None \<Rightarrow> t3
    | Some sl \<Rightarrow>
        fold (\<lambda>c s. upd_dom (flag_class (has_class c (r_dom s) sl) c (r_wrapper s)) s)
          [''has-light-background'', ''has-dark-background''] t3)"
  have t2: "page_frame K s t2" unfolding t2_def using bgs t by (intro page) simp_all
  have t3: "page_frame K s t3" unfolding t3_def using t2 by (intro page page_Let_other; simp)
  have t4: "page_frame K s t4"
    using t3 unfolding t4_def by (cases "currentSlide t3") (auto intro!: page)
  have "updateBackground b s = snd (set_timeout Timer_background_transition 1 t4)"
    unfolding updateBackground_def t4_def t3_def t2_def Let_def t prod.case by (rule refl)
  with t4 show ?thesis by (rule that)
qed

end

lemma pos_updateBackground:
  assumes "deck_ok s"
  shows "pos_frame (keep_slides (r_dom s) (r_root s)) s (updateBackground b s)"
proof -
  let ?K = "keep_slides (r_dom s) (r_root s)"
  have "unkept ?K b \<and> (\<forall>v \<in> set (d_desc (r_dom s) b). unkept ?K v)" if "b \<in> set (d_kids (r_dom s) (r_background s))" for b
    using deck_okD(5) [OF assms that] by (simp add: background_ok_def unkept_slides)
  then obtain t where "page_frame ?K s t" "updateBackground b s = snd (set_timeout Timer_background_transition 1 t)"
    by (rule ks.updateBackground_frame)
  then show ?thesis using page_pos_frame by (simp add: pos_frame_fields)
qed

lemma pos_writeURL: "pos_frame K s (writeURL delay s)"
  by (auto simp: writeURL_def Let_def pos_frame_fields log_effect_def set_timeout_def clear_timeout_def
      pos_frame_def doc_frame_def split: option.split)

lemma pos_log [simp]: "pos_frame K s (log_effect e x) = pos_frame K s x"
  by (simp add: pos_frame_def doc_frame_def log_effect_def)

lemma pos_cancelAutoSlide: "pos_frame K s (cancelAutoSlide s)"
  by (simp add: cancelAutoSlide_def pos_frame_fields)

lemma pos_set_playing [simp]: "pos_frame K s (set_playing b x) = pos_frame K s x"
  by (simp add: set_playing_def)

lemma pos_cue_timer: "pos_frame K s (cue_timer s)"
  using pos_frame_fields(11) [of K s Timer_auto_slide "num_or0 (autoSlide s)" s]
  by (cases "set_timeout Timer_auto_slide (num_or0 (autoSlide s)) s")
    (simp add: cue_timer_def pos_frame_fields)

lemma pos_cueAutoSlide: "pos_frame K s (cueAutoSlide s)"
proof -
  let ?s = "cancelAutoSlide s"
  have s: "pos_frame K s ?s" by (rule pos_cancelAutoSlide)
  have "pos_frame K s (cue_timer (?s\<lparr>autoSlide := n\<rparr>))" for n
    using pos_frame_trans [OF _ pos_cue_timer, of K s "?s\<lparr>autoSlide := n\<rparr>"] s by (simp add: pos_frame_fields)
  with s show ?thesis
    by (auto simp: cueAutoSlide_def Let_def split: option.split)
qed

lemma pos_slide_settle:
  assumes "deck_ok s"
  shows "pos_frame (keep_slides (r_dom s) (r_root s)) s (slide_settle b s)"
proof -
  let ?K = "keep_slides (r_dom s) (r_root s)"
  define s1 where "s1 = (if b \<or> previousSlide s = None
       then startEmbeddedContent (the (currentSlide s)) (stopEmbeddedContent True (previousSlide s) s) else s)"
  define s2 where "s2 = updateProgress (updateControls
      (upd_dom (set_text (r_status_text s1 (the (currentSlide s1))) (r_statusDiv s1)) s1))"
  define s3 where "s3 = updateBackground False s2"
  define s4 where "s4 = updateNotes (updateSlideNumber (log_effect Do_parallax s3))"
  have p2: "page_frame ?K s s2" unfolding s1_def s2_def by (intro page)
  then have p2': "pos_frame ?K s s2" by (rule page_pos_frame)
  have d2: "deck_ok s2"
    by (rule deck_ok_frame [OF assms doc_frame_names [OF pos_doc_frame [OF p2']]])
  have "is_section (r_dom s2) = is_section (r_dom s)" "r_root s2 = r_root s"
    using doc_frame_shape [OF pos_doc_frame [OF p2']] by simp_all
  then have "keep_slides (r_dom s2) (r_root s2) = ?K" by (simp add: keep_slides_def fun_eq_iff)
  then have "pos_frame ?K s2 s3" using pos_updateBackground [OF d2] by (simp add: s3_def)
  then have p3: "pos_frame ?K s s3" by (rule pos_frame_trans [OF p2'])
  have "page_frame ?K s3 s4" unfolding s4_def by (intro page)
  then have "pos_frame ?K s s4" by (rule pos_frame_trans [OF p3 page_pos_frame])
  then have "pos_frame ?K s (cueAutoSlide (writeURL None s4))"
    by (rule pos_frame_trans [OF pos_frame_trans [OF _ pos_writeURL] pos_cueAutoSlide])
  then show ?thesis
    by (simp add: slide_settle_def Let_def s1_def s2_def s3_def s4_def)
qed

lemma leave_previous_at:
  "pos_frame (keep_names r) s (leave_previous s)"
  "has_class c (r_dom (leave_previous s)) n \<longleftrightarrow>
    has_class c (r_dom s) n \<and> \<not> (c = ''present'' \<and> previousSlide s = Some n)"
proof -
  have "page_frame (keep_names r) s
      (upd_dom (set_attr ''aria-hidden'' ''true'' p) (upd_dom (remove_class ''present'' p) s))" for p
    by (intro page) simp_all
  then have pos: "pos_frame (keep_names r) s
      (upd_dom (set_attr ''aria-hidden'' ''true'' p) (upd_dom (remove_class ''present'' p) s))" for p
    by (rule page_pos_frame)
  show "pos_frame (keep_names r) s (leave_previous s)"
    using pos by (auto simp: leave_previous_def Let_def pos_frame_fields split: option.split list.split)
  show "has_class c (r_dom (leave_previous s)) n \<longleftrightarrow>
      has_class c (r_dom s) n \<and> \<not> (c = ''present'' \<and> previousSlide s = Some n)"
    by (auto simp: leave_previous_def Let_def upd_dom_def set_timeout_def split: option.split list.split)
qed

section \<open>Positions\<close>

text \<open>
  The presentation is at the slide \<open>(h, v)\<close>: the indices are in range, the current slide is the one
  they name, and it and its stack are the only present ones.
\<close>

definition slide_at :: "reveal \<Rightarrow> int \<Rightarrow> int \<Rightarrow> node" where
  "slide_at s h v =
     (let x = horizontalSlides s ! nat h in
      if sections_in s x = [] then x else sections_in s x ! nat v)"

definition valid_position :: "reveal \<Rightarrow> int \<Rightarrow> int \<Rightarrow> bool" where
  "valid_position s h v \<longleftrightarrow>
     (let vs = sections_in s (horizontalSlides s ! nat h) in
      0 \<le> h \<and> h < int (length (horizontalSlides s)) \<and>
      (if vs = [] then v = 0 else 0 \<le> v \<and> v < int (length vs)))"

definition at_slide :: "reveal \<Rightarrow> int \<Rightarrow> int \<Rightarrow> bool" where
  "at_slide s h v \<longleftrightarrow>
     indexh s = Num h \<and> indexv s = Num v \<and> valid_position s h v \<and>
     currentSlide s = Some (slide_at s h v) \<and> present_at (horizontalSlides s) h (r_dom s) \<and>
     present_at (sections_in s (horizontalSlides s ! nat h)) v (r_dom s)"

text \<open>Before the first slide nothing is current.\<close>

definition position_ok :: "reveal \<Rightarrow> bool" where
  "position_ok s \<longleftrightarrow>
     (indexh s = Undef \<and> indexv s = Undef \<and> currentSlide s = None) \<or> (\<exists>h v. at_slide s h v)"

lemma valid_slide_at:
  assumes "deck_ok s" "valid_position s h v"
  shows "horizontalSlides s ! nat h \<in> set (horizontalSlides s)"
    "sections_in s (horizontalSlides s ! nat h) \<noteq> [] \<Longrightarrow>
      slide_at s h v \<in> set (sections_in s (horizontalSlides s ! nat h))"
  using assms(2) by (auto simp: valid_position_def slide_at_def Let_def split: if_splits)

lemma slide_at_horizontal:
  assumes "deck_ok s" "valid_position s h v" "0 \<le> k" "k < int (length (horizontalSlides s))"
    "slide_at s h v = horizontalSlides s ! nat k"
  shows "h = k \<and> sections_in s (horizontalSlides s ! nat k) = []"
proof -
  note v = valid_slide_at [OF assms(1,2)]
  have "slide_at s h v \<in> set (horizontalSlides s)" using assms(3-5) by simp
  then have empty: "sections_in s (horizontalSlides s ! nat h) = []"
    using v deck_distinct(3) [OF assms(1)] by blast
  then have "horizontalSlides s ! nat h = horizontalSlides s ! nat k"
    using assms(5) by (simp add: slide_at_def)
  then have "h = k"
    using deck_distinct(1) [OF assms(1)] assms(2-4)
    by (auto simp: nth_eq_iff_index_eq valid_position_def Let_def)
  with empty show ?thesis by simp
qed

lemma slide_at_inject:
  assumes "deck_ok s" "valid_position s h v" "valid_position s k m" "slide_at s h v = slide_at s k m"
  shows "h = k \<and> v = m"
proof (cases "sections_in s (horizontalSlides s ! nat k) = []")
  case True
  then have "slide_at s h v = horizontalSlides s ! nat k" using assms(4) by (simp add: slide_at_def)
  from slide_at_horizontal [OF assms(1,2) _ _ this] assms(3) True
  have "h = k" by (auto simp: valid_position_def Let_def)
  with True assms(2,3) show ?thesis by (simp add: valid_position_def)
next
  case False
  note hv = valid_slide_at [OF assms(1,2)] and km = valid_slide_at [OF assms(1,3)]
  have nest: "nested_in (r_dom s) (horizontalSlides s ! nat k) (slide_at s k m)"
    using deck_distinct(4) [OF assms(1) km(1) km(2)] False by simp
  have vs: "sections_in s (horizontalSlides s ! nat h) \<noteq> []"
  proof
    assume "sections_in s (horizontalSlides s ! nat h) = []"
    then have "slide_at s k m \<in> set (horizontalSlides s)"
      using hv(1) assms(4) by (simp add: slide_at_def)
    then show False using deck_distinct(3) [OF assms(1) km(1) km(2)] False by simp
  qed
  then have "nested_in (r_dom s) (horizontalSlides s ! nat h) (slide_at s k m)"
    using deck_distinct(4) [OF assms(1) hv(1) hv(2)] assms(4) by simp
  with nest have "horizontalSlides s ! nat h = horizontalSlides s ! nat k" by (simp add: nested_in_def)
  then have "h = k"
    using deck_distinct(1) [OF assms(1)] assms(2,3)
    by (auto simp: nth_eq_iff_index_eq valid_position_def Let_def)
  moreover have "v = m"
    using assms(2-4) vs deck_distinct(2) [OF assms(1) hv(1)] \<open>h = k\<close>
    by (auto simp: nth_eq_iff_index_eq valid_position_def Let_def slide_at_def)
  ultimately show ?thesis by simp
qed

lemma clamp_in_valid:
  assumes "horizontalSlides s \<noteq> []"
    "k = clamp_in s (horizontalSlides s) i" "m = clamp_in s (sections_in s (horizontalSlides s ! nat k)) j"
  shows "valid_position s k m"
  using assms clamp_index_range [of "int (length (horizontalSlides s))"]
    clamp_index_range [of "int (length (sections_in s (horizontalSlides s ! nat k)))"]
  by (auto simp: valid_position_def Let_def clamp_in_def)

lemma present_at_cong:
  "(\<And>n. n \<in> set xs \<Longrightarrow> has_class ''present'' d n = has_class ''present'' d' n) \<Longrightarrow>
    present_at xs k d = present_at xs k d'"
  by (simp add: present_at_def)

lemma present_at_other:
  "(\<And>n. n \<in> set xs \<Longrightarrow> has_class ''present'' d' n \<longleftrightarrow> has_class ''present'' d n \<and> n \<noteq> p) \<Longrightarrow>
    0 \<le> k \<Longrightarrow> k < int (length xs) \<Longrightarrow> p \<noteq> xs ! nat k \<Longrightarrow> present_at xs k d \<Longrightarrow> present_at xs k d'"
  by (auto simp: present_at_def)

text \<open>The slide left is neither the one entered nor its stack.\<close>

lemma left_slide_other:
  assumes "deck_ok s" "valid_position s h v" "valid_position s k m" "\<not> (h = k \<and> v = m)"
  shows "slide_at s h v \<noteq> slide_at s k m \<and> slide_at s h v \<noteq> horizontalSlides s ! nat k"
proof (intro conjI notI)
  assume "slide_at s h v = slide_at s k m"
  then show False using slide_at_inject [OF assms(1-3)] assms(4) by simp
next
  assume "slide_at s h v = horizontalSlides s ! nat k"
  then have "h = k" "sections_in s (horizontalSlides s ! nat k) = []"
    using slide_at_horizontal [OF assms(1,2)] assms(3) by (auto simp: valid_position_def Let_def)
  then show False using assms(2-4) by (simp add: valid_position_def)
qed

lemma slide_enter_at:
  assumes deck: "deck_ok s" and print: "\<not> isPrintingPDF s" and hs: "horizontalSlides s \<noteq> []"
    and h: "or_default h (indexh s) = Num i"
    and k: "k = clamp_in s (horizontalSlides s) i" and x: "x = horizontalSlides s ! nat k"
    and v: "sections_in s x = [] \<or> asked_index h v s = Num j" and m: "m = clamp_in s (sections_in s x) j"
  obtains changed s' where "slide_enter h v f s = Some (changed, s')" "doc_frame (keep_names (r_root s)) s s'"
    "at_slide s' k m" "overview s' = overview s"
    "changed \<longleftrightarrow> k \<noteq> num_or0 (indexh s) \<or> m \<noteq> num_or0 (indexv s)"
    "previousSlide s' = (if changed then previousSlide s else None)"
proof -
  let ?r = "r_root s" and ?hs = "horizontalSlides s" and ?vs = "sections_in s x"
  have vp: "valid_position s k m" using clamp_in_valid [OF hs k, of m j] m x by simp
  obtain s1 where move: "slide_move h v s = Some s1" and f1: "doc_frame (keep_names ?r) s s1"
    and i1: "indexh s1 = Num k" "indexv s1 = Num m" "previousSlide s1 = previousSlide s" "overview s1 = overview s"
    and pres1: "present_at ?hs k (r_dom s1)" "present_at ?vs m (r_dom s1)"
  proof (rule slide_move_at [OF deck print hs h x [unfolded k] v])
    fix s' assume a: "slide_move h v s = Some s'" "doc_frame (keep_names ?r) s s'"
      "indexh s' = Num (clamp_in s ?hs i)" "indexv s' = Num (clamp_in s ?vs j)"
      "previousSlide s' = previousSlide s" "overview s' = overview s"
      "present_at ?hs (clamp_in s ?hs i) (r_dom s')"
      "?vs \<noteq> [] \<Longrightarrow> present_at ?vs (clamp_in s ?vs j) (r_dom s')"
    have "present_at ?vs m (r_dom s')" using a(8) m by (cases "?vs = []") (simp_all add: present_at_def)
    then show thesis using a that [of s'] by (simp add: k m)
  qed
  define K where "K = keep_slides (r_dom s1) ?r"
  note sh1 = doc_frame_shape [OF f1] and hs1 = horizontalSlides_frame [OF deck f1] and d1 = deck_ok_frame [OF deck f1]
  define s2 where "s2 = (let y = change_states (slide_state s) (log_effect Do_layout (updateSlidesVisibility s1))
     in if isOverview y then updateOverview y else y)"
  have "page_frame K s1 (updateSlidesVisibility s1)" unfolding K_def by (intro page)
  then have p2: "page_frame K s1 s2"
    unfolding s2_def K_def by (intro page ks.page_change_states page_Let_other) (simp_all add: sh1)
  note f2 = page_frame_fields [OF p2]
  have c: "js_nth ?hs (indexh s2) = Some x"
      "(case js_nth (sections_in s2 x) (indexv s2) of Some n \<Rightarrow> Some n | None \<Rightarrow> Some x) = Some (slide_at s k m)"
    using f2 i1 vp x doc_frame_shape(5) [OF pos_doc_frame [OF page_pos_frame [OF p2]]] sh1(5)
    by (auto simp: js_nth_def valid_position_def slide_at_def Let_def)
  define s3 where "s3 = s2\<lparr>currentSlide := Some (slide_at s k m)\<rparr>"
  define s4 where "s4 = (if f \<noteq> Undef then snd (navigateFragment f Undef s3) else s3)"
  define changed where "changed = (indexh s4 \<noteq> Num (num_or0 (indexh s)) \<or> indexv s4 \<noteq> Num (num_or0 (indexv s)))"
  define s5 where "s5 = (if changed
     then log_effect (Dispatch_slide ''slidechanged'' (indexh s4) (indexv s4) (previousSlide s4) (currentSlide s4)) s4
     else s4\<lparr>previousSlide := None\<rparr>)"
  have enter: "slide_enter h v f s = Some (changed, s5)"
    unfolding slide_enter_def Let_def move option.case
    unfolding s2_def [unfolded Let_def, symmetric] c option.case
    unfolding s3_def [symmetric] s4_def [symmetric] changed_def [symmetric] s5_def [symmetric]
    by (rule refl)
  have p34: "page_frame K s3 s4" unfolding s4_def K_def by (intro page)
  note f4 = page_frame_fields [OF p34]
  have p35: "pos_frame K s3 s5" using page_pos_frame [OF p34] by (simp add: s5_def pos_frame_fields)
  have "doc_frame K s1 s3" using pos_doc_frame [OF page_pos_frame [OF p2]] by (simp add: s3_def doc_frame_def)
  then have f5: "doc_frame K s1 s5" by (rule doc_frame_trans [OF _ pos_doc_frame [OF p35]])
  have fs5: "doc_frame (keep_names ?r) s s5"
    using doc_frame_trans [OF f1 doc_frame_names] f5 by (simp add: K_def)
  have sec: "K ''present'' n" if "n \<in> set ?hs \<or> n \<in> set ?vs" for n
  proof -
    have "x \<in> set ?hs" using x vp by (auto simp: valid_position_def Let_def)
    then have "is_section (r_dom s) n"
      using that horizontal_in [of n s] deck_distinct(4) [OF deck _, of x n] by (auto simp: nested_in_def)
    then show ?thesis using deck_okD(2) [OF deck] sh1 by (auto simp: K_def keep_slides_def)
  qed
  have "present_at xs l (r_dom s5) = present_at xs l (r_dom s1)" if "set xs \<subseteq> set ?hs \<or> set xs \<subseteq> set ?vs" for xs l
    using that sec doc_frame_class [OF f5] by (intro present_at_cong) auto
  then have pres: "present_at ?hs k (r_dom s5)" "present_at ?vs m (r_dom s5)" using pres1 by simp_all
  have i5: "indexh s5 = Num k" "indexv s5 = Num m" "currentSlide s5 = Some (slide_at s k m)" "overview s5 = overview s"
    using p35 f2 i1 by (simp_all add: pos_frame_def s3_def)
  have sh5: "horizontalSlides s5 = ?hs" "sections_in s5 = sections_in s"
    using horizontalSlides_frame [OF deck fs5] doc_frame_shape(5) [OF fs5] by simp_all
  have "valid_position s5 k m" "slide_at s5 k m = slide_at s k m"
    using vp unfolding valid_position_def slide_at_def sh5 by simp_all
  then have at: "at_slide s5 k m" using pres i5 x by (simp add: at_slide_def sh5)
  have "previousSlide s5 = (if changed then previousSlide s else None)"
    using f4(4) f2(4) i1 by (simp add: s5_def s3_def log_effect_def)
  moreover have "changed \<longleftrightarrow> k \<noteq> num_or0 (indexh s) \<or> m \<noteq> num_or0 (indexv s)"
    using f4 f2 i1 by (simp add: changed_def s3_def)
  ultimately show thesis using enter fs5 at i5 that by blast
qed

text \<open>Leaving the previous slide and settling keep the position.\<close>

lemma slide_leave_at:
  assumes deck: "deck_ok s" and at: "at_slide s k m"
    and prev: "\<And>p. previousSlide s = Some p \<Longrightarrow> p \<noteq> slide_at s k m \<and> p \<noteq> horizontalSlides s ! nat k"
    and s': "s' = slide_settle b (leave_previous s)"
  shows "deck_ok s' \<and> at_slide s' k m \<and> doc_frame (keep_names (r_root s)) s s' \<and> overview s' = overview s"
proof -
  let ?r = "r_root s" and ?hs = "horizontalSlides s"
  let ?vs = "sections_in s (?hs ! nat k)"
  define s1 where "s1 = leave_previous s"
  have p1: "pos_frame (keep_names ?r) s s1" unfolding s1_def by (rule leave_previous_at)
  note f1 = pos_doc_frame [OF p1] and d1 = deck_ok_frame [OF deck pos_doc_frame [OF p1]]
  note sh1 = doc_frame_shape [OF f1]
  have p2: "pos_frame (keep_slides (r_dom s1) ?r) s1 s'"
    using pos_slide_settle [OF d1, of b] by (simp add: s' s1_def [symmetric] sh1)
  have p: "pos_frame (keep_names ?r) s s'"
    using p1 p2 doc_frame_names [OF pos_doc_frame [OF p2]] doc_frame_trans
    unfolding pos_frame_def by metis
  note f = pos_doc_frame [OF p]
  have sh: "horizontalSlides s' = ?hs" "sections_in s' = sections_in s"
    using horizontalSlides_frame [OF deck f] doc_frame_shape(5) [OF f] by simp_all
  have vp: "valid_position s k m" using at by (simp add: at_slide_def)
  have hs: "?hs ! nat k \<in> set ?hs" by (rule valid_slide_at [OF deck vp])
  have cls: "has_class ''present'' (r_dom s') n \<longleftrightarrow> has_class ''present'' (r_dom s) n \<and> previousSlide s \<noteq> Some n"
    if "n \<in> set ?hs \<or> n \<in> set ?vs" for n
  proof -
    have "is_section (r_dom s) n"
      using that horizontal_in [of n s] deck_distinct(4) [OF deck hs, of n] by (auto simp: nested_in_def)
    then have "keep_slides (r_dom s1) ?r ''present'' n"
      using deck_okD(2) [OF deck] sh1 by (auto simp: keep_slides_def)
    then have "has_class ''present'' (r_dom s') n = has_class ''present'' (r_dom s1) n"
      by (rule doc_frame_class [OF pos_doc_frame [OF p2]])
    then show ?thesis unfolding s1_def leave_previous_at(2) by simp
  qed
  have keep: "present_at xs l (r_dom s')"
    if "present_at xs l (r_dom s)" "set xs \<subseteq> set ?hs \<or> set xs \<subseteq> set ?vs"
      "0 \<le> l" "l < int (length xs)" "previousSlide s \<noteq> Some (xs ! nat l)" for xs l
  proof (cases "previousSlide s")
    case None
    then show ?thesis using that(1,2) cls present_at_cong [of xs "r_dom s'" "r_dom s" l] by auto
  next
    case (Some p)
    then show ?thesis
      using that cls by (intro present_at_other [of xs "r_dom s'" "r_dom s" p l]) auto
  qed
  have "present_at ?hs k (r_dom s')"
    using keep [of ?hs k] at vp prev by (auto simp: valid_position_def Let_def at_slide_def)
  moreover have "present_at ?vs m (r_dom s')"
  proof (cases "?vs = []")
    case False
    then have "?vs ! nat m = slide_at s k m" by (simp add: slide_at_def)
    then show ?thesis using keep [of ?vs m] at vp prev False by (auto simp: valid_position_def Let_def at_slide_def)
  qed (simp add: present_at_def)
  moreover have "valid_position s' k m" "slide_at s' k m = slide_at s k m"
    using vp unfolding valid_position_def slide_at_def sh by simp_all
  ultimately have "at_slide s' k m" using at p by (simp add: at_slide_def sh pos_frame_def)
  then show ?thesis using deck_ok_frame [OF deck f] f p by (simp add: pos_frame_def)
qed

lemma slide_result:
  assumes deck: "deck_ok s" and print: "\<not> isPrintingPDF s" and hs: "horizontalSlides s \<noteq> []"
    and pos: "position_ok s" and h: "or_default h (indexh s) = Num i"
    and k: "k = clamp_in s (horizontalSlides s) i" and x: "x = horizontalSlides s ! nat k"
    and v: "sections_in s x = [] \<or> asked_index h v s = Num j" and m: "m = clamp_in s (sections_in s x) j"
  obtains s' where "slide h v f s = Some s'" "deck_ok s'" "at_slide s' k m"
    "doc_frame (keep_names (r_root s)) s s'" "overview s' = overview s"
proof -
  let ?r = "r_root s"
  define s0 where "s0 = s\<lparr>previousSlide := currentSlide s\<rparr>"
  have f0: "doc_frame K s s0" for K by (simp add: s0_def doc_frame_def)
  have s0: "horizontalSlides s0 = horizontalSlides s" "sections_in s0 = sections_in s"
      "isPrintingPDF s0 = isPrintingPDF s" "indexh s0 = indexh s" "indexv s0 = indexv s"
      "asked_index h v s0 = asked_index h v s"
      "clamp_in s0 = clamp_in s" "r_root s0 = ?r" "overview s0 = overview s" "previousSlide s0 = currentSlide s"
    by (simp_all add: s0_def horizontalSlides_def sections_in_def isPrintingPDF_def asked_index_def
        isOverview_def clamp_in_def fun_eq_iff)
  note deck0 = deck_ok_frame [OF deck f0]
  obtain changed s1 where e: "slide_enter h v f s0 = Some (changed, s1)" "doc_frame (keep_names ?r) s0 s1"
    "at_slide s1 k m" "overview s1 = overview s"
    "changed \<longleftrightarrow> k \<noteq> num_or0 (indexh s) \<or> m \<noteq> num_or0 (indexv s)"
    "previousSlide s1 = (if changed then currentSlide s else None)"
    by (rule slide_enter_at [OF deck0, of h i k x v j m f]) (use print hs h k x v m s0 in auto)
  note f1 = doc_frame_trans [OF f0 e(2)]
  note d1 = deck_ok_frame [OF deck f1] and hs1 = horizontalSlides_frame [OF deck f1] and sh1 = doc_frame_shape [OF f1]
  have same: "slide_at s1 = slide_at s" "valid_position s1 = valid_position s"
    unfolding slide_at_def [abs_def] valid_position_def [abs_def] hs1 sh1(5) by simp_all
  have prev: "p \<noteq> slide_at s1 k m \<and> p \<noteq> horizontalSlides s1 ! nat k" if "previousSlide s1 = Some p" for p
  proof -
    have ch: "changed" "currentSlide s = Some p" using that e(6) by (auto split: if_splits)
    with pos obtain h0 v0 where at: "at_slide s h0 v0" by (auto simp: position_ok_def)
    then have "\<not> (h0 = k \<and> v0 = m)" using ch(1) e(5) by (auto simp: at_slide_def)
    then show ?thesis
      using left_slide_other [OF deck, of h0 v0 k m] at ch(2) e(3) by (simp add: at_slide_def same hs1)
  qed
  define s2 where "s2 = slide_settle changed (leave_previous s1)"
  have "slide h v f s = Some s2"
    using hs e(1) unfolding slide_def Let_def s0_def [symmetric] by (simp add: s0 s2_def)
  moreover from slide_leave_at [OF d1 e(3) prev s2_def]
  have "deck_ok s2" "at_slide s2 k m" "doc_frame (keep_names ?r) s1 s2" "overview s2 = overview s1"
    by (simp_all add: sh1)
  ultimately show thesis using e(4) doc_frame_trans [OF f1] that by metis
qed

end
