(* ===== verification/Reveal_Timers.thy ===== *)
theory Reveal_Timers
  imports Reveal_Position
begin

text \<open>
  Pending timers: every timer has a number of its own, and there is never more than one that advances
  the presentation, the one \<open>autoSlideTimeout\<close> names, so cancelling it cancels auto-sliding.
\<close>

definition timers_ok :: "reveal \<Rightarrow> bool" where
  "timers_ok s \<longleftrightarrow>
     distinct (map t_id (r_timers s)) \<and> 0 < r_next_timer s \<and>
     (\<forall>t \<in> set (r_timers s). 0 < t_id t \<and> t_id t < r_next_timer s \<and>
        (t_call t = Timer_auto_slide \<longrightarrow> t_id t = autoSlideTimeout s) \<and>
        (t_call t = Timer_write_url \<longrightarrow> t_id t = writeURLTimeout s))"

text \<open>The pending timers that advance the presentation.\<close>

definition auto_timers :: "reveal \<Rightarrow> timer list" where
  "auto_timers s = filter (\<lambda>t. t_call t = Timer_auto_slide) (r_timers s)"

definition timer_frame :: "reveal \<Rightarrow> reveal \<Rightarrow> bool" where
  "timer_frame s s' \<longleftrightarrow> r_timers s' = r_timers s \<and> r_next_timer s' = r_next_timer s \<and>
     autoSlideTimeout s' = autoSlideTimeout s \<and> writeURLTimeout s' = writeURLTimeout s"

lemma timer_frame_ok: "timer_frame s s' \<Longrightarrow> timers_ok s' = timers_ok s"
  by (simp add: timer_frame_def timers_ok_def)

lemma timer_frame_auto: "timer_frame s s' \<Longrightarrow> auto_timers s' = auto_timers s"
  by (simp add: timer_frame_def auto_timers_def)

lemma page_timer_frame: "page_frame K s s' \<Longrightarrow> timer_frame s s'"
  using page_frame_fields [of K s s'] by (simp add: timer_frame_def)

lemma timer_frame_trans: "timer_frame s t \<Longrightarrow> timer_frame t u \<Longrightarrow> timer_frame s u"
  by (simp add: timer_frame_def)

lemma timers_ok_fields [simp]:
  "timers_ok (s\<lparr>previousSlide := a\<rparr>) = timers_ok s" "timers_ok (s\<lparr>currentSlide := a\<rparr>) = timers_ok s"
  "timers_ok (s\<lparr>indexh := n\<rparr>) = timers_ok s" "timers_ok (s\<lparr>indexv := n\<rparr>) = timers_ok s"
  "timers_ok (s\<lparr>autoSlide := n\<rparr>) = timers_ok s" "timers_ok (s\<lparr>autoSlideStartTime := i\<rparr>) = timers_ok s"
  "timers_ok (s\<lparr>autoSlidePaused := b\<rparr>) = timers_ok s" "timers_ok (s\<lparr>overview := b\<rparr>) = timers_ok s"
  "timers_ok (s\<lparr>hasNavigatedRight := b\<rparr>) = timers_ok s" "timers_ok (s\<lparr>hasNavigatedDown := b\<rparr>) = timers_ok s"
  "timers_ok (s\<lparr>slide_state := st\<rparr>) = timers_ok s" "timers_ok (s\<lparr>r_hash := hash\<rparr>) = timers_ok s"
  "timers_ok (log_effect e s) = timers_ok s" "timers_ok (upd_dom f s) = timers_ok s"
  "timers_ok (set_playing b s) = timers_ok s"
  by (simp_all add: timers_ok_def log_effect_def upd_dom_def set_playing_def)

lemma timers_clear: "timers_ok s \<Longrightarrow> timers_ok (clear_timeout i s)"
  by (auto simp: timers_ok_def clear_timeout_def distinct_map inj_on_def)

lemma timers_set:
  "timers_ok s \<Longrightarrow> c \<noteq> Timer_auto_slide \<Longrightarrow> c \<noteq> Timer_write_url \<Longrightarrow> timers_ok (snd (set_timeout c d s))"
  by (force simp: timers_ok_def set_timeout_def)

lemma auto_clear: "timers_ok s \<Longrightarrow> auto_timers (clear_timeout (autoSlideTimeout s) s) = []"
  by (auto simp: timers_ok_def auto_timers_def clear_timeout_def filter_empty_conv)

lemma timers_cancel:
  assumes "timers_ok s"
  shows "timers_ok (cancelAutoSlide s)" "auto_timers (cancelAutoSlide s) = []"
  using timers_clear [OF assms, of "autoSlideTimeout s"] auto_clear [OF assms]
  by (auto simp: cancelAutoSlide_def timers_ok_def auto_timers_def filter_empty_conv)

lemma timers_cue_timer:
  assumes "timers_ok s" "auto_timers s = []"
  shows "timers_ok (cue_timer s)"
  using assms
  by (force simp: cue_timer_def set_timeout_def timers_ok_def auto_timers_def filter_empty_conv)

lemma timers_cue:
  assumes "timers_ok s"
  shows "timers_ok (cueAutoSlide s)"
proof -
  let ?s = "cancelAutoSlide s"
  have "timers_ok (cue_timer (?s\<lparr>autoSlide := n\<rparr>))" for n
    using timers_cancel [OF assms] by (intro timers_cue_timer) (simp_all add: auto_timers_def)
  with timers_cancel [OF assms] show ?thesis
    by (auto simp: cueAutoSlide_def Let_def split: option.split)
qed

lemma timers_pauseAuto: "timers_ok s \<Longrightarrow> timers_ok (pauseAutoSlide s)"
  unfolding pauseAutoSlide_def Let_def by (simp add: timers_clear)

lemma timers_resumeAuto: "timers_ok s \<Longrightarrow> timers_ok (resumeAutoSlide s)"
  unfolding resumeAutoSlide_def by (simp add: timers_cue)

lemma timers_toggleAuto: "timers_ok s \<Longrightarrow> timers_ok (toggleAutoSlide b s)"
  unfolding toggleAutoSlide_def by (simp add: timers_pauseAuto timers_resumeAuto split: option.split)

lemma timers_writeURL:
  assumes "timers_ok s"
  shows "timers_ok (writeURL delay s)"
proof -
  let ?s = "clear_timeout (writeURLTimeout s) s"
  have s: "timers_ok ?s" by (rule timers_clear [OF assms])
  have none: "t_call t \<noteq> Timer_write_url" if "t \<in> set (r_timers ?s)" for t
    using assms that by (auto simp: timers_ok_def clear_timeout_def)
  have "timers_ok (y\<lparr>writeURLTimeout := i\<rparr>)" if "set_timeout Timer_write_url d ?s = (i, y)" for d i y
    using that s none by (force simp: set_timeout_def timers_ok_def)
  with s assms show ?thesis
    by (auto simp: writeURL_def Let_def split: option.split prod.split)
qed

section \<open>\<open>slide\<close>\<close>

lemma timers_leave: "timers_ok s \<Longrightarrow> timers_ok (leave_previous s)"
  unfolding leave_previous_def Let_def
  by (auto simp: timers_set split: option.split list.split)

lemma timers_updateSlides:
  assumes "updateSlides slides i s = Some (k, s')"
  shows "timer_frame s s'"
  using assms by (auto simp: updateSlides_def Let_def timer_frame_def upd_dom_def split: if_splits jsnum.splits)

lemma timers_move:
  assumes "slide_move h v s = Some s'"
  shows "timer_frame s s'"
proof -
  define s0 where "s0 = (case previousSlide s of
      None \<Rightarrow> s
    | Some p \<Rightarrow> (case d_parent (r_dom s) p of
        None \<Rightarrow> s
      | Some st \<Rightarrow> if has_class ''stack'' (r_dom s) st
                   then upd_dom (setPreviousVerticalIndex st (indexv s)) s else s))"
  have s0: "timer_frame s (s0\<lparr>slide_state := []\<rparr>)"
    by (auto simp: s0_def timer_frame_def upd_dom_def split: option.split)
  obtain k s1 where u1: "updateSlides (horizontalSlides (s0\<lparr>slide_state := []\<rparr>))
      (or_default h (indexh (s0\<lparr>slide_state := []\<rparr>))) (s0\<lparr>slide_state := []\<rparr>) = Some (k, s1)"
    using assms unfolding slide_move_def Let_def s0_def [symmetric] by (auto split: option.splits)
  then obtain m s2 x where u2: "updateSlides x (m :: jsnum) (s1\<lparr>indexh := Num k\<rparr>) = Some s2" "s' = (snd s2)\<lparr>indexv := Num (fst s2)\<rparr>"
    using assms unfolding slide_move_def Let_def s0_def [symmetric] by (fastforce split: option.splits)
  have "timer_frame s s1" by (rule timer_frame_trans [OF s0 timers_updateSlides [OF u1]])
  moreover have "timer_frame (s1\<lparr>indexh := Num k\<rparr>) (snd s2)"
    using timers_updateSlides [of x m "s1\<lparr>indexh := Num k\<rparr>" "fst s2" "snd s2"] u2(1) by simp
  ultimately show ?thesis using u2(2) by (simp add: timer_frame_def)
qed

lemma timers_enter:
  assumes "slide_enter h v f s = Some (changed, s')"
  shows "timer_frame s s'"
proof -
  obtain s1 where move: "slide_move h v s = Some s1" using assms by (auto simp: slide_enter_def Let_def split: option.splits)
  define s2 where "s2 = (let y = change_states (slide_state s) (log_effect Do_layout (updateSlidesVisibility s1))
     in if isOverview y then updateOverview y else y)"
  let ?L = "keep_names (r_root s1)"
  have "page_frame ?L s1 (updateSlidesVisibility s1)" by (intro page)
  then have p2: "page_frame ?L s1 s2"
    unfolding s2_def by (intro page kn.page_change_states page_Let_other) simp_all
  obtain x where x: "js_nth (horizontalSlides s) (indexh s2) = Some x"
    using assms move unfolding slide_enter_def Let_def s2_def by (auto split: option.splits)
  define s3 where "s3 = s2\<lparr>currentSlide := (case js_nth (sections_in s2 x) (indexv s2) of
      Some n \<Rightarrow> Some n | None \<Rightarrow> Some x)\<rparr>"
  define s4 where "s4 = (if f \<noteq> Undef then snd (navigateFragment f Undef s3) else s3)"
  have p34: "page_frame ?L s3 s4" unfolding s4_def by (intro page)
  have "s' = (if changed
     then log_effect (Dispatch_slide ''slidechanged'' (indexh s4) (indexv s4) (previousSlide s4) (currentSlide s4)) s4
     else s4\<lparr>previousSlide := None\<rparr>)"
    using assms unfolding slide_enter_def Let_def move option.case
    unfolding s2_def [unfolded Let_def, symmetric] x option.case
    unfolding s3_def [symmetric] s4_def [symmetric] by auto
  then have "timer_frame s4 s'" by (simp add: timer_frame_def log_effect_def)
  moreover have "timer_frame s2 s3" by (simp add: s3_def timer_frame_def)
  ultimately show ?thesis
    using timers_move [OF move] page_timer_frame [OF p2] page_timer_frame [OF p34] timer_frame_trans by metis
qed

lemma timers_updateBackground: "timers_ok s \<Longrightarrow> timers_ok (updateBackground b s)"
proof -
  assume ok: "timers_ok s"
  obtain t where t: "page_frame (keep_names 0) s t"
    "updateBackground b s = snd (set_timeout Timer_background_transition 1 t)"
    by (rule kn.updateBackground_frame [of s 0 b]) simp_all
  have "timers_ok t" using timer_frame_ok [OF page_timer_frame [OF t(1)]] ok by simp
  then show ?thesis unfolding t(2) by (rule timers_set) simp_all
qed

text \<open>\<open>slide\<close> ends by cueing the next slide.\<close>

lemma timers_before_cue:
  assumes "timers_ok s"
  obtains t where "slide_settle b s = cueAutoSlide t" "timers_ok t"
proof -
  define s1 where "s1 = (if b \<or> previousSlide s = None
       then startEmbeddedContent (the (currentSlide s)) (stopEmbeddedContent True (previousSlide s) s) else s)"
  define s2 where "s2 = updateProgress (updateControls
      (upd_dom (set_text (r_status_text s1 (the (currentSlide s1))) (r_statusDiv s1)) s1))"
  define s3 where "s3 = updateBackground False s2"
  define s4 where "s4 = updateNotes (updateSlideNumber (log_effect Do_parallax s3))"
  have "page_frame (keep_names 0) s s2" unfolding s1_def s2_def by (intro page)
  then have "timers_ok s2" using timer_frame_ok [OF page_timer_frame] assms by blast
  then have "timers_ok s3" unfolding s3_def by (rule timers_updateBackground)
  moreover have "page_frame (keep_names 0) s3 s4" unfolding s4_def by (intro page)
  ultimately have "timers_ok s4" using timer_frame_ok [OF page_timer_frame] by blast
  then have "timers_ok (writeURL None s4)" by (rule timers_writeURL)
  moreover have "slide_settle b s = cueAutoSlide (writeURL None s4)"
    by (simp add: slide_settle_def Let_def s1_def s2_def s3_def s4_def)
  ultimately show ?thesis by (intro that)
qed

lemma timers_settle: "timers_ok s \<Longrightarrow> timers_ok (slide_settle b s)"
  using timers_before_cue [of s b] timers_cue by metis

lemma timers_slide:
  assumes "timers_ok s" "slide h v f s = Some s'"
  shows "timers_ok s'"
proof -
  let ?s = "s\<lparr>previousSlide := currentSlide s\<rparr>"
  have "timers_ok ?s" using assms(1) by simp
  then have "timers_ok y" if "slide_enter h v f ?s = Some (changed, y)" for changed y
    using timer_frame_ok [OF timers_enter [OF that]] by simp
  with assms show ?thesis
    unfolding slide_def Let_def
    by (auto simp: timers_settle timers_leave split: if_splits option.splits prod.splits)
qed

end
