(* ===== verification/Reveal_Events.thy ===== *)
theory Reveal_Events
  imports Reveal_Timers
begin

text \<open>
  The presentation as a state machine: the events its listeners and timers react to, the invariant
  that all of them keep, and that none of them fails.
\<close>

section \<open>The invariant\<close>

definition placed :: "reveal \<Rightarrow> bool" where
  "placed s \<longleftrightarrow> (\<exists>h v. at_slide s h v)"

definition reveal_inv :: "reveal \<Rightarrow> bool" where
  "reveal_inv s \<longleftrightarrow> deck_ok s \<and> \<not> isPrintingPDF s \<and> placed s \<and> timers_ok s"

lemma at_slide_frame:
  assumes "deck_ok s" "at_slide s h v" "pos_frame (keep_slides (r_dom s) (r_root s)) s s'"
  shows "at_slide s' h v"
proof -
  let ?K = "keep_slides (r_dom s) (r_root s)" and ?x = "horizontalSlides s ! nat h"
  note f = pos_doc_frame [OF assms(3)]
  have sh: "horizontalSlides s' = horizontalSlides s" "sections_in s' = sections_in s"
    using horizontalSlides_frame [OF assms(1) doc_frame_names [OF f]] doc_frame_shape(5) [OF f] by simp_all
  have vp: "valid_position s h v" using assms(2) by (simp add: at_slide_def)
  have x: "?x \<in> set (horizontalSlides s)" by (rule valid_slide_at [OF assms(1) vp])
  have "has_class ''present'' (r_dom s') n = has_class ''present'' (r_dom s) n"
    if "n \<in> set (horizontalSlides s) \<or> n \<in> set (sections_in s ?x)" for n
  proof (rule doc_frame_class [OF f])
    have "is_section (r_dom s) n"
      using that horizontal_in [of n s] deck_distinct(4) [OF assms(1) x, of n] by (auto simp: nested_in_def)
    then show "?K ''present'' n" using deck_okD(2) [OF assms(1)] by (auto simp: keep_slides_def)
  qed
  then have "present_at (horizontalSlides s) h (r_dom s')" "present_at (sections_in s ?x) v (r_dom s')"
    using assms(2) present_at_cong [of "horizontalSlides s" "r_dom s'" "r_dom s"]
      present_at_cong [of "sections_in s ?x" "r_dom s'" "r_dom s"] by (auto simp: at_slide_def)
  moreover have "valid_position s' h v" "slide_at s' h v = slide_at s h v"
    using vp unfolding valid_position_def slide_at_def sh by simp_all
  ultimately show ?thesis
    using assms(2,3) by (simp add: at_slide_def sh pos_frame_def)
qed

lemma inv_pos:
  assumes "reveal_inv s" "pos_frame (keep_slides (r_dom s) (r_root s)) s s'" "timers_ok s'"
  shows "reveal_inv s'"
proof -
  have d: "deck_ok s" using assms(1) by (simp add: reveal_inv_def)
  note f = doc_frame_names [OF pos_doc_frame [OF assms(2)]]
  have "isPrintingPDF s' = isPrintingPDF s" using doc_frame_shape(10) [OF f] by (simp add: isPrintingPDF_def)
  moreover have "placed s'"
    using assms(1) at_slide_frame [OF d _ assms(2)] by (auto simp: reveal_inv_def placed_def)
  ultimately show ?thesis
    using assms(1,3) deck_ok_frame [OF d f] by (simp add: reveal_inv_def)
qed

lemma inv_page:
  assumes "reveal_inv s" "page_frame (keep_slides (r_dom s) (r_root s)) s s'"
  shows "reveal_inv s'"
  using inv_pos [OF assms(1) page_pos_frame [OF assms(2)]] timer_frame_ok [OF page_timer_frame [OF assms(2)]]
    assms(1) by (simp add: reveal_inv_def)

lemma inv_fields:
  assumes "pos_frame (keep_slides (r_dom s) (r_root s)) s s'" "timer_frame s s'" "reveal_inv s"
  shows "reveal_inv s'"
  using inv_pos [OF assms(3,1)] timer_frame_ok [OF assms(2)] assms(3) by (simp add: reveal_inv_def)

lemma inv_index: "reveal_inv s \<Longrightarrow> \<exists>h v. indexh s = Num h \<and> indexv s = Num v"
  by (auto simp: reveal_inv_def placed_def at_slide_def)

section \<open>\<open>slide\<close> keeps it\<close>

lemma js_parse_int_defined: "js_parse_int x \<noteq> Undef"
  by (auto simp: js_parse_int_def parse_unsigned_def split: list.split jsnum.split)

lemma previous_index_number:
  assumes "deck_ok s"
  shows "\<exists>j. getPreviousVerticalIndex n (r_dom s) = Num j"
proof (cases n)
  case (Some m)
  define a where "a = (if has_attr ''data-start-indexv'' (r_dom s) m then ''data-start-indexv''
    else ''data-previous-indexv'')"
  have "a \<in> stack_attrs" by (simp add: a_def stack_attrs_def)
  then have i: "index_attr (d_attr (r_dom s) m a)" by (rule deck_okD(6) [OF assms])
  have "\<exists>j. (case d_attr (r_dom s) m a of Some (c # cs) \<Rightarrow> js_parse_int (c # cs) | _ \<Rightarrow> Num 0) = Num j"
  proof (cases "d_attr (r_dom s) m a")
    case (Some w)
    with i js_parse_int_defined [of w] show ?thesis
      by (cases w; cases "js_parse_int w") (auto simp: index_attr_def)
  qed simp
  then show ?thesis
    unfolding Some getPreviousVerticalIndex_def option.case a_def [symmetric] Let_def by simp
qed (simp add: getPreviousVerticalIndex_def)

definition no_stack_at :: "reveal \<Rightarrow> jsnum \<Rightarrow> bool" where
  "no_stack_at s h \<longleftrightarrow> (\<forall>i. h = Num i \<longrightarrow>
     sections_in s (horizontalSlides s ! nat (clamp_in s (horizontalSlides s) i)) = [])"

lemma inv_slide:
  assumes "reveal_inv s" "h \<noteq> NaN" "v \<noteq> NaN \<or> h \<noteq> Undef \<and> no_stack_at s h"
  shows "\<exists>s'. slide h v f s = Some s' \<and> reveal_inv s'"
proof -
  have d: "deck_ok s" "\<not> isPrintingPDF s" "timers_ok s" and pos: "position_ok s"
    using assms(1) by (auto simp: reveal_inv_def placed_def position_ok_def)
  obtain ih iv where i: "indexh s = Num ih" "indexv s = Num iv" using inv_index [OF assms(1)] by blast
  obtain i' where h: "or_default h (indexh s) = Num i'" using assms(2) i by (cases h) (auto simp: or_default_def)
  have hs: "horizontalSlides s \<noteq> []"
    using assms(1) by (auto simp: reveal_inv_def placed_def at_slide_def valid_position_def Let_def)
  define k where "k = clamp_in s (horizontalSlides s) i'"
  define x where "x = horizontalSlides s ! nat k"
  have v: "sections_in s x = [] \<or> (\<exists>j. asked_index h v s = Num j)"
  proof (cases v)
    case Undef
    then show ?thesis using i previous_index_number [OF d(1)] by (auto simp: asked_index_def or_default_def)
  next
    case NaN
    with assms(3) have "h \<noteq> Undef" "no_stack_at s h" by simp_all
    with h show ?thesis by (auto simp: no_stack_at_def or_default_def x_def k_def)
  qed (simp add: asked_index_def or_default_def)
  then obtain j where v: "sections_in s x = [] \<or> asked_index h v s = Num j" by blast
  define m where "m = clamp_in s (sections_in s x) j"
  obtain s' where "slide h v f s = Some s'" "deck_ok s'" "at_slide s' k m" "doc_frame (keep_names (r_root s)) s s'"
    by (rule slide_result [OF d(1,2) hs pos h k_def x_def v m_def])
  moreover have "isPrintingPDF s' = isPrintingPDF s"
    using doc_frame_shape(10) [OF \<open>doc_frame _ s s'\<close>] by (simp add: isPrintingPDF_def)
  ultimately show ?thesis
    using d timers_slide [OF d(3)] by (auto simp: reveal_inv_def placed_def)
qed

text \<open>An operation that may fail: on the invariant it does not, and keeps it.\<close>

definition keeps :: "reveal option \<Rightarrow> bool" where
  "keeps r \<longleftrightarrow> (case r of None \<Rightarrow> False | Some s \<Rightarrow> reveal_inv s)"

lemma keeps_Some [simp]: "keeps (Some s) = reveal_inv s"
  by (simp add: keeps_def)

lemma keeps_slide: "reveal_inv s \<Longrightarrow> h \<noteq> NaN \<Longrightarrow> v \<noteq> NaN \<or> h \<noteq> Undef \<and> no_stack_at s h \<Longrightarrow> keeps (slide h v f s)"
  using inv_slide [of s h v f] by (auto simp: keeps_def)

lemma keeps_bind:
  "keeps r \<Longrightarrow> (\<And>s. r = Some s \<Longrightarrow> reveal_inv s \<Longrightarrow> keeps (f s)) \<Longrightarrow> keeps (case r of None \<Rightarrow> None | Some s \<Rightarrow> f s)"
  by (cases r) (auto simp: keeps_def)

lemma keeps_map: "keeps r \<Longrightarrow> (\<And>s. reveal_inv s \<Longrightarrow> reveal_inv (f s)) \<Longrightarrow> keeps (map_option f r)"
  by (cases r) (auto simp: keeps_def)

section \<open>Operations that do not move\<close>

lemma reveal_inv_cong:
  assumes "r_dom s' = r_dom s" "r_wrapper s' = r_wrapper s" "r_root s' = r_root s"
    "r_background s' = r_background s" "r_printing s' = r_printing s" "indexh s' = indexh s"
    "indexv s' = indexv s" "currentSlide s' = currentSlide s" "r_timers s' = r_timers s"
    "r_next_timer s' = r_next_timer s" "autoSlideTimeout s' = autoSlideTimeout s"
    "writeURLTimeout s' = writeURLTimeout s"
  shows "reveal_inv s' = reveal_inv s"
proof -
  have h: "horizontalSlides s' = horizontalSlides s" "sections_in s' = sections_in s"
    using assms by (simp_all add: horizontalSlides_def sections_in_def fun_eq_iff)
  have "valid_position s' = valid_position s" "slide_at s' = slide_at s"
    unfolding valid_position_def [abs_def] slide_at_def [abs_def] h by simp_all
  then have "placed s' = placed s" unfolding placed_def at_slide_def h assms by simp
  moreover have "deck_ok s' = deck_ok s" unfolding deck_ok_def h assms by (rule refl)
  moreover have "timers_ok s' = timers_ok s" by (simp add: timers_ok_def assms)
  ultimately show ?thesis by (simp add: reveal_inv_def isPrintingPDF_def assms)
qed

lemma inv_updates [simp]:
  "reveal_inv (log_effect e s) = reveal_inv s"
  "reveal_inv (s\<lparr>hasNavigatedRight := b\<rparr>) = reveal_inv s"
  "reveal_inv (s\<lparr>hasNavigatedDown := b\<rparr>) = reveal_inv s"
  "reveal_inv (s\<lparr>hasNavigatedRight := b, hasNavigatedDown := b'\<rparr>) = reveal_inv s"
  "reveal_inv (s\<lparr>autoSlidePaused := b\<rparr>) = reveal_inv s"
  "reveal_inv (s\<lparr>overview := b\<rparr>) = reveal_inv s" "reveal_inv (s\<lparr>r_overlay := b\<rparr>) = reveal_inv s"
  "reveal_inv (s\<lparr>touch_captured := b\<rparr>) = reveal_inv s"
  "reveal_inv (s\<lparr>lastMouseWheelStep := n\<rparr>) = reveal_inv s"
  "reveal_inv (s\<lparr>r_hash := x\<rparr>) = reveal_inv s" "reveal_inv (s\<lparr>r_now := n\<rparr>) = reveal_inv s"
  "reveal_inv (s\<lparr>eventsAreBound := b\<rparr>) = reveal_inv s"
  "reveal_inv (s\<lparr>touch_startX := i, touch_startY := j, touch_startCount := l\<rparr>) = reveal_inv s"
  "reveal_inv (s\<lparr>touch_startSpan := i\<rparr>) = reveal_inv s"
  "reveal_inv (s\<lparr>overviewSlideWidth := n, overviewSlideHeight := i\<rparr>) = reveal_inv s"
  "reveal_inv (s\<lparr>overviewSlideWidth := n\<rparr>) = reveal_inv s"
  "reveal_inv (s\<lparr>autoSlide := num\<rparr>) = reveal_inv s"
  "reveal_inv (s\<lparr>autoSlideStartTime := n\<rparr>) = reveal_inv s"
  "reveal_inv (set_playing p s) = reveal_inv s"
  by (rule reveal_inv_cong; simp add: log_effect_def set_playing_def)+

lemma inv_clear: "reveal_inv s \<Longrightarrow> reveal_inv (clear_timeout i s)"
  by (rule inv_pos, assumption) (simp_all add: pos_frame_fields timers_clear reveal_inv_def)

lemma inv_set_timeout:
  "reveal_inv s \<Longrightarrow> c \<noteq> Timer_auto_slide \<Longrightarrow> c \<noteq> Timer_write_url \<Longrightarrow> reveal_inv (snd (set_timeout c d s))"
  by (rule inv_pos, assumption) (simp_all add: pos_frame_fields timers_set reveal_inv_def)

lemma inv_auto:
  assumes "reveal_inv s"
  shows "reveal_inv (cancelAutoSlide s)" "reveal_inv (cueAutoSlide s)" "reveal_inv (writeURL delay s)"
  using assms
  by (rule inv_pos;
      use assms in \<open>simp add: pos_cancelAutoSlide pos_cueAutoSlide pos_writeURL timers_cancel timers_cue
        timers_writeURL reveal_inv_def\<close>)+

lemma inv_pauseAuto: "reveal_inv s \<Longrightarrow> reveal_inv (pauseAutoSlide s)"
  by (simp add: pauseAutoSlide_def Let_def inv_clear)

lemma inv_resumeAuto: "reveal_inv s \<Longrightarrow> reveal_inv (resumeAutoSlide s)"
  by (simp add: resumeAutoSlide_def inv_auto)

lemma inv_toggleAuto: "reveal_inv s \<Longrightarrow> reveal_inv (toggleAutoSlide b s)"
  by (simp add: toggleAutoSlide_def inv_pauseAuto inv_resumeAuto split: option.split)

lemma inv_userInput: "reveal_inv s \<Longrightarrow> reveal_inv (onUserInput s)"
  by (simp add: onUserInput_def inv_pauseAuto)

lemma inv_class:
  assumes "reveal_inv s" "c \<notin> key_classes"
  shows "reveal_inv (upd_dom (add_class c n) s)" "reveal_inv (upd_dom (remove_class c n) s)"
  by (rule inv_page [OF assms(1)], intro page, use assms(2) in simp)+

text \<open>The class \<open>paused\<close> says nothing of the position.\<close>

lemma paused_position:
  assumes "\<And>m c. c \<noteq> ''paused'' \<Longrightarrow> has_class c (f (r_dom s)) m = has_class c (r_dom s) m"
    "same_shape (r_dom s) (f (r_dom s))" "d_attr (f (r_dom s)) = d_attr (r_dom s)"
  shows "at_slide (upd_dom f s) = at_slide s" "deck_ok (upd_dom f s) = deck_ok s"
    "horizontalSlides (upd_dom f s) = horizontalSlides s" "sections_in (upd_dom f s) = sections_in s"
proof -
  let ?s = "upd_dom f s"
  have sh: "d_desc (r_dom ?s) = d_desc (r_dom s)" "d_kids (r_dom ?s) = d_kids (r_dom s)"
    "d_parent (r_dom ?s) = d_parent (r_dom s)" "is_section (r_dom ?s) = is_section (r_dom s)"
    using assms(2) by (auto simp: upd_dom_def same_shape_def is_section_def)
  have fields: "indexh ?s = indexh s" "indexv ?s = indexv s" "currentSlide ?s = currentSlide s"
    "r_wrapper ?s = r_wrapper s" "r_root ?s = r_root s" "r_background ?s = r_background s"
    "d_attr (r_dom ?s) = d_attr (r_dom s)"
    using assms(3) by (simp_all add: upd_dom_def)
  have cls: "has_class c (r_dom ?s) m = has_class c (r_dom s) m" if "c \<noteq> ''paused''" for c m
    using assms(1) [OF that] by (simp add: upd_dom_def)
  show h: "horizontalSlides ?s = horizontalSlides s"
    unfolding horizontalSlides_def query_all_def sh fields
    by (rule filter_cong) (auto simp: horizontal_sel_def parent_has_class_def sh cls split: option.split)
  show sec: "sections_in ?s = sections_in s" by (simp add: fun_eq_iff sections_in_def query_all_def sh)
  have "section_ok (r_dom ?s) = section_ok (r_dom s)" "background_ok (r_dom ?s) = background_ok (r_dom s)"
    "nested_in (r_dom ?s) = nested_in (r_dom s)"
    by (auto simp: fun_eq_iff section_ok_def background_ok_def nested_in_def sh cls split: option.split)
  then show "deck_ok ?s = deck_ok s" unfolding deck_ok_def Let_def h sec sh fields by simp
  show "at_slide ?s = at_slide s"
    unfolding fun_eq_iff at_slide_def valid_position_def slide_at_def h sec fields
    by (simp add: present_at_def cls)
qed

lemma pause_class_position [simp]:
  "at_slide (upd_dom (add_class ''paused'' n) s) = at_slide s"
  "at_slide (upd_dom (remove_class ''paused'' n) s) = at_slide s"
  "deck_ok (upd_dom (add_class ''paused'' n) s) = deck_ok s"
  "deck_ok (upd_dom (remove_class ''paused'' n) s) = deck_ok s"
  "horizontalSlides (upd_dom (add_class ''paused'' n) s) = horizontalSlides s"
  "horizontalSlides (upd_dom (remove_class ''paused'' n) s) = horizontalSlides s"
  "sections_in (upd_dom (add_class ''paused'' n) s) = sections_in s"
  "sections_in (upd_dom (remove_class ''paused'' n) s) = sections_in s"
  by (rule paused_position; simp add: same_shape_sym)+

lemma inv_pause_class:
  "reveal_inv s \<Longrightarrow> reveal_inv (upd_dom (add_class ''paused'' n) s)"
  "reveal_inv s \<Longrightarrow> reveal_inv (upd_dom (remove_class ''paused'' n) s)"
  by (simp_all add: reveal_inv_def placed_def) (simp_all add: isPrintingPDF_def upd_dom_def)

lemma inv_pages:
  assumes "reveal_inv s"
  shows "reveal_inv (snd (nextFragment s))" "reveal_inv (snd (previousFragment s))"
    "reveal_inv (updateSlidesVisibility s)" "reveal_inv (layoutOverview s)" "reveal_inv (updateOverview s)"
    "reveal_inv (reset_stacks s)" "reveal_inv (sortAllFragments s)" "reveal_inv (updateControls s)"
    "reveal_inv (updateProgress s)" "reveal_inv (updateSlideNumber s)" "reveal_inv (updateNotes s)"
    "reveal_inv (updateNotesVisibility s)" "reveal_inv (formatEmbeddedContent s)"
    "reveal_inv (startEmbeddedContent e s)" "reveal_inv (stopEmbeddedContent b e' s)"
  unfolding nextFragment_def previousFragment_def
  by (rule inv_page [OF assms], intro page; simp)+

lemma inv_updateBackground: "reveal_inv s \<Longrightarrow> reveal_inv (updateBackground b s)"
  by (rule inv_pos, assumption) (simp_all add: reveal_inv_def pos_updateBackground timers_updateBackground)

lemma inv_fold: "reveal_inv s \<Longrightarrow> (\<And>x s. reveal_inv s \<Longrightarrow> reveal_inv (f x s)) \<Longrightarrow> reveal_inv (fold f xs s)"
  by (induction xs arbitrary: s) simp_all

lemma inv_if: "(b \<Longrightarrow> reveal_inv x) \<Longrightarrow> (\<not> b \<Longrightarrow> reveal_inv y) \<Longrightarrow> reveal_inv (if b then x else y)"
  by simp

lemma inv_Let: "reveal_inv x \<Longrightarrow> (\<And>y. reveal_inv y \<Longrightarrow> reveal_inv (f y)) \<Longrightarrow> reveal_inv (Let x f)"
  by simp

lemma inv_fragment:
  assumes "reveal_inv s" "step = nextFragment \<or> step = previousFragment" "try_fragment step s = (go, s')"
  shows "reveal_inv s'"
  using assms inv_pages(1,2) [OF assms(1)]
  by (auto simp: try_fragment_def Let_def split: if_splits prod.splits)

section \<open>Operations that may move\<close>

lemma keeps_step:
  assumes "reveal_inv s" "step = nextFragment \<or> step = previousFragment"
    "\<And>t. reveal_inv t \<Longrightarrow> r t \<Longrightarrow> keeps (slide (h t) (v t) Undef t)"
  shows "keeps (let (go, s) = try_fragment step s in if go \<and> r s then slide (h s) (v s) Undef s else Some s)"
proof -
  obtain go t where t: "try_fragment step s = (go, t)" by (cases "try_fragment step s")
  have "reveal_inv t" by (rule inv_fragment [OF assms(1,2) t])
  with t assms(3) show ?thesis by simp
qed

lemma num_add_index:
  "reveal_inv s \<Longrightarrow> num_add (indexh s) k \<noteq> NaN" "reveal_inv s \<Longrightarrow> num_add (indexv s) k \<noteq> NaN"
  "reveal_inv s \<Longrightarrow> indexh s \<noteq> NaN" "reveal_inv s \<Longrightarrow> indexv s \<noteq> NaN"
  using inv_index [of s] by auto

lemma keeps_navigate:
  assumes "reveal_inv s"
  shows "keeps (navigateLeft s)" "keeps (navigateRight s)" "keeps (navigateUp s)" "keeps (navigateDown s)"
proof -
  note step = keeps_step [where v = "\<lambda>_. Undef"] and stepv = keeps_step [where h = indexh]
  have R: "reveal_inv (s\<lparr>hasNavigatedRight := True\<rparr>)" "reveal_inv (s\<lparr>hasNavigatedDown := True\<rparr>)"
    using assms by simp_all
  show "keeps (navigateLeft s)"
    unfolding navigateLeft_def
    using step [OF assms, of nextFragment "\<lambda>s. left (availableRoutes s)" "\<lambda>s. num_add (indexh s) 1"]
      step [OF assms, of previousFragment "\<lambda>s. left (availableRoutes s)" "\<lambda>s. num_add (indexh s) (-1)"]
    by (simp add: keeps_slide num_add_index)
  show "keeps (navigateRight s)"
    unfolding navigateRight_def Let_def [of "s\<lparr>hasNavigatedRight := True\<rparr>"]
    using step [OF R(1), of previousFragment "\<lambda>s. right (availableRoutes s)" "\<lambda>s. num_add (indexh s) (-1)"]
      step [OF R(1), of nextFragment "\<lambda>s. right (availableRoutes s)" "\<lambda>s. num_add (indexh s) 1"]
    by (simp add: keeps_slide num_add_index)
  show "keeps (navigateUp s)"
    unfolding navigateUp_def
    using stepv [OF assms, of previousFragment "\<lambda>s. up (availableRoutes s)" "\<lambda>s. num_add (indexv s) (-1)"]
    by (simp add: keeps_slide num_add_index)
  show "keeps (navigateDown s)"
    unfolding navigateDown_def Let_def [of "s\<lparr>hasNavigatedDown := True\<rparr>"]
    using stepv [OF R(2), of nextFragment "\<lambda>s. down (availableRoutes s)" "\<lambda>s. num_add (indexv s) 1"]
    by (simp add: keeps_slide num_add_index)
qed

lemma keeps_prev_next:
  assumes "reveal_inv s"
  shows "keeps (navigatePrev s)" "keeps (navigateNext s)"
proof -
  obtain c t where t: "previousFragment s = (c, t)" by (cases "previousFragment s")
  have it: "reveal_inv t" using inv_pages(2) [OF assms] t by simp
  have "last_vertical p t \<noteq> NaN" for p by (simp add: last_vertical_def Let_def)
  with it show "keeps (navigatePrev s)"
    unfolding navigatePrev_def t
    by (auto simp: Let_def keeps_navigate keeps_slide num_add_index split: list.split)
  let ?s = "s\<lparr>hasNavigatedRight := True, hasNavigatedDown := True\<rparr>"
  obtain d u where u: "nextFragment ?s = (d, u)" by (cases "nextFragment ?s")
  have "reveal_inv u" using inv_pages(1) [of ?s] assms u by simp
  then show "keeps (navigateNext s)"
    unfolding navigateNext_def Let_def u by (simp add: keeps_navigate)
qed

lemma inv_pause: "reveal_inv s \<Longrightarrow> reveal_inv (pause s)"
  by (simp add: pause_def Let_def inv_auto inv_pause_class)

lemma inv_resume: "reveal_inv s \<Longrightarrow> reveal_inv (resume s)"
  by (simp add: resume_def Let_def inv_auto inv_pause_class)

lemma inv_togglePause: "reveal_inv s \<Longrightarrow> reveal_inv (togglePause b s)"
  by (simp add: togglePause_def inv_pause inv_resume)

lemma inv_activate:
  assumes "reveal_inv s"
  shows "reveal_inv (activateOverview s)"
proof -
  have fold: "reveal_inv t \<Longrightarrow> reveal_inv (fold (\<lambda>n s. if \<not> has_class ''stack'' (r_dom s) n
      then log_effect (Add_click_listener n) s else s) ns t)" for t ns
    by (rule inv_fold) simp_all
  show ?thesis
    unfolding activateOverview_def
    by (intro inv_if inv_Let; simp add: assms inv_auto inv_class inv_set_timeout inv_pages fold)
qed

lemma keeps_deactivate:
  assumes "reveal_inv s"
  shows "keeps (deactivateOverview s)"
proof -
  have fold: "reveal_inv t \<Longrightarrow> reveal_inv (fold (\<lambda>n s. log_effect (Remove_click_listener n)
        (log_effect (Transform n None) s)) ns t)"
      "reveal_inv t \<Longrightarrow> reveal_inv (fold (\<lambda>n s. log_effect (Transform n None) s) ns t)" for t ns
    by (rule inv_fold; simp)+
  show ?thesis
  proof (cases "c_overview (r_config s)")
    case True
    then show ?thesis
      unfolding deactivateOverview_def if_P [OF True] Let_def
      by (intro keeps_bind keeps_slide)
        (simp_all add: assms inv_auto inv_class inv_set_timeout fold num_add_index)
  next
    case False
    then show ?thesis using assms by (simp add: deactivateOverview_def)
  qed
qed

lemma keeps_toggleOverview: "reveal_inv s \<Longrightarrow> keeps (toggleOverview b s)"
  by (simp add: toggleOverview_def inv_activate keeps_deactivate)

lemma keeps_setState:
  assumes "reveal_inv s" "st_indexh st \<noteq> NaN" "st_indexv st \<noteq> NaN"
  shows "keeps (setState st s)"
  unfolding setState_def Let_def
  by (intro keeps_bind keeps_slide)
    (use assms in \<open>auto simp: inv_togglePause keeps_toggleOverview\<close>)

lemma keeps_readURL:
  assumes "reveal_inv s"
  shows "keeps (readURL s)"
proof -
  have "keeps (slide h v Undef s)" if "getIndices_of e s = (h, v)" for e h v
    using that assms by (intro keeps_slide) (auto simp: getIndices_of_def Let_def split: if_splits)
  then show ?thesis
    using assms unfolding readURL_def Let_def
    by (auto simp: keeps_slide split: option.split prod.split)
qed

lemma keeps_timer_callback:
  assumes "reveal_inv s"
  shows "keeps (timer_callback c s)"
  using assms
  by (cases c) (auto simp: inv_auto inv_pages inv_class intro!: keeps_map keeps_prev_next)

section \<open>Handlers\<close>

lemma keeps_key_action:
  assumes "reveal_inv s"
  shows "keeps (map_option snd (key_action w e s))"
proof -
  have trig: "keeps (map_option snd (map_option (Pair True) r)) = keeps r" for r :: "reveal option"
    by (cases r) simp_all
  note nav = keeps_navigate [OF assms] keeps_prev_next [OF assms] keeps_deactivate [OF assms]
  show ?thesis
    unfolding key_action_def Let_def
    using nav assms by (simp add: trig keeps_slide inv_togglePause inv_toggleAuto)
qed

lemma keeps_key:
  assumes "reveal_inv s"
  shows "keeps (onDocumentKeyDown focused e s)"
proof -
  let ?s = "onUserInput s"
  have i: "reveal_inv ?s" by (rule inv_userInput [OF assms])
  show ?thesis
  proof (cases "key_action (autoSlidePaused s) e ?s")
    case None
    then show ?thesis using keeps_key_action [OF i, of "autoSlidePaused s" e] by (simp add: keeps_def)
  next
    case (Some r)
    obtain b t where r: "r = (b, t)" by (cases r)
    have t: "reveal_inv t" using keeps_key_action [OF i, of "autoSlidePaused s" e] Some r by simp
    show ?thesis
      unfolding onDocumentKeyDown_def Let_def Some option.case r prod.case
      using i t
      by (auto simp: inv_auto intro!: keeps_bind keeps_map keeps_toggleOverview)
  qed
qed

lemma inv_keyPress: "reveal_inv s \<Longrightarrow> reveal_inv (onDocumentKeyPress b c s)"
  by (simp add: onDocumentKeyPress_def)

lemma inv_touchStart: "reveal_inv s \<Longrightarrow> reveal_inv (onTouchStart e s)"
  by (simp add: onTouchStart_def Let_def)

lemma keeps_pinch: "reveal_inv s \<Longrightarrow> keeps (pinch e s)"
  by (simp add: pinch_def Let_def inv_activate keeps_deactivate)

lemma keeps_swipe: "reveal_inv s \<Longrightarrow> keeps (swipe x y s)"
  by (simp add: swipe_def keeps_navigate)

lemma keeps_touchMove: "reveal_inv s \<Longrightarrow> keeps (onTouchMove a e s)"
  unfolding onTouchMove_def
  by (auto simp: Let_def inv_userInput intro!: keeps_map keeps_pinch keeps_swipe)

lemma inv_touchEnd: "reveal_inv s \<Longrightarrow> reveal_inv (onTouchEnd s)"
  by (simp add: onTouchEnd_def)

lemma keeps_wheel: "reveal_inv s \<Longrightarrow> keeps (onDocumentMouseScroll d w s)"
  by (simp add: onDocumentMouseScroll_def Let_def keeps_prev_next)

lemma keeps_progress: "reveal_inv s \<Longrightarrow> keeps (onProgressClicked x w s)"
  by (simp add: onProgressClicked_def Let_def keeps_slide inv_userInput)

lemma keeps_controls:
  assumes "reveal_inv s"
  shows "keeps (onNavigateLeftClicked s)" "keeps (onNavigateRightClicked s)" "keeps (onNavigateUpClicked s)"
    "keeps (onNavigateDownClicked s)" "keeps (onNavigatePrevClicked s)" "keeps (onNavigateNextClicked s)"
  using assms
  by (simp_all add: onNavigateLeftClicked_def onNavigateRightClicked_def onNavigateUpClicked_def
      onNavigateDownClicked_def onNavigatePrevClicked_def onNavigateNextClicked_def on_control_def
      inv_userInput keeps_navigate keeps_prev_next)

text \<open>
  A click in the overview reads the indices \<open>layoutOverview\<close> wrote to the slide clicked: the horizontal
  one, and the vertical one of a slide in a stack.
\<close>

definition click_ok :: "node \<Rightarrow> reveal \<Rightarrow> bool" where
  "click_ok el s \<longleftrightarrow>
     (let h = attr_int ''data-index-h'' (r_dom s) el; v = attr_int ''data-index-v'' (r_dom s) el
      in h \<noteq> NaN \<and> (v \<noteq> NaN \<or> no_stack_at s h))"

lemma attr_int_defined: "attr_int a d n \<noteq> Undef"
  by (simp add: attr_int_def js_parse_int_defined split: option.split)

lemma keeps_overviewClick:
  assumes "reveal_inv s" "\<And>el t. element = Some el \<Longrightarrow> deactivateOverview (log_effect Prevent_default s) = Some t \<Longrightarrow> click_ok el t"
  shows "keeps (onOverviewSlideClicked element s)"
proof (cases element)
  case (Some el)
  show ?thesis
    unfolding onOverviewSlideClicked_def Let_def Some option.case
    using assms(1)
    by (auto intro!: keeps_bind keeps_deactivate keeps_slide dest!: assms(2) [OF Some]
        simp: click_ok_def Let_def attr_int_defined)
qed (simp add: onOverviewSlideClicked_def Let_def assms(1))

lemma keeps_playerClick: "reveal_inv s \<Longrightarrow> keeps (onAutoSlidePlayerClick s)"
  by (auto simp: onAutoSlidePlayerClick_def inv_resumeAuto inv_pauseAuto intro!: keeps_map keeps_slide)

lemma inv_window: "reveal_inv s \<Longrightarrow> reveal_inv (onWindowResize s)" "reveal_inv s \<Longrightarrow> reveal_inv (onPageVisibilityChange a b s)"
  by (simp_all add: onWindowResize_def onPageVisibilityChange_def)

lemma inv_sync:
  assumes "reveal_inv s"
  shows "reveal_inv (sync s)"
  unfolding sync_def
  by (intro inv_if inv_Let)
    (use assms in \<open>auto simp: inv_auto inv_pages inv_updateBackground split: option.split\<close>)

section \<open>The state machine\<close>

datatype event =
  Ev_key bool key_event
| Ev_key_press bool int
| Ev_touch_start touch_event
| Ev_touch_move bool touch_event
| Ev_touch_end
| Ev_pointer_down bool "int \<times> int" "bool list"
| Ev_pointer_move bool bool "int \<times> int" "bool list"
| Ev_pointer_up bool
| Ev_wheel int int
| Ev_progress int int
| Ev_left | Ev_right | Ev_up | Ev_down | Ev_prev | Ev_next
| Ev_overview_click "node option"
| Ev_player_click
| Ev_hash string
| Ev_resize
| Ev_visibility bool bool
| Ev_clock int
| Ev_timer timer
| Ev_sync
| Ev_slide jsnum jsnum jsnum
| Ev_set_state saved_state
| Ev_toggle_overview "bool option"
| Ev_toggle_pause "bool option"
| Ev_toggle_auto_slide "bool option"

fun handle :: "event \<Rightarrow> reveal \<Rightarrow> reveal option" where
  "handle (Ev_key focused e) s = onDocumentKeyDown focused e s"
| "handle (Ev_key_press shift c) s = Some (onDocumentKeyPress shift c s)"
| "handle (Ev_touch_start e) s = Some (onTouchStart e s)"
| "handle (Ev_touch_move android e) s = onTouchMove android e s"
| "handle Ev_touch_end s = Some (onTouchEnd s)"
| "handle (Ev_pointer_down is_touch p prevent) s = Some (onPointerDown is_touch p prevent s)"
| "handle (Ev_pointer_move android is_touch p prevent) s = onPointerMove android is_touch p prevent s"
| "handle (Ev_pointer_up is_touch) s = Some (onPointerUp is_touch s)"
| "handle (Ev_wheel d w) s = onDocumentMouseScroll d w s"
| "handle (Ev_progress x w) s = onProgressClicked x w s"
| "handle Ev_left s = onNavigateLeftClicked s"
| "handle Ev_right s = onNavigateRightClicked s"
| "handle Ev_up s = onNavigateUpClicked s"
| "handle Ev_down s = onNavigateDownClicked s"
| "handle Ev_prev s = onNavigatePrevClicked s"
| "handle Ev_next s = onNavigateNextClicked s"
| "handle (Ev_overview_click el) s = onOverviewSlideClicked el s"
| "handle Ev_player_click s = onAutoSlidePlayerClick s"
| "handle (Ev_hash x) s = onWindowHashChange (s\<lparr>r_hash := x\<rparr>)"
| "handle Ev_resize s = Some (onWindowResize s)"
| "handle (Ev_visibility hidden focused) s = Some (onPageVisibilityChange hidden focused s)"
| "handle (Ev_clock t) s = Some (s\<lparr>r_now := t\<rparr>)"
| "handle (Ev_timer t) s = fire_timer t s"
| "handle Ev_sync s = Some (sync s)"
| "handle (Ev_slide h v f) s = slide h v f s"
| "handle (Ev_set_state st) s = setState st s"
| "handle (Ev_toggle_overview b) s = toggleOverview b s"
| "handle (Ev_toggle_pause b) s = Some (togglePause b s)"
| "handle (Ev_toggle_auto_slide b) s = Some (toggleAutoSlide b s)"

text \<open>
  What the environment may do: a timer fires while it is pending, a click on the progress bar has a
  width, a click in the overview is on a slide that was laid out, and the page passes numbers.
\<close>

fun allowed :: "event \<Rightarrow> reveal \<Rightarrow> bool" where
  "allowed (Ev_timer t) s = (t \<in> set (r_timers s))"
| "allowed (Ev_progress x w) s = (0 < w)"
| "allowed (Ev_overview_click el) s =
     (case (el, deactivateOverview (log_effect Prevent_default s)) of
        (Some n, Some t) \<Rightarrow> click_ok n t | _ \<Rightarrow> True)"
| "allowed (Ev_slide h v f) s = (h \<noteq> NaN \<and> v \<noteq> NaN)"
| "allowed (Ev_set_state st) s = (st_indexh st \<noteq> NaN \<and> st_indexv st \<noteq> NaN)"
| "allowed _ s = True"

lemma keeps_handle:
  assumes "reveal_inv s" "allowed e s"
  shows "keeps (handle e s)"
  using assms
proof (cases e)
  case (Ev_overview_click el)
  then show ?thesis using assms by (auto intro!: keeps_overviewClick split: option.splits)
next
  case (Ev_timer t)
  then show ?thesis using assms by (simp add: fire_timer_def keeps_timer_callback inv_clear)
qed (simp_all add: keeps_key inv_keyPress inv_touchStart keeps_touchMove inv_touchEnd onPointerDown_def
    onPointerMove_def onPointerUp_def keeps_wheel keeps_progress keeps_controls keeps_playerClick
    onWindowHashChange_def keeps_readURL inv_window inv_sync keeps_slide keeps_setState
    keeps_toggleOverview inv_togglePause inv_toggleAuto)

inductive reveal_step :: "reveal \<Rightarrow> event \<Rightarrow> reveal option \<Rightarrow> bool" where
  "allowed e s \<Longrightarrow> reveal_step s e (handle e s)"

text \<open>The states reached from a start: the first slide comes from the URL.\<close>

inductive reachable :: "reveal \<Rightarrow> reveal \<Rightarrow> bool" for s0 where
  start: "readURL s0 = Some s \<Longrightarrow> reachable s0 s"
| step: "reachable s0 s \<Longrightarrow> reveal_step s e (Some s') \<Longrightarrow> reachable s0 s'"

inductive_cases reveal_stepE: "reveal_step s e r"

section \<open>The start\<close>

definition initial_ok :: "reveal \<Rightarrow> bool" where
  "initial_ok s \<longleftrightarrow> deck_ok s \<and> \<not> isPrintingPDF s \<and> horizontalSlides s \<noteq> [] \<and> \<not> overview s \<and>
     indexh s = Undef \<and> indexv s = Undef \<and> currentSlide s = None \<and> r_timers s = [] \<and> 0 < r_next_timer s"

text \<open>A presentation before its first slide, whatever timers are pending.\<close>

definition fresh_ok :: "reveal \<Rightarrow> bool" where
  "fresh_ok s \<longleftrightarrow> deck_ok s \<and> \<not> isPrintingPDF s \<and> horizontalSlides s \<noteq> [] \<and> \<not> overview s \<and>
     indexh s = Undef \<and> indexv s = Undef \<and> currentSlide s = None \<and> timers_ok s"

lemma initial_fresh: "initial_ok s \<Longrightarrow> fresh_ok s"
  by (simp add: initial_ok_def fresh_ok_def timers_ok_def)

lemma fresh_slide_frame:
  assumes "fresh_ok s" "v \<noteq> NaN"
  shows "\<exists>s'. slide (Num i) v f s = Some s' \<and> reveal_inv s' \<and> doc_frame (keep_names (r_root s)) s s'"
proof -
  have i: "deck_ok s" "\<not> isPrintingPDF s" "horizontalSlides s \<noteq> []" "position_ok s" "timers_ok s"
    using assms(1) by (simp_all add: fresh_ok_def position_ok_def)
  define k where "k = clamp_in s (horizontalSlides s) i"
  define x where "x = horizontalSlides s ! nat k"
  obtain j where j: "asked_index (Num i) v s = Num j"
    using assms previous_index_number [OF i(1), of "js_nth (horizontalSlides s) (Num i)"]
    by (cases v) (auto simp: asked_index_def or_default_def fresh_ok_def isOverview_def)
  obtain s' where "slide (Num i) v f s = Some s'" "deck_ok s'"
      "at_slide s' k (clamp_in s (sections_in s x) j)" "doc_frame (keep_names (r_root s)) s s'"
    by (rule slide_result [OF i(1-4) _ k_def x_def disjI2 [OF j] refl]) (simp add: or_default_def)
  moreover have "isPrintingPDF s' = isPrintingPDF s"
    using doc_frame_shape(10) [OF \<open>doc_frame _ s s'\<close>] by (simp add: isPrintingPDF_def)
  ultimately show ?thesis
    using i timers_slide [OF i(5)] by (auto simp: reveal_inv_def placed_def)
qed

lemma fresh_slide: "fresh_ok s \<Longrightarrow> v \<noteq> NaN \<Longrightarrow> keeps (slide (Num i) v f s)"
  using fresh_slide_frame [of s v i f] by (auto simp: keeps_def)

text \<open>So the first reading of the URL places the presentation.\<close>

lemma fresh_readURL:
  assumes "fresh_ok s"
  shows "\<exists>s'. readURL s = Some s' \<and> reveal_inv s' \<and> doc_frame (keep_names (r_root s)) s s'"
proof -
  note go = fresh_slide_frame [OF assms]
  have "\<exists>s'. slide h v Undef s = Some s' \<and> reveal_inv s' \<and> doc_frame (keep_names (r_root s)) s s'"
    if "getIndices_of e s = (h, v)" for e h v
    using that go by (auto simp: getIndices_of_def Let_def split: if_splits)
  moreover have "indexh s = Undef" using assms by (simp add: fresh_ok_def)
  ultimately show ?thesis
    unfolding readURL_def Let_def
    using go by (auto split: option.split prod.split)
qed

lemma fresh_keeps: "fresh_ok s \<Longrightarrow> keeps (readURL s)"
  using fresh_readURL [of s] by (auto simp: keeps_def)

lemmas start_slide = fresh_slide [OF initial_fresh]

lemmas start_keeps = fresh_keeps [OF initial_fresh]

lemma reachable_inv:
  assumes "reachable s0 s" "initial_ok s0"
  shows "reveal_inv s"
  using assms
proof induction
  case (start s)
  then show ?case using start_keeps [of s0] by simp
next
  case (step s e s')
  from step(2) have "allowed e s" "handle e s = Some s'" by (auto elim: reveal_stepE)
  then show ?case using keeps_handle [of s e] step(3,4) by simp
qed

section \<open>An example\<close>

text \<open>
  The root 0 holds the wrapper 1; in it are the container 2 with a slide 3 and a stack 4 of the slides
  5 and 6, and the backgrounds' container 7, empty.
\<close>

definition example_dom :: dom where
  "example_dom = \<lparr>d_nodes = [0, 1, 2, 3, 4, 5, 6, 7],
     d_tag = (\<lambda>n. if n = 0 then ''html'' else if 3 \<le> n \<and> n \<le> 6 then ''section'' else ''div''),
     d_parent = (\<lambda>n. if n = 1 then Some 0 else if n = 2 \<or> n = 7 then Some 1 else if n = 3 \<or> n = 4 then Some 2
        else if n = 5 \<or> n = 6 then Some 4 else None),
     d_kids = (\<lambda>n. if n = 0 then [1] else if n = 1 then [2, 7] else if n = 2 then [3, 4]
        else if n = 4 then [5, 6] else []),
     d_desc = (\<lambda>n. if n = 0 then [1, 2, 3, 4, 5, 6, 7] else if n = 1 then [2, 3, 4, 5, 6, 7]
        else if n = 2 then [3, 4, 5, 6] else if n = 4 then [5, 6] else []),
     d_class = (\<lambda>n. if n = 2 then [''slides''] else []), d_attr = (\<lambda>_ _. None),
     d_display = (\<lambda>_. []), d_text = (\<lambda>_. [])\<rparr>"

definition example_deck :: "reveal \<Rightarrow> reveal" where
  "example_deck s = s\<lparr>r_dom := example_dom, r_root := 0, r_wrapper := 1, r_slides := 2, r_background := 7,
     r_printing := False, overview := False, indexh := Undef, indexv := Undef, currentSlide := None,
     r_timers := [], r_next_timer := 1\<rparr>"

lemma example_slides:
  "horizontalSlides (example_deck s) = [3, 4]" "sections_in (example_deck s) 3 = []"
  "sections_in (example_deck s) 4 = [5, 6]"
  by (simp_all add: horizontalSlides_def sections_in_def query_all_def horizontal_sel_def is_section_def
      parent_has_class_def has_class_def example_deck_def example_dom_def)

lemma example_initial: "initial_ok (example_deck s)"
proof -
  have "deck_ok (example_deck s)"
    unfolding deck_ok_def Let_def example_slides
    by (auto simp: example_slides) (auto simp: example_deck_def example_dom_def is_section_def section_ok_def
        has_class_def nested_in_def)
  then show ?thesis
    by (simp add: initial_ok_def example_slides isPrintingPDF_def) (simp add: example_deck_def)
qed

lemma example_reached: "\<exists>s'. reachable (example_deck s) s' \<and> reveal_inv s'"
proof -
  obtain s' where "readURL (example_deck s) = Some s'" "reveal_inv s'"
    using start_keeps [OF example_initial, of s] by (cases "readURL (example_deck s)") (auto simp: keeps_def)
  then show ?thesis by (blast intro: reachable.start)
qed

section \<open>Properties\<close>

lemma reveal_inv_timers: "reveal_inv s \<Longrightarrow> timers_ok s"
  by (simp add: reveal_inv_def)

lemma timers_ok_one:
  assumes "timers_ok s"
  shows "length (auto_timers s) \<le> 1"
proof (rule ccontr)
  assume "\<not> ?thesis"
  then obtain a b rest where ab: "auto_timers s = a # b # rest"
    by (cases "auto_timers s" rule: remdups_adj.cases) auto
  then have "a \<in> set (auto_timers s)" "b \<in> set (auto_timers s)" by simp_all
  then have "t_id a = t_id b" using assms by (auto simp: auto_timers_def timers_ok_def)
  moreover have "distinct (map t_id (auto_timers s))"
    using assms by (simp add: timers_ok_def auto_timers_def distinct_map_filter)
  ultimately show False by (simp add: ab)
qed

text \<open>
  C11: whatever the user, the timers and the page do after the start, the indices are in range, the
  current slide is the one they name, and of the horizontal slides it alone (or its stack) is present.
\<close>

theorem reachable_position:
  assumes "initial_ok s0" "reachable s0 s"
  shows "\<exists>h v. indexh s = Num h \<and> indexv s = Num v \<and> valid_position s h v \<and>
    currentSlide s = Some (slide_at s h v) \<and> present_at (horizontalSlides s) h (r_dom s)"
  using reachable_inv [OF assms(2,1)] by (auto simp: reveal_inv_def placed_def at_slide_def)

theorem reachable_position_witness:
  "\<forall>s. \<exists>s' h v. reachable (example_deck s) s' \<and> indexh s' = Num h \<and> indexv s' = Num v \<and>
    valid_position s' h v \<and> currentSlide s' = Some (slide_at s' h v)"
  using reachable_position [OF example_initial] example_reached by blast



text \<open>
  C13: at most one timer that advances the presentation is pending, and \<open>cancelAutoSlide\<close> leaves none:
  \<open>autoSlideTimeout\<close> always names it.
\<close>

theorem one_auto_timer:
  assumes "initial_ok s0" "reachable s0 s"
  shows "length (auto_timers s) \<le> 1 \<and> auto_timers (cancelAutoSlide s) = []"
  using timers_ok_one [of s] timers_cancel(2) [of s] reveal_inv_timers [OF reachable_inv [OF assms(2,1)]]
  by blast

theorem one_auto_timer_witness:
  "\<forall>s. \<exists>s'. reachable (example_deck s) s' \<and> length (auto_timers s') \<le> 1 \<and>
    auto_timers (cancelAutoSlide s') = []"
  using one_auto_timer [OF example_initial] example_reached by blast

text \<open>
  C14: \<open>slide\<close> with two numbers goes to the slide at these indices, each taken modulo the number of
  slides when the presentation loops and else brought into range; it does not fail.
\<close>

theorem slide_goes:
  assumes "reveal_inv s"
    "k = clamp_in s (horizontalSlides s) i"
    "m = clamp_in s (sections_in s (horizontalSlides s ! nat k)) j"
  shows "\<exists>s'. slide (Num i) (Num j) f s = Some s' \<and> indexh s' = Num k \<and> indexv s' = Num m \<and>
    currentSlide s' = Some (slide_at s k m) \<and> horizontalSlides s' = horizontalSlides s"
proof -
  have i: "deck_ok s" "\<not> isPrintingPDF s" and pos: "position_ok s"
    using assms(1) by (auto simp: reveal_inv_def placed_def position_ok_def)
  have hs: "horizontalSlides s \<noteq> []"
    using assms(1) by (auto simp: reveal_inv_def placed_def at_slide_def valid_position_def Let_def)
  obtain s' where s': "slide (Num i) (Num j) f s = Some s'" "at_slide s' k m" "doc_frame (keep_names (r_root s)) s s'"
    by (rule slide_result [OF i hs pos _ assms(2) refl _ assms(3), of "Num i" "Num j" f])
      (simp_all add: or_default_def asked_index_def)
  have "slide_at s' k m = slide_at s k m"
    unfolding slide_at_def horizontalSlides_frame [OF i(1) s'(3)] doc_frame_shape(5) [OF s'(3)] by (rule refl)
  with s' show ?thesis by (auto simp: at_slide_def horizontalSlides_frame [OF i(1) s'(3)])
qed

theorem slide_goes_witness:
  "\<forall>s. \<exists>s' s''. reachable (example_deck s) s' \<and> slide (Num 99) (Num 0) Undef s' = Some s'' \<and>
    indexh s'' = Num (clamp_in s' (horizontalSlides s') 99)"
proof (rule allI)
  fix s
  obtain s' where s': "reachable (example_deck s) s'" "reveal_inv s'" using example_reached by blast
  from slide_goes [OF s'(2) refl refl] s'(1)
  show "\<exists>s' s''. reachable (example_deck s) s' \<and> slide (Num 99) (Num 0) Undef s' = Some s'' \<and>
    indexh s'' = Num (clamp_in s' (horizontalSlides s') 99)" by blast
qed

end
