(* ===== verification/Reveal_Walk.thy ===== *)
theory Reveal_Walk
  imports Reveal_Events
begin

text \<open>
  Walking through a presentation: where the navigation operations lead, that going on always arrives at
  the end, and that the URL written for a slide leads back to it.
\<close>

section \<open>Going to a slide\<close>

lemma inv_parts:
  assumes "reveal_inv s"
  shows "deck_ok s" "\<not> isPrintingPDF s" "position_ok s" "horizontalSlides s \<noteq> []" "timers_ok s"
  using assms by (auto simp: reveal_inv_def placed_def position_ok_def at_slide_def valid_position_def Let_def)

lemma slide_to:
  assumes "reveal_inv s" "or_default h (indexh s) = Num i" "k = clamp_in s (horizontalSlides s) i"
    "sections_in s (horizontalSlides s ! nat k) = [] \<or> asked_index h v s = Num j"
    "m = clamp_in s (sections_in s (horizontalSlides s ! nat k)) j"
  obtains s' where "slide h v f s = Some s'" "reveal_inv s'" "at_slide s' k m"
    "doc_frame (keep_names (r_root s)) s s'" "overview s' = overview s"
proof -
  note i = inv_parts [OF assms(1)]
  obtain s' where s': "slide h v f s = Some s'" "deck_ok s'" "at_slide s' k m"
    "doc_frame (keep_names (r_root s)) s s'" "overview s' = overview s"
    by (rule slide_result [OF i(1,2,4,3) assms(2,3) refl assms(4,5)])
  have "isPrintingPDF s' = isPrintingPDF s"
    using doc_frame_shape(10) [OF s'(4)] by (simp add: isPrintingPDF_def)
  then have "reveal_inv s'"
    using s' i timers_slide [OF i(5) s'(1)] by (auto simp: reveal_inv_def placed_def)
  with s' show ?thesis by (intro that)
qed

text \<open>The same slides and the same configuration.\<close>

definition same_deck :: "reveal \<Rightarrow> reveal \<Rightarrow> bool" where
  "same_deck s s' \<longleftrightarrow> horizontalSlides s' = horizontalSlides s \<and> sections_in s' = sections_in s \<and>
     r_config s' = r_config s"

lemma same_deck_refl [simp]: "same_deck s s"
  by (simp add: same_deck_def)

lemma same_deck_trans: "same_deck s t \<Longrightarrow> same_deck t u \<Longrightarrow> same_deck s u"
  by (simp add: same_deck_def)

lemma same_deck_frame:
  "deck_ok s \<Longrightarrow> doc_frame (keep_names (r_root s)) s s' \<Longrightarrow> same_deck s s'"
  using horizontalSlides_frame [of s s'] doc_frame_shape(5,9) [of "keep_names (r_root s)" s s']
  by (simp add: same_deck_def)

lemma at_slide_cong:
  assumes "r_dom s' = r_dom s" "r_wrapper s' = r_wrapper s" "indexh s' = indexh s" "indexv s' = indexv s"
    "currentSlide s' = currentSlide s"
  shows "at_slide s' h v = at_slide s h v"
proof -
  have h: "horizontalSlides s' = horizontalSlides s" "sections_in s' = sections_in s"
    using assms by (simp_all add: horizontalSlides_def sections_in_def fun_eq_iff)
  show ?thesis unfolding at_slide_def valid_position_def slide_at_def h assms by simp
qed

lemma same_deck_position:
  "same_deck s s' \<Longrightarrow> valid_position s' = valid_position s \<and> slide_at s' = slide_at s \<and> clamp_in s' = clamp_in s"
  by (auto simp: same_deck_def valid_position_def slide_at_def clamp_in_def fun_eq_iff Let_def)

lemma clamp_in_id: "0 \<le> i \<Longrightarrow> i < int (length xs) \<Longrightarrow> clamp_in s xs i = i"
  by (auto simp: clamp_in_def clamp_index_id)

lemma at_slide_facts:
  assumes "at_slide s h v"
  shows "indexh s = Num h" "indexv s = Num v" "0 \<le> h" "h < int (length (horizontalSlides s))" "0 \<le> v"
    "sections_in s (horizontalSlides s ! nat h) = [] \<Longrightarrow> v = 0"
    "sections_in s (horizontalSlides s ! nat h) \<noteq> [] \<Longrightarrow> v < int (length (sections_in s (horizontalSlides s ! nat h)))"
  using assms by (auto simp: at_slide_def valid_position_def Let_def split: if_splits)

lemma at_slide_vertical:
  assumes "deck_ok s" "at_slide s h v"
  shows "verticalSlides s = sections_in s (horizontalSlides s ! nat h)"
  using verticalSlides_present [OF assms(1), of "nat h"] assms(2) at_slide_facts(3,4) [OF assms(2)]
  by (simp add: at_slide_def)

lemma at_slide_unique: "at_slide s h v \<Longrightarrow> at_slide s h' v' \<Longrightarrow> h' = h \<and> v' = v"
  using at_slide_facts(1,2) [of s h v] at_slide_facts(1,2) [of s h' v'] by simp

section \<open>Going on\<close>

text \<open>
  The move of \<open>navigateNext\<close>, and the operations it uses, without fragments (each of these first steps
  through the fragments of the slide, see \<open>Reveal_Stepping\<close>).
\<close>

lemma no_fragments:
  assumes "\<not> c_fragments (r_config s)"
  shows "nextFragment s = (False, s)" "previousFragment s = (False, s)"
    "try_fragment nextFragment s = (True, s)" "try_fragment previousFragment s = (True, s)"
  using assms
  by (simp_all add: nextFragment_def previousFragment_def navigateFragment_def try_fragment_def split: option.split)

lemma routes_at:
  assumes "deck_ok s" "at_slide s h v"
  shows "down (availableRoutes s) \<longleftrightarrow> v + 1 < int (length (sections_in s (horizontalSlides s ! nat h)))"
    "up (availableRoutes s) \<longleftrightarrow> 0 < v"
    "(if c_rtl (r_config s) then left (availableRoutes s) else right (availableRoutes s)) \<longleftrightarrow>
      h + 1 < int (length (horizontalSlides s)) \<or> c_loop (r_config s)"
    "(if c_rtl (r_config s) then right (availableRoutes s) else left (availableRoutes s)) \<longleftrightarrow>
      0 < h \<or> c_loop (r_config s)"
  using at_slide_facts(1,2) [OF assms(2)] at_slide_vertical [OF assms]
  by (auto simp: availableRoutes_def Let_def)

definition next_h :: "reveal \<Rightarrow> int \<Rightarrow> int" where
  "next_h s h = (h + 1) mod int (length (horizontalSlides s))"

lemma clamp_in_next:
  assumes "0 \<le> h" "h < int (length xs)" "h + 1 < int (length xs) \<or> c_loop (r_config s)"
  shows "clamp_in s xs (h + 1) = (h + 1) mod int (length xs)"
proof (cases "h + 1 < int (length xs)")
  case True
  then show ?thesis using assms by (simp add: clamp_in_id)
next
  case False
  then show ?thesis using assms clamp_index_loop [of "int (length xs)" "h + 1"] by (auto simp: clamp_in_def)
qed

lemma navigateNext_moves:
  assumes "reveal_inv s" "at_slide s h v" "\<not> c_fragments (r_config s)"
  shows "\<exists>s'. navigateNext s = Some s' \<and> reveal_inv s' \<and> same_deck s s' \<and>
    (if v + 1 < int (length (sections_in s (horizontalSlides s ! nat h))) then at_slide s' h (v + 1)
     else if h + 1 < int (length (horizontalSlides s)) \<or> c_loop (r_config s) then \<exists>m. at_slide s' (next_h s h) m
     else at_slide s' h v)"
proof -
  define t where "t = s\<lparr>hasNavigatedRight := True, hasNavigatedDown := True\<rparr>"
  have t: "reveal_inv t" "at_slide t h v" "same_deck s t" "\<not> c_fragments (r_config t)"
    using assms at_slide_cong [of t s]
    by (simp_all add: t_def same_deck_def horizontalSlides_def sections_in_def fun_eq_iff)
  have tu: "t\<lparr>hasNavigatedRight := True\<rparr> = t" "t\<lparr>hasNavigatedDown := True\<rparr> = t" by (simp_all add: t_def)
  note d = inv_parts(1) [OF t(1)] and f = at_slide_facts [OF t(2)] and r = routes_at [OF inv_parts(1) [OF t(1)] t(2)]
  note pos = same_deck_position [OF t(3)]
  have eq: "horizontalSlides t = horizontalSlides s" "sections_in t = sections_in s" "r_config t = r_config s"
    using t(3) by (simp_all add: same_deck_def)
  have nxt: "navigateNext s =
      (if down (availableRoutes t) then slide (indexh t) (num_add (indexv t) 1) Undef t
       else if (if c_rtl (r_config t) then left (availableRoutes t) else right (availableRoutes t))
       then slide (num_add (indexh t) 1) Undef Undef t else Some t)"
  proof -
    note nf = no_fragments [OF t(4)]
    have "navigateDown t = (if down (availableRoutes t) then slide (indexh t) (num_add (indexv t) 1) Undef t else Some t)"
      by (simp add: navigateDown_def tu nf)
    moreover have "navigateLeft t = (if left (availableRoutes t) then slide (num_add (indexh t) 1) Undef Undef t else Some t)"
      if "c_rtl (r_config t)" using that by (simp add: navigateLeft_def nf)
    moreover have "navigateRight t = (if right (availableRoutes t) then slide (num_add (indexh t) 1) Undef Undef t else Some t)"
      if "\<not> c_rtl (r_config t)" using that by (simp add: navigateRight_def tu nf)
    ultimately show ?thesis by (simp add: navigateNext_def t_def [symmetric] nf)
  qed
  let ?V = "sections_in s (horizontalSlides s ! nat h)" and ?H = "int (length (horizontalSlides s))"
  consider (down) "v + 1 < int (length ?V)" | (right) "\<not> v + 1 < int (length ?V)" "h + 1 < ?H \<or> c_loop (r_config s)"
    | (stay) "\<not> v + 1 < int (length ?V)" "\<not> (h + 1 < ?H \<or> c_loop (r_config s))" by blast
  then show ?thesis
  proof cases
    case down
    obtain s' where s': "slide (Num h) (Num (v + 1)) Undef t = Some s'" "reveal_inv s'" "at_slide s' h (v + 1)"
      "doc_frame (keep_names (r_root t)) t s'"
    proof (rule slide_to [OF t(1), of "Num h" h h "Num (v + 1)" "v + 1" "v + 1" Undef])
      show "h = clamp_in t (horizontalSlides t) h" using f by (simp add: clamp_in_id)
      show "v + 1 = clamp_in t (sections_in t (horizontalSlides t ! nat h)) (v + 1)"
        using f down by (simp add: clamp_in_id eq)
    qed (simp_all add: or_default_def asked_index_def)
    then show ?thesis
      using nxt r down f same_deck_trans [OF t(3) same_deck_frame [OF d s'(4)]] by (simp add: eq)
  next
    case right
    define k where "k = next_h s h"
    have k: "k = clamp_in t (horizontalSlides t) (h + 1)"
      using clamp_in_next [of h "horizontalSlides t" t] f right by (simp add: k_def next_h_def eq)
    obtain i where i: "getPreviousVerticalIndex (js_nth (horizontalSlides t) (Num (h + 1))) (r_dom t) = Num i"
      using previous_index_number [OF d] by blast
    obtain j where j: "asked_index (Num (h + 1)) Undef t = Num j"
    proof (cases "isOverview t")
      case True
      then show ?thesis using that [of v] f(2) by (simp add: asked_index_def or_default_def)
    next
      case False
      then show ?thesis using that [of i] i by (simp add: asked_index_def or_default_def)
    qed
    obtain s' where s': "slide (Num (h + 1)) Undef Undef t = Some s'" "reveal_inv s'"
      "at_slide s' k (clamp_in t (sections_in t (horizontalSlides t ! nat k)) j)"
      "doc_frame (keep_names (r_root t)) t s'"
      by (rule slide_to [OF t(1) _ k disjI2 [OF j] refl]) (simp_all add: or_default_def)
    then show ?thesis
      using nxt r right f same_deck_trans [OF t(3) same_deck_frame [OF d s'(4)]]
      by (auto simp: eq k_def)
  next
    case stay
    then show ?thesis using nxt r t by (simp add: eq)
  qed
qed

section \<open>Arriving at the end\<close>

text \<open>The slides one can be at, counted, and those before a position.\<close>

definition stack_size :: "reveal \<Rightarrow> node \<Rightarrow> int" where
  "stack_size s x = max 1 (int (length (sections_in s x)))"

definition deck_size :: "reveal \<Rightarrow> int" where
  "deck_size s = sum_list (map (stack_size s) (horizontalSlides s))"

definition slides_before :: "reveal \<Rightarrow> int \<Rightarrow> int \<Rightarrow> int" where
  "slides_before s h v = sum_list (map (stack_size s) (take (nat h) (horizontalSlides s))) + v"

lemma slides_before_next:
  assumes "0 \<le> h" "h < int (length (horizontalSlides s))"
  shows "slides_before s (h + 1) m = slides_before s h 0 + stack_size s (horizontalSlides s ! nat h) + m"
proof -
  have "nat (h + 1) = Suc (nat h)" using assms by simp
  then have "take (nat (h + 1)) (horizontalSlides s) = take (nat h) (horizontalSlides s) @ [horizontalSlides s ! nat h]"
    using assms by (simp add: take_Suc_conv_app_nth)
  then show ?thesis by (simp add: slides_before_def)
qed

lemma sum_list_nonneg': "(\<And>x. x \<in> set xs \<Longrightarrow> 0 \<le> f x) \<Longrightarrow> (0::int) \<le> sum_list (map f xs)"
  by (induction xs) auto

lemma slides_before_bound:
  assumes "valid_position s h v"
  shows "0 \<le> slides_before s h v" "slides_before s h v < deck_size s"
proof -
  let ?xs = "horizontalSlides s" and ?f = "stack_size s"
  have f: "0 \<le> ?f x" for x by (simp add: stack_size_def)
  have h: "0 \<le> h" "h < int (length ?xs)" "0 \<le> v" "v < ?f (?xs ! nat h)"
    using assms by (auto simp: valid_position_def Let_def stack_size_def split: if_splits)
  have "?xs = take (nat h) ?xs @ ?xs ! nat h # drop (Suc (nat h)) ?xs"
    using h by (simp add: id_take_nth_drop)
  then have "deck_size s = sum_list (map ?f (take (nat h) ?xs)) + ?f (?xs ! nat h) + sum_list (map ?f (drop (Suc (nat h)) ?xs))"
    unfolding deck_size_def by (metis (no_types, lifting) add.assoc list.simps(9) map_append sum_list.Cons sum_list.append)
  moreover have "0 \<le> sum_list (map ?f (drop (Suc (nat h)) ?xs))" "0 \<le> sum_list (map ?f (take (nat h) ?xs))"
    by (rule sum_list_nonneg' [OF f])+
  ultimately show "0 \<le> slides_before s h v" "slides_before s h v < deck_size s"
    using h by (simp_all add: slides_before_def)
qed

lemma slides_before_deck: "same_deck s s' \<Longrightarrow> slides_before s' = slides_before s \<and> deck_size s' = deck_size s"
proof -
  assume "same_deck s s'"
  then have h: "horizontalSlides s' = horizontalSlides s" "sections_in s' = sections_in s"
    by (simp_all add: same_deck_def)
  then have "stack_size s' = stack_size s" by (simp add: stack_size_def fun_eq_iff)
  with h show ?thesis by (simp only: slides_before_def [abs_def] deck_size_def)
qed

text \<open>Pressing \<open>n\<close> times; \<open>None\<close> when one of them fails.\<close>

fun press_next :: "nat \<Rightarrow> reveal \<Rightarrow> reveal option" where
  "press_next 0 s = Some s"
| "press_next (Suc n) s = (case navigateNext s of None \<Rightarrow> None | Some s \<Rightarrow> press_next n s)"

definition at_end :: "reveal \<Rightarrow> bool" where
  "at_end s \<longleftrightarrow> indexh s = Num (int (length (horizontalSlides s)) - 1) \<and>
     indexv s = Num (stack_size s (last (horizontalSlides s)) - 1)"

lemma at_end_iff:
  assumes "at_slide s h v"
  shows "at_end s \<longleftrightarrow> \<not> v + 1 < int (length (sections_in s (horizontalSlides s ! nat h))) \<and>
    \<not> h + 1 < int (length (horizontalSlides s))"
proof -
  note f = at_slide_facts [OF assms]
  have last: "horizontalSlides s ! nat h = last (horizontalSlides s)" if "h = int (length (horizontalSlides s)) - 1"
  proof -
    have "horizontalSlides s \<noteq> []" using f by auto
    moreover have "nat h = length (horizontalSlides s) - 1" using that by simp
    ultimately show ?thesis by (simp add: last_conv_nth)
  qed
  show ?thesis
  proof (cases "h = int (length (horizontalSlides s)) - 1")
    case True
    then show ?thesis
      using f last [OF True] by (cases "sections_in s (last (horizontalSlides s)) = []")
        (auto simp: at_end_def stack_size_def max_def Suc_le_eq)
  qed (use f in \<open>simp add: at_end_def\<close>)
qed

lemma press_next_arrives:
  assumes "reveal_inv s" "at_slide s h v" "\<not> c_fragments (r_config s)" "\<not> c_loop (r_config s)"
    "int n = deck_size s - 1 - slides_before s h v"
  shows "\<exists>m \<le> n. \<exists>s'. press_next m s = Some s' \<and> at_end s' \<and> same_deck s s'"
  using assms
proof (induction n arbitrary: s h v rule: less_induct)
  case (less n)
  note f = at_slide_facts [OF less.prems(2)]
  let ?V = "sections_in s (horizontalSlides s ! nat h)" and ?H = "int (length (horizontalSlides s))"
  show ?case
  proof (cases "at_end s")
    case True
    then show ?thesis by (intro exI [of _ 0]) simp
  next
    case False
    obtain s' where s': "navigateNext s = Some s'" "reveal_inv s'" "same_deck s s'"
      "if v + 1 < int (length ?V) then at_slide s' h (v + 1)
       else if h + 1 < ?H \<or> c_loop (r_config s) then \<exists>m. at_slide s' (next_h s h) m else at_slide s' h v"
      using navigateNext_moves [OF less.prems(1-3)] by blast
    have deck: "slides_before s' = slides_before s" "deck_size s' = deck_size s"
      using slides_before_deck [OF s'(3)] by simp_all
    have "\<exists>h' v'. at_slide s' h' v' \<and> slides_before s h v < slides_before s h' v'"
    proof (cases "v + 1 < int (length ?V)")
      case True
      with s'(4) show ?thesis by (intro exI [of _ h] exI [of _ "v + 1"]) (simp add: slides_before_def)
    next
      case False
      then have h: "h + 1 < ?H" using \<open>\<not> at_end s\<close> at_end_iff [OF less.prems(2)] by simp
      with s'(4) False f obtain m where m: "at_slide s' (h + 1) m" by (auto simp: next_h_def)
      have "v < stack_size s (horizontalSlides s ! nat h)"
        using f(5-7) by (cases "?V = []") (simp_all add: stack_size_def less_max_iff_disj)
      then have "slides_before s h v < slides_before s (h + 1) m"
        using slides_before_next [of h s m] f at_slide_facts(5) [OF m] by (simp add: slides_before_def)
      with m show ?thesis by blast
    qed
    then obtain h' v' where at: "at_slide s' h' v'" and more: "slides_before s h v < slides_before s h' v'" by blast
    have "slides_before s' h' v' < deck_size s'"
      using at by (intro slides_before_bound) (simp add: at_slide_def)
    then obtain n' where n': "int n' = deck_size s' - 1 - slides_before s' h' v'"
      using zero_le_imp_eq_int [of "deck_size s' - 1 - slides_before s' h' v'"] by fastforce
    have "n' < n" using n' more less.prems(5) by (simp add: deck)
    moreover have "\<not> c_fragments (r_config s')" "\<not> c_loop (r_config s')"
      using s'(3) less.prems(3,4) by (simp_all add: same_deck_def)
    ultimately obtain m s2 where "m \<le> n'" "press_next m s' = Some s2" "at_end s2" "same_deck s' s2"
      using less.IH [OF _ s'(2) at _ _ n'] by blast
    then show ?thesis
      using s'(1) \<open>n' < n\<close> same_deck_trans [OF s'(3)] by (intro exI [of _ "Suc m"]) auto
  qed
qed

section \<open>The start\<close>

lemma initial_slide:
  assumes "initial_ok s" "v \<noteq> NaN"
  obtains s' k m where "slide (Num i) v f s = Some s'" "reveal_inv s'" "at_slide s' k m"
    "doc_frame (keep_names (r_root s)) s s'" "overview s' = overview s"
    "k = clamp_in s (horizontalSlides s) i"
    "\<And>j. v = Num j \<Longrightarrow> m = clamp_in s (sections_in s (horizontalSlides s ! nat k)) j"
    "sections_in s (horizontalSlides s ! nat k) = [] \<Longrightarrow> m = 0"
proof -
  have i: "deck_ok s" "\<not> isPrintingPDF s" "horizontalSlides s \<noteq> []" "position_ok s" "timers_ok s"
    using assms(1) by (simp_all add: initial_ok_def position_ok_def timers_ok_def)
  define k where "k = clamp_in s (horizontalSlides s) i"
  define x where "x = horizontalSlides s ! nat k"
  obtain j' where g: "getPreviousVerticalIndex (js_nth (horizontalSlides s) (Num i)) (r_dom s) = Num j'"
    using previous_index_number [OF i(1)] by blast
  define j where "j = (case v of Num n \<Rightarrow> n | _ \<Rightarrow> j')"
  have j: "asked_index (Num i) v s = Num j"
    using g assms by (cases v) (simp_all add: asked_index_def or_default_def initial_ok_def isOverview_def j_def)
  define m where "m = clamp_in s (sections_in s x) j"
  obtain s' where s': "slide (Num i) v f s = Some s'" "deck_ok s'" "at_slide s' k m"
      "doc_frame (keep_names (r_root s)) s s'" "overview s' = overview s"
    by (rule slide_result [OF i(1-4) _ k_def x_def disjI2 [OF j] m_def]) (simp add: or_default_def)
  have "isPrintingPDF s' = isPrintingPDF s"
    using doc_frame_shape(10) [OF s'(4)] by (simp add: isPrintingPDF_def)
  then have inv: "reveal_inv s'"
    using s' i timers_slide [OF i(5) s'(1)] by (auto simp: reveal_inv_def placed_def)
  have m1: "m = clamp_in s (sections_in s (horizontalSlides s ! nat k)) n" if "v = Num n" for n
    using that by (simp add: m_def x_def j_def)
  have m2: "m = 0" if "sections_in s (horizontalSlides s ! nat k) = []"
    using that by (simp add: m_def x_def clamp_in_def)
  show ?thesis by (rule that [OF s'(1) inv s'(3-5) k_def m1 m2])
qed

section \<open>URLs\<close>

text \<open>
  The URL of a slide is its id, when it has one, or its indices.  The id has to be one that
  \<open>readURL\<close> takes, and to name this slide alone.
\<close>

definition id_ok :: "reveal \<Rightarrow> node \<Rightarrow> bool" where
  "id_ok s n \<longleftrightarrow> (case d_attr (r_dom s) n ''id'' of
     None \<Rightarrow> True
   | Some a \<Rightarrow> valid_id a \<and> n \<in> set (d_nodes (r_dom s)) \<and>
       (\<forall>x \<in> set (d_nodes (r_dom s)). d_attr (r_dom s) x ''id'' = Some a \<longrightarrow> x = n))"

lemma split_on_none: "x \<notin> set w \<Longrightarrow> split_on x w = [w]"
  by (induction w) auto

lemma split_on_append: "x \<notin> set w \<Longrightarrow> split_on x (w @ x # ws) = w # split_on x ws"
  by (induction w) auto

lemma is_digit_not: "is_digit c \<Longrightarrow> c \<noteq> CHR ''/'' \<and> c \<noteq> CHR ''#''"
  by (auto simp: is_digit_def)

lemma show_int_chars:
  assumes "0 \<le> n"
  shows "CHR ''/'' \<notin> set (js_show_int n)" "js_show_int n \<noteq> []"
  using show_nat_digits [OF assms] assms is_digit_not by (auto simp: js_show_int_def list_all_iff)

lemma alpha_not_number:
  assumes "alpha_char c"
  shows "js_parse_int (c # cs) = NaN"
proof -
  have n: "65 \<le> (of_char c :: nat)" "(of_char c :: nat) \<le> 122"
    using assms by (auto simp: alpha_char_def Let_def)
  then have "\<not> is_blank c" "\<not> is_digit c" by (auto simp: is_blank_def is_digit_def)
  moreover have "c \<noteq> CHR ''-''" "c \<noteq> CHR ''+''" using n by auto
  ultimately show ?thesis by (simp add: js_parse_int_def parse_unsigned_def)
qed

lemma id_char_not: "id_char c \<Longrightarrow> c \<noteq> CHR ''/'' \<and> c \<noteq> CHR ''#''"
  by (auto simp: id_char_def)

lemma valid_id_facts:
  assumes "valid_id w"
  shows "filter id_char w = w" "w \<noteq> []" "js_parse_int w = NaN" "CHR ''/'' \<notin> set w" "CHR ''#'' \<notin> set w"
proof -
  obtain c cs where w: "w = c # cs" "alpha_char c" "list_all id_char cs"
    using assms by (auto simp: valid_id_def split: list.splits)
  have "id_char c" using w(2) by (auto simp: alpha_char_def id_char_def Let_def)
  then have all: "list_all id_char w" using w by simp
  then show "filter id_char w = w" by (simp add: list_all_iff)
  show "CHR ''/'' \<notin> set w" "CHR ''#'' \<notin> set w" using all id_char_not by (auto simp: list_all_iff)
  show "w \<noteq> []" "js_parse_int w = NaN" using w alpha_not_number by simp_all
qed

lemma find_index_nth:
  assumes "distinct xs" "i < length xs"
  shows "find_index (xs ! i) xs = int i"
proof -
  have "takeWhile (\<lambda>y. y \<noteq> xs ! i) xs = take i xs"
    using assms by (intro takeWhile_eq_take_P_nth) (auto simp: nth_eq_iff_index_eq)
  then show ?thesis using assms(2) by (simp add: find_index_def)
qed

text \<open>The indices of a slide of the deck.\<close>

lemma getIndices_of_slide_at:
  assumes "deck_ok s" "valid_position s h v"
  shows "getIndices_of (slide_at s h v) s =
    (Num h, if sections_in s (horizontalSlides s ! nat h) = [] then Undef else Num v)"
proof -
  let ?x = "horizontalSlides s ! nat h" and ?n = "slide_at s h v"
  have h: "0 \<le> h" "h < int (length (horizontalSlides s))" using assms(2) by (auto simp: valid_position_def Let_def)
  have x: "?x \<in> set (horizontalSlides s)" using h by simp
  have ix: "find_index ?x (horizontalSlides s) = h"
    using find_index_nth [OF deck_distinct(1) [OF assms(1)], of "nat h"] h by simp
  show ?thesis
  proof (cases "sections_in s ?x = []")
    case True
    then have n: "?n = ?x" by (simp add: slide_at_def)
    have ok: "section_ok (r_dom s) (r_wrapper s) (r_root s) ?x"
      using deck_okD(3) [OF assms(1)] horizontal_in [OF x] by blast
    have "\<not> parent_is_section (r_dom s) ?x"
    proof
      assume "parent_is_section (r_dom s) ?x"
      then obtain p where p: "d_parent (r_dom s) ?x = Some p" "is_section (r_dom s) p"
        by (auto simp: parent_is_section_def split: option.splits)
      have "p \<in> set (d_desc (r_dom s) (r_wrapper s))"
        using ok p by (simp add: section_ok_def)
      then have "\<not> has_class ''slides'' (r_dom s) p"
        using deck_okD(3) [OF assms(1)] p(2) by (auto simp: section_ok_def)
      moreover have "has_class ''slides'' (r_dom s) p"
        using x p(1) by (auto simp: horizontalSlides_def query_all_def horizontal_sel_def parent_has_class_def)
      ultimately show False by blast
    qed
    with True h ix n show ?thesis by (simp add: getIndices_of_def)
  next
    case False
    have v: "0 \<le> v" "v < int (length (sections_in s ?x))"
      using assms(2) False by (auto simp: valid_position_def Let_def)
    have n: "?n = sections_in s ?x ! nat v" using False by (simp add: slide_at_def)
    then have "?n \<in> set (sections_in s ?x)" using v by simp
    then have nest: "nested_in (r_dom s) ?x ?n" using deck_distinct(4) [OF assms(1) x] by blast
    have "find_index ?n (sections_in s ?x) = v"
      using find_index_nth [OF deck_distinct(2) [OF assms(1) x], of "nat v"] v n by simp
    moreover have "parent_is_section (r_dom s) ?n"
      using nest horizontal_in [OF x] by (simp add: nested_in_def parent_is_section_def)
    ultimately show ?thesis
      using nest False h v ix by (simp add: getIndices_of_def nested_in_def)
  qed
qed

text \<open>The hash that \<open>writeURL\<close> leaves, at the slide \<open>(h, v)\<close>.\<close>

lemma slide_url_at:
  assumes "at_slide s h v" "id_ok s (slide_at s h v)"
  shows "slide_url (slide_at s h v) s = (case d_attr (r_dom s) (slide_at s h v) ''id'' of
      Some a \<Rightarrow> ''/'' @ a
    | None \<Rightarrow> ''/'' @ (if 0 < h \<or> 0 < v then js_show_int h else []) @ (if 0 < v then ''/'' @ js_show_int v else []))"
proof (cases "d_attr (r_dom s) (slide_at s h v) ''id''")
  case None
  then show ?thesis using at_slide_facts(1,2) [OF assms(1)] by (simp add: slide_url_def show_num_def)
next
  case (Some a)
  then have "valid_id a" using assms(2) by (simp add: id_ok_def)
  note a = valid_id_facts [OF this]
  obtain c cs where "a = c # cs" using a(2) by (cases a) simp_all
  with Some a(1) show ?thesis by (simp add: slide_url_def)
qed

text \<open>What \<open>readURL\<close> makes of it.\<close>

lemma readURL_indices:
  assumes "0 \<le> h" "0 \<le> v"
    "r_hash s = CHR ''#'' # ''/'' @ (if 0 < h \<or> 0 < v then js_show_int h else []) @ (if 0 < v then ''/'' @ js_show_int v else [])"
  shows "readURL s = (if Num h \<noteq> indexh s \<or> Num v \<noteq> indexv s then slide (Num h) (Num v) Undef s else Some s)"
proof -
  let ?rest = "(if 0 < h \<or> 0 < v then js_show_int h else []) @ (if 0 < v then ''/'' @ js_show_int v else [])"
  have drop2: "js_slice 2 (r_hash s) = ?rest" by (simp add: assms(3))
  have bits: "split_on (CHR ''/'') ?rest =
      (if 0 < v then [js_show_int h, js_show_int v] else if 0 < h then [js_show_int h] else [[]])"
    using split_on_append [of "CHR ''/''" "js_show_int h" "js_show_int v"]
      split_on_none [of "CHR ''/''" "js_show_int v"] split_on_none [of "CHR ''/''" "js_show_int h"]
      show_int_chars(1) [OF assms(1)] show_int_chars(1) [OF assms(2)] assms(1,2)
    by auto
  have nan: "js_parse_int [] = NaN" by (simp add: js_parse_int_def)
  have name: "filter (\<lambda>c. c \<noteq> CHR ''#'' \<and> c \<noteq> CHR ''/'') (r_hash s) = []" if "h = 0" "v = 0"
    using that by (simp add: assms(3))
  have b: "num_or0 (parse_bit (split_on (CHR ''/'') ?rest) 0) = h" "num_or0 (parse_bit (split_on (CHR ''/'') ?rest) 1) = v"
    "\<not> (parse_bit (split_on (CHR ''/'') ?rest) 0 = NaN \<and> filter (\<lambda>c. c \<noteq> CHR ''#'' \<and> c \<noteq> CHR ''/'') (r_hash s) \<noteq> [])"
  proof -
    have p: "parse_bit (split_on (CHR ''/'') ?rest) 0 = (if 0 < h \<or> 0 < v then Num h else NaN)"
        "parse_bit (split_on (CHR ''/'') ?rest) 1 = (if 0 < v then Num v else NaN)"
      unfolding bits by (simp_all add: parse_bit_def nan)
    show "num_or0 (parse_bit (split_on (CHR ''/'') ?rest) 0) = h"
      "num_or0 (parse_bit (split_on (CHR ''/'') ?rest) 1) = v"
      using assms(1,2) unfolding p by simp_all
    show "\<not> (parse_bit (split_on (CHR ''/'') ?rest) 0 = NaN \<and> filter (\<lambda>c. c \<noteq> CHR ''#'' \<and> c \<noteq> CHR ''/'') (r_hash s) \<noteq> [])"
      unfolding p(1) using name assms(1,2) by (cases "0 < h \<or> 0 < v") simp_all
  qed
  show ?thesis
    unfolding readURL_def Let_def drop2 b(1,2) if_not_P [OF b(3)] by (rule refl)
qed

lemma find_unique:
  "n \<in> set xs \<Longrightarrow> P n \<Longrightarrow> \<forall>x \<in> set xs. P x \<longrightarrow> x = n \<Longrightarrow> List.find P xs = Some n"
proof (induction xs)
  case (Cons x xs)
  show ?case
  proof (cases "P x")
    case True
    moreover have "x = n" using Cons.prems(3) True by (meson list.set_intros(1))
    ultimately show ?thesis by simp
  next
    case False
    then have "n \<in> set xs" using Cons.prems(1,2) by auto
    moreover have "\<forall>x \<in> set xs. P x \<longrightarrow> x = n" using Cons.prems(3) by (meson list.set_intros(2))
    ultimately have "List.find P xs = Some n" by (rule Cons.IH [OF _ Cons.prems(2)])
    with False show ?thesis by simp
  qed
qed simp

lemma readURL_id:
  assumes "valid_id a" "r_hash s = CHR ''#'' # ''/'' @ a" "n \<in> set (d_nodes (r_dom s))"
    "d_attr (r_dom s) n ''id'' = Some a"
    "\<forall>x \<in> set (d_nodes (r_dom s)). d_attr (r_dom s) x ''id'' = Some a \<longrightarrow> x = n"
  shows "readURL s = (let (h, v) = getIndices_of n s in slide h v Undef s)"
proof -
  note a = valid_id_facts [OF assms(1)]
  have bits: "split_on (CHR ''/'') (js_slice 2 (r_hash s)) = [a]"
    using split_on_none [OF a(4)] by (simp add: assms(2))
  have name: "filter (\<lambda>c. c \<noteq> CHR ''#'' \<and> c \<noteq> CHR ''/'') (r_hash s) = a"
    using a(4,5) by (auto simp: assms(2) filter_id_conv)
  have "List.find (\<lambda>x. d_attr (r_dom s) x ''id'' = Some a) (d_nodes (r_dom s)) = Some n"
    by (rule find_unique [OF assms(3,4,5)])
  then show ?thesis
    unfolding readURL_def Let_def bits name using a(2,3) assms(1) by (simp add: parse_bit_def)
qed

text \<open>A presentation at this slide, and any other of the same document, agree on the slide of the hash.\<close>

definition hash_of :: "reveal \<Rightarrow> int \<Rightarrow> int \<Rightarrow> string" where
  "hash_of s h v = CHR ''#'' # slide_url (slide_at s h v) s"

lemma writeURL_hash:
  assumes "at_slide s h v" "c_history (r_config s)"
  shows "r_hash (writeURL None s) = hash_of s h v"
proof -
  have "currentSlide s = Some (slide_at s h v)" using assms(1) by (simp add: at_slide_def)
  then show ?thesis
    using assms(2)
    by (simp add: writeURL_def hash_of_def log_effect_def slide_url_def clear_timeout_def Let_def split: option.split)
qed

text \<open>A fresh start of the same document with that hash.\<close>

lemma start_at_hash:
  assumes "at_slide s h v" "id_ok s (slide_at s h v)" "initial_ok s0" "horizontalSlides s0 = horizontalSlides s"
    "sections_in s0 = sections_in s" "r_hash s0 = hash_of s h v" "d_nodes (r_dom s0) = d_nodes (r_dom s)"
    "\<And>n. d_attr (r_dom s0) n ''id'' = d_attr (r_dom s) n ''id''"
  shows "\<exists>s'. readURL s0 = Some s' \<and> at_slide s' h v"
proof -
  let ?n = "slide_at s h v" and ?x = "horizontalSlides s ! nat h"
  note f = at_slide_facts [OF assms(1)]
  have k: "clamp_in s0 (horizontalSlides s0) h = h" using f by (simp add: clamp_in_id assms(4))
  have m: "clamp_in s0 (sections_in s0 (horizontalSlides s0 ! nat h)) v = v"
  proof (cases "sections_in s ?x = []")
    case True
    then show ?thesis using f(6) by (simp add: clamp_in_def assms(4,5))
  next
    case False
    then show ?thesis using f(5,7) by (simp add: clamp_in_id assms(4,5))
  qed
  have u: "indexh s0 = Undef" using assms(3) by (simp add: initial_ok_def)
  show ?thesis
  proof (cases "d_attr (r_dom s) ?n ''id''")
    case None
    obtain s' where "slide (Num h) (Num v) Undef s0 = Some s'" "at_slide s' h v"
      by (rule initial_slide [OF assms(3), of "Num v" h Undef]) (use k m in auto)
    moreover have "readURL s0 = slide (Num h) (Num v) Undef s0"
    proof -
      have "r_hash s0 = CHR ''#'' # ''/'' @ (if 0 < h \<or> 0 < v then js_show_int h else []) @ (if 0 < v then ''/'' @ js_show_int v else [])"
        using slide_url_at [OF assms(1,2)] None unfolding assms(6) hash_of_def by simp
      from readURL_indices [OF f(3,5) this] show ?thesis using u by simp
    qed
    ultimately show ?thesis by simp
  next
    case (Some a)
    have id: "valid_id a" "?n \<in> set (d_nodes (r_dom s))"
      "\<forall>x \<in> set (d_nodes (r_dom s)). d_attr (r_dom s) x ''id'' = Some a \<longrightarrow> x = ?n"
      using assms(2) unfolding id_ok_def Some option.case by blast+
    have hash: "r_hash s0 = CHR ''#'' # ''/'' @ a"
      using slide_url_at [OF assms(1,2)] Some unfolding assms(6) hash_of_def by simp
    have vp: "valid_position s0 h v" "slide_at s0 h v = ?n"
      using assms(1) unfolding at_slide_def valid_position_def slide_at_def assms(4,5) by simp_all
    have ix: "getIndices_of ?n s0 = (Num h, if sections_in s ?x = [] then Undef else Num v)"
      using getIndices_of_slide_at [OF _ vp(1)] assms(3) vp(2) by (simp add: initial_ok_def assms(4,5))
    have mem: "?n \<in> set (d_nodes (r_dom s0))" "d_attr (r_dom s0) ?n ''id'' = Some a"
      "\<forall>x \<in> set (d_nodes (r_dom s0)). d_attr (r_dom s0) x ''id'' = Some a \<longrightarrow> x = ?n"
      unfolding assms(7,8) by (fact id(2) Some id(3))+
    have read: "readURL s0 = slide (Num h) (if sections_in s ?x = [] then Undef else Num v) Undef s0"
      unfolding readURL_id [OF id(1) hash mem] ix by simp
    show ?thesis
    proof (cases "sections_in s ?x = []")
      case True
      obtain s' k' m' where s': "slide (Num h) Undef Undef s0 = Some s'" "at_slide s' k' m'"
        "k' = clamp_in s0 (horizontalSlides s0) h" "sections_in s0 (horizontalSlides s0 ! nat k') = [] \<Longrightarrow> m' = 0"
        by (rule initial_slide [OF assms(3), of Undef h Undef]) simp_all
      have "k' = h" using s'(3) k by simp
      moreover have "m' = v" using s'(4) f(6) True \<open>k' = h\<close> by (simp add: assms(4,5))
      ultimately show ?thesis using s'(1,2) read True by simp
    next
      case False
      obtain s' k' m' where s': "slide (Num h) (Num v) Undef s0 = Some s'" "at_slide s' k' m'"
        "k' = clamp_in s0 (horizontalSlides s0) h" "m' = clamp_in s0 (sections_in s0 (horizontalSlides s0 ! nat k')) v"
        by (rule initial_slide [OF assms(3), of "Num v" h Undef]) simp_all
      have "k' = h" using s'(3) k by simp
      moreover have "m' = v" using s'(4) m \<open>k' = h\<close> by simp
      ultimately show ?thesis using s'(1,2) read False by simp
    qed
  qed
qed

section \<open>Keys and clicks\<close>

lemma onUserInput_frame:
  "pos_frame K s (onUserInput s)" "r_dom (onUserInput s) = r_dom s" "r_wrapper (onUserInput s) = r_wrapper s"
  "r_config (onUserInput s) = r_config s"
  by (simp_all add: onUserInput_def pauseAutoSlide_def Let_def clear_timeout_def log_effect_def set_playing_def
      pos_frame_def doc_frame_def)

lemma same_deck_input: "same_deck s (onUserInput s)"
  by (simp add: onUserInput_frame(2-4) same_deck_def horizontalSlides_def sections_in_def fun_eq_iff)

lemma slide_horizontal:
  assumes "reveal_inv s"
  obtains s' where "slide (Num i) Undef Undef s = Some s'" "reveal_inv s'"
    "indexh s' = Num (clamp_in s (horizontalSlides s) i)" "same_deck s s'"
proof -
  define k where "k = clamp_in s (horizontalSlides s) i"
  obtain a b where ab: "indexv s = Num a" "getPreviousVerticalIndex (js_nth (horizontalSlides s) (Num i)) (r_dom s) = Num b"
    using inv_index [OF assms] previous_index_number [OF inv_parts(1) [OF assms]] by blast
  define j where "j = (if isOverview s then a else b)"
  have j: "asked_index (Num i) Undef s = Num j" using ab by (simp add: asked_index_def or_default_def j_def)
  obtain s' where s': "slide (Num i) Undef Undef s = Some s'" "reveal_inv s'"
    "at_slide s' k (clamp_in s (sections_in s (horizontalSlides s ! nat k)) j)" "doc_frame (keep_names (r_root s)) s s'"
    by (rule slide_to [OF assms _ k_def disjI2 [OF j] refl]) (simp_all add: or_default_def)
  show ?thesis
    using that [OF s'(1,2)] at_slide_facts(1) [OF s'(3)] same_deck_frame [OF inv_parts(1) [OF assms] s'(4)]
    by (simp add: k_def)
qed

lemma cueAutoSlide_index: "indexh (cueAutoSlide s) = indexh s"
  using pos_cueAutoSlide [of "keep_names 0" s] by (simp add: pos_frame_def)

lemma readURL_slides:
  assumes "indexh s = Undef"
  shows "\<exists>i v. readURL s = slide (Num i) v Undef s \<and> v \<noteq> NaN"
proof -
  define bits where "bits = split_on (CHR ''/'') (js_slice 2 (r_hash s))"
  define name where "name = filter (\<lambda>c. c \<noteq> CHR ''#'' \<and> c \<noteq> CHR ''/'') (r_hash s)"
  define e where "e = (if valid_id name
    then List.find (\<lambda>n. d_attr (r_dom s) n ''id'' = Some name) (d_nodes (r_dom s)) else None)"
  have ix: "\<exists>i v. getIndices_of n s = (Num i, v) \<and> v \<noteq> NaN" for n
    by (auto simp: getIndices_of_def Let_def)
  have read: "readURL s = (if parse_bit bits 0 = NaN \<and> name \<noteq> [] then
       (case e of
          Some n \<Rightarrow> let (h, v) = getIndices_of n s in slide h v Undef s
        | None \<Rightarrow> slide (Num (num_or0 (indexh s))) (Num (num_or0 (indexv s))) Undef s)
     else slide (Num (num_or0 (parse_bit bits 0))) (Num (num_or0 (parse_bit bits 1))) Undef s)"
    unfolding readURL_def Let_def bits_def [symmetric] name_def [symmetric] e_def [symmetric]
    using assms by simp
  show ?thesis
  proof (cases "parse_bit bits 0 = NaN \<and> name \<noteq> []")
    case True
    show ?thesis
    proof (cases e)
      case None
      then show ?thesis unfolding read if_P [OF True] by auto
    next
      case (Some n)
      obtain i v where "getIndices_of n s = (Num i, v)" "v \<noteq> NaN" using ix by blast
      then show ?thesis unfolding read if_P [OF True] Some by auto
    qed
  next
    case False
    show ?thesis unfolding read if_not_P [OF False] by blast
  qed
qed

section \<open>An example\<close>

text \<open>The example deck, without fragments.\<close>

definition plain_example :: "bool \<Rightarrow> bool \<Rightarrow> reveal \<Rightarrow> reveal" where
  "plain_example loop rtl s = example_deck (s\<lparr>r_config := (r_config s)\<lparr>c_fragments := False, c_loop := loop, c_rtl := rtl,
     c_history := True\<rparr>\<rparr>)"

lemma plain_example_reached:
  "\<exists>s'. readURL (plain_example loop rtl s) = Some s' \<and> reveal_inv s' \<and> same_deck (plain_example loop rtl s) s'"
proof -
  let ?s = "plain_example loop rtl s"
  have init: "initial_ok ?s" unfolding plain_example_def by (rule example_initial)
  have "indexh ?s = Undef" using init by (simp add: initial_ok_def)
  then obtain i v where v: "readURL ?s = slide (Num i) v Undef ?s" "v \<noteq> NaN" using readURL_slides by blast
  obtain s' where "slide (Num i) v Undef ?s = Some s'" "reveal_inv s'" "doc_frame (keep_names (r_root ?s)) ?s s'"
    by (rule initial_slide [OF init v(2), of i Undef]) simp_all
  then show ?thesis using v same_deck_frame [of ?s s'] init by (auto simp: initial_ok_def)
qed

text \<open>The example deck at its last slide.\<close>

definition placed_example :: "bool \<Rightarrow> bool \<Rightarrow> reveal \<Rightarrow> reveal" where
  "placed_example loop rtl s = (plain_example loop rtl s)\<lparr>
     r_dom := example_dom\<lparr>d_class := (\<lambda>n. if n = 2 then [''slides''] else if n = 4 \<or> n = 6 then [''present''] else [])\<rparr>,
     indexh := Num 1, indexv := Num 1, currentSlide := Some 6\<rparr>"

lemma placed_example_deck:
  "horizontalSlides (plain_example l r s) = horizontalSlides (placed_example l r s)"
  "sections_in (plain_example l r s) = sections_in (placed_example l r s)"
  by (simp_all add: horizontalSlides_def sections_in_def query_all_def horizontal_sel_def is_section_def
      parent_has_class_def has_class_def placed_example_def plain_example_def example_deck_def example_dom_def fun_eq_iff)

lemma placed_example_slides:
  "horizontalSlides (placed_example l r s) = [3, 4]" "sections_in (placed_example l r s) 3 = []"
  "sections_in (placed_example l r s) 4 = [5, 6]"
  unfolding placed_example_deck [symmetric] plain_example_def by (rule example_slides)+

lemma placed_example_at: "at_slide (placed_example l r s) 1 1"
  unfolding at_slide_def valid_position_def slide_at_def present_at_def
  by (simp add: placed_example_slides nth_Cons' less_Suc_eq) (simp add: placed_example_def has_class_def)

lemma placed_example_config:
  "c_loop (r_config (placed_example l r s)) = l" "c_rtl (r_config (placed_example l r s)) = r"
  "\<not> c_fragments (r_config (placed_example l r s))" "c_history (r_config (placed_example l r s))"
  by (simp_all add: placed_example_def plain_example_def example_deck_def)

lemma placed_example_not_paused: "\<not> isPaused (placed_example l r s)"
  by (simp add: isPaused_def has_class_def placed_example_def plain_example_def example_deck_def)

lemma placed_example_inv: "reveal_inv (placed_example l r s)"
proof -
  have "deck_ok (placed_example l r s)"
    unfolding deck_ok_def Let_def placed_example_slides
    by (auto simp: placed_example_slides) (auto simp: placed_example_def plain_example_def example_deck_def
        example_dom_def is_section_def section_ok_def has_class_def nested_in_def)
  moreover have "\<not> isPrintingPDF (placed_example l r s)" "timers_ok (placed_example l r s)"
    by (simp_all add: isPrintingPDF_def timers_ok_def placed_example_def plain_example_def example_deck_def)
  moreover have "placed (placed_example l r s)" unfolding placed_def by (intro exI, rule placed_example_at)
  ultimately show ?thesis by (simp add: reveal_inv_def)
qed

section \<open>Properties\<close>

text \<open>
  C17: going on always arrives.  From any state of the invariant, in a presentation that neither loops
  nor steps through fragments, pressing "next" at most as often as there are slides leads to the last
  slide, and no press fails.
\<close>

theorem next_reaches_end:
  assumes "reveal_inv s" "\<not> c_fragments (r_config s)" "\<not> c_loop (r_config s)"
  shows "\<exists>n s'. int n < deck_size s \<and> press_next n s = Some s' \<and> at_end s' \<and>
    horizontalSlides s' = horizontalSlides s"
proof -
  obtain h v where at: "at_slide s h v" using assms(1) by (auto simp: reveal_inv_def placed_def)
  then have b: "0 \<le> slides_before s h v" "slides_before s h v < deck_size s"
    using slides_before_bound [of s h v] by (simp_all add: at_slide_def)
  define n where "n = nat (deck_size s - 1 - slides_before s h v)"
  have "int n = deck_size s - 1 - slides_before s h v" using b by (simp add: n_def)
  from press_next_arrives [OF assms(1) at assms(2,3) this]
  obtain m s' where m: "m \<le> n" "press_next m s = Some s'" "at_end s'" "same_deck s s'" by blast
  moreover have "int m < deck_size s" using m(1) b by (simp add: n_def)
  ultimately show ?thesis by (intro exI [of _ m] exI [of _ s']) (simp add: same_deck_def)
qed

theorem next_reaches_end_witness:
  "\<forall>s. \<exists>s1 n s'. readURL (plain_example False False s) = Some s1 \<and> press_next n s1 = Some s' \<and> at_end s' \<and>
    horizontalSlides s' = [3, 4]"
proof (rule allI)
  fix s
  obtain s1 where s1: "readURL (plain_example False False s) = Some s1" "reveal_inv s1"
    "same_deck (plain_example False False s) s1" using plain_example_reached by blast
  have c: "\<not> c_fragments (r_config s1)" "\<not> c_loop (r_config s1)" "horizontalSlides s1 = [3, 4]"
    using s1(3) example_slides(1) by (simp_all add: same_deck_def plain_example_def) (simp_all add: example_deck_def)
  from next_reaches_end [OF s1(2) c(1,2)] c(3) s1(1)
  show "\<exists>s1 n s'. readURL (plain_example False False s) = Some s1 \<and> press_next n s1 = Some s' \<and> at_end s' \<and>
    horizontalSlides s' = [3, 4]" by metis
qed

text \<open>
  C18: the URL leads back.  The hash \<open>writeURL\<close> writes at a slide, by its indices or by its id when this is
  valid and unique, brings a fresh start of the same document to this slide.
\<close>

theorem url_leads_back:
  assumes "at_slide s h v" "c_history (r_config s)" "id_ok s (slide_at s h v)" "initial_ok s0"
    "horizontalSlides s0 = horizontalSlides s" "sections_in s0 = sections_in s"
    "d_nodes (r_dom s0) = d_nodes (r_dom s)" "\<And>n. d_attr (r_dom s0) n ''id'' = d_attr (r_dom s) n ''id''"
  shows "\<exists>s'. readURL (s0\<lparr>r_hash := r_hash (writeURL None s)\<rparr>) = Some s' \<and> at_slide s' h v"
proof -
  let ?s = "s0\<lparr>r_hash := r_hash (writeURL None s)\<rparr>"
  have h: "horizontalSlides ?s = horizontalSlides s0" "sections_in ?s = sections_in s0"
    by (simp_all add: horizontalSlides_def sections_in_def fun_eq_iff)
  have "initial_ok ?s"
    using assms(4) unfolding initial_ok_def deck_ok_def h by (simp add: isPrintingPDF_def)
  moreover have "r_hash ?s = hash_of s h v" using writeURL_hash [OF assms(1,2)] by simp
  ultimately show ?thesis
    using start_at_hash [OF assms(1,3), of ?s] assms(5-8) unfolding h by simp
qed

theorem url_leads_back_witness:
  "\<forall>s. \<exists>s'. readURL ((plain_example False False s)\<lparr>r_hash := r_hash (writeURL None (placed_example False False s))\<rparr>) = Some s' \<and>
    at_slide s' 1 1"
proof (rule allI)
  fix s
  have "initial_ok (plain_example False False s)" unfolding plain_example_def by (rule example_initial)
  moreover have "id_ok (placed_example False False s) (slide_at (placed_example False False s) 1 1)" "c_history (r_config (placed_example False False s))"
    by (simp_all add: id_ok_def placed_example_def plain_example_def example_deck_def example_dom_def)
  moreover have "horizontalSlides (plain_example False False s) = horizontalSlides (placed_example False False s)"
    "sections_in (plain_example False False s) = sections_in (placed_example False False s)"
    using placed_example_deck by blast+
  ultimately show "\<exists>s'. readURL ((plain_example False False s)\<lparr>r_hash := r_hash (writeURL None (placed_example False False s))\<rparr>) = Some s' \<and>
      at_slide s' 1 1"
    by (intro url_leads_back placed_example_at)
      (simp_all add: placed_example_def plain_example_def example_deck_def example_dom_def)
qed

text \<open>
  C21: the End key, pressed without modifiers, goes to the last slide of a presentation that does not loop.
  Of one that loops it does not: it goes to the largest number modulo the number of slides, and from a
  presentation of two slides always to the first.
\<close>

theorem end_key:
  assumes "reveal_inv s" "\<not> isPaused s" "k_code e = 35" "\<not> (k_shift e \<or> k_alt e \<or> k_ctrl e \<or> k_meta e)"
    "int (length (horizontalSlides s)) < 2 ^ 1024 - 2 ^ 971"
  shows "\<exists>s'. onDocumentKeyDown False e s = Some s' \<and>
    indexh s' = Num (if c_loop (r_config s) then (2 ^ 1024 - 2 ^ 971) mod int (length (horizontalSlides s))
                     else int (length (horizontalSlides s)) - 1)"
proof -
  define big :: int where "big = 2 ^ 1024 - 2 ^ 971"
  define t where "t = onUserInput s"
  have inv: "reveal_inv t" unfolding t_def by (rule inv_userInput [OF assms(1)])
  have deck: "horizontalSlides t = horizontalSlides s" "r_config t = r_config s"
    using same_deck_input [of s] by (simp_all add: same_deck_def t_def)
  have paused: "\<not> isPaused t" using assms(2) by (simp add: isPaused_def t_def onUserInput_frame)
  obtain u where u: "slide (Num big) Undef Undef t = Some u" "indexh u = Num (clamp_in t (horizontalSlides t) big)"
    by (rule slide_horizontal [OF inv]) blast
  have "key_action (autoSlidePaused s) e t = Some (True, u)"
    using assms(3) u(1) by (simp add: key_action_def big_def)
  then have "onDocumentKeyDown False e s = Some (cueAutoSlide (log_effect Prevent_default u))"
    using assms(3,4) paused by (simp add: onDocumentKeyDown_def Let_def t_def [symmetric])
  moreover have "clamp_in t (horizontalSlides t) big = (if c_loop (r_config s) then big mod int (length (horizontalSlides s))
      else int (length (horizontalSlides s)) - 1)"
  proof -
    have "0 < int (length (horizontalSlides s))" "int (length (horizontalSlides s)) < big"
      using inv_parts(4) [OF assms(1)] assms(5) unfolding big_def by simp_all
    then show ?thesis
      using clamp_index_loop [of "int (length (horizontalSlides s))" big]
      by (cases "c_loop (r_config s)") (auto simp: clamp_in_def deck clamp_index_def)
  qed
  ultimately show ?thesis
    using u(2) cueAutoSlide_index unfolding big_def [symmetric] by (simp add: log_effect_def)
qed

theorem end_key_witness:
  "\<forall>s. \<exists>s'. onDocumentKeyDown False (\<lparr>k_code = 35, k_shift = False, k_alt = False, k_ctrl = False, k_meta = False\<rparr>)
    (placed_example True False s) = Some s' \<and> indexh s' = Num 0"
proof (rule allI)
  fix s
  from end_key [OF placed_example_inv [of True False s] placed_example_not_paused,
      of "\<lparr>k_code = 35, k_shift = False, k_alt = False, k_ctrl = False, k_meta = False\<rparr>"]
  show "\<exists>s'. onDocumentKeyDown False (\<lparr>k_code = 35, k_shift = False, k_alt = False, k_ctrl = False, k_meta = False\<rparr>)
    (placed_example True False s) = Some s' \<and> indexh s' = Num 0"
    by (simp add: placed_example_slides placed_example_config)
qed



end
