(* ===== verification/Reveal_Quiet.thy ===== *)
theory Reveal_Quiet
  imports Reveal_Walk
begin

text \<open>
  A presentation that is paused, shows its overview or was stopped by its user does not advance by itself:
  no timer that would is pending.
\<close>

definition advancing :: "reveal \<Rightarrow> bool" where
  "advancing s \<longleftrightarrow> \<not> isPaused s \<and> \<not> isOverview s \<and> \<not> autoSlidePaused s"

definition quiet :: "reveal \<Rightarrow> bool" where
  "quiet s \<longleftrightarrow> auto_timers s = [] \<or> advancing s"

section \<open>Operations that cue\<close>

lemma quiet_set_playing [simp]: "quiet (set_playing b s) = quiet s"
  by (simp add: set_playing_def quiet_def advancing_def auto_timers_def isPaused_def isOverview_def log_effect_def)

lemma quiet_log [simp]: "quiet (log_effect e s) = quiet s"
  by (simp add: quiet_def advancing_def auto_timers_def isPaused_def isOverview_def log_effect_def)

lemma quiet_cancel: "timers_ok s \<Longrightarrow> quiet (cancelAutoSlide s)"
  by (simp add: quiet_def timers_cancel)

lemma quiet_cue_timer: "auto_timers s = [] \<Longrightarrow> quiet (cue_timer s)"
  by (auto simp: cue_timer_def quiet_def advancing_def set_timeout_def isPaused_def isOverview_def)

lemma quiet_cue:
  assumes "timers_ok s"
  shows "quiet (cueAutoSlide s)"
proof -
  have n: "auto_timers (cancelAutoSlide s) = []" by (rule timers_cancel [OF assms])
  then have "quiet (cue_timer ((cancelAutoSlide s)\<lparr>autoSlide := k\<rparr>))" for k
    by (intro quiet_cue_timer) (simp add: auto_timers_def)
  moreover have "quiet (cancelAutoSlide s)" using n by (simp add: quiet_def)
  ultimately show ?thesis by (simp add: cueAutoSlide_def Let_def split: option.split)
qed

lemma quiet_settle: "timers_ok s \<Longrightarrow> quiet (slide_settle b s)"
  using timers_before_cue [of s b] quiet_cue by metis

lemma quiet_slide:
  assumes "timers_ok s" "horizontalSlides s \<noteq> []" "slide h v f s = Some s'"
  shows "quiet s'"
proof -
  let ?s = "s\<lparr>previousSlide := currentSlide s\<rparr>"
  have hs: "horizontalSlides ?s = horizontalSlides s" by (simp add: horizontalSlides_def)
  obtain c y where e: "slide_enter h v f ?s = Some (c, y)" "s' = slide_settle c (leave_previous y)"
    using assms(2,3) by (auto simp: slide_def Let_def hs split: option.splits prod.splits)
  have "timers_ok y" using timer_frame_ok [OF timers_enter [OF e(1)]] assms(1) by simp
  then show ?thesis unfolding e(2) by (intro quiet_settle timers_leave)
qed

section \<open>Operations that keep it\<close>

lemma page_paused:
  assumes "page_frame (keep_slides (r_dom s) (r_root s)) s s'" "r_wrapper s \<noteq> r_root s"
  shows "isPaused s' = isPaused s"
  using assms page_frame_fields(14) [OF assms(1)] page_frame_dom [OF assms(1)]
  by (simp add: isPaused_def dom_keep_def keep_slides_def)

lemma quiet_page:
  assumes "reveal_inv s" "quiet s" "page_frame (keep_slides (r_dom s) (r_root s)) s s'"
  shows "quiet s'"
proof -
  have "isPaused s' = isPaused s"
    using assms deck_okD(7) by (intro page_paused) (auto simp: reveal_inv_def)
  moreover have "auto_timers s' = auto_timers s" by (rule timer_frame_auto [OF page_timer_frame [OF assms(3)]])
  ultimately show ?thesis
    using assms(2) page_frame_fields(6,12) [OF assms(3)] by (simp add: quiet_def advancing_def isOverview_def)
qed

lemma quiet_none: "auto_timers s = [] \<Longrightarrow> quiet s"
  by (simp add: quiet_def)

lemma auto_timers_page: "page_frame K s s' \<Longrightarrow> auto_timers s' = auto_timers s"
  by (rule timer_frame_auto [OF page_timer_frame])

lemma auto_timers_fields [simp]:
  "auto_timers (s\<lparr>overview := b\<rparr>) = auto_timers s" "auto_timers (upd_dom f s) = auto_timers s"
  "auto_timers (log_effect e s) = auto_timers s"
  "auto_timers (s\<lparr>overviewSlideWidth := n, overviewSlideHeight := k\<rparr>) = auto_timers s"
  "auto_timers (s\<lparr>overviewSlideWidth := n\<rparr>) = auto_timers s"
  "c \<noteq> Timer_auto_slide \<Longrightarrow> auto_timers (snd (set_timeout c d s)) = auto_timers s"
  by (simp_all add: auto_timers_def upd_dom_def log_effect_def set_timeout_def)

lemma quiet_fields [simp]:
  "quiet (s\<lparr>hasNavigatedRight := a\<rparr>) = quiet s" "quiet (s\<lparr>hasNavigatedDown := a\<rparr>) = quiet s"
  "quiet (s\<lparr>hasNavigatedRight := a, hasNavigatedDown := b\<rparr>) = quiet s"
  "quiet (s\<lparr>r_overlay := a\<rparr>) = quiet s" "quiet (s\<lparr>touch_captured := a\<rparr>) = quiet s"
  "quiet (s\<lparr>lastMouseWheelStep := n\<rparr>) = quiet s" "quiet (s\<lparr>r_hash := x\<rparr>) = quiet s" "quiet (s\<lparr>r_now := n\<rparr>) = quiet s"
  "quiet (s\<lparr>touch_startX := i, touch_startY := j, touch_startCount := l\<rparr>) = quiet s"
  "quiet (s\<lparr>touch_startSpan := i\<rparr>) = quiet s"
  by (simp_all add: quiet_def advancing_def auto_timers_def isPaused_def isOverview_def)

lemma quiet_pages:
  assumes "reveal_inv s" "quiet s"
  shows "quiet (snd (nextFragment s))" "quiet (snd (previousFragment s))" "quiet (reset_stacks s)"
    "quiet (sortAllFragments s)" "quiet (updateControls s)" "quiet (updateProgress s)"
    "quiet (updateSlideNumber s)" "quiet (updateSlidesVisibility s)" "quiet (updateNotes s)"
    "quiet (updateNotesVisibility s)" "quiet (formatEmbeddedContent s)" "quiet (layoutOverview s)"
    "quiet (startEmbeddedContent e s)" "quiet (stopEmbeddedContent b e' s)"
  unfolding nextFragment_def previousFragment_def
  by (rule quiet_page [OF assms], intro page; simp)+

lemma quiet_class:
  "reveal_inv s \<Longrightarrow> quiet s \<Longrightarrow> c \<notin> key_classes \<Longrightarrow>
    quiet (upd_dom (add_class c n) s) \<and> quiet (upd_dom (remove_class c n) s)"
  by (intro conjI; rule quiet_page, assumption, assumption, intro page; simp)

lemma quiet_clear: "quiet s \<Longrightarrow> quiet (clear_timeout i s)"
  by (auto simp: quiet_def auto_timers_def clear_timeout_def advancing_def isPaused_def isOverview_def filter_empty_conv)

lemma quiet_writeURL:
  assumes "quiet s" "delay = None"
  shows "quiet (writeURL delay s)"
proof -
  have "quiet (t\<lparr>r_hash := x\<rparr>) = quiet t" for t x by simp
  then show ?thesis
    using quiet_clear [OF assms(1)] assms by (simp add: writeURL_def Let_def split: option.split)
qed

lemma quiet_updateBackground:
  assumes "reveal_inv s" "quiet s"
  shows "quiet (updateBackground b s)"
proof -
  let ?K = "keep_slides (r_dom s) (r_root s)"
  have d: "deck_ok s" using assms(1) by (simp add: reveal_inv_def)
  have "unkept ?K b \<and> (\<forall>v \<in> set (d_desc (r_dom s) b). unkept ?K v)" if "b \<in> set (d_kids (r_dom s) (r_background s))" for b
    using deck_okD(5) [OF d that] by (simp add: background_ok_def unkept_slides)
  then obtain t where t: "page_frame ?K s t" "updateBackground b s = snd (set_timeout Timer_background_transition 1 t)"
    by (rule ks.updateBackground_frame)
  have "quiet t" by (rule quiet_page [OF assms t(1)])
  then show ?thesis
    unfolding t(2) by (simp add: quiet_def advancing_def) (simp add: set_timeout_def isPaused_def isOverview_def)
qed

lemma quiet_pauseAuto:
  assumes "timers_ok s" "quiet s"
  shows "quiet (pauseAutoSlide s)"
proof -
  have "auto_timers (clear_timeout (autoSlideTimeout s) s) = []" by (rule auto_clear [OF assms(1)])
  then show ?thesis
    using assms(2)
    by (auto simp: pauseAutoSlide_def Let_def quiet_def auto_timers_def clear_timeout_def log_effect_def set_playing_def)
qed

lemma quiet_resumeAuto: "timers_ok s \<Longrightarrow> quiet s \<Longrightarrow> quiet (resumeAutoSlide s)"
  by (simp add: resumeAutoSlide_def quiet_cue)

lemma quiet_toggleAuto: "timers_ok s \<Longrightarrow> quiet s \<Longrightarrow> quiet (toggleAutoSlide b s)"
  by (simp add: toggleAutoSlide_def quiet_pauseAuto quiet_resumeAuto split: option.split)

lemma quiet_userInput: "timers_ok s \<Longrightarrow> quiet s \<Longrightarrow> quiet (onUserInput s)"
  by (simp add: onUserInput_def quiet_pauseAuto)

lemma quiet_togglePause:
  assumes "timers_ok s" "quiet s"
  shows "quiet (togglePause b s)"
proof -
  have "quiet (pause s)"
    using assms timers_cancel(2) [OF assms(1)] by (simp add: pause_def Let_def quiet_none)
  moreover have "quiet (resume s)"
    using assms(1) by (simp add: resume_def Let_def quiet_cue)
  ultimately show ?thesis by (simp add: togglePause_def)
qed

lemma quiet_activate:
  assumes "reveal_inv s" "quiet s"
  shows "quiet (activateOverview s)"
proof -
  have fold: "auto_timers (fold (\<lambda>n s. if \<not> has_class ''stack'' (r_dom s) n
      then log_effect (Add_click_listener n) s else s) ns t) = auto_timers t" for t ns
    by (induction ns arbitrary: t) simp_all
  have upd: "auto_timers (updateSlidesVisibility t) = auto_timers t" "auto_timers (layoutOverview t) = auto_timers t"
    "auto_timers (updateOverview t) = auto_timers t" for t
    by (rule auto_timers_page [of "keep_names 0"], intro page; simp)+
  have ifI: "(b \<Longrightarrow> auto_timers x = []) \<Longrightarrow> (\<not> b \<Longrightarrow> auto_timers y = []) \<Longrightarrow> auto_timers (if b then x else y) = []" for b x y
    by simp
  have letI: "P x \<Longrightarrow> (\<And>y. P y \<Longrightarrow> auto_timers (f y) = []) \<Longrightarrow> auto_timers (Let x f) = []" for P x and f :: "reveal \<Rightarrow> reveal"
    by simp
  have can: "timers_ok t \<Longrightarrow> auto_timers (cancelAutoSlide t) = []" for t by (rule timers_cancel)
  have ok: "timers_ok s" using assms(1) by (simp add: reveal_inv_def)
  show ?thesis
  proof (cases "c_overview (r_config s) \<and> \<not> isOverview s")
    case True
    have "auto_timers (activateOverview s) = []"
      unfolding activateOverview_def if_P [OF True]
      by ((rule letI [where P = timers_ok], simp add: ok timers_set)+, rule letI [where P = "\<lambda>s. auto_timers s = []"],
          simp add: can, (rule letI [where P = "\<lambda>s. auto_timers s = []"], simp add: fold upd)+, simp)
    then show ?thesis by (rule quiet_none)
  next
    case False
    then show ?thesis using assms(2) unfolding activateOverview_def if_not_P [OF False] by simp
  qed
qed

section \<open>Operations that may move\<close>

text \<open>Both at once: the invariant of the last theory, and quiet.\<close>

definition calm :: "reveal \<Rightarrow> bool" where
  "calm s \<longleftrightarrow> reveal_inv s \<and> quiet s"

definition stays :: "reveal option \<Rightarrow> bool" where
  "stays r \<longleftrightarrow> (case r of None \<Rightarrow> True | Some s \<Rightarrow> quiet s)"

lemma calmD: "calm s \<Longrightarrow> reveal_inv s" "calm s \<Longrightarrow> quiet s" "calm s \<Longrightarrow> timers_ok s"
  by (simp_all add: calm_def reveal_inv_def)

lemma stays_simps [simp]: "stays (Some s) = quiet s" "stays None"
  by (simp_all add: stays_def)

lemma stays_slide:
  assumes "reveal_inv s"
  shows "stays (slide h v f s)"
proof -
  have "horizontalSlides s \<noteq> []" "timers_ok s"
    using assms by (auto simp: reveal_inv_def placed_def at_slide_def valid_position_def Let_def)
  then show ?thesis using quiet_slide by (simp add: stays_def split: option.split)
qed

lemma stays_map: "keeps r \<Longrightarrow> (\<And>s. reveal_inv s \<Longrightarrow> r = Some s \<Longrightarrow> quiet (f s)) \<Longrightarrow> stays (map_option f r)"
  by (cases r) (auto simp: stays_def keeps_def)

lemma stays_bind:
  "keeps r \<Longrightarrow> (\<And>s. r = Some s \<Longrightarrow> reveal_inv s \<Longrightarrow> stays (f s)) \<Longrightarrow> stays (case r of None \<Rightarrow> None | Some s \<Rightarrow> f s)"
  by (cases r) (auto simp: stays_def keeps_def)

lemma stays_map_calm:
  "keeps r \<Longrightarrow> stays r \<Longrightarrow> (\<And>s. calm s \<Longrightarrow> quiet (f s)) \<Longrightarrow> stays (map_option f r)"
  by (cases r) (auto simp: stays_def keeps_def calm_def)

lemma staysD: "stays r \<Longrightarrow> r = Some s \<Longrightarrow> quiet s"
  by (simp add: stays_def)

lemma quiet_fragment:
  assumes "calm s" "step = nextFragment \<or> step = previousFragment" "try_fragment step s = (go, s')"
  shows "quiet s'"
  using assms quiet_pages(1,2) [OF calmD(1,2) [OF assms(1)]]
  by (auto simp: try_fragment_def Let_def calm_def split: if_splits prod.splits)

lemma stays_step:
  assumes "calm s" "step = nextFragment \<or> step = previousFragment"
  shows "stays (let (go, s) = try_fragment step s in if go \<and> r s then slide (h s) (v s) Undef s else Some s)"
proof -
  obtain go t where t: "try_fragment step s = (go, t)" by (cases "try_fragment step s")
  have "reveal_inv t" "quiet t"
    using inv_fragment [OF calmD(1) [OF assms(1)] assms(2) t] quiet_fragment [OF assms t] by simp_all
  with t show ?thesis by (simp add: stays_slide)
qed

lemma calm_fields [simp]:
  "calm (s\<lparr>hasNavigatedRight := a\<rparr>) = calm s" "calm (s\<lparr>hasNavigatedDown := a\<rparr>) = calm s"
  "calm (s\<lparr>hasNavigatedRight := a, hasNavigatedDown := b\<rparr>) = calm s" "calm (log_effect e s) = calm s"
  "calm (s\<lparr>touch_captured := a\<rparr>) = calm s" "calm (s\<lparr>lastMouseWheelStep := n\<rparr>) = calm s"
  "calm (s\<lparr>r_hash := x\<rparr>) = calm s"
  by (simp_all add: calm_def)

lemma stays_navigate:
  assumes "calm s"
  shows "stays (navigateLeft s)" "stays (navigateRight s)" "stays (navigateUp s)" "stays (navigateDown s)"
  unfolding navigateLeft_def navigateRight_def navigateUp_def navigateDown_def Let_def [of "s\<lparr>hasNavigatedRight := True\<rparr>"]
    Let_def [of "s\<lparr>hasNavigatedDown := True\<rparr>"]
  using assms
    stays_step [of s nextFragment "\<lambda>s. left (availableRoutes s)" "\<lambda>s. num_add (indexh s) 1" "\<lambda>_. Undef"]
    stays_step [of s previousFragment "\<lambda>s. left (availableRoutes s)" "\<lambda>s. num_add (indexh s) (-1)" "\<lambda>_. Undef"]
    stays_step [of "s\<lparr>hasNavigatedRight := True\<rparr>" nextFragment "\<lambda>s. right (availableRoutes s)" "\<lambda>s. num_add (indexh s) 1" "\<lambda>_. Undef"]
    stays_step [of "s\<lparr>hasNavigatedRight := True\<rparr>" previousFragment "\<lambda>s. right (availableRoutes s)" "\<lambda>s. num_add (indexh s) (-1)" "\<lambda>_. Undef"]
    stays_step [of s previousFragment "\<lambda>s. up (availableRoutes s)" indexh "\<lambda>s. num_add (indexv s) (-1)"]
    stays_step [of "s\<lparr>hasNavigatedDown := True\<rparr>" nextFragment "\<lambda>s. down (availableRoutes s)" indexh "\<lambda>s. num_add (indexv s) 1"]
  by simp_all

lemma stays_prev_next:
  assumes "calm s"
  shows "stays (navigatePrev s)" "stays (navigateNext s)"
proof -
  obtain c t where t: "previousFragment s = (c, t)" by (cases "previousFragment s")
  have it: "calm t"
    using inv_pages(2) [OF calmD(1) [OF assms]] quiet_pages(2) [OF calmD(1,2) [OF assms]] t by (simp add: calm_def)
  show "stays (navigatePrev s)"
    unfolding navigatePrev_def t
    by (auto simp: Let_def it stays_navigate stays_slide calmD(1,2) [OF it] split: list.split)
  let ?s = "s\<lparr>hasNavigatedRight := True, hasNavigatedDown := True\<rparr>"
  obtain d u where u: "nextFragment ?s = (d, u)" by (cases "nextFragment ?s")
  have "calm ?s" using assms by simp
  then have "calm u"
    using inv_pages(1) [of ?s] quiet_pages(1) [of ?s] u by (simp add: calm_def)
  then show "stays (navigateNext s)"
    unfolding navigateNext_def Let_def u by (simp add: stays_navigate calmD)
qed

lemma stays_deactivate:
  assumes "calm s"
  shows "stays (deactivateOverview s)"
proof (cases "c_overview (r_config s)")
  case True
  have fold: "reveal_inv t \<Longrightarrow> reveal_inv (fold (\<lambda>n s. log_effect (Remove_click_listener n)
        (log_effect (Transform n None) s)) ns t)"
      "reveal_inv t \<Longrightarrow> reveal_inv (fold (\<lambda>n s. log_effect (Transform n None) s) ns t)" for t ns
    by (rule inv_fold; simp)+
  show ?thesis
    unfolding deactivateOverview_def if_P [OF True] Let_def
    by (intro stays_bind keeps_slide)
      (simp_all add: calmD(1) [OF assms] inv_auto inv_class inv_set_timeout fold num_add_index quiet_cue
        reveal_inv_timers)
next
  case False
  then show ?thesis using assms by (simp add: deactivateOverview_def calmD)
qed

lemma stays_toggleOverview: "calm s \<Longrightarrow> stays (toggleOverview b s)"
  by (simp add: toggleOverview_def quiet_activate stays_deactivate calmD)

lemma stays_setState:
  assumes "reveal_inv s" "st_indexh st \<noteq> NaN" "st_indexv st \<noteq> NaN"
  shows "stays (setState st s)"
proof -
  have k: "keeps (slide (st_indexh st) (st_indexv st) (st_indexf st) s)"
    by (rule keeps_slide) (use assms in auto)
  have st: "stays (slide (st_indexh st) (st_indexv st) (st_indexf st) s)" by (rule stays_slide [OF assms(1)])
  show ?thesis
    unfolding setState_def Let_def
  proof (rule stays_bind [OF k])
    fix t assume t: "slide (st_indexh st) (st_indexv st) (st_indexf st) s = Some t" "reveal_inv t"
    then have "calm (if st_paused st \<noteq> isPaused t then togglePause (Some (st_paused st)) t else t)"
      using staysD [OF st t(1)] by (simp add: calm_def inv_togglePause quiet_togglePause reveal_inv_timers)
    then show "stays (if st_overview st \<noteq> isOverview (if st_paused st \<noteq> isPaused t then togglePause (Some (st_paused st)) t else t)
        then toggleOverview (Some (st_overview st)) (if st_paused st \<noteq> isPaused t then togglePause (Some (st_paused st)) t else t)
        else Some (if st_paused st \<noteq> isPaused t then togglePause (Some (st_paused st)) t else t))"
      by (simp only: stays_toggleOverview stays_simps calmD(2) split: if_split) simp
  qed
qed

lemma stays_readURL:
  assumes "calm s"
  shows "stays (readURL s)"
  using calmD [OF assms] unfolding readURL_def Let_def
  by (auto simp: stays_slide split: option.split prod.split)

lemma stays_timer_callback:
  assumes "calm s"
  shows "stays (timer_callback c s)"
  using calmD [OF assms]
  by (cases c) (auto simp: quiet_writeURL quiet_pages quiet_class quiet_cue reveal_inv_timers
      intro!: stays_map keeps_prev_next)

section \<open>Handlers\<close>

lemma stays_key_action:
  assumes "calm s"
  shows "stays (map_option snd (key_action w e s))"
proof -
  have trig: "stays (map_option snd (map_option (Pair True) r)) = stays r" for r :: "reveal option"
    by (cases r) simp_all
  show ?thesis
    unfolding key_action_def Let_def
    using stays_navigate [OF assms] stays_prev_next [OF assms] stays_deactivate [OF assms] calmD [OF assms]
    by (simp add: trig stays_slide quiet_togglePause quiet_toggleAuto)
qed

lemma calm_userInput: "calm s \<Longrightarrow> calm (onUserInput s)"
  by (simp add: calm_def inv_userInput quiet_userInput reveal_inv_timers)

lemma stays_key:
  assumes "calm s"
  shows "stays (onDocumentKeyDown focused e s)"
proof -
  let ?s = "onUserInput s"
  have i: "calm ?s" by (rule calm_userInput [OF assms])
  show ?thesis
  proof (cases "key_action (autoSlidePaused s) e ?s")
    case None
    then show ?thesis using i by (simp add: onDocumentKeyDown_def Let_def stays_def calmD)
  next
    case (Some r)
    obtain b t where r: "r = (b, t)" by (cases r)
    have t: "reveal_inv t" "quiet t"
      using keeps_key_action [OF calmD(1) [OF i], of "autoSlidePaused s" e] 
        stays_key_action [OF i, of "autoSlidePaused s" e] Some r by simp_all
    show ?thesis
      unfolding onDocumentKeyDown_def Let_def Some option.case r prod.case
      using calmD [OF i] t
      by (auto simp: quiet_cue reveal_inv_timers intro!: stays_bind keeps_map keeps_toggleOverview)
  qed
qed

lemma stays_pinch: "calm s \<Longrightarrow> stays (pinch e s)"
  by (simp add: pinch_def Let_def calmD quiet_activate stays_deactivate)

lemma stays_swipe: "calm s \<Longrightarrow> stays (swipe x y s)"
  by (simp add: swipe_def calmD stays_navigate)

lemma stays_touchMove:
  assumes "calm s"
  shows "stays (onTouchMove a e s)"
proof -
  have i: "calm (onUserInput s)" by (rule calm_userInput [OF assms])
  note inv = calmD(1) [OF i]
  have "stays (map_option (log_effect Prevent_default) (pinch e (onUserInput s)))"
    by (rule stays_map_calm [OF keeps_pinch [OF inv] stays_pinch [OF i]]) (simp add: calmD)
  moreover have "stays (map_option f (swipe x y (onUserInput s)))" if "\<And>t. quiet (f t) = quiet t" for x y f
    by (rule stays_map_calm [OF keeps_swipe [OF inv] stays_swipe [OF i]]) (simp add: calmD that)
  ultimately show ?thesis
    unfolding onTouchMove_def Let_def using calmD(2) [OF assms] calmD(2) [OF i] by simp
qed

lemma quiet_touchStart: "quiet s \<Longrightarrow> quiet (onTouchStart e s)"
  by (simp add: onTouchStart_def Let_def)

lemma stays_wheel: "calm s \<Longrightarrow> stays (onDocumentMouseScroll d w s)"
  by (simp add: onDocumentMouseScroll_def Let_def stays_prev_next calmD)

lemma stays_progress: "reveal_inv s \<Longrightarrow> stays (onProgressClicked x w s)"
  by (simp add: onProgressClicked_def Let_def stays_slide inv_userInput)

lemma stays_controls:
  assumes "calm s"
  shows "stays (onNavigateLeftClicked s)" "stays (onNavigateRightClicked s)" "stays (onNavigateUpClicked s)"
    "stays (onNavigateDownClicked s)" "stays (onNavigatePrevClicked s)" "stays (onNavigateNextClicked s)"
  using assms
  by (simp_all add: onNavigateLeftClicked_def onNavigateRightClicked_def onNavigateUpClicked_def
      onNavigateDownClicked_def onNavigatePrevClicked_def onNavigateNextClicked_def on_control_def
      calm_userInput stays_navigate stays_prev_next)

lemma stays_overviewClick:
  assumes "calm s"
  shows "stays (onOverviewSlideClicked element s)"
proof -
  have k: "keeps (deactivateOverview (log_effect Prevent_default s))"
    using keeps_deactivate [of "log_effect Prevent_default s"] calmD(1) [OF assms] by simp
  have "stays (case deactivateOverview (log_effect Prevent_default s) of
      None \<Rightarrow> None | Some t \<Rightarrow> slide (h t) (v t) Undef t)" for h v
    by (rule stays_bind [OF k stays_slide])
  then show ?thesis
    unfolding onOverviewSlideClicked_def Let_def
    using calmD(2) [OF assms] by (cases element) simp_all
qed

lemma stays_playerClick:
  assumes "calm s"
  shows "stays (onAutoSlidePlayerClick s)"
proof -
  have "keeps (slide (Num 0) (Num 0) Undef s)" by (rule keeps_slide) (simp_all add: calmD(1) [OF assms])
  then have "stays (map_option resumeAutoSlide (slide (Num 0) (Num 0) Undef s))"
    by (rule stays_map_calm) (simp_all add: stays_slide calmD [OF assms] calmD quiet_resumeAuto)
  then show ?thesis
    using calmD [OF assms] by (simp add: onAutoSlidePlayerClick_def quiet_resumeAuto quiet_pauseAuto)
qed

lemma quiet_window: "quiet s \<Longrightarrow> quiet (onWindowResize s)" "quiet s \<Longrightarrow> quiet (onPageVisibilityChange a b s)"
  by (simp_all add: onWindowResize_def onPageVisibilityChange_def)

lemma quiet_sync:
  assumes "reveal_inv s"
  shows "quiet (sync s)"
proof -
  have letI: "calm x \<Longrightarrow> (\<And>y. calm y \<Longrightarrow> quiet (f y)) \<Longrightarrow> quiet (Let x f)" for x and f :: "reveal \<Rightarrow> reveal"
    by simp
  have letR: "reveal_inv x \<Longrightarrow> (\<And>y. reveal_inv y \<Longrightarrow> quiet (f y)) \<Longrightarrow> quiet (Let x f)" for x and f :: "reveal \<Rightarrow> reveal"
    by simp
  have cue: "calm (cueAutoSlide t)" if "reveal_inv t" for t
    using that by (simp add: calm_def inv_auto quiet_cue reveal_inv_timers)
  have calms: "calm (writeURL None t)" "calm (sortAllFragments t)" "calm (updateControls t)" "calm (updateProgress t)"
    "calm (updateSlideNumber t)" "calm (updateSlidesVisibility t)" "calm (updateBackground True t)"
    "calm (updateNotesVisibility t)" "calm (updateNotes t)" "calm (formatEmbeddedContent t)" if "calm t" for t
    using calmD(1,2) [OF that]
    by (simp_all add: calm_def inv_auto quiet_writeURL inv_pages quiet_pages inv_updateBackground quiet_updateBackground)
  have last: "calm (if c_autoPlayMedia (r_config t) = Some False then stopEmbeddedContent False (currentSlide t) t
      else (case currentSlide t of None \<Rightarrow> t | Some n \<Rightarrow> startEmbeddedContent n t))" if "calm t" for t
    using calmD(1,2) [OF that] that by (auto simp: calm_def inv_pages quiet_pages split: option.split)
  show ?thesis
    unfolding sync_def
    by (rule letR, simp add: assms, rule letR, simp, rule letI, erule cue, rule letI, simp,
        (rule letI, erule calms)+, rule letI, erule last, simp add: calmD quiet_pages)
qed

lemma stays_handle:
  assumes "calm s" "allowed e s"
  shows "stays (handle e s)"
proof (cases e)
  case (Ev_timer t)
  have "calm (clear_timeout (t_id t) s)"
    using calmD(1,2) [OF assms(1)] by (simp add: calm_def inv_clear quiet_clear)
  then show ?thesis by (simp add: Ev_timer fire_timer_def stays_timer_callback)
next
  case (Ev_set_state st)
  then show ?thesis using assms by (simp add: stays_setState calmD)
qed (use assms in \<open>simp_all add: stays_key onDocumentKeyPress_def quiet_touchStart stays_touchMove onTouchEnd_def
    onPointerDown_def onPointerMove_def onPointerUp_def stays_wheel stays_progress stays_controls
    stays_overviewClick stays_playerClick onWindowHashChange_def stays_readURL quiet_window quiet_sync
    stays_slide stays_toggleOverview quiet_togglePause quiet_toggleAuto calmD\<close>)

lemma reachable_calm:
  assumes "reachable s0 s" "initial_ok s0"
  shows "calm s"
  using assms
proof induction
  case (start s)
  have "reveal_inv s" by (rule reachable_inv [OF reachable.start [OF start(1)] start(2)])
  moreover have "quiet s"
  proof -
    have i: "timers_ok s0" "horizontalSlides s0 \<noteq> []" "indexh s0 = Undef"
      using start(2) by (simp_all add: initial_ok_def timers_ok_def)
    have "\<exists>h v f. readURL s0 = slide h v f s0"
      using i(3) unfolding readURL_def Let_def by (auto split: option.split prod.split)
    then show ?thesis using quiet_slide [OF i(1,2)] start(1) by metis
  qed
  ultimately show ?case by (simp add: calm_def)
next
  case (step s e s')
  from step(2) have "allowed e s" "handle e s = Some s'" by (auto elim: reveal_stepE)
  then show ?case
    using stays_handle [OF step(3) [OF step(4)], of e] keeps_handle [of s e] calmD [OF step(3) [OF step(4)]]
    by (simp add: calm_def)
qed

section \<open>Properties\<close>

text \<open>
  C16: a presentation that is paused, shows the overview, or whose auto-sliding its user stopped never
  advances by itself: in every reachable state of this kind no timer that advances it is pending, so none
  can fire until it is resumed.
\<close>

theorem paused_stays:
  assumes "initial_ok s0" "reachable s0 s" "isPaused s \<or> isOverview s \<or> autoSlidePaused s"
  shows "Timer_auto_slide \<notin> t_call ` set (r_timers s)"
  using reachable_calm [OF assms(2,1)] assms(3)
  by (auto simp: calm_def quiet_def advancing_def auto_timers_def filter_empty_conv)

theorem paused_stays_witness:
  "\<forall>s. \<exists>s'. reachable (plain_example True False (s\<lparr>r_config := (r_config s)\<lparr>c_pause := True\<rparr>\<rparr>)) s' \<and>
    isPaused s' \<and> Timer_auto_slide \<notin> t_call ` set (r_timers s')"
proof (rule allI)
  fix s
  let ?s = "plain_example True False (s\<lparr>r_config := (r_config s)\<lparr>c_pause := True\<rparr>\<rparr>)"
  have init: "initial_ok ?s" unfolding plain_example_def by (rule example_initial)
  obtain s1 where s1: "readURL ?s = Some s1" "same_deck ?s s1" using plain_example_reached by blast
  have "c_pause (r_config s1)" using s1(2) by (simp add: same_deck_def plain_example_def example_deck_def)
  then have paused: "isPaused (pause s1)"
    by (simp add: pause_def Let_def isPaused_def upd_dom_def log_effect_def cancelAutoSlide_def clear_timeout_def)
  have "reveal_step s1 (Ev_toggle_pause (Some True)) (handle (Ev_toggle_pause (Some True)) s1)"
    by (rule reveal_step.intros) simp
  then have "reachable ?s (pause s1)"
    using reachable.step [OF reachable.start [OF s1(1)]] by (simp add: togglePause_def)
  with paused_stays [OF init this] paused
  show "\<exists>s'. reachable ?s s' \<and> isPaused s' \<and> Timer_auto_slide \<notin> t_call ` set (r_timers s')" by blast
qed

end
