(* ===== verification/Reveal_Saved.thy ===== *)
theory Reveal_Saved
  imports Reveal_Walk
begin

text \<open>
  \<open>getState\<close> and \<open>setState\<close>: a saved state brings any presentation of the same document to the slide it
  was saved at, and to the same overview and pause.
\<close>

section \<open>The overview\<close>

lemma overview_flag:
  "at_slide (s\<lparr>overview := b\<rparr>) = at_slide s" "same_deck t (s\<lparr>overview := b\<rparr>) = same_deck t s"
  "same_deck (s\<lparr>overview := b\<rparr>) t = same_deck s t" "isPaused (s\<lparr>overview := b\<rparr>) = isPaused s" "isOverview (s\<lparr>overview := b\<rparr>) = b"
proof -
  show "at_slide (s\<lparr>overview := b\<rparr>) = at_slide s" by (intro ext at_slide_cong) simp_all
qed (simp_all add: same_deck_def isPaused_def isOverview_def horizontalSlides_def sections_in_def fun_eq_iff)

text \<open>What the overview's operations keep: the position, the deck, the pause and the configuration.\<close>

definition placed_same :: "reveal \<Rightarrow> reveal \<Rightarrow> bool" where
  "placed_same s s' \<longleftrightarrow> (reveal_inv s \<longrightarrow> reveal_inv s') \<and>
     (reveal_inv s \<longrightarrow> at_slide s' = at_slide s \<and> same_deck s s' \<and> isPaused s' = isPaused s \<and>
       isOverview s' = isOverview s)"

lemma placed_same_refl: "placed_same s s"
  by (simp add: placed_same_def)

lemma placed_same_trans: "placed_same s t \<Longrightarrow> placed_same t u \<Longrightarrow> placed_same s u"
  unfolding placed_same_def using same_deck_trans by metis

lemma at_slide_functional:
  assumes "at_slide s h v" "at_slide s' h v"
  shows "at_slide s' = at_slide s"
proof -
  have "at_slide s' a b \<longleftrightarrow> at_slide s a b" for a b
    using assms at_slide_unique [of s h v a b] at_slide_unique [of s' h v a b] by blast
  then show ?thesis by (simp add: fun_eq_iff)
qed

lemma pos_placed_same:
  assumes "reveal_inv s \<Longrightarrow> pos_frame (keep_slides (r_dom s) (r_root s)) s s'" "reveal_inv s \<Longrightarrow> timers_ok s'"
  shows "placed_same s s'"
proof -
  { assume inv: "reveal_inv s"
    note p = assms(1) [OF inv]
    obtain h v where at: "at_slide s h v" using inv by (auto simp: reveal_inv_def placed_def)
    have d: "deck_ok s" using inv by (simp add: reveal_inv_def)
    have "at_slide s' = at_slide s" by (rule at_slide_functional [OF at at_slide_frame [OF d at p]])
    moreover have "same_deck s s'" by (rule same_deck_frame [OF d doc_frame_names [OF pos_doc_frame [OF p]]])
    moreover have "isPaused s' = isPaused s"
      using doc_frame_class [OF pos_doc_frame [OF p], of "''paused''" "r_wrapper s"] deck_okD(7) [OF d]
        doc_frame_shape(6) [OF pos_doc_frame [OF p]]
      by (simp add: isPaused_def keep_slides_def)
    moreover have "isOverview s' = isOverview s" using p by (simp add: pos_frame_def isOverview_def)
    moreover have "reveal_inv s'" by (rule inv_pos [OF inv p assms(2) [OF inv]])
    ultimately have "reveal_inv s' \<and> at_slide s' = at_slide s \<and> same_deck s s' \<and> isPaused s' = isPaused s \<and>
      isOverview s' = isOverview s" by blast }
  then show ?thesis by (simp add: placed_same_def)
qed

lemma page_placed_same:
  assumes "page_frame (keep_slides (r_dom s) (r_root s)) s s'"
  shows "placed_same s s'"
  by (rule pos_placed_same [OF page_pos_frame [OF assms]])
    (simp add: timer_frame_ok [OF page_timer_frame [OF assms]] reveal_inv_timers)

lemma placed_same_ops:
  "placed_same s (log_effect e s)" "placed_same s (updateSlidesVisibility s)" "placed_same s (layoutOverview s)"
  "placed_same s (updateOverview s)" "c \<notin> key_classes \<Longrightarrow> placed_same s (upd_dom (add_class c n) s)"
  "c \<notin> key_classes \<Longrightarrow> placed_same s (upd_dom (remove_class c n) s)"
  by (rule page_placed_same, intro page; simp)+

lemma placed_same_timers:
  "placed_same s (cancelAutoSlide s)" "placed_same s (cueAutoSlide s)"
  "placed_same s (snd (set_timeout Timer_overview_animated d s))"
  "placed_same s (snd (set_timeout Timer_overview_deactivated d s))"
  by (rule pos_placed_same; simp add: pos_cancelAutoSlide pos_cueAutoSlide pos_frame_fields timers_cancel timers_cue
      timers_set reveal_inv_timers)+

lemma placed_same_sizes:
  "placed_same s (s\<lparr>overviewSlideWidth := n, overviewSlideHeight := k\<rparr>)" "placed_same s (s\<lparr>overviewSlideWidth := n\<rparr>)"
  by (rule pos_placed_same; simp add: pos_frame_def doc_frame_def timers_ok_def reveal_inv_def)+

lemma placed_same_fold: "(\<And>x t. placed_same t (f x t)) \<Longrightarrow> placed_same s (fold f xs s)"
  by (induction xs arbitrary: s) (auto intro: placed_same_refl placed_same_trans)

lemma placed_same_let: "placed_same s x \<Longrightarrow> (\<And>y. placed_same s y \<Longrightarrow> placed_same s (f y)) \<Longrightarrow> placed_same s (Let x f)"
  by simp

lemma placed_same_if: "placed_same s x \<Longrightarrow> placed_same s y \<Longrightarrow> placed_same s (if b then x else y)"
  by simp

lemma activate_same:
  assumes "c_overview (r_config s)" "\<not> isOverview s"
  shows "placed_same (s\<lparr>overview := True\<rparr>) (activateOverview s)"
proof -
  note ops = placed_same_trans [OF _ placed_same_ops(1)] placed_same_trans [OF _ placed_same_ops(2)]
    placed_same_trans [OF _ placed_same_ops(3)] placed_same_trans [OF _ placed_same_ops(4)]
    placed_same_trans [OF _ placed_same_ops(5)] placed_same_trans [OF _ placed_same_ops(6)]
    placed_same_trans [OF _ placed_same_timers(1)] placed_same_trans [OF _ placed_same_timers(3)]
    placed_same_trans [OF _ placed_same_sizes(1)] placed_same_trans [OF _ placed_same_sizes(2)]
    placed_same_trans [OF _ placed_same_fold]
  have cond: "c_overview (r_config s) \<and> \<not> isOverview s" using assms by simp
  show ?thesis
    unfolding activateOverview_def if_P [OF cond]
    by (intro placed_same_let ops placed_same_if placed_same_refl) (auto intro: placed_same_ops placed_same_refl)
qed

lemma slide_same_place:
  assumes "reveal_inv s" "at_slide t h v" "same_deck t s"
  obtains s' where "slide (Num h) (Num v) f s = Some s'" "reveal_inv s'" "at_slide s' h v" "same_deck s s'"
    "isPaused s' = isPaused s" "isOverview s' = isOverview s"
proof -
  note f = at_slide_facts [OF assms(2)]
  have eq: "horizontalSlides s = horizontalSlides t" "sections_in s = sections_in t"
    using assms(3) by (simp_all add: same_deck_def)
  have d: "deck_ok s" using assms(1) by (simp add: reveal_inv_def)
  obtain s' where s': "slide (Num h) (Num v) f s = Some s'" "reveal_inv s'" "at_slide s' h v"
    "doc_frame (keep_names (r_root s)) s s'" "overview s' = overview s"
  proof (rule slide_to [OF assms(1), of "Num h" h h "Num v" v v f])
    show "h = clamp_in s (horizontalSlides s) h" using f by (simp add: clamp_in_id eq)
    show "v = clamp_in s (sections_in s (horizontalSlides s ! nat h)) v"
      using f by (cases "sections_in s (horizontalSlides s ! nat h) = []") (auto simp: clamp_in_def clamp_index_id eq)
  qed (simp_all add: or_default_def asked_index_def)
  have "isPaused s' = isPaused s"
    using doc_frame_class [OF s'(4), of "''paused''" "r_wrapper s"] deck_okD(7) [OF d] doc_frame_shape(6) [OF s'(4)]
    by (simp add: isPaused_def keep_names_def)
  then show ?thesis
    using that [OF s'(1-3) same_deck_frame [OF d s'(4)]] s'(5) by (simp add: isOverview_def)
qed

lemma deactivate_at:
  assumes "reveal_inv s" "at_slide s h v" "c_overview (r_config s)"
  obtains s' where "deactivateOverview s = Some s'" "reveal_inv s'" "at_slide s' h v" "same_deck s s'"
    "isPaused s' = isPaused s" "\<not> isOverview s'"
proof -
  note ops = placed_same_trans [OF _ placed_same_ops(1)] placed_same_trans [OF _ placed_same_ops(5)]
    placed_same_trans [OF _ placed_same_ops(6)] placed_same_trans [OF _ placed_same_timers(4)]
    placed_same_trans [OF _ placed_same_fold]
  define t where "t =
       (let s = s\<lparr>overview := False\<rparr>;
            s = upd_dom (remove_class ''overview'' (r_wrapper s)) s;
            s = upd_dom (remove_class ''overview-animated'' (r_wrapper s)) s;
            s = upd_dom (add_class ''overview-deactivating'' (r_wrapper s)) s;
            s = snd (set_timeout Timer_overview_deactivated 1 s);
            s = log_effect (Append_child (r_wrapper s) (r_background s)) s;
            s = fold (\<lambda>n s. log_effect (Remove_click_listener n) (log_effect (Transform n None) s))
                  (query_all slides_sel (r_dom s) (r_wrapper s)) s;
            s = fold (\<lambda>n s. log_effect (Transform n None) s)
                  (query_all slide_background_sel (r_dom s) (r_background s)) s
        in log_effect (Transform_slides None) s)"
  have t: "placed_same (s\<lparr>overview := False\<rparr>) t"
    unfolding t_def by (intro placed_same_let ops placed_same_refl) (auto intro: placed_same_ops placed_same_refl)
  have t': "reveal_inv t" "at_slide t h v" "same_deck s t" "isPaused t = isPaused s" "\<not> isOverview t"
    using t assms(1,2) by (auto simp: placed_same_def overview_flag)
  have i: "indexh t = Num h" "indexv t = Num v" using at_slide_facts(1,2) [OF t'(2)] by simp_all
  obtain u where u: "slide (Num h) (Num v) Undef t = Some u" "reveal_inv u" "at_slide u h v" "same_deck t u"
    "isPaused u = isPaused t" "isOverview u = isOverview t"
    by (rule slide_same_place [OF t'(1,2) same_deck_refl])
  define w where "w = log_effect (Dispatch_slide ''overviewhidden'' (indexh (cueAutoSlide (log_effect Do_layout u)))
    (indexv (cueAutoSlide (log_effect Do_layout u))) None (currentSlide (cueAutoSlide (log_effect Do_layout u))))
    (cueAutoSlide (log_effect Do_layout u))"
  have "placed_same u w"
    unfolding w_def
    by (rule placed_same_trans [OF placed_same_trans [OF placed_same_ops(1) placed_same_timers(2)] placed_same_ops(1)])
  then have w: "reveal_inv w" "at_slide w h v" "same_deck u w" "isPaused w = isPaused u" "isOverview w = isOverview u"
    using u(2,3) by (simp_all add: placed_same_def)
  have "deactivateOverview s = Some w"
    unfolding deactivateOverview_def if_P [OF assms(3)]
    using u(1) i by (simp add: t_def w_def Let_def)
  then show ?thesis
    using that w u t' same_deck_trans [OF t'(3) same_deck_trans [OF u(4) w(3)]] by simp
qed

section \<open>Pausing\<close>

lemma togglePause_at:
  assumes "reveal_inv s" "c_pause (r_config s)"
  shows "reveal_inv (togglePause (Some b) s)" "at_slide (togglePause (Some b) s) = at_slide s"
    "same_deck s (togglePause (Some b) s)" "isPaused (togglePause (Some b) s) = b"
    "isOverview (togglePause (Some b) s) = isOverview s"
proof -
  have cls: "same_deck t (upd_dom (add_class ''paused'' n) t)" "same_deck t (upd_dom (remove_class ''paused'' n) t)"
    "isPaused (upd_dom (add_class ''paused'' (r_wrapper t)) t)" "\<not> isPaused (upd_dom (remove_class ''paused'' (r_wrapper t)) t)"
    "isOverview (upd_dom f t) = isOverview t" for t n f
    by (simp_all add: same_deck_def) (simp_all add: isPaused_def upd_dom_def isOverview_def)
  let ?c = "cancelAutoSlide s"
  have c: "reveal_inv ?c" "at_slide ?c = at_slide s" "same_deck s ?c" "isOverview ?c = isOverview s"
    using placed_same_timers(1) [of s] assms(1) by (simp_all add: placed_same_def)
  let ?p = "upd_dom (add_class ''paused'' (r_wrapper ?c)) ?c"
  have p: "reveal_inv ?p" "at_slide ?p = at_slide s" "same_deck s ?p" "isPaused ?p" "isOverview ?p = isOverview s"
    using c cls inv_pause_class(1) [OF c(1)] same_deck_trans [OF c(3) cls(1)] by simp_all
  have pause: "placed_same ?p (pause s)"
    using assms(2) by (simp add: pause_def Let_def placed_same_ops placed_same_refl)
  let ?r = "upd_dom (remove_class ''paused'' (r_wrapper s)) s"
  have r: "reveal_inv ?r" "at_slide ?r = at_slide s" "same_deck s ?r" "\<not> isPaused ?r" "isOverview ?r = isOverview s"
    using cls inv_pause_class(2) [OF assms(1)] by simp_all
  have resume: "placed_same ?r (resume s)"
    by (auto simp: resume_def Let_def intro: placed_same_trans [OF placed_same_timers(2) placed_same_ops(1)] placed_same_timers)
  have b: "togglePause (Some b) s = (if b then pause s else resume s)" by (simp add: togglePause_def)
  have all: "reveal_inv (togglePause (Some b) s) \<and> at_slide (togglePause (Some b) s) = at_slide s \<and>
    same_deck s (togglePause (Some b) s) \<and> isPaused (togglePause (Some b) s) = b \<and>
    isOverview (togglePause (Some b) s) = isOverview s"
  proof (cases b)
    case True
    then show ?thesis
      using pause p same_deck_trans [OF p(3)] unfolding b by (simp add: placed_same_def)
  next
    case False
    then show ?thesis
      using resume r same_deck_trans [OF r(3)] unfolding b by (simp add: placed_same_def)
  qed
  then show "reveal_inv (togglePause (Some b) s)" "at_slide (togglePause (Some b) s) = at_slide s"
    "same_deck s (togglePause (Some b) s)" "isPaused (togglePause (Some b) s) = b"
    "isOverview (togglePause (Some b) s) = isOverview s" by blast+
qed

section \<open>Properties\<close>

text \<open>
  C19: a saved state restores.  What \<open>getState\<close> saved, \<open>setState\<close> brings back in every state of the same
  document: the slide, and whether the presentation is paused and shows its overview.
\<close>

theorem saved_state_restores:
  assumes "reveal_inv s" "at_slide s h v" "reveal_inv t" "same_deck s t" "c_pause (r_config s)" "c_overview (r_config s)"
  shows "\<exists>t'. setState (getState s) t = Some t' \<and> at_slide t' h v \<and> isPaused t' = isPaused s \<and>
    isOverview t' = isOverview s"
proof -
  let ?st = "getState s"
  obtain f where st: "?st = \<lparr>st_indexh = Num h, st_indexv = Num v, st_indexf = f, st_paused = isPaused s, st_overview = isOverview s\<rparr>"
    using at_slide_facts(1,2) [OF assms(2)] by (simp add: getState_def getIndices_def)
  obtain u where u: "slide (Num h) (Num v) f t = Some u" "reveal_inv u" "at_slide u h v" "same_deck t u"
    by (rule slide_same_place [OF assms(3,2,4)])
  have cfg: "c_pause (r_config u)" "c_overview (r_config u)"
    using assms(4-6) u(4) by (simp_all add: same_deck_def)
  define w where "w = (if isPaused s \<noteq> isPaused u then togglePause (Some (isPaused s)) u else u)"
  have w: "reveal_inv w" "at_slide w h v" "c_overview (r_config w)" "isPaused w = isPaused s"
    using u cfg togglePause_at [OF u(2) cfg(1), of "isPaused s"] by (auto simp: w_def same_deck_def)
  have set: "setState ?st t = (if isOverview s \<noteq> isOverview w then toggleOverview (Some (isOverview s)) w else Some w)"
    using u(1) by (simp add: setState_def st w_def Let_def)
  show ?thesis
  proof (cases "isOverview s = isOverview w")
    case True
    then show ?thesis using set w by simp
  next
    case False
    show ?thesis
    proof (cases "isOverview s")
      case True
      then have no: "\<not> isOverview w" using False by simp
      have "setState ?st t = Some (activateOverview w)" using set True no by (simp add: toggleOverview_def)
      moreover have "reveal_inv (w\<lparr>overview := True\<rparr>)" using w(1) by simp
      ultimately show ?thesis
        using activate_same [OF w(3) no] w True by (simp add: placed_same_def overview_flag)
    next
      case no: False
      obtain x where "deactivateOverview w = Some x" "at_slide x h v" "isPaused x = isPaused w" "\<not> isOverview x"
        by (rule deactivate_at [OF w(1-3)])
      then show ?thesis using set False no w by (simp add: toggleOverview_def)
    qed
  qed
qed

theorem saved_state_restores_witness:
  "\<forall>s. let s = placed_example False False (s\<lparr>r_config := (r_config s)\<lparr>c_pause := True, c_overview := True\<rparr>\<rparr>) in
    \<exists>t'. setState (getState s) s = Some t' \<and> at_slide t' 1 1 \<and> isPaused t' = isPaused s"
proof (rule allI)
  fix s
  let ?s = "placed_example False False (s\<lparr>r_config := (r_config s)\<lparr>c_pause := True, c_overview := True\<rparr>\<rparr>)"
  have "c_pause (r_config ?s)" "c_overview (r_config ?s)"
    by (simp_all add: placed_example_def plain_example_def example_deck_def)
  from saved_state_restores [OF placed_example_inv placed_example_at placed_example_inv same_deck_refl this]
  show "let s = ?s in \<exists>t'. setState (getState s) s = Some t' \<and> at_slide t' 1 1 \<and> isPaused t' = isPaused s"
    unfolding Let_def by blast
qed

end
