(* ===== verification/Reveal_Sorting.thy ===== *)
theory Reveal_Sorting
  imports Reveal_Fragments "HOL-Library.Multiset"
begin

text \<open>
  \<open>sortFragments\<close> against its specification: a stable sort by the explicit index, fragments without
  one last, and a numbering of the groups without gaps.
\<close>

section \<open>Ranks\<close>

text \<open>The explicit index of a fragment, when it has one that counts.\<close>

definition frag_index :: "dom \<Rightarrow> node \<Rightarrow> int option" where
  "frag_index d fr = (case d_attr d fr ''data-fragment-index'' of
     None \<Rightarrow> None | Some a \<Rightarrow> array_index (js_parse_int a))"

definition indexed_ok :: "dom \<Rightarrow> node list \<Rightarrow> bool" where
  "indexed_ok d frs \<longleftrightarrow>
     (\<forall>fr \<in> set frs. d_attr d fr ''data-fragment-index'' \<noteq> None \<longrightarrow> frag_index d fr \<noteq> None)"

text \<open>Array indices are below \<open>2\<^sup>3\<^sup>2 - 1\<close>; a fragment without one ranks behind them all.\<close>

definition frag_rank :: "dom \<Rightarrow> node \<Rightarrow> int" where
  "frag_rank d fr = (case frag_index d fr of None \<Rightarrow> 4294967295 | Some k \<Rightarrow> k)"

lemma array_index_range: "array_index x = Some k \<Longrightarrow> 0 \<le> k \<and> k < 4294967295"
  by (auto simp: array_index_def split: jsnum.splits if_splits)

lemma frag_index_range: "frag_index d fr = Some k \<Longrightarrow> 0 \<le> k \<and> k < 4294967295"
  by (auto simp: frag_index_def dest: array_index_range split: option.splits)

section \<open>Groups\<close>

lemma push_group_keys: "set (map fst (push_group k x gs)) = insert k (set (map fst gs))"
  by (induction gs rule: push_group.induct) auto

lemma push_group_sorted:
  "sorted_wrt (<) (map fst gs) \<Longrightarrow> sorted_wrt (<) (map fst (push_group k x gs))"
proof (induction k x gs rule: push_group.induct)
  case (2 k x j g rest)
  then show ?case using push_group_keys [of k x rest] by auto
qed simp

lemma push_group_map_of:
  "sorted_wrt (<) (map fst gs) \<Longrightarrow>
    map_of (push_group k x gs) = (map_of gs)(k \<mapsto> (case map_of gs k of None \<Rightarrow> [x] | Some g \<Rightarrow> g @ [x]))"
proof (induction k x gs rule: push_group.induct)
  case (2 k x j g rest)
  have "map_of rest k = None" if "k < j"
    using that 2(2) by (force simp: map_of_eq_None_iff)
  with 2 show ?case by (auto simp: fun_eq_iff)
qed auto

definition groups_inv :: "dom \<Rightarrow> node list \<Rightarrow> (int \<times> node list) list \<times> node list list \<Rightarrow> bool" where
  "groups_inv d frs = (\<lambda>(ordered, unordered).
     sorted_wrt (<) (map fst ordered) \<and>
     (\<forall>k. map_of ordered k =
        (let g = filter (\<lambda>fr. frag_index d fr = Some k) frs in if g = [] then None else Some g)) \<and>
     unordered = map (\<lambda>fr. [fr]) (filter (\<lambda>fr. frag_index d fr = None) frs))"

lemma groups_inv_step:
  assumes "groups_inv d frs acc" "d_attr d fr ''data-fragment-index'' \<noteq> None \<longrightarrow> frag_index d fr \<noteq> None"
  shows "groups_inv d (frs @ [fr]) (group_step d fr acc)"
proof -
  obtain ordered unordered where acc: "acc = (ordered, unordered)" by (cases acc)
  show ?thesis
  proof (cases "frag_index d fr")
    case None
    then have "d_attr d fr ''data-fragment-index'' = None" using assms(2) by blast
    with None assms(1) show ?thesis by (simp add: groups_inv_def group_step_def acc Let_def)
  next
    case (Some k)
    then obtain a where "d_attr d fr ''data-fragment-index'' = Some a" "array_index (js_parse_int a) = Some k"
      by (auto simp: frag_index_def split: option.splits)
    then have "group_step d fr acc = (push_group k fr ordered, unordered)" by (simp add: group_step_def acc)
    with Some assms(1) show ?thesis
      by (auto simp: groups_inv_def acc push_group_sorted push_group_map_of Let_def)
  qed
qed

lemma groups_inv_fold:
  "indexed_ok d frs \<Longrightarrow> groups_inv d frs (fold (group_step d) frs ([], []))"
proof (induction frs rule: rev_induct)
  case Nil
  then show ?case by (simp add: groups_inv_def Let_def)
next
  case (snoc fr frs)
  then show ?case by (auto simp: indexed_ok_def intro!: groups_inv_step)
qed

text \<open>Groups as lists: each is one rank's fragments in document order, and the ranks ascend.\<close>

lemma fragment_groups_parts:
  assumes "indexed_ok d frs"
  obtains ordered where
    "fragment_groups d frs = map snd ordered @ map (\<lambda>fr. [fr]) (filter (\<lambda>fr. frag_index d fr = None) frs)"
    "sorted_wrt (<) (map fst ordered)"
    "\<And>k g. (k, g) \<in> set ordered \<Longrightarrow> g = filter (\<lambda>fr. frag_index d fr = Some k) frs \<and> g \<noteq> []"
    "\<And>fr k. fr \<in> set frs \<Longrightarrow> frag_index d fr = Some k \<Longrightarrow> k \<in> fst ` set ordered"
proof -
  obtain ordered unordered where f: "fold (group_step d) frs ([], []) = (ordered, unordered)" by fastforce
  have inv: "groups_inv d frs (ordered, unordered)" using groups_inv_fold [OF assms] f by simp
  then have dist: "distinct (map fst ordered)"
    by (auto simp: groups_inv_def strict_sorted_iff)
  have m: "map_of ordered k = (let g = filter (\<lambda>fr. frag_index d fr = Some k) frs in if g = [] then None else Some g)" for k
    using inv by (simp add: groups_inv_def)
  show ?thesis
  proof (rule that [of ordered])
    show "fragment_groups d frs = map snd ordered @ map (\<lambda>fr. [fr]) (filter (\<lambda>fr. frag_index d fr = None) frs)"
      using inv by (simp add: fragment_groups_def f groups_inv_def)
    show "sorted_wrt (<) (map fst ordered)" using inv by (simp add: groups_inv_def)
    show "g = filter (\<lambda>fr. frag_index d fr = Some k) frs \<and> g \<noteq> []" if "(k, g) \<in> set ordered" for k g
      using m [of k] map_of_is_SomeI [OF dist that] by (auto simp: Let_def split: if_splits)
    show "k \<in> fst ` set ordered" if "fr \<in> set frs" "frag_index d fr = Some k" for fr k
    proof (rule ccontr)
      assume "k \<notin> fst ` set ordered"
      then have "map_of ordered k = None" by (simp add: map_of_eq_None_iff)
      with m [of k] that show False by (auto simp: Let_def filter_empty_conv split: if_splits)
    qed
  qed
qed

section \<open>The order\<close>

lemma groups_filter:
  fixes os :: "(int \<times> 'a list) list"
  assumes "sorted_wrt (<) (map fst os)" "\<And>k g. (k, g) \<in> set os \<Longrightarrow> g = filter (\<lambda>x. idx x = Some k) xs"
  shows "filter (\<lambda>x. idx x = Some r) (concat (map snd os)) =
    (if r \<in> fst ` set os then filter (\<lambda>x. idx x = Some r) xs else [])"
  using assms
proof (induction os)
  case (Cons kg os)
  obtain k g where kg: "kg = (k, g)" by (cases kg)
  have g: "g = filter (\<lambda>x. idx x = Some k) xs" by (rule Cons.prems(2)) (simp add: kg)
  have IH: "filter (\<lambda>x. idx x = Some r) (concat (map snd os)) =
    (if r \<in> fst ` set os then filter (\<lambda>x. idx x = Some r) xs else [])"
    using Cons by simp
  have "filter (\<lambda>x. idx x = Some r) g = (if k = r then g else [])" unfolding g by (auto simp: filter_empty_conv)
  moreover have "r \<notin> fst ` set os" if "k = r" 
  proof
    assume "r \<in> fst ` set os"
    then obtain b where b: "b \<in> set os" "r = fst b" by auto
    then have "k < fst b" using Cons.prems(1) kg by auto
    with b that show False by simp
  qed
  ultimately show ?case using IH g kg by auto
qed simp

lemma groups_sorted:
  assumes "sorted_wrt (<) (map fst os)" "\<And>k g x. (k, g) \<in> set os \<Longrightarrow> x \<in> set g \<Longrightarrow> rank x = (k :: int)"
  shows "sorted (map rank (concat (map snd os)))"
  using assms
proof (induction os)
  case (Cons kg os)
  obtain k g where kg: "kg = (k, g)" by (cases kg)
  have g: "map rank g = replicate (length g) k"
    using Cons.prems(2) [of k g] kg by (auto intro: nth_equalityI)
  have "k \<le> rank x" if x: "x \<in> set (concat (map snd os))" for x
  proof -
    from x obtain j h where jh: "(j, h) \<in> set os" "x \<in> set h" by auto
    then have "k < j" using Cons.prems(1) kg by force
    then show ?thesis using Cons.prems(2) [of j h x] jh by auto
  qed
  moreover have "sorted (map rank (concat (map snd os)))"
    by (rule Cons.IH) (use Cons.prems in auto)
  ultimately show ?case by (auto simp: kg sorted_append g)
qed simp

lemma frag_rank_iff:
  "frag_rank d x = 4294967295 \<longleftrightarrow> frag_index d x = None"
  "r \<noteq> 4294967295 \<Longrightarrow> frag_rank d x = r \<longleftrightarrow> frag_index d x = Some r"
  "frag_rank d x \<le> 4294967295"
  using frag_index_range [of d x] by (auto simp: frag_rank_def split: option.splits)

lemma sort_fragments_order:
  assumes "indexed_ok d frs"
  shows "fst (sort_fragments frs d) = sort_key (frag_rank d) frs"
proof -
  obtain ordered where o: "fragment_groups d frs = map snd ordered @ map (\<lambda>fr. [fr]) (filter (\<lambda>fr. frag_index d fr = None) frs)"
    "sorted_wrt (<) (map fst ordered)"
    "\<And>k g. (k, g) \<in> set ordered \<Longrightarrow> g = filter (\<lambda>fr. frag_index d fr = Some k) frs \<and> g \<noteq> []"
    "\<And>fr k. fr \<in> set frs \<Longrightarrow> frag_index d fr = Some k \<Longrightarrow> k \<in> fst ` set ordered"
    using fragment_groups_parts [OF assms] by blast
  let ?un = "filter (\<lambda>fr. frag_index d fr = None) frs"
  let ?os = "concat (map snd ordered)"
  have rank: "frag_rank d x = k" if "(k, g) \<in> set ordered" "x \<in> set g" for k g x
    using o(3) [OF that(1)] that(2) by (auto simp: frag_rank_def)
  have some: "frag_index d x \<noteq> None" if x: "x \<in> set ?os" for x
    using x o(3) by (fastforce simp: filter_empty_conv)
  have filt: "filter (\<lambda>x. frag_rank d x = r) (?os @ ?un) = filter (\<lambda>x. frag_rank d x = r) frs" for r
  proof (cases "r = 4294967295")
    case True
    then show ?thesis using some by (auto simp: frag_rank_iff(1) filter_empty_conv)
  next
    case False
    have "filter (\<lambda>x. frag_index d x = Some r) ?os =
        (if r \<in> fst ` set ordered then filter (\<lambda>x. frag_index d x = Some r) frs else [])"
      by (rule groups_filter [OF o(2)]) (use o(3) in blast)
    also have "\<dots> = filter (\<lambda>x. frag_index d x = Some r) frs"
      using o(4) [of _ r] by (auto simp: filter_empty_conv eq_commute [of "[]"])
    finally show ?thesis by (auto simp: frag_rank_iff(2) [OF False] filter_empty_conv)
  qed
  have "sort_key (frag_rank d) frs = ?os @ ?un"
  proof (rule properties_for_sort_key)
    have "count (mset zs) x = length (filter (\<lambda>y. y = x) (filter (\<lambda>y. frag_rank d y = frag_rank d x) zs))" for zs x
      by (induction zs) auto
    then have "count (mset (?os @ ?un)) x = count (mset frs) x" for x by (simp only: filt)
    then show "mset (?os @ ?un) = mset frs" by (rule multiset_eqI)
    show "filter (\<lambda>x. frag_rank d k = frag_rank d x) (?os @ ?un) = filter (\<lambda>x. frag_rank d k = frag_rank d x) frs" for k
      using filt [of "frag_rank d k"] by (simp only: eq_commute)
    have "sorted (map (frag_rank d) ?os)" by (rule groups_sorted [OF o(2) rank])
    moreover have "map (frag_rank d) ?un = replicate (length ?un) 4294967295"
      by (rule nth_equalityI) (auto simp: frag_rank_iff(1) dest: nth_mem)
    ultimately show "sorted (map (frag_rank d) (?os @ ?un))"
      by (auto simp: sorted_append frag_rank_iff(3))
  qed
  moreover have "fst (sort_fragments frs d) = ?os @ ?un" by (simp add: sort_fragments_def Let_def o(1))
  ultimately show ?thesis by simp
qed

section \<open>The numbers\<close>

text \<open>The number a fragment has in its attribute; -1 when it has none.\<close>

definition frag_num :: "dom \<Rightarrow> node \<Rightarrow> int" where
  "frag_num d fr = (case d_attr d fr ''data-fragment-index'' of
     Some a \<Rightarrow> (case js_parse_int a of Num n \<Rightarrow> n | _ \<Rightarrow> -1) | None \<Rightarrow> -1)"

lemma number_fold_attr:
  "d_attr (fold (\<lambda>fr. set_attr a v fr) g d) x b =
    (if x \<in> set g \<and> b = a then Some v else d_attr d x b)"
  by (induction g arbitrary: d) auto

lemma number_fold_dom: "\<exists>f. fold (\<lambda>fr. set_attr a v fr) g d = d\<lparr>d_attr := f\<rparr>"
proof (induction g arbitrary: d)
  case Nil
  have "d = d\<lparr>d_attr := d_attr d\<rparr>" by simp
  then show ?case unfolding fold_Nil id_apply by blast
next
  case (Cons x g)
  obtain f where "fold (\<lambda>fr. set_attr a v fr) g (set_attr a v x d) = (set_attr a v x d)\<lparr>d_attr := f\<rparr>"
    using Cons by blast
  moreover have "(set_attr a v x d)\<lparr>d_attr := f\<rparr> = d\<lparr>d_attr := f\<rparr>" by (simp add: set_attr_def)
  ultimately show ?case by (metis fold_simps(2))
qed

lemma number_group_apply:
  "number_group g (n, d) =
    (n + 1, fold (\<lambda>fr. set_attr ''data-fragment-index'' (js_show_int n) fr) g d)"
  by (simp add: number_group_def)

text \<open>Only that attribute changes.\<close>

lemma number_groups_dom: "\<exists>f. snd (fold number_group gs (n, d)) = d\<lparr>d_attr := f\<rparr>"
proof (induction gs arbitrary: n d)
  case Nil
  have "d = d\<lparr>d_attr := d_attr d\<rparr>" by simp
  then show ?case unfolding fold_Nil id_apply snd_conv by blast
next
  case (Cons g gs)
  obtain e where e: "fold (\<lambda>fr. set_attr ''data-fragment-index'' (js_show_int n) fr) g d = d\<lparr>d_attr := e\<rparr>"
    using number_fold_dom by blast
  obtain f where "snd (fold number_group gs (n + 1, d\<lparr>d_attr := e\<rparr>)) = d\<lparr>d_attr := e, d_attr := f\<rparr>"
    using Cons by blast
  then show ?case by (auto simp: number_group_apply e)
qed

lemma number_groups_other:
  assumes "x \<notin> set (concat gs) \<or> b \<noteq> ''data-fragment-index''"
  shows "d_attr (snd (fold number_group gs (n, d))) x b = d_attr d x b"
  using assms
proof (induction gs arbitrary: n d)
  case (Cons g gs)
  have "d_attr (snd (fold number_group (g # gs) (n, d))) x b =
      d_attr (fold (\<lambda>fr. set_attr ''data-fragment-index'' (js_show_int n) fr) g d) x b"
    using Cons.IH [of "n + 1"] Cons.prems by (auto simp: number_group_apply)
  then show ?case using Cons.prems by (auto simp: number_fold_attr)
qed simp

lemma number_groups_attr:
  assumes "distinct (concat gs)" "i < length gs" "x \<in> set (gs ! i)"
  shows "d_attr (snd (fold number_group gs (n, d))) x ''data-fragment-index'' = Some (js_show_int (n + int i))"
  using assms
proof (induction gs arbitrary: n d i)
  case (Cons g gs)
  let ?e = "fold (\<lambda>fr. set_attr ''data-fragment-index'' (js_show_int n) fr) g d"
  have step: "fold number_group (g # gs) (n, d) = fold number_group gs (n + 1, ?e)"
    by (simp add: number_group_apply)
  show ?case
  proof (cases i)
    case 0
    then have x: "x \<in> set g" "x \<notin> set (concat gs)" using Cons.prems by auto
    then have "d_attr (snd (fold number_group gs (n + 1, ?e))) x ''data-fragment-index'' =
        d_attr ?e x ''data-fragment-index''"
      by (intro number_groups_other) simp
    with x 0 show ?thesis by (simp only: step) (simp add: number_fold_attr)
  next
    case (Suc j)
    have "d_attr (snd (fold number_group gs (n + 1, ?e))) x ''data-fragment-index'' =
        Some (js_show_int (n + 1 + int j))"
      by (rule Cons.IH) (use Cons.prems Suc in auto)
    with Suc show ?thesis by (simp only: step) (simp add: algebra_simps)
  qed
qed simp

lemma fragment_groups_concat:
  assumes "indexed_ok d frs" "distinct frs"
  shows "distinct (concat (fragment_groups d frs))" "set (concat (fragment_groups d frs)) = set frs"
proof -
  have "concat (fragment_groups d frs) = sort_key (frag_rank d) frs"
    using sort_fragments_order [OF assms(1)] by (simp add: sort_fragments_def Let_def)
  then show "distinct (concat (fragment_groups d frs))" "set (concat (fragment_groups d frs)) = set frs"
    using assms(2) by (simp_all only: distinct_sort set_sort)
qed

lemma fragment_groups_nonempty:
  assumes "indexed_ok d frs"
  shows "[] \<notin> set (fragment_groups d frs)"
proof -
  obtain ordered where
    o: "fragment_groups d frs = map snd ordered @ map (\<lambda>fr. [fr]) (filter (\<lambda>fr. frag_index d fr = None) frs)"
    "sorted_wrt (<) (map fst ordered)"
    "\<And>k g. (k, g) \<in> set ordered \<Longrightarrow> g = filter (\<lambda>fr. frag_index d fr = Some k) frs \<and> g \<noteq> []"
    "\<And>fr k. fr \<in> set frs \<Longrightarrow> frag_index d fr = Some k \<Longrightarrow> k \<in> fst ` set ordered"
    using fragment_groups_parts [OF assms] by blast
  have "snd kg \<noteq> []" if "kg \<in> set ordered" for kg
  proof -
    have "(fst kg, snd kg) \<in> set ordered" using that by simp
    from o(3) [OF this] show ?thesis by blast
  qed
  then show ?thesis unfolding o(1) by force
qed

text \<open>Two fragments share a group when they have the same explicit index.\<close>

definition same_group :: "dom \<Rightarrow> node \<Rightarrow> node \<Rightarrow> bool" where
  "same_group d x y \<longleftrightarrow> x = y \<or> (frag_index d x = frag_index d y \<and> frag_index d x \<noteq> None)"

lemma fragment_groups_same:
  assumes "indexed_ok d frs" "x \<in> set frs" "y \<in> set frs"
  shows "(\<exists>g \<in> set (fragment_groups d frs). x \<in> set g \<and> y \<in> set g) \<longleftrightarrow> same_group d x y"
proof -
  obtain ordered where
    o: "fragment_groups d frs = map snd ordered @ map (\<lambda>fr. [fr]) (filter (\<lambda>fr. frag_index d fr = None) frs)"
    "sorted_wrt (<) (map fst ordered)"
    "\<And>k g. (k, g) \<in> set ordered \<Longrightarrow> g = filter (\<lambda>fr. frag_index d fr = Some k) frs \<and> g \<noteq> []"
    "\<And>fr k. fr \<in> set frs \<Longrightarrow> frag_index d fr = Some k \<Longrightarrow> k \<in> fst ` set ordered"
    using fragment_groups_parts [OF assms(1)] by blast
  have mem: "g \<in> set (fragment_groups d frs) \<longleftrightarrow>
      (\<exists>k. (k, g) \<in> set ordered) \<or> (\<exists>z \<in> set frs. frag_index d z = None \<and> g = [z])" for g
    unfolding o(1) by (auto intro: rev_image_eqI)
  show ?thesis
  proof
    assume "\<exists>g \<in> set (fragment_groups d frs). x \<in> set g \<and> y \<in> set g"
    then obtain g where g: "g \<in> set (fragment_groups d frs)" "x \<in> set g" "y \<in> set g" by blast
    consider k where "(k, g) \<in> set ordered" | z where "g = [z]" using g(1) mem by blast
    then show "same_group d x y"
    proof cases
      case 1
      have "g = filter (\<lambda>fr. frag_index d fr = Some k) frs" using o(3) [OF 1] by simp
      then have "frag_index d x = Some k" "frag_index d y = Some k" using g(2,3) by simp_all
      then show ?thesis by (simp add: same_group_def)
    next
      case 2
      with g show ?thesis by (simp add: same_group_def)
    qed
  next
    assume same: "same_group d x y"
    show "\<exists>g \<in> set (fragment_groups d frs). x \<in> set g \<and> y \<in> set g"
    proof (cases "frag_index d x")
      case None
      with same have "x = y" by (simp add: same_group_def)
      moreover have "[x] \<in> set (fragment_groups d frs)" using None assms(2) mem by blast
      ultimately show ?thesis by (intro bexI [of _ "[x]"]) simp_all
    next
      case (Some k)
      then obtain g where kg: "(k, g) \<in> set ordered" using o(4) [OF assms(2)] by auto
      have "frag_index d y = Some k" using same Some by (auto simp: same_group_def)
      then have "x \<in> set g" "y \<in> set g" using o(3) [OF kg] assms(2,3) Some by simp_all
      moreover have "g \<in> set (fragment_groups d frs)" using kg mem by blast
      ultimately show ?thesis by blast
    qed
  qed
qed

lemma sort_fragments_dom: "\<exists>f. snd (sort_fragments frs d) = d\<lparr>d_attr := f\<rparr>"
  using number_groups_dom [of "fragment_groups d frs" 0 d] by (simp add: sort_fragments_def Let_def)

text \<open>The number of a fragment is the position of its group.\<close>

lemma frag_num_group:
  assumes "indexed_ok d frs" "distinct frs" "gs = fragment_groups d frs" "i < length gs" "x \<in> set (gs ! i)"
  shows "d_attr (snd (sort_fragments frs d)) x ''data-fragment-index'' = Some (js_show_int (int i))"
    "frag_num (snd (sort_fragments frs d)) x = int i"
  using number_groups_attr [of "fragment_groups d frs" i x 0 d]
    fragment_groups_concat(1) [OF assms(1,2)] assms(3-5)
  by (simp_all add: sort_fragments_def Let_def frag_num_def)

lemma concat_numbers:
  assumes "\<And>i x. i < length gs \<Longrightarrow> x \<in> set (gs ! i) \<Longrightarrow> f x = n + int i"
  shows "sorted (map f (concat gs)) \<and> (\<forall>x \<in> set (concat gs). n \<le> f x)"
  using assms
proof (induction gs arbitrary: n)
  case (Cons g gs)
  have g: "f x = n" if "x \<in> set g" for x using Cons.prems [of 0 x] that by simp
  have "sorted (map f (concat gs)) \<and> (\<forall>x \<in> set (concat gs). n + 1 \<le> f x)"
    by (rule Cons.IH) (use Cons.prems [of "Suc _"] in fastforce)
  moreover have "map f g = replicate (length g) n" by (rule nth_equalityI) (simp_all add: g)
  ultimately show ?case using g by (fastforce simp: sorted_append)
qed simp

lemma sort_fragments_numbers:
  assumes "indexed_ok d frs" "distinct frs" "sort_fragments frs d = (ys, d')"
  shows "sorted (map (frag_num d') ys)"
    "x \<in> set frs \<Longrightarrow> y \<in> set frs \<Longrightarrow> frag_num d' x = frag_num d' y \<longleftrightarrow>
      same_group d x y"
    "frag_num d' ` set frs = {0..<int (card (frag_num d' ` set frs))}"
    "x \<in> set frs \<Longrightarrow> d_attr d' x ''data-fragment-index'' = Some (js_show_int (frag_num d' x))"
proof -
  define gs where "gs = fragment_groups d frs"
  have facts: "distinct (concat gs)" "set (concat gs) = set frs" "[] \<notin> set gs"
    "\<And>x y. x \<in> set frs \<Longrightarrow> y \<in> set frs \<Longrightarrow> (\<exists>g \<in> set gs. x \<in> set g \<and> y \<in> set g) \<longleftrightarrow> same_group d x y"
    unfolding gs_def using fragment_groups_concat [OF assms(1,2)] fragment_groups_nonempty [OF assms(1)]
      fragment_groups_same [OF assms(1)] by blast+
  have ys: "ys = concat gs" using assms(3) by (simp add: sort_fragments_def Let_def gs_def)
  have d': "d' = snd (sort_fragments frs d)" using assms(3) by simp
  have num: "frag_num d' x = int i" "d_attr d' x ''data-fragment-index'' = Some (js_show_int (int i))"
    if "i < length gs" "x \<in> set (gs ! i)" for i x
    using frag_num_group [OF assms(1,2) gs_def that] d' by simp_all
  have ex: "\<exists>i < length gs. x \<in> set (gs ! i)" if "x \<in> set frs" for x
  proof -
    have "x \<in> set (concat gs)" using that facts(2) by simp
    then obtain g where "g \<in> set gs" "x \<in> set g" by auto
    then show ?thesis by (auto simp: in_set_conv_nth [of g])
  qed
  show "sorted (map (frag_num d') ys)" unfolding ys by (rule conjunct1 [OF concat_numbers [of gs _ 0]]) (simp add: num)
  show "d_attr d' x ''data-fragment-index'' = Some (js_show_int (frag_num d' x))" if "x \<in> set frs"
    using ex [OF that] num by fastforce
  show "frag_num d' x = frag_num d' y \<longleftrightarrow> same_group d x y"
    if xy: "x \<in> set frs" "y \<in> set frs"
  proof -
    obtain i j where i: "i < length gs" "x \<in> set (gs ! i)" and j: "j < length gs" "y \<in> set (gs ! j)"
      using ex xy by blast
    have "frag_num d' x = frag_num d' y \<longleftrightarrow> i = j" using num(1) [OF i] num(1) [OF j] by simp
    also have "\<dots> \<longleftrightarrow> (\<exists>g \<in> set gs. x \<in> set g \<and> y \<in> set g)"
    proof
      assume "\<exists>g \<in> set gs. x \<in> set g \<and> y \<in> set g"
      then obtain k where "k < length gs" "x \<in> set (gs ! k)" "y \<in> set (gs ! k)" by (metis in_set_conv_nth)
      then show "i = j" using num(1) i j by (metis of_nat_eq_iff)
    qed (use i j in auto)
    finally show ?thesis using facts(4) [OF xy] by simp
  qed
  have im: "frag_num d' ` set frs = {0..<int (length gs)}"
  proof
    show "frag_num d' ` set frs \<subseteq> {0..<int (length gs)}" using ex num(1) by fastforce
    show "{0..<int (length gs)} \<subseteq> frag_num d' ` set frs"
    proof
      fix k assume k: "k \<in> {0..<int (length gs)}"
      then have "nat k < length gs" by auto
      then have "gs ! nat k \<noteq> []" using facts(3) nth_mem by metis
      then obtain x where "x \<in> set (gs ! nat k)" by (meson hd_in_set)
      then have "frag_num d' x = k" "x \<in> set frs"
        using num(1) [of "nat k" x] k \<open>nat k < length gs\<close> facts(2) by (auto dest: nth_mem)
      then show "k \<in> frag_num d' ` set frs" by blast
    qed
  qed
  then show "frag_num d' ` set frs = {0..<int (card (frag_num d' ` set frs))}" by simp
qed

section \<open>Sorting what is sorted\<close>

lemma card_image_factor:
  assumes "finite T" "\<And>y z. y \<in> T \<Longrightarrow> z \<in> T \<Longrightarrow> f y = f z \<Longrightarrow> g y = g z"
  shows "card (g ` T) \<le> card (f ` T)"
proof -
  have "g y \<in> (\<lambda>k. g (inv_into T f k)) ` f ` T" if y: "y \<in> T" for y
  proof -
    have "inv_into T f (f y) \<in> T" "f (inv_into T f (f y)) = f y"
      using y by (simp_all add: inv_into_into f_inv_into_f)
    then have "g (inv_into T f (f y)) = g y" using assms(2) y by blast
    with y show ?thesis by (metis imageI)
  qed
  then have "g ` T \<subseteq> (\<lambda>k. g (inv_into T f k)) ` f ` T" by blast
  then show ?thesis using assms(1) by (metis card_mono card_image_le finite_imageI order_trans)
qed

lemma card_image_same:
  assumes "finite T" "\<And>y z. y \<in> T \<Longrightarrow> z \<in> T \<Longrightarrow> f y = f z \<longleftrightarrow> g y = g z"
  shows "card (f ` T) = card (g ` T)"
  by (intro antisym card_image_factor) (simp_all add: assms)

lemma rank_unique:
  fixes f g :: "'a \<Rightarrow> int"
  assumes "finite S" "f ` S = {0..<m}" "g ` S = {0..<m}"
    "\<And>x y. x \<in> S \<Longrightarrow> y \<in> S \<Longrightarrow> f x \<le> f y \<longleftrightarrow> g x \<le> g y" "x \<in> S"
  shows "f x = g x"
proof -
  have val: "h x = int (card (h ` {y \<in> S. h y < h x}))" if "h ` S = {0..<m}" for h :: "'a \<Rightarrow> int"
  proof -
    have x: "0 \<le> h x" "h x < m" using that assms(5) by auto
    have "h ` {y \<in> S. h y < h x} = {0..<h x}"
    proof
      show "h ` {y \<in> S. h y < h x} \<subseteq> {0..<h x}" using that by auto
      show "{0..<h x} \<subseteq> h ` {y \<in> S. h y < h x}"
      proof
        fix k assume k: "k \<in> {0..<h x}"
        then have "k \<in> h ` S" using that x by auto
        with k show "k \<in> h ` {y \<in> S. h y < h x}" by auto
      qed
    qed
    with x show ?thesis by simp
  qed
  let ?T = "{y \<in> S. f y < f x}"
  have T: "{y \<in> S. g y < g x} = ?T" using assms(4) [OF assms(5)] by (force simp: not_le [symmetric])
  have "card (f ` ?T) = card (g ` ?T)"
  proof (rule card_image_same)
    show "f y = f z \<longleftrightarrow> g y = g z" if "y \<in> ?T" "z \<in> ?T" for y z
      using assms(4) [of y z] assms(4) [of z y] that by auto
  qed (use assms(1) in simp_all)
  then show ?thesis using val [OF assms(2)] val [OF assms(3)] by (simp only: T)
qed

text \<open>Fragments numbered \<open>0, 1, \<dots>\<close> without gaps keep their numbers.\<close>

definition numbered :: "dom \<Rightarrow> node list \<Rightarrow> int \<Rightarrow> bool" where
  "numbered d frs m \<longleftrightarrow>
     (\<forall>x \<in> set frs. d_attr d x ''data-fragment-index'' = Some (js_show_int (frag_num d x))) \<and>
     frag_num d ` set frs = {0..<m}"

lemma numbered_index:
  assumes "numbered d frs m" "m < 4294967295"
  shows "indexed_ok d frs" "x \<in> set frs \<Longrightarrow> frag_index d x = Some (frag_num d x)"
proof -
  have "frag_index d x = Some (frag_num d x)" if x: "x \<in> set frs" for x
  proof -
    have "frag_num d x \<in> {0..<m}" using x assms(1) by (auto simp: numbered_def)
    with x assms show ?thesis by (simp add: numbered_def frag_index_def array_index_def)
  qed
  then show "indexed_ok d frs" "x \<in> set frs \<Longrightarrow> frag_index d x = Some (frag_num d x)"
    by (auto simp: indexed_ok_def)
qed

lemma insort_key_cong:
  "(\<And>y. y \<in> insert x (set ys) \<Longrightarrow> f y = g y) \<Longrightarrow> insort_key f x ys = insort_key g x ys"
  by (induction ys) auto

lemma sort_key_cong':
  "(\<And>x. x \<in> set xs \<Longrightarrow> f x = g x) \<Longrightarrow> sort_key f xs = sort_key g xs"
proof (induction xs)
  case (Cons x xs)
  then have "sort_key f xs = sort_key g xs" by simp
  with Cons.prems show ?case by (auto intro!: insort_key_cong)
qed simp

lemma sorted_same_order:
  fixes f g :: "'a \<Rightarrow> int"
  assumes "sorted (map f ys)" "sorted (map g ys)"
    "\<And>x y. x \<in> set ys \<Longrightarrow> y \<in> set ys \<Longrightarrow> f x = f y \<longleftrightarrow> g x = g y" "x \<in> set ys" "y \<in> set ys"
  shows "f x \<le> f y \<longleftrightarrow> g x \<le> g y"
proof -
  obtain i j where i: "i < length ys" "ys ! i = x" and j: "j < length ys" "ys ! j = y"
    using assms(4,5) by (auto simp: in_set_conv_nth)
  have "f x \<le> f y \<and> g x \<le> g y \<or> f y \<le> f x \<and> g y \<le> g x"
  proof (cases "i \<le> j")
    case True
    then show ?thesis
      using sorted_nth_mono [OF assms(1), of i j] sorted_nth_mono [OF assms(2), of i j] i j by simp
  next
    case False
    then show ?thesis
      using sorted_nth_mono [OF assms(1), of j i] sorted_nth_mono [OF assms(2), of j i] i j by simp
  qed
  then show ?thesis using assms(3) [OF assms(4,5)] by linarith
qed

lemma sort_fragments_fix:
  assumes "numbered d frs m" "m < 4294967295" "distinct frs"
  shows "sort_fragments frs d = (sort_key (frag_num d) frs, d)"
proof -
  note ix = numbered_index [OF assms(1,2)]
  obtain ys d' where r: "sort_fragments frs d = (ys, d')" by fastforce
  note nums = sort_fragments_numbers [OF ix(1) assms(3) r]
  have ys: "ys = sort_key (frag_num d) frs"
    using sort_fragments_order [OF ix(1)] r ix(2)
    by (auto simp: frag_rank_def intro: sort_key_cong')
  have num: "frag_num d' x = frag_num d x" if x: "x \<in> set frs" for x
  proof (rule rank_unique [of "set frs"])
    have eq: "frag_num d' a = frag_num d' b \<longleftrightarrow> frag_num d a = frag_num d b" if "a \<in> set frs" "b \<in> set frs" for a b
      using nums(2) [OF that] ix(2) that by (auto simp: same_group_def)
    show "frag_num d' a \<le> frag_num d' b \<longleftrightarrow> frag_num d a \<le> frag_num d b" if "a \<in> set frs" "b \<in> set frs" for a b
      by (rule sorted_same_order [OF nums(1)]) (use that eq in \<open>simp_all add: ys\<close>)
    have "card (frag_num d' ` set frs) = card (frag_num d ` set frs)"
      by (rule card_image_same) (simp_all add: eq)
    then show "frag_num d' ` set frs = {0..<m}"
      using nums(3) assms(1) by (cases "0 \<le> m") (auto simp: numbered_def)
  qed (use x assms(1) in \<open>simp_all add: numbered_def\<close>)
  obtain f where f: "d' = d\<lparr>d_attr := f\<rparr>" using sort_fragments_dom [of frs d] r by auto
  have "d_attr d' x b = d_attr d x b" for x b
  proof (cases "x \<in> set frs \<and> b = ''data-fragment-index''")
    case True
    then show ?thesis using nums(4) num assms(1) by (auto simp: numbered_def)
  next
    case False
    then have "x \<notin> set (concat (fragment_groups d frs)) \<or> b \<noteq> ''data-fragment-index''"
      using fragment_groups_concat(2) [OF ix(1) assms(3)] by metis
    from number_groups_other [OF this, of 0 d] r show ?thesis by (auto simp: sort_fragments_def Let_def)
  qed
  then have "d_attr d' = d_attr d" by (intro ext)
  with f have "d' = d" by (cases d) simp
  with r ys show ?thesis by simp
qed

end
