(* ===== verification/Reveal_Stepping.thy ===== *)
theory Reveal_Stepping
  imports Reveal_Sorting
begin

text \<open>
  \<open>navigateFragment\<close> against its specification: going to an index makes visible exactly the fragments
  numbered up to it, and stepping moves by one group at a time.
\<close>

section \<open>What playback and controls leave alone\<close>

text \<open>
  Starting media writes attributes other than the fragments' numbers, and the controls take classes of
  their own: neither touches the state of a fragment.
\<close>

definition frag_same :: "dom \<Rightarrow> dom \<Rightarrow> bool" where
  "frag_same d d' \<longleftrightarrow> same_shape d d' \<and>
     (\<forall>c \<in> {''fragment'', ''visible'', ''current-fragment''}. \<forall>n. has_class c d' n = has_class c d n) \<and>
     (\<forall>n. d_attr d' n ''data-fragment-index'' = d_attr d n ''data-fragment-index'')"

definition frag_frame :: "reveal \<Rightarrow> reveal \<Rightarrow> bool" where
  "frag_frame s s' \<longleftrightarrow> frag_same (r_dom s) (r_dom s') \<and>
     currentSlide s' = currentSlide s \<and> r_config s' = r_config s"

named_theorems frag

lemma frag_same_refl [frag]: "frag_same d d"
  by (simp add: frag_same_def)

lemma frag_same_trans: "frag_same a b \<Longrightarrow> frag_same b c \<Longrightarrow> frag_same a c"
  by (auto simp: frag_same_def intro: same_shape_trans)

lemma frag_same_upd [frag]:
  "frag_same d x \<Longrightarrow> c \<notin> {''fragment'', ''visible'', ''current-fragment''} \<Longrightarrow> frag_same d (add_class c n x)"
  "frag_same d x \<Longrightarrow> c \<notin> {''fragment'', ''visible'', ''current-fragment''} \<Longrightarrow> frag_same d (remove_class c n x)"
  "frag_same d x \<Longrightarrow> a \<noteq> ''data-fragment-index'' \<Longrightarrow> frag_same d (set_attr a v n x)"
  "frag_same d x \<Longrightarrow> a \<noteq> ''data-fragment-index'' \<Longrightarrow> frag_same d (remove_attr a n x)"
  "frag_same d x \<Longrightarrow> frag_same d (set_text w n x)"
  by (erule frag_same_trans; auto simp: frag_same_def intro: same_shape_sym)+

lemma frag_same_fold [frag]:
  assumes "frag_same d x" "\<And>y e. frag_same d e \<Longrightarrow> frag_same d (f y e)"
  shows "frag_same d (fold f ys x)"
  using assms(1) by (induction ys arbitrary: x) (simp_all add: assms(2))

lemma frag_frame_refl [frag]: "frag_frame s s"
  by (simp add: frag_frame_def frag_same_refl)

lemma frag_frame_trans: "frag_frame s t \<Longrightarrow> frag_frame t u \<Longrightarrow> frag_frame s u"
  by (auto simp: frag_frame_def intro: frag_same_trans)

lemma frag_upd_dom [frag]:
  "frag_frame s x \<Longrightarrow> frag_same (r_dom x) (f (r_dom x)) \<Longrightarrow> frag_frame s (upd_dom f x)"
  by (auto simp: frag_frame_def upd_dom_def intro: frag_same_trans)

lemma frag_other [frag]:
  "frag_frame s x \<Longrightarrow> frag_frame s (log_effect e x)"
  "frag_frame s x \<Longrightarrow> frag_frame s (listen ev n x)"
  "frag_frame s x \<Longrightarrow> frag_frame s (unlisten ev n x)"
  by (simp_all add: frag_frame_def log_effect_def listen_def unlisten_def)

lemma frag_fold [frag]:
  assumes "frag_frame s x" "\<And>y t. frag_frame s t \<Longrightarrow> frag_frame s (f y t)"
  shows "frag_frame s (fold f ys x)"
  using assms(1) by (induction ys arbitrary: x) (simp_all add: assms(2))

lemma frag_cases [frag]:
  "(b \<Longrightarrow> frag_frame s x) \<Longrightarrow> (\<not> b \<Longrightarrow> frag_frame s y) \<Longrightarrow> frag_frame s (if b then x else y)"
  "(v = None \<Longrightarrow> frag_frame s x) \<Longrightarrow> (\<And>w. v = Some w \<Longrightarrow> frag_frame s (f w)) \<Longrightarrow>
    frag_frame s (case v of None \<Rightarrow> x | Some w \<Rightarrow> f w)"
  "(\<And>a b. v2 = (a, b) \<Longrightarrow> frag_frame s (g a b)) \<Longrightarrow> frag_frame s (case v2 of (a, b) \<Rightarrow> g a b)"
  "frag_frame s x \<Longrightarrow> (\<And>y. frag_frame s y \<Longrightarrow> frag_frame s (h y)) \<Longrightarrow> frag_frame s (Let x h)"
  by (cases v; cases v2; simp)+

lemma frag_media [frag]:
  assumes "frag_frame s x"
  shows "frag_frame s (startEmbeddedMedia n x)" "frag_frame s (startEmbeddedIframe n x)"
    "frag_frame s (start_lazy_iframe n x)" "frag_frame s (restart_gif n x)"
  unfolding startEmbeddedMedia_def startEmbeddedIframe_def start_lazy_iframe_def restart_gif_def
  by (intro frag assms; simp)+

lemma frag_media2 [frag]:
  assumes "frag_frame s x"
  shows "frag_frame s (start_media n x)" "frag_frame s (start_iframe n x)"
  unfolding start_media_def start_iframe_def
  by (intro frag assms; simp)+

lemma frag_startEmbeddedContent [frag]: "frag_frame s x \<Longrightarrow> frag_frame s (startEmbeddedContent n x)"
  unfolding startEmbeddedContent_def by (intro frag; simp)

lemma frag_controls [frag]:
  assumes "frag_same d x"
  shows "frag_same d (control_off n x)" "frag_same d (control_on n x)" "frag_same d (control_fragmented n x)"
  unfolding control_off_def control_on_def control_fragmented_def
  by (intro frag assms; simp)+

lemma frag_upd_all [frag]:
  assumes "frag_frame s x" "\<And>n d e. frag_same d e \<Longrightarrow> frag_same d (f n e)"
  shows "frag_frame s (upd_all f ns x)" "frag_frame s (upd_if b f ns x)"
  unfolding upd_if_def upd_all_def by (intro frag assms; simp)+

lemma frag_Let_other: "(\<And>y. frag_frame s (f y)) \<Longrightarrow> frag_frame s (Let x f)"
  by simp

lemma frag_updateControls [frag]: "frag_frame s x \<Longrightarrow> frag_frame s (updateControls x)"
  unfolding updateControls_def
  by (rule frag_Let_other, rule frag_Let_other, rule frag_cases(3); intro frag; simp)

lemma frag_updateProgress [frag]: "frag_frame s x \<Longrightarrow> frag_frame s (updateProgress x)"
  unfolding updateProgress_def by (intro frag)

section \<open>Going to an index\<close>

definition frag_shown :: "reveal \<Rightarrow> node \<Rightarrow> bool" where
  "frag_shown s n = has_class ''visible'' (r_dom s) n"

definition frag_current :: "reveal \<Rightarrow> node \<Rightarrow> bool" where
  "frag_current s n = has_class ''current-fragment'' (r_dom s) n"

text \<open>What stays while fragments are shown and hidden.\<close>

definition frag_fixed :: "reveal \<Rightarrow> reveal \<Rightarrow> bool" where
  "frag_fixed s s' \<longleftrightarrow> same_shape (r_dom s) (r_dom s') \<and>
     (\<forall>n. has_class ''fragment'' (r_dom s') n = has_class ''fragment'' (r_dom s) n) \<and>
     (\<forall>n. d_attr (r_dom s') n ''data-fragment-index'' = d_attr (r_dom s) n ''data-fragment-index'') \<and>
     currentSlide s' = currentSlide s \<and> r_config s' = r_config s"

lemma frag_fixed_refl: "frag_fixed s s"
  by (simp add: frag_fixed_def)

lemma frag_fixed_trans: "frag_fixed s t \<Longrightarrow> frag_fixed t u \<Longrightarrow> frag_fixed s u"
  by (auto simp: frag_fixed_def intro: same_shape_trans)

lemma frag_frame_facts:
  assumes "frag_frame s s'"
  shows "frag_fixed s s'" "frag_shown s' n = frag_shown s n" "frag_current s' n = frag_current s n"
  using assms by (simp_all add: frag_frame_def frag_same_def frag_fixed_def frag_shown_def frag_current_def)

lemma frag_upd_dom_facts:
  "c \<noteq> ''fragment'' \<Longrightarrow> frag_fixed s (upd_dom (add_class c el) s)"
  "c \<noteq> ''fragment'' \<Longrightarrow> frag_fixed s (upd_dom (remove_class c el) s)"
  by (auto simp: frag_fixed_def upd_dom_def intro: same_shape_sym)

lemma frag_upd_class [simp]:
  "frag_shown (upd_dom (add_class c el) s) n \<longleftrightarrow> (n = el \<and> c = ''visible'') \<or> frag_shown s n"
  "frag_shown (upd_dom (remove_class c el) s) n \<longleftrightarrow> frag_shown s n \<and> \<not> (n = el \<and> c = ''visible'')"
  "frag_shown (upd_dom (set_text v m) s) n \<longleftrightarrow> frag_shown s n"
  "frag_current (upd_dom (add_class c el) s) n \<longleftrightarrow> (n = el \<and> c = ''current-fragment'') \<or> frag_current s n"
  "frag_current (upd_dom (remove_class c el) s) n \<longleftrightarrow> frag_current s n \<and> \<not> (n = el \<and> c = ''current-fragment'')"
  "frag_current (upd_dom (set_text v m) s) n \<longleftrightarrow> frag_current s n"
  by (auto simp: frag_shown_def frag_current_def upd_dom_def)

lemma frag_start [simp]:
  "frag_shown (startEmbeddedContent el s) n \<longleftrightarrow> frag_shown s n"
  "frag_current (startEmbeddedContent el s) n \<longleftrightarrow> frag_current s n"
  using frag_frame_facts [OF frag_startEmbeddedContent [OF frag_frame_refl]] by blast+

lemma frag_fixed_step: "frag_fixed s (snd (snd (fragment_step index ie (shown, hidden, s))))"
proof -
  have tx: "frag_fixed s (upd_dom (set_text v m) s)" for v m s
    by (auto simp: frag_fixed_def upd_dom_def intro: same_shape_sym)
  have start: "frag_fixed s (startEmbeddedContent el s)" for el s
    by (rule frag_frame_facts(1)) (intro frag)
  show ?thesis
    by (cases ie) (auto simp: fragment_step_def Let_def
        intro!: frag_fixed_trans [OF _ tx] frag_fixed_trans [OF _ start]
          frag_fixed_trans [OF _ frag_upd_dom_facts(1)] frag_fixed_trans [OF _ frag_upd_dom_facts(2)] frag_fixed_refl)
qed

lemma fragment_step_classes:
  assumes "d_attr (r_dom s) el ''data-fragment-index'' = Some (js_show_int j)"
    "fragment_step (Num k) (i, el) (shown, hidden, s) = (shown', hidden', s')"
  shows "frag_shown s' n \<longleftrightarrow> (if n = el then j \<le> k else frag_shown s n)"
    "frag_current s' n \<longleftrightarrow> (if n = el then j = k else frag_current s n)"
    "shown' = shown @ (if j \<le> k \<and> \<not> frag_shown s el then [el] else [])"
    "hidden' = hidden @ (if k < j \<and> frag_shown s el then [el] else [])"
  using assms
  by (auto simp: fragment_step_def Let_def frag_shown_def [symmetric] split: if_splits)

lemma fragment_fold_classes:
  assumes "fold (fragment_step (Num k)) ies (shown, hidden, s) = (shown', hidden', s')"
    "distinct (map snd ies)"
    "\<And>el. el \<in> set (map snd ies) \<Longrightarrow> d_attr (r_dom s) el ''data-fragment-index'' = Some (js_show_int (f el))"
  shows "frag_fixed s s' \<and>
    (\<forall>n. frag_shown s' n \<longleftrightarrow> (if n \<in> set (map snd ies) then f n \<le> k else frag_shown s n)) \<and>
    (\<forall>n. frag_current s' n \<longleftrightarrow> (if n \<in> set (map snd ies) then f n = k else frag_current s n)) \<and>
    shown' = shown @ filter (\<lambda>n. f n \<le> k \<and> \<not> frag_shown s n) (map snd ies) \<and>
    hidden' = hidden @ filter (\<lambda>n. k < f n \<and> frag_shown s n) (map snd ies)"
  using assms
proof (induction ies arbitrary: shown hidden s)
  case Nil
  then show ?case by (simp add: frag_fixed_refl)
next
  case (Cons ie ies)
  obtain i el where ie: "ie = (i, el)" by (cases ie)
  obtain sh hi t where t: "fragment_step (Num k) (i, el) (shown, hidden, s) = (sh, hi, t)"
    by (metis prod_cases3)
  have fixed: "frag_fixed s t" using frag_fixed_step [of s "Num k" "(i, el)" shown hidden] t by simp
  have "d_attr (r_dom s) el ''data-fragment-index'' = Some (js_show_int (f el))"
    using Cons.prems(3) ie by simp
  note step = fragment_step_classes [OF this t]
  have fold: "fold (fragment_step (Num k)) ies (sh, hi, t) = (shown', hidden', s')"
    using Cons.prems(1) ie t by simp
  have dist: "distinct (map snd ies)" and el: "el \<notin> set (map snd ies)" using Cons.prems(2) ie by auto
  have attr: "d_attr (r_dom t) x ''data-fragment-index'' = Some (js_show_int (f x))" if "x \<in> set (map snd ies)" for x
    using Cons.prems(3) [of x] fixed that by (simp add: frag_fixed_def)
  note IH = Cons.IH [OF fold dist attr]
  have flt: "filter (\<lambda>n. P n \<and> Q (frag_shown t n)) (map snd ies) = filter (\<lambda>n. P n \<and> Q (frag_shown s n)) (map snd ies)" for P Q
    by (rule filter_cong [OF refl]) (use step(1) el in auto)
  show ?case
  proof (intro conjI)
    show "frag_fixed s s'" using IH fixed frag_fixed_trans by blast
    show "\<forall>n. frag_shown s' n \<longleftrightarrow> (if n \<in> set (map snd (ie # ies)) then f n \<le> k else frag_shown s n)"
      using IH step(1) el ie by auto
    show "\<forall>n. frag_current s' n \<longleftrightarrow> (if n \<in> set (map snd (ie # ies)) then f n = k else frag_current s n)"
      using IH step(2) el ie by auto
    show "shown' = shown @ filter (\<lambda>n. f n \<le> k \<and> \<not> frag_shown s n) (map snd (ie # ies))"
      using IH step(3) flt [of _ Not] ie by simp
    show "hidden' = hidden @ filter (\<lambda>n. k < f n \<and> frag_shown s n) (map snd (ie # ies))"
      using IH step(4) flt [of _ "\<lambda>b. b"] ie by simp
  qed
qed

lemma sortFragments_facts:
  assumes "sortFragments frs s = (ys, t)"
  shows "sort_fragments frs (r_dom s) = (ys, r_dom t)" "t = s\<lparr>r_dom := r_dom t\<rparr>"
    "frag_shown t n = frag_shown s n" "frag_current t n = frag_current s n"
    "fragment_sel (r_dom t) n = fragment_sel (r_dom s) n" "d_desc (r_dom t) = d_desc (r_dom s)"
    "same_shape (r_dom s) (r_dom t)" "currentSlide t = currentSlide s" "r_config t = r_config s"
proof -
  obtain d where d: "sort_fragments frs (r_dom s) = (ys, d)" "t = s\<lparr>r_dom := d\<rparr>"
    using assms by (auto simp: sortFragments_def split: prod.splits)
  obtain f where "d = (r_dom s)\<lparr>d_attr := f\<rparr>" using sort_fragments_dom [of frs "r_dom s"] d(1) by auto
  with d show "sort_fragments frs (r_dom s) = (ys, r_dom t)" "t = s\<lparr>r_dom := r_dom t\<rparr>"
    "frag_shown t n = frag_shown s n" "frag_current t n = frag_current s n"
    "fragment_sel (r_dom t) n = fragment_sel (r_dom s) n" "d_desc (r_dom t) = d_desc (r_dom s)"
    "same_shape (r_dom s) (r_dom t)" "currentSlide t = currentSlide s" "r_config t = r_config s"
    by (simp_all add: frag_shown_def frag_current_def fragment_sel_def has_class_def same_shape_def)
qed

lemma sort_fragments_set:
  "indexed_ok d frs \<Longrightarrow> sort_fragments frs d = (ys, d') \<Longrightarrow> set ys = set frs \<and> (distinct frs \<longrightarrow> distinct ys)"
  using sort_fragments_order [of d frs] by auto

definition slide_fragments :: "reveal \<Rightarrow> node \<Rightarrow> node list" where
  "slide_fragments s cur = query_all fragment_sel (r_dom s) cur"

lemma navigate_core:
  assumes "currentSlide s = Some cur" "c_fragments (r_config s)" "slide_fragments s cur \<noteq> []"
    "distinct (slide_fragments s cur)" "indexed_ok (r_dom s) (slide_fragments s cur)"
    "sortFragments (slide_fragments s cur) s = (ys, t)" "fragment_target index cur t = (j, t)"
    "(case offset of Num k \<Rightarrow> num_add j k | NaN \<Rightarrow> NaN | Undef \<Rightarrow> j) = Num k"
    "navigateFragment index offset s = (b, s')"
  shows "frag_fixed t s'"
    "frag_shown s' n \<longleftrightarrow> (if n \<in> set (slide_fragments s cur) then frag_num (r_dom t) n \<le> k else frag_shown s n)"
    "frag_current s' n \<longleftrightarrow> (if n \<in> set (slide_fragments s cur) then frag_num (r_dom t) n = k else frag_current s n)"
    "b \<longleftrightarrow> (\<exists>n \<in> set (slide_fragments s cur). frag_shown s n \<noteq> frag_shown s' n)"
proof -
  let ?F = "slide_fragments s cur"
  note srt = sortFragments_facts [OF assms(6)]
  have ys: "set ys = set ?F" "distinct ys" using sort_fragments_set [OF assms(5) srt(1)] assms(4) by auto
  then have nonempty: "ys \<noteq> []" using assms(3) by auto
  let ?ies = "zip [0..int (length ys) - 1] ys"
  have snds: "map snd ?ies = ys" by simp
  obtain shown hidden w where w: "fold (fragment_step (Num k)) ?ies ([], [], t) = (shown, hidden, w)"
    by (metis prod_cases3)
  have attr: "d_attr (r_dom t) x ''data-fragment-index'' = Some (js_show_int (frag_num (r_dom t) x))"
    if "x \<in> set (map snd ?ies)" for x
    using sort_fragments_numbers(4) [OF assms(5,4) srt(1)] that ys(1) unfolding snds by blast
  have fld: "frag_fixed t w \<and>
      (\<forall>n. frag_shown w n \<longleftrightarrow> (if n \<in> set ys then frag_num (r_dom t) n \<le> k else frag_shown t n)) \<and>
      (\<forall>n. frag_current w n \<longleftrightarrow> (if n \<in> set ys then frag_num (r_dom t) n = k else frag_current t n)) \<and>
      shown = filter (\<lambda>n. frag_num (r_dom t) n \<le> k \<and> \<not> frag_shown t n) ys \<and>
      hidden = filter (\<lambda>n. k < frag_num (r_dom t) n \<and> frag_shown t n) ys"
    using fragment_fold_classes [OF w _ attr] ys(2) unfolding snds by simp
  define v where "v = (if hidden \<noteq> [] then log_effect (Dispatch_fragments ''fragmenthidden'' hidden) w else w)"
  define u where "u = (if shown \<noteq> [] then log_effect (Dispatch_fragments ''fragmentshown'' shown) v else v)"
  have res: "b = (shown \<noteq> [] \<or> hidden \<noteq> [])" "s' = updateProgress (updateControls u)"
    using assms(9) assms(1,2,6,7,8) w nonempty
    by (auto simp: navigateFragment_def slide_fragments_def Let_def u_def v_def)
  have "frag_frame w u" unfolding u_def v_def by (intro frag)
  then have frame: "frag_frame w s'" unfolding res(2) by (intro frag)
  note same = frag_frame_facts [OF frame]
  show "frag_fixed t s'" using fld same(1) frag_fixed_trans by blast
  show shown: "frag_shown s' n \<longleftrightarrow> (if n \<in> set ?F then frag_num (r_dom t) n \<le> k else frag_shown s n)" for n
    using fld same(2) srt(3) ys(1) by simp
  show "frag_current s' n \<longleftrightarrow> (if n \<in> set ?F then frag_num (r_dom t) n = k else frag_current s n)"
    using fld same(3) srt(4) ys(1) by simp
  have diff: "frag_shown s n \<noteq> frag_shown s' n \<longleftrightarrow>
      frag_num (r_dom t) n \<le> k \<and> \<not> frag_shown s n \<or> k < frag_num (r_dom t) n \<and> frag_shown s n"
    if "n \<in> set ?F" for n using shown [of n] that by auto
  have "b \<longleftrightarrow> (\<exists>n \<in> set ys. frag_num (r_dom t) n \<le> k \<and> \<not> frag_shown s n) \<or>
      (\<exists>n \<in> set ys. k < frag_num (r_dom t) n \<and> frag_shown s n)"
    using fld res(1) by (auto simp: filter_empty_conv srt(3))
  then show "b \<longleftrightarrow> (\<exists>n \<in> set ?F. frag_shown s n \<noteq> frag_shown s' n)"
    using diff unfolding ys(1) by blast
qed

section \<open>One group at a time\<close>

text \<open>The slide's fragments are numbered, and exactly those numbered below \<open>j\<close> are visible.\<close>

definition fragments_at :: "reveal \<Rightarrow> node \<Rightarrow> int \<Rightarrow> int \<Rightarrow> bool" where
  "fragments_at s cur m j \<longleftrightarrow> currentSlide s = Some cur \<and> c_fragments (r_config s) \<and>
     distinct (slide_fragments s cur) \<and> numbered (r_dom s) (slide_fragments s cur) m \<and> 0 < m \<and> m < 4294967295 \<and>
     0 \<le> j \<and> j \<le> m \<and> (\<forall>n \<in> set (slide_fragments s cur). frag_shown s n \<longleftrightarrow> frag_num (r_dom s) n < j)"

lemma sort_last:
  fixes f :: "'a \<Rightarrow> int"
  assumes "f ` set xs = {0..<j}" "0 < j"
  shows "\<exists>y ys. rev (sort_key f xs) = y # ys \<and> y \<in> set xs \<and> f y = j - 1"
proof -
  have "xs \<noteq> []" using assms by auto
  then obtain y ys where y: "rev (sort_key f xs) = y # ys"
    by (cases "rev (sort_key f xs)") (auto dest: arg_cong [of _ _ length])
  then have s: "sort_key f xs = rev ys @ [y]" by (metis rev.simps(2) rev_rev_ident)
  then have "set xs = insert y (set ys)" by (metis Un_insert_right list.set(1) list.set(2) set_append set_rev set_sort sup_bot.right_neutral)
  moreover have "sorted (map f (rev ys @ [y]))" using s by (metis sorted_sort_key)
  ultimately have max: "\<And>x. x \<in> set xs \<Longrightarrow> f x \<le> f y" and mem: "y \<in> set xs" by (auto simp: sorted_append)
  obtain x where "x \<in> set xs" "f x = j - 1" using assms by (metis atLeastLessThan_iff diff_ge_0_iff_ge imageE int_one_le_iff_zero_less less_add_one diff_add_cancel)
  moreover have "f y < j" using mem assms(1) by auto
  ultimately have "f y = j - 1" using max by force
  with y mem show ?thesis by blast
qed

lemma fragment_target_at:
  assumes "fragments_at s cur m j"
  shows "fragment_target Undef cur s = (Num (j - 1), s)"
proof -
  let ?F = "slide_fragments s cur"
  let ?V = "query_all fragment_visible_sel (r_dom s) cur"
  let ?f = "frag_num (r_dom s)"
  have V: "?V = filter (frag_shown s) ?F"
    by (auto simp: slide_fragments_def query_all_def fragment_visible_sel_def fragment_sel_def frag_shown_def
        intro: filter_cong)
  have num: "numbered (r_dom s) ?F m" and m: "m < 4294967295" and j: "0 \<le> j" "j \<le> m"
    and shown: "\<And>n. n \<in> set ?F \<Longrightarrow> frag_shown s n \<longleftrightarrow> ?f n < j" and dist: "distinct ?F"
    using assms by (simp_all add: fragments_at_def)
  have img: "?f ` set ?V = {0..<j}"
  proof
    show "?f ` set ?V \<subseteq> {0..<j}" using num shown by (auto simp: V numbered_def)
    show "{0..<j} \<subseteq> ?f ` set ?V"
    proof
      fix k assume k: "k \<in> {0..<j}"
      then have "k \<in> ?f ` set ?F" using num j by (auto simp: numbered_def)
      with k shown show "k \<in> ?f ` set ?V" by (auto simp: V)
    qed
  qed
  have numV: "numbered (r_dom s) ?V j" using num img by (auto simp: numbered_def V)
  have srt: "sort_fragments ?V (r_dom s) = (sort_key ?f ?V, r_dom s)"
    by (rule sort_fragments_fix [OF numV]) (use j m dist in \<open>auto simp: V\<close>)
  then have s: "sortFragments ?V s = (sort_key ?f ?V, s)" by (simp add: sortFragments_def)
  show ?thesis
  proof (cases "j = 0")
    case True
    then have "?V = []" using img by auto
    with s True show ?thesis by (simp add: fragment_target_def)
  next
    case False
    then obtain y ys where y: "rev (sort_key ?f ?V) = y # ys" "y \<in> set ?V" "?f y = j - 1"
      using sort_last [OF img] j by auto
    then have a: "d_attr (r_dom s) y ''data-fragment-index'' = Some (js_show_int (j - 1))"
      using numV by (auto simp: numbered_def)
    obtain c cs where c: "js_show_int (j - 1) = c # cs"
      using parse_show_int' [of "j - 1"] by (cases "js_show_int (j - 1)") (auto simp: js_parse_int_def)
    have "js_parse_int (c # cs) = Num (j - 1)" unfolding c [symmetric] by simp
    with s y(1) a c show ?thesis by (simp add: fragment_target_def)
  qed
qed

text \<open>The slide's fragments do not change with their state.\<close>

lemma slide_fragments_fixed:
  assumes "frag_fixed s s'"
  shows "slide_fragments s' cur = slide_fragments s cur" "frag_num (r_dom s') n = frag_num (r_dom s) n"
    "numbered (r_dom s') frs m = numbered (r_dom s) frs m"
  using assms
  by (simp_all add: frag_fixed_def slide_fragments_def query_all_def fragment_sel_def frag_num_def numbered_def
      same_shape_def cong: filter_cong)

lemma navigate_at:
  assumes "fragments_at s cur m j" "j' = max 0 (min m (j + k))" "navigateFragment Undef (Num k) s = (b, s')"
  shows "fragments_at s' cur m j' \<and> (b \<longleftrightarrow> j' \<noteq> j) \<and>
    (\<forall>n \<in> set (slide_fragments s' cur). frag_current s' n \<longleftrightarrow> frag_num (r_dom s') n = j + k - 1)"
proof -
  let ?F = "slide_fragments s cur"
  let ?f = "frag_num (r_dom s)"
  have cur: "currentSlide s = Some cur" "c_fragments (r_config s)" "distinct ?F" and num: "numbered (r_dom s) ?F m"
    and m: "0 < m" "m < 4294967295" and j: "0 \<le> j" "j \<le> m"
    and shown: "\<And>n. n \<in> set ?F \<Longrightarrow> frag_shown s n \<longleftrightarrow> ?f n < j"
    using assms(1) by (simp_all add: fragments_at_def)
  have img: "?f ` set ?F = {0..<m}" using num by (simp add: numbered_def)
  then have ne: "?F \<noteq> []" using m(1) by auto
  have s: "sortFragments ?F s = (sort_key ?f ?F, s)"
    using sort_fragments_fix [OF num m(2) cur(3)] by (simp add: sortFragments_def)
  have off: "(case Num k of Num k \<Rightarrow> num_add (Num (j - 1)) k | NaN \<Rightarrow> NaN | Undef \<Rightarrow> Num (j - 1)) = Num (j - 1 + k)"
    by simp
  note core = navigate_core [OF cur(1,2) ne cur(3) numbered_index(1) [OF num m(2)] s
      fragment_target_at [OF assms(1)] off assms(3)]
  note fixed = slide_fragments_fixed [OF core(1)]
  have at: "frag_shown s' n \<longleftrightarrow> ?f n < j'" if n: "n \<in> set ?F" for n
  proof -
    have "?f n \<in> {0..<m}" using n img by blast
    then have "?f n < j' \<longleftrightarrow> ?f n \<le> j - 1 + k" unfolding assms(2) by (auto simp: less_max_iff_disj)
    with n show ?thesis using core(2) [of n] by simp
  qed
  have j': "0 \<le> j'" "j' \<le> m" using m assms(2) by auto
  have "fragments_at s' cur m j'"
    using j' cur m num at core(1) by (simp add: fragments_at_def fixed) (simp add: frag_fixed_def)
  moreover have "b \<longleftrightarrow> j' \<noteq> j"
  proof (cases "j' = j")
    case True
    then show ?thesis using core(4) at shown by auto
  next
    case False
    let ?i = "min j j'"
    have "?i \<in> ?f ` set ?F" using False j j' unfolding img by auto
    then obtain n where n: "n \<in> set ?F" "?f n = ?i" by auto
    then have "frag_shown s n \<noteq> frag_shown s' n" using at shown False by auto
    with n False show ?thesis using core(4) by auto
  qed
  moreover have "frag_current s' n \<longleftrightarrow> ?f n = j + k - 1" if "n \<in> set ?F" for n
    using core(3) [of n] that by (auto simp: algebra_simps)
  ultimately show ?thesis by (simp add: fixed)
qed

section \<open>An example\<close>

text \<open>
  A slide 0 with the fragments 2, 3 and 4; the first two are to appear together, after the third.
\<close>

definition fragments_example :: "reveal \<Rightarrow> reveal" where
  "fragments_example s = s\<lparr>currentSlide := Some 0, r_config := (r_config s)\<lparr>c_fragments := True\<rparr>,
     r_dom := \<lparr>d_nodes = [0, 2, 3, 4], d_tag = (\<lambda>_. ''p''), d_parent = (\<lambda>_. Some 0), d_kids = (\<lambda>_. []),
       d_desc = (\<lambda>n. if n = 0 then [2, 3, 4] else []), d_class = (\<lambda>_. [''fragment'']),
       d_attr = (\<lambda>n a. if a = ''data-fragment-index'' then Some (if n = 4 then ''0'' else ''1'') else None),
       d_display = (\<lambda>_. []), d_text = (\<lambda>_. [])\<rparr>\<rparr>"

lemma show_digits: "js_show_int 0 = ''0''" "js_show_int 1 = ''1''" "js_show_int 2 = ''2''"
  by code_simp+

lemma parse_digit_strings: "js_parse_int ''0'' = Num 0" "js_parse_int ''1'' = Num 1" "js_parse_int ''2'' = Num 2"
  using parse_show_int' [of 0] parse_show_int' [of 1] parse_show_int' [of 2] unfolding show_digits by simp_all

lemma fragments_example_facts:
  "slide_fragments (fragments_example s) 0 = [2, 3, 4]" "currentSlide (fragments_example s) = Some 0"
  "c_fragments (r_config (fragments_example s))" "indexed_ok (r_dom (fragments_example s)) [2, 3, 4]"
  "frag_num (r_dom (fragments_example s)) 2 = 1" "frag_num (r_dom (fragments_example s)) 3 = 1"
  "frag_num (r_dom (fragments_example s)) 4 = 0" "\<not> frag_shown (fragments_example s) n"
  "numbered (r_dom (fragments_example s)) [2, 3, 4] 2"
  by (auto simp: fragments_example_def slide_fragments_def query_all_def fragment_sel_def has_class_def
      indexed_ok_def frag_index_def frag_num_def array_index_def numbered_def parse_digit_strings show_digits
      frag_shown_def atLeastLessThan_def)

lemma fragments_example_at: "fragments_at (fragments_example s) 0 2 0"
  unfolding fragments_at_def fragments_example_facts(1)
  by (auto simp: fragments_example_facts)

section \<open>Properties\<close>

text \<open>
  C36: sorting the fragments of a slide is stable: by explicit index, those without one last, in document
  order otherwise.  It numbers them from 0 without a gap, along the result, and gives two of them the
  same number exactly when they had the same explicit index.
\<close>

theorem sortFragments_stable:
  assumes "indexed_ok (r_dom s) frs" "distinct frs" "sortFragments frs s = (ys, s')"
  shows "ys = sort_key (frag_rank (r_dom s)) frs \<and> sorted (map (frag_num (r_dom s')) ys) \<and>
    (\<exists>m. frag_num (r_dom s') ` set frs = {0..<m}) \<and>
    (\<forall>x y. {x, y} \<subseteq> set frs \<longrightarrow> frag_num (r_dom s') x = frag_num (r_dom s') y \<longleftrightarrow> same_group (r_dom s) x y)"
proof -
  note srt = sortFragments_facts(1) [OF assms(3)]
  have "ys = sort_key (frag_rank (r_dom s)) frs" using sort_fragments_order [OF assms(1)] srt by simp
  with sort_fragments_numbers [OF assms(1,2) srt] show ?thesis by blast
qed

theorem sortFragments_stable_witness:
  "\<forall>s. fst (sortFragments [2, 3, 4] (fragments_example s)) =
    sort_key (frag_rank (r_dom (fragments_example s))) [2, 3, 4]"
proof (rule allI)
  fix s
  obtain ys s' where r: "sortFragments [2, 3, 4] (fragments_example s) = (ys, s')" by fastforce
  show "fst (sortFragments [2, 3, 4] (fragments_example s)) =
    sort_key (frag_rank (r_dom (fragments_example s))) [2, 3, 4]"
    using sortFragments_stable [OF fragments_example_facts(4) _ r] r by simp
qed

text \<open>
  Sorting is done once: on fragments that have been sorted it changes neither the document nor the
  numbers, as long as there are fewer of them than array indices.
\<close>

theorem sortFragments_idempotent:
  assumes "indexed_ok (r_dom s) frs" "distinct frs" "length frs < 4294967295" "sortFragments frs s = (ys, s')"
  shows "sortFragments frs s' = (ys, s')"
proof -
  note srt = sortFragments_facts(1) [OF assms(4)]
  note nums = sort_fragments_numbers [OF assms(1,2) srt]
  let ?f = "frag_num (r_dom s')"
  let ?m = "int (card (?f ` set frs))"
  have num: "numbered (r_dom s') frs ?m" using nums(3,4) by (simp add: numbered_def)
  have "card (?f ` set frs) \<le> length frs" using card_image_le [of "set frs" ?f] card_length [of frs] by simp
  then have fix2: "sort_fragments frs (r_dom s') = (sort_key ?f frs, r_dom s')"
    using assms(3) by (intro sort_fragments_fix [OF num _ assms(2)]) linarith
  have ys: "ys = sort_key (frag_rank (r_dom s)) frs" using sort_fragments_order [OF assms(1)] srt by simp
  have "sort_key ?f frs = ys"
  proof (rule properties_for_sort_key)
    show "mset ys = mset frs" by (simp add: ys)
    show "sorted (map ?f ys)" by (rule nums(1))
    fix x assume x: "x \<in> set ys"
    let ?r = "frag_rank (r_dom s)"
    have same: "?r x = ?r y" if "?f x = ?f y" "y \<in> set frs" for y
      using nums(2) [of x y] that x by (auto simp: ys same_group_def frag_rank_def)
    have "filter (\<lambda>y. ?f x = ?f y) zs = filter (\<lambda>y. ?f x = ?f y) (filter (\<lambda>y. ?r y = ?r x) zs)"
      if "set zs = set frs" for zs
      using that same by (auto simp: conj_commute intro!: filter_cong)
    from this [of ys] this [of frs]
    show "filter (\<lambda>y. ?f x = ?f y) ys = filter (\<lambda>y. ?f x = ?f y) frs"
      by (simp add: ys sort_key_stable del: filter_filter)
  qed
  with fix2 show ?thesis by (simp add: sortFragments_def)
qed

theorem sortFragments_idempotent_witness:
  "\<forall>s. sortFragments [2, 3, 4] (snd (sortFragments [2, 3, 4] (fragments_example s))) =
    sortFragments [2, 3, 4] (fragments_example s)"
proof (rule allI)
  fix s
  obtain ys s' where r: "sortFragments [2, 3, 4] (fragments_example s) = (ys, s')" by fastforce
  show "sortFragments [2, 3, 4] (snd (sortFragments [2, 3, 4] (fragments_example s))) =
    sortFragments [2, 3, 4] (fragments_example s)"
    using sortFragments_idempotent [OF fragments_example_facts(4) _ _ r] r by simp
qed

text \<open>
  C37: going to an index of the slide's fragments makes visible exactly those numbered up to it, marks as
  current exactly those that have this number, and reports whether anything appeared or vanished.
\<close>

theorem navigateFragment_goes:
  assumes "currentSlide s = Some cur" "c_fragments (r_config s)" "slide_fragments s cur \<noteq> []"
    "distinct (slide_fragments s cur)" "indexed_ok (r_dom s) (slide_fragments s cur)"
    "navigateFragment (Num k) Undef s = (b, s')" "n \<in> set (slide_fragments s cur)"
  shows "n \<in> set (slide_fragments s' cur) \<and> (frag_shown s' n \<longleftrightarrow> frag_num (r_dom s') n \<le> k) \<and>
    (frag_current s' n \<longleftrightarrow> frag_num (r_dom s') n = k) \<and>
    (b \<longleftrightarrow> (\<exists>x \<in> set (slide_fragments s cur). frag_shown s x \<noteq> frag_shown s' x)) \<and>
    currentSlide s' = Some cur"
proof -
  obtain ys t where t: "sortFragments (slide_fragments s cur) s = (ys, t)" by fastforce
  have target: "fragment_target (Num k) cur t = (Num k, t)" by (simp add: fragment_target_def)
  have off: "(case Undef of Num i \<Rightarrow> num_add (Num k) i | NaN \<Rightarrow> NaN | Undef \<Rightarrow> Num k) = Num k" by simp
  note core = navigate_core [OF assms(1-5) t target off assms(6)]
  have "slide_fragments t cur = slide_fragments s cur"
    using sortFragments_facts(5,6) [OF t] by (simp add: slide_fragments_def query_all_def cong: filter_cong)
  then show ?thesis
    using core assms(7) slide_fragments_fixed [OF core(1)] sortFragments_facts(8) [OF t] assms(1)
    by (simp add: frag_fixed_def)
qed

theorem navigateFragment_goes_witness:
  "\<forall>s. let s' = snd (navigateFragment (Num 0) Undef (fragments_example s)) in
    (frag_shown s' 4 \<longleftrightarrow> frag_num (r_dom s') 4 \<le> 0) \<and> currentSlide s' = Some 0"
proof (rule allI)
  fix s
  obtain b s' where r: "navigateFragment (Num 0) Undef (fragments_example s) = (b, s')" by fastforce
  show "let s' = snd (navigateFragment (Num 0) Undef (fragments_example s)) in
    (frag_shown s' 4 \<longleftrightarrow> frag_num (r_dom s') 4 \<le> 0) \<and> currentSlide s' = Some 0"
    using navigateFragment_goes [of "fragments_example s" 0, OF _ _ _ _ _ r, of 4] r
    by (simp add: fragments_example_facts)
qed

text \<open>
  C35: a step moves by one group.  When exactly the fragments of the first \<open>j\<close> of \<open>m\<close> groups are visible,
  \<open>nextFragment\<close> makes it \<open>j + 1\<close> and \<open>previousFragment\<close> \<open>j - 1\<close>; they report failure exactly at the
  ends, where nothing appears or vanishes, and the slide stays.
\<close>

theorem fragment_steps:
  assumes "fragments_at s cur m j" "nextFragment s = (b, s')" "previousFragment s = (b2, s2)"
  shows "fragments_at s' cur m (min (j + 1) m) \<and> (b \<longleftrightarrow> j < m) \<and>
    fragments_at s2 cur m (max (j - 1) 0) \<and> (b2 \<longleftrightarrow> 0 < j)"
proof -
  have j: "0 \<le> j" "j \<le> m" using assms(1) by (simp_all add: fragments_at_def)
  have eq: "max 0 (min m (j + 1)) = min (j + 1) m" "max 0 (min m (j + - 1)) = max (j - 1) 0"
    using j by auto
  note up = navigate_at [OF assms(1) eq(1) [symmetric] assms(2) [unfolded nextFragment_def]]
  note dn = navigate_at [OF assms(1) eq(2) [symmetric] assms(3) [unfolded previousFragment_def]]
  have "min (j + 1) m \<noteq> j \<longleftrightarrow> j < m" "max (j - 1) 0 \<noteq> j \<longleftrightarrow> 0 < j" using j by auto
  with up dn show ?thesis by blast
qed

theorem fragment_steps_witness:
  "\<forall>s. fragments_at (snd (nextFragment (fragments_example s))) 0 2 1 \<and> fst (nextFragment (fragments_example s)) \<and>
    \<not> fst (previousFragment (fragments_example s))"
proof (rule allI)
  fix s
  obtain b s' b2 s2 where r: "nextFragment (fragments_example s) = (b, s')"
    "previousFragment (fragments_example s) = (b2, s2)" by fastforce
  show "fragments_at (snd (nextFragment (fragments_example s))) 0 2 1 \<and>
    fst (nextFragment (fragments_example s)) \<and> \<not> fst (previousFragment (fragments_example s))"
    using fragment_steps [OF fragments_example_at r] r by simp
qed

end
