(* ===== verification/Reveal_Tree.thy ===== *)
theory Reveal_Tree
  imports Reveal_State
begin

text \<open>
  Building the document: the operations of the browser by which \<open>reveal.js\<close> creates elements and puts
  them into the tree, and the invariant \<open>tree_ok\<close> they keep.  The lists of descendants, which queries
  search, are recomputed from the children after each change of the tree.
\<close>

section \<open>Descendants\<close>

fun desc_of :: "(node \<Rightarrow> node list) \<Rightarrow> nat \<Rightarrow> node \<Rightarrow> node list" where
  "desc_of kids 0 n = []"
| "desc_of kids (Suc m) n = concat (map (\<lambda>k. k # desc_of kids m k) (kids n))"

text \<open>No change puts a subtree below more nodes than twice the largest number of descendants.\<close>

definition largest :: "dom \<Rightarrow> nat" where
  "largest d = fold max (map (\<lambda>n. length (d_desc d n)) (d_nodes d)) 0"

definition relink :: "dom \<Rightarrow> dom" where
  "relink d = d\<lparr>d_desc := desc_of (d_kids d) (2 * largest d + 2)\<rparr>"

definition tree_ok :: "dom \<Rightarrow> bool" where
  "tree_ok d \<longleftrightarrow>
     (\<forall>n. n \<notin> set (d_nodes d) \<longrightarrow> d_kids d n = [] \<and> d_parent d n = None) \<and>
     (\<forall>n. distinct (d_kids d n)) \<and>
     (\<forall>n k. k \<in> set (d_kids d n) \<longleftrightarrow> d_parent d k = Some n) \<and>
     (\<forall>n. d_desc d n = concat (map (\<lambda>k. k # d_desc d k) (d_kids d n)))"

lemma tree_okD:
  assumes "tree_ok d"
  shows "n \<notin> set (d_nodes d) \<Longrightarrow> d_kids d n = []" "n \<notin> set (d_nodes d) \<Longrightarrow> d_parent d n = None"
    "distinct (d_kids d n)" "k \<in> set (d_kids d n) \<longleftrightarrow> d_parent d k = Some n"
    "d_desc d n = concat (map (\<lambda>k. k # d_desc d k) (d_kids d n))"
  using assms unfolding tree_ok_def by blast+

lemma desc_of_stable:
  assumes "\<And>n k. k \<in> set (kids n) \<Longrightarrow> (r k :: nat) < r n" "r n \<le> m" "r n \<le> m'"
  shows "desc_of kids m n = desc_of kids m' n"
  using assms(2,3)
proof (induction m arbitrary: n m')
  case 0
  then have "kids n = []" using assms(1) [of _ n] by (cases "kids n") auto
  then show ?case by (cases m') simp_all
next
  case (Suc m)
  show ?case
  proof (cases m')
    case 0
    then have "kids n = []" using Suc.prems assms(1) [of _ n] by (cases "kids n") auto
    then show ?thesis by (simp add: 0)
  next
    case (Suc l)
    have "desc_of kids m k = desc_of kids l k" if "k \<in> set (kids n)" for k
      using Suc.IH [of k l] assms(1) [OF that] Suc.prems Suc by simp
    then show ?thesis by (simp add: Suc cong: map_cong)
  qed
qed

lemma desc_of_eq:
  assumes "\<And>n k. k \<in> set (kids n) \<Longrightarrow> (r k :: nat) < r n" "r n \<le> m"
  shows "desc_of kids m n = concat (map (\<lambda>k. k # desc_of kids m k) (kids n))"
proof -
  have "desc_of kids m n = desc_of kids (Suc m) n" by (rule desc_of_stable [OF assms(1)]) (use assms in auto)
  then show ?thesis by simp
qed

text \<open>A change of children and parents, however made, gives a tree when there is a rank.\<close>

lemma relink_ok:
  assumes "\<And>n. n \<notin> set (d_nodes d) \<Longrightarrow> d_kids d n = [] \<and> d_parent d n = None" "\<And>n. distinct (d_kids d n)"
    "\<And>n k. k \<in> set (d_kids d n) \<longleftrightarrow> d_parent d k = Some n"
    "\<And>n k. k \<in> set (d_kids d n) \<Longrightarrow> (r k :: nat) < r n" "\<And>n. r n \<le> 2 * largest d + 2"
  shows "tree_ok (relink d)"
proof -
  let ?D = "desc_of (d_kids d) (2 * largest d + 2)"
  have eq: "?D n = concat (map (\<lambda>k. k # ?D k) (d_kids d n))" for n
    by (rule desc_of_eq [where r = r]) (use assms(4,5) in auto)
  have "d_kids (relink d) = d_kids d" "d_parent (relink d) = d_parent d" "d_nodes (relink d) = d_nodes d"
    "d_desc (relink d) = ?D" by (simp_all add: relink_def)
  then show ?thesis unfolding tree_ok_def using assms(1-3) eq by metis
qed

lemma fold_max_ge: "(x :: nat) \<le> a \<Longrightarrow> x \<le> fold max xs a"
  by (induction xs arbitrary: a) (simp_all add: le_max_iff_disj)

lemma fold_max_mem: "x \<in> set xs \<Longrightarrow> (x :: nat) \<le> fold max xs a"
proof (induction xs arbitrary: a)
  case (Cons y ys)
  have "y \<le> fold max ys (max y a)" by (rule fold_max_ge) simp
  with Cons show ?case by auto
qed simp

section \<open>Trees\<close>

lemma desc_largest:
  assumes "tree_ok d"
  shows "length (d_desc d n) \<le> largest d"
proof (cases "n \<in> set (d_nodes d)")
  case True
  then show ?thesis by (auto simp: largest_def intro: fold_max_mem)
next
  case False
  then show ?thesis using tree_okD(1,5) [OF assms, of n] by simp
qed

lemma desc_mem:
  assumes "tree_ok d"
  shows "x \<in> set (d_desc d n) \<longleftrightarrow> (\<exists>k \<in> set (d_kids d n). x = k \<or> x \<in> set (d_desc d k))"
proof -
  have "x \<in> set (concat (map (\<lambda>k. k # d_desc d k) ks)) \<longleftrightarrow> (\<exists>k \<in> set ks. x = k \<or> x \<in> set (d_desc d k))" for ks
    by (induction ks) auto
  then show ?thesis by (subst tree_okD(5) [OF assms, of n])
qed

lemma kid_length:
  assumes "tree_ok d" "k \<in> set (d_kids d n)"
  shows "length (d_desc d k) < length (d_desc d n)"
proof -
  obtain xs ys where "d_kids d n = xs @ k # ys" using split_list [OF assms(2)] by blast
  then show ?thesis using tree_okD(5) [OF assms(1), of n] by simp
qed

lemma desc_induct [consumes 1, case_names node]:
  assumes "tree_ok d" "\<And>n. (\<And>k. k \<in> set (d_kids d n) \<Longrightarrow> P k) \<Longrightarrow> P n"
  shows "P n"
  by (induction "length (d_desc d n)" arbitrary: n rule: less_induct)
    (use assms(2) kid_length [OF assms(1)] in blast)

lemma desc_length:
  assumes "tree_ok d" "x \<in> set (d_desc d n)"
  shows "length (d_desc d x) < length (d_desc d n)"
  using assms(2)
proof (induction n rule: desc_induct [OF assms(1)])
  case (1 n)
  then obtain k where "k \<in> set (d_kids d n)" "x = k \<or> x \<in> set (d_desc d k)" using desc_mem [OF assms(1)] by blast
  with 1(1) [of k] kid_length [OF assms(1), of k n] show ?case by (auto intro: less_trans)
qed

lemma desc_irrefl: "tree_ok d \<Longrightarrow> n \<notin> set (d_desc d n)"
  using desc_length by blast

lemma desc_up:
  assumes "tree_ok d"
  shows "x \<in> set (d_desc d n) \<longleftrightarrow> (\<exists>p. d_parent d x = Some p \<and> (p = n \<or> p \<in> set (d_desc d n)))"
proof (induction n rule: desc_induct [OF assms])
  case (1 n)
  have kid: "k \<in> set (d_kids d m) \<longleftrightarrow> d_parent d k = Some m" for k m by (rule tree_okD(4) [OF assms])
  show ?case
  proof
    assume "x \<in> set (d_desc d n)"
    then obtain k where k: "k \<in> set (d_kids d n)" "x = k \<or> x \<in> set (d_desc d k)" using desc_mem [OF assms] by blast
    then show "\<exists>p. d_parent d x = Some p \<and> (p = n \<or> p \<in> set (d_desc d n))"
    proof (cases "x = k")
      case True
      then show ?thesis using k(1) kid by simp
    next
      case False
      with k 1 [OF k(1)] obtain p where "d_parent d x = Some p" "p = k \<or> p \<in> set (d_desc d k)" by auto
      then show ?thesis using k(1) desc_mem [OF assms, of p n] by auto
    qed
  next
    assume "\<exists>p. d_parent d x = Some p \<and> (p = n \<or> p \<in> set (d_desc d n))"
    then obtain p where p: "d_parent d x = Some p" "p = n \<or> p \<in> set (d_desc d n)" by blast
    show "x \<in> set (d_desc d n)"
    proof (cases "p = n")
      case True
      then show ?thesis using p kid desc_mem [OF assms, of x n] by blast
    next
      case False
      with p obtain k where k: "k \<in> set (d_kids d n)" "p = k \<or> p \<in> set (d_desc d k)"
        using desc_mem [OF assms, of p n] by blast
      then have "x \<in> set (d_desc d k)" using 1 [OF k(1)] p(1) by blast
      then show ?thesis using k(1) desc_mem [OF assms, of x n] by blast
    qed
  qed
qed

lemma desc_trans:
  assumes "tree_ok d" "x \<in> set (d_desc d n)" "y \<in> set (d_desc d x)"
  shows "y \<in> set (d_desc d n)"
  using assms(2)
proof (induction n rule: desc_induct [OF assms(1)])
  case (1 n)
  then obtain k where "k \<in> set (d_kids d n)" "x = k \<or> x \<in> set (d_desc d k)" using desc_mem [OF assms(1)] by blast
  with 1(1) assms(3) desc_mem [OF assms(1), of y n] show ?case by blast
qed

text \<open>The subtrees of two children have no node in common.\<close>

lemma kids_apart:
  assumes "tree_ok d" "k \<in> set (d_kids d n)" "l \<in> set (d_kids d n)"
    "x = k \<or> x \<in> set (d_desc d k)" "x = l \<or> x \<in> set (d_desc d l)"
  shows "k = l"
proof -
  note up = desc_up [OF assms(1)] and kid = tree_okD(4) [OF assms(1)]
  have par: "d_parent d k = Some n" "d_parent d l = Some n" using assms(2,3) kid by auto
  have out: "n \<notin> set (d_desc d k)" "n \<noteq> k" if "d_parent d k = Some n" for k
  proof -
    have "k \<in> set (d_desc d n)" using up that by blast
    then show "n \<notin> set (d_desc d k)" "n \<noteq> k"
      using desc_length [OF assms(1), of k n] desc_length [OF assms(1), of n k] desc_irrefl [OF assms(1), of n] by auto
  qed
  have top: "m \<notin> set (d_desc d m')" if "d_parent d m = Some n" "d_parent d m' = Some n" for m m'
    using that up [of m m'] out [of m'] by auto
  show ?thesis using assms(4,5)
  proof (induction "length (d_desc d n) - length (d_desc d x)" arbitrary: x rule: less_induct)
    case less
    show ?case
    proof (cases "x = k \<or> x = l")
      case True
      then show ?thesis using less.prems top par by auto
    next
      case False
      with less.prems up obtain p where p: "d_parent d x = Some p" "p = k \<or> p \<in> set (d_desc d k)"
        "p = l \<or> p \<in> set (d_desc d l)" by (metis option.inject)
      have "x \<in> set (d_desc d p)" using p(1) up by blast
      moreover have "p \<in> set (d_desc d n)"
        using p(2) par up [of p n] desc_trans [OF assms(1), of k n p] up [of k n] by auto
      ultimately show ?thesis
        using less.hyps [of p] p desc_length [OF assms(1), of x p] desc_length [OF assms(1), of p n] by auto
    qed
  qed
qed

lemma desc_distinct:
  assumes "tree_ok d"
  shows "distinct (d_desc d n)"
proof (induction n rule: desc_induct [OF assms])
  case (1 n)
  have d: "distinct (concat (map (\<lambda>k. k # d_desc d k) ks))" if "distinct ks" "set ks \<subseteq> set (d_kids d n)" for ks
    using that
  proof (induction ks)
    case (Cons k ks)
    have "x \<noteq> l \<and> x \<notin> set (d_desc d l)" if "l \<in> set ks" "x = k \<or> x \<in> set (d_desc d k)" for x l
    proof -
      have "l \<noteq> k" using that(1) Cons.prems by auto
      moreover have "l \<in> set (d_kids d n)" "k \<in> set (d_kids d n)" using that(1) Cons.prems by auto
      ultimately show ?thesis using kids_apart [OF assms, of k n l x] that(2) by blast
    qed
    moreover have "distinct (d_desc d k)" "k \<notin> set (d_desc d k)"
      using 1 [of k] Cons.prems desc_irrefl [OF assms] by auto
    ultimately show ?case using Cons by auto
  qed simp
  show ?case using d [OF tree_okD(3) [OF assms] order_refl] tree_okD(5) [OF assms, of n] by simp
qed

text \<open>The children of a node are found, in their order, among the descendants of any node above.\<close>

lemma filter_concat_one:
  assumes "distinct ks" "k \<in> set ks" "\<And>l. l \<in> set ks \<Longrightarrow> l \<noteq> k \<Longrightarrow> f l = []"
  shows "concat (map f ks) = f k"
  using assms
proof (induction ks)
  case (Cons l ks)
  have "concat (map f ks) = []" if "l = k" using that Cons.prems by auto
  then show ?case using Cons by (cases "l = k") auto
qed simp

lemma filter_each: "concat (map (\<lambda>k. filter P [k]) ks) = filter P ks"
  by (induction ks) auto

lemma filter_kids:
  assumes "tree_ok d" "h = w \<or> h \<in> set (d_desc d w)"
  shows "filter (\<lambda>x. P x \<and> d_parent d x = Some h) (d_desc d w) = filter P (d_kids d h)"
  using assms(2)
proof (induction w rule: desc_induct [OF assms(1)])
  case (1 w)
  let ?Q = "\<lambda>x. P x \<and> d_parent d x = Some h"
  have split: "filter ?Q (d_desc d w) = concat (map (\<lambda>k. filter ?Q (k # d_desc d k)) (d_kids d w))"
    using tree_okD(5) [OF assms(1), of w] by (simp add: filter_concat comp_def)
  have kid: "k \<in> set (d_kids d w) \<longleftrightarrow> d_parent d k = Some w" for k by (rule tree_okD(4) [OF assms(1)])
  have out: "filter ?Q (d_desc d k) = []" if "h \<noteq> k" "h \<notin> set (d_desc d k)" for k
  proof -
    have "\<not> ?Q x" if "x \<in> set (d_desc d k)" for x using that desc_up [OF assms(1), of x k] \<open>h \<noteq> k\<close> \<open>h \<notin> _\<close> by auto
    then show ?thesis by (simp add: filter_empty_conv)
  qed
  show ?case
  proof (cases "h = w")
    case True
    have "filter ?Q (k # d_desc d k) = filter P [k]" if k: "k \<in> set (d_kids d w)" for k
    proof -
      have "h \<noteq> k" "h \<notin> set (d_desc d k)"
        using desc_irrefl [OF assms(1), of w] desc_mem [OF assms(1), of w w] k True by auto
      then show ?thesis using k kid True out [of k] by auto
    qed
    then have "filter ?Q (d_desc d w) = concat (map (\<lambda>k. filter P [k]) (d_kids d w))"
      unfolding split by (metis (no_types, lifting) map_cong)
    also have "\<dots> = filter P (d_kids d w)" by (simp only: filter_each)
    finally show ?thesis by (simp add: True)
  next
    case False
    with 1(2) obtain k where k: "k \<in> set (d_kids d w)" "h = k \<or> h \<in> set (d_desc d k)"
      using desc_mem [OF assms(1), of h w] by blast
    have self: "\<not> ?Q l" if "l \<in> set (d_kids d w)" for l using that kid False by auto
    have "filter ?Q (l # d_desc d l) = []" if "l \<in> set (d_kids d w)" "l \<noteq> k" for l
      using kids_apart [OF assms(1) k(1) that(1) k(2)] that self [OF that(1)] out [of l] by auto
    then have "filter ?Q (d_desc d w) = filter ?Q (k # d_desc d k)"
      unfolding split by (intro filter_concat_one k tree_okD(3) [OF assms(1)]) auto
    also have "\<dots> = filter ?Q (d_desc d k)" using self [OF k(1)] by simp
    finally show ?thesis using 1(1) [OF k(1)] k(2) by simp
  qed
qed

section \<open>Operations\<close>

text \<open>\<open>document.createElement(tag)\<close> gives a new node outside the tree.\<close>

definition fresh_node :: "dom \<Rightarrow> node" where
  "fresh_node d = Suc (fold max (d_nodes d) 0)"

definition create_element :: "string \<Rightarrow> dom \<Rightarrow> node \<times> dom" where
  "create_element tag d =
     (let n = fresh_node d in
      (n, d\<lparr>d_nodes := d_nodes d @ [n], d_tag := (d_tag d)(n := tag), d_class := (d_class d)(n := []),
            d_attr := (d_attr d)(n := \<lambda>_. None), d_display := (d_display d)(n := []),
            d_text := (d_text d)(n := [])\<rparr>))"

text \<open>\<open>parent.appendChild(n)\<close>: a node in the tree is taken from its place first.\<close>

definition detach :: "node \<Rightarrow> dom \<Rightarrow> dom" where
  "detach n d =
     (case d_parent d n of None \<Rightarrow> d
      | Some q \<Rightarrow> d\<lparr>d_kids := (d_kids d)(q := remove1 n (d_kids d q)), d_parent := (d_parent d)(n := None)\<rparr>)"

definition append_child :: "node \<Rightarrow> node \<Rightarrow> dom \<Rightarrow> dom" where
  "append_child p n d =
     (let d = detach n d
      in relink (d\<lparr>d_kids := (d_kids d)(p := d_kids d p @ [n]), d_parent := (d_parent d)(n := Some p)\<rparr>))"

text \<open>
  \<open>parent.insertBefore(n, ref)\<close>: an error when \<open>ref\<close> is no child of \<open>parent\<close>; before itself a node stays
  where it is.
\<close>

fun put_before :: "node \<Rightarrow> node \<Rightarrow> node list \<Rightarrow> node list" where
  "put_before n ref [] = []"
| "put_before n ref (k # ks) = (if k = ref then n # k # ks else k # put_before n ref ks)"

definition insert_before :: "node \<Rightarrow> node \<Rightarrow> node \<Rightarrow> dom \<Rightarrow> dom option" where
  "insert_before p n ref d =
     (if d_parent d ref \<noteq> Some p then None
      else if n = ref then Some d
      else let d = detach n d
           in Some (relink (d\<lparr>d_kids := (d_kids d)(p := put_before n ref (d_kids d p)),
                              d_parent := (d_parent d)(n := Some p)\<rparr>)))"

text \<open>\<open>parent.removeChild(n)\<close> of a child, and \<open>parent.innerHTML = ''\<close>.\<close>

definition remove_child :: "node \<Rightarrow> dom \<Rightarrow> dom" where
  "remove_child n d = relink (detach n d)"

definition clear_children :: "node \<Rightarrow> dom \<Rightarrow> dom" where
  "clear_children p d =
     relink (d\<lparr>d_kids := (d_kids d)(p := []),
               d_parent := (\<lambda>k. if d_parent d k = Some p then None else d_parent d k)\<rparr>)"

lemma relink_fields [simp]:
  "d_nodes (relink d) = d_nodes d" "d_tag (relink d) = d_tag d" "d_parent (relink d) = d_parent d"
  "d_kids (relink d) = d_kids d" "d_class (relink d) = d_class d" "d_attr (relink d) = d_attr d"
  "d_display (relink d) = d_display d" "d_text (relink d) = d_text d"
  by (simp_all add: relink_def)

lemma detach_fields [simp]:
  "d_nodes (detach n d) = d_nodes d" "d_tag (detach n d) = d_tag d" "d_class (detach n d) = d_class d"
  "d_attr (detach n d) = d_attr d" "d_desc (detach n d) = d_desc d" "d_display (detach n d) = d_display d"
  "d_text (detach n d) = d_text d" "d_parent (detach n d) = (d_parent d)(n := None)"
  by (auto simp: detach_def split: option.split)

lemma largest_cong: "d_nodes d' = d_nodes d \<Longrightarrow> d_desc d' = d_desc d \<Longrightarrow> largest d' = largest d"
  by (simp add: largest_def)

lemma detach_kids:
  assumes "tree_ok d"
  shows "d_kids (detach n d) m = filter (\<lambda>x. x \<noteq> n) (d_kids d m)"
proof -
  have "filter (\<lambda>x. x \<noteq> n) (d_kids d m) = d_kids d m" if "d_parent d n \<noteq> Some m"
    using that tree_okD(4) [OF assms, of n m] by (metis (mono_tags, lifting) filter_True)
  moreover have "remove1 n (d_kids d m) = filter (\<lambda>x. x \<noteq> n) (d_kids d m)"
    using tree_okD(3) [OF assms, of m] by (simp add: distinct_remove1_removeAll removeAll_filter_not_eq eq_commute)
  ultimately show ?thesis by (cases "d_parent d n") (auto simp: detach_def)
qed

lemma fresh_new: "fresh_node d \<notin> set (d_nodes d)"
  using fold_max_mem [of "fresh_node d" "d_nodes d" 0] by (auto simp: fresh_node_def)

text \<open>Putting a node, with its subtree, among the children of a node outside that subtree.\<close>

lemma put_ok:
  assumes ok: "tree_ok d" and in_doc: "p \<in> set (d_nodes d)" "n \<in> set (d_nodes d)" and apart: "n \<noteq> p" "p \<notin> set (d_desc d n)"
    and ks: "distinct ks" "set ks = insert n (set (d_kids d p))"
  shows "tree_ok (relink ((detach n d)\<lparr>d_kids := (d_kids (detach n d))(p := ks),
    d_parent := (d_parent (detach n d))(n := Some p)\<rparr>))" (is "tree_ok (relink ?d)")
proof -
  define r where "r a = length (d_desc d a) + (if a = p \<or> p \<in> set (d_desc d a) then length (d_desc d n) + 1 else 0)" for a
  have kids: "d_kids ?d m = (if m = p then ks else filter (\<lambda>x. x \<noteq> n) (d_kids d m))" for m
    by (simp add: detach_kids [OF ok])
  have par: "d_parent ?d m = (if m = n then Some p else d_parent d m)" for m by simp
  note kid = tree_okD(4) [OF ok]
  show ?thesis
  proof (rule relink_ok [where r = r])
    show "d_kids ?d m = [] \<and> d_parent ?d m = None" if "m \<notin> set (d_nodes ?d)" for m
      unfolding kids par using that in_doc tree_okD(1,2) [OF ok, of m] by auto
    show "distinct (d_kids ?d m)" for m unfolding kids using ks(1) tree_okD(3) [OF ok, of m] by simp
    show "k \<in> set (d_kids ?d m) \<longleftrightarrow> d_parent ?d k = Some m" for m k
      unfolding kids par using ks(2) kid by auto
    show "r k < r m" if "k \<in> set (d_kids ?d m)" for m k
    proof (cases "k = n")
      case True
      then have "m = p" using that ks(2) unfolding kids by (auto split: if_splits)
      then show ?thesis using True apart by (simp add: r_def)
    next
      case False
      then have "k \<in> set (d_kids d m)" using that ks(2) unfolding kids by (auto split: if_splits)
      moreover from this have "p \<in> set (d_desc d m)" if "k = p \<or> p \<in> set (d_desc d k)"
        using that desc_mem [OF ok, of p m] by auto
      ultimately show ?thesis using kid_length [OF ok, of k m] by (auto simp: r_def)
    qed
    show "r m \<le> 2 * largest ?d + 2" for m
      using desc_largest [OF ok, of m] desc_largest [OF ok, of n] largest_cong [of ?d d] by (simp add: r_def)
  qed
qed

lemma append_child_ok:
  assumes "tree_ok d" "p \<in> set (d_nodes d)" "n \<in> set (d_nodes d)" "n \<noteq> p" "p \<notin> set (d_desc d n)"
  shows "tree_ok (append_child p n d)"
  unfolding append_child_def Let_def
  by (rule put_ok [OF assms]) (use tree_okD(3) [OF assms(1)] in \<open>auto simp: detach_kids [OF assms(1)]\<close>)

lemma put_before_set: "ref \<in> set ks \<Longrightarrow> set (put_before n ref ks) = insert n (set ks)"
  by (induction ks) auto

lemma put_before_distinct: "distinct ks \<Longrightarrow> n \<notin> set ks \<Longrightarrow> distinct (put_before n ref ks)"
proof (induction ks)
  case (Cons k ks)
  moreover have "set (put_before n ref ks) \<subseteq> insert n (set ks)" by (induction ks) auto
  ultimately show ?case by auto
qed simp

lemma insert_before_ok:
  assumes "tree_ok d" "insert_before p n ref d = Some d'" "p \<in> set (d_nodes d)" "n \<in> set (d_nodes d)"
    "n \<noteq> p" "p \<notin> set (d_desc d n)"
  shows "tree_ok d'"
proof (cases "n = ref")
  case True
  then show ?thesis using assms(1,2) by (auto simp: insert_before_def split: if_splits)
next
  case False
  let ?ks = "d_kids (detach n d) p"
  have ref: "ref \<in> set ?ks" using assms(2) False tree_okD(4) [OF assms(1), of ref p]
    by (auto simp: insert_before_def detach_kids [OF assms(1)] split: if_splits)
  have "distinct (put_before n ref ?ks)" "set (put_before n ref ?ks) = insert n (set (d_kids d p))"
    using tree_okD(3) [OF assms(1), of p] put_before_set [OF ref, of n]
    by (auto intro!: put_before_distinct simp: detach_kids [OF assms(1)])
  from put_ok [OF assms(1,3-6) this] assms(2) False show ?thesis
    by (auto simp: insert_before_def Let_def split: if_splits)
qed

lemma create_element_ok:
  assumes "tree_ok d" "create_element tag d = (n, d')"
  shows "tree_ok d'" "n \<notin> set (d_nodes d)" "n \<in> set (d_nodes d')" "d_kids d n = []" "d_parent d n = None"
    "d_desc d n = []" "d_desc d' = d_desc d" "d_kids d' = d_kids d" "d_parent d' = d_parent d"
proof -
  have n: "n = fresh_node d" using assms(2) by (auto simp: create_element_def Let_def)
  show "n \<notin> set (d_nodes d)" by (simp add: n fresh_new)
  then show "d_kids d n = []" "d_parent d n = None" "d_desc d n = []"
    using tree_okD(1,2,5) [OF assms(1), of n] by auto
  show eq: "d_desc d' = d_desc d" "d_kids d' = d_kids d" "d_parent d' = d_parent d" "n \<in> set (d_nodes d')"
    using assms(2) by (auto simp: create_element_def Let_def)
  have "set (d_nodes d) \<subseteq> set (d_nodes d')" using assms(2) by (auto simp: create_element_def Let_def)
  then show "tree_ok d'" using assms(1) eq unfolding tree_ok_def by (metis subsetD)
qed

lemma clear_children_ok:
  assumes "tree_ok d"
  shows "tree_ok (clear_children p d)"
  unfolding clear_children_def
proof (rule relink_ok [where r = "\<lambda>a. length (d_desc d a)"])
  let ?d = "d\<lparr>d_kids := (d_kids d)(p := []), d_parent := (\<lambda>k. if d_parent d k = Some p then None else d_parent d k)\<rparr>"
  show "length (d_desc d m) \<le> 2 * largest ?d + 2" for m
    using desc_largest [OF assms, of m] largest_cong [of ?d d] by simp
qed (use tree_okD(1-4) [OF assms] kid_length [OF assms] in \<open>auto split: if_splits\<close>)

lemma remove_child_ok:
  assumes "tree_ok d"
  shows "tree_ok (remove_child n d)"
  unfolding remove_child_def
proof (rule relink_ok [where r = "\<lambda>a. length (d_desc d a)"])
  show "length (d_desc d m) \<le> 2 * largest (detach n d) + 2" for m
    using desc_largest [OF assms, of m] largest_cong [of "detach n d" d] by simp
qed (use tree_okD(1-4) [OF assms] kid_length [OF assms] in \<open>auto simp: detach_kids [OF assms]\<close>)

section \<open>What queries find after a change\<close>

text \<open>A new leaf is added to the lists of descendants, and changes nothing else in them.\<close>

lemma append_leaf_fields:
  assumes "tree_ok d" "d_parent d n = None"
  shows "d_kids (append_child p n d) m = (if m = p then d_kids d p @ [n] else d_kids d m)"
    "d_parent (append_child p n d) = (d_parent d)(n := Some p)"
  using assms(2) by (simp_all add: append_child_def detach_def)

lemma append_leaf_desc:
  assumes "tree_ok d" "p \<in> set (d_nodes d)" "n \<in> set (d_nodes d)" "n \<noteq> p"
    "d_parent d n = None" "d_kids d n = []"
  shows "filter (\<lambda>x. x \<noteq> n) (d_desc (append_child p n d) a) = d_desc d a"
    "n \<in> set (d_desc (append_child p n d) a) \<longleftrightarrow> a = p \<or> p \<in> set (d_desc d a)"
proof -
  let ?d = "append_child p n d"
  have n: "d_desc d n = []" using tree_okD(5) [OF assms(1), of n] assms(6) by simp
  have ok: "tree_ok ?d" by (rule append_child_ok) (use assms n in auto)
  note kids = append_leaf_fields [OF assms(1,5), of p]
  have gone: "filter (\<lambda>x. x \<noteq> n) (n # d_desc ?d n) = []"
    using tree_okD(5) [OF ok, of n] kids(1) [of n] assms(4,6) by simp
  have up: "n \<notin> set (d_desc d a)" for a using desc_up [OF assms(1), of n a] assms(5) by simp
  show f: "filter (\<lambda>x. x \<noteq> n) (d_desc ?d a) = d_desc d a" for a
  proof (induction a rule: desc_induct [OF assms(1)])
    case (1 a)
    have kn: "k \<noteq> n" if "k \<in> set (d_kids d a)" for k using that tree_okD(4) [OF assms(1), of n a] assms(5) by auto
    have "map (\<lambda>k. filter (\<lambda>x. x \<noteq> n) (k # d_desc ?d k)) (d_kids d a) = map (\<lambda>k. k # d_desc d k) (d_kids d a)"
      by (rule map_cong [OF refl]) (simp add: 1 kn)
    then have seg: "concat (map (\<lambda>k. filter (\<lambda>x. x \<noteq> n) (k # d_desc ?d k)) (d_kids d a)) = d_desc d a"
      using tree_okD(5) [OF assms(1), of a] by (simp only:)
    have "filter (\<lambda>x. x \<noteq> n) (d_desc ?d a) =
        concat (map (\<lambda>k. filter (\<lambda>x. x \<noteq> n) (k # d_desc ?d k)) (d_kids ?d a))"
      by (subst tree_okD(5) [OF ok, of a]) (simp add: filter_concat comp_def)
    then show ?case using seg gone kids(1) [of a] by (cases "a = p") auto
  qed
  have "p \<in> set (d_desc ?d a) \<longleftrightarrow> p \<in> set (d_desc d a)"
    using arg_cong [OF f [of a], of set] assms(4) by auto
  then show "n \<in> set (d_desc ?d a) \<longleftrightarrow> a = p \<or> p \<in> set (d_desc d a)"
    using desc_up [OF ok, of n a] kids(2) by auto
qed

text \<open>Clearing a node removes its descendants from the lists of all nodes that are not among them.\<close>

lemma clear_children_desc:
  assumes "tree_ok d"
  shows "a \<noteq> p \<Longrightarrow> a \<notin> set (d_desc d p) \<Longrightarrow>
      d_desc (clear_children p d) a = filter (\<lambda>x. x \<notin> set (d_desc d p)) (d_desc d a)"
    "d_desc (clear_children p d) p = []"
    "a \<in> set (d_desc d p) \<Longrightarrow> d_desc (clear_children p d) a = d_desc d a"
proof -
  let ?d = "clear_children p d"
  have ok: "tree_ok ?d" by (rule clear_children_ok [OF assms])
  have kids: "d_kids ?d m = (if m = p then [] else d_kids d m)" for m by (simp add: clear_children_def)
  show empty: "d_desc ?d p = []" using tree_okD(5) [OF ok, of p] kids [of p] by simp
  show "d_desc ?d a = filter (\<lambda>x. x \<notin> set (d_desc d p)) (d_desc d a)"
    if "a \<noteq> p" "a \<notin> set (d_desc d p)" for a
    using that
  proof (induction a rule: desc_induct [OF assms])
    case (1 a)
    let ?f = "filter (\<lambda>x. x \<notin> set (d_desc d p))"
    have "k # d_desc ?d k = ?f (k # d_desc d k)" if k: "k \<in> set (d_kids d a)" for k
    proof -
      have out: "k \<notin> set (d_desc d p)"
        using k 1(2,3) desc_up [OF assms, of k p] tree_okD(4) [OF assms, of k a] by auto
      show ?thesis
      proof (cases "k = p")
        case True
        then show ?thesis using empty desc_irrefl [OF assms, of p] by (simp add: filter_empty_conv)
      next
        case False
        then show ?thesis using 1(1) [OF k False out] out by simp
      qed
    qed
    then have seg: "map (\<lambda>k. k # d_desc ?d k) (d_kids d a) = map (\<lambda>k. ?f (k # d_desc d k)) (d_kids d a)"
      by (intro map_cong refl)
    have "d_desc ?d a = concat (map (\<lambda>k. ?f (k # d_desc d k)) (d_kids d a))"
      using tree_okD(5) [OF ok, of a] kids [of a] 1(2) by (simp only: seg if_False)
    also have "\<dots> = ?f (d_desc d a)"
      using arg_cong [OF tree_okD(5) [OF assms, of a], of ?f] by (simp only: filter_concat map_map comp_def)
    finally show ?case .
  qed
  show "d_desc ?d a = d_desc d a" if "a \<in> set (d_desc d p)" for a
    using that
  proof (induction a rule: desc_induct [OF assms])
    case (1 a)
    have "a \<noteq> p" using 1(2) desc_irrefl [OF assms] by auto
    have "k # d_desc ?d k = k # d_desc d k" if "k \<in> set (d_kids d a)" for k
      using 1(1) [OF that] desc_trans [OF assms 1(2), of k] that desc_mem [OF assms, of k a] by auto
    then have seg: "map (\<lambda>k. k # d_desc ?d k) (d_kids d a) = map (\<lambda>k. k # d_desc d k) (d_kids d a)"
      by (intro map_cong refl)
    have "d_desc ?d a = concat (map (\<lambda>k. k # d_desc d k) (d_kids d a))"
      using tree_okD(5) [OF ok, of a] kids [of a] \<open>a \<noteq> p\<close> by (simp only: seg if_False)
    also have "\<dots> = d_desc d a" by (rule tree_okD(5) [OF assms, of a, symmetric])
    finally show ?case .
  qed
qed

end
