(* ===== verification/Js_Number.thy ===== *)
theory Js_Number
  imports Complex_Main Js_Value
begin

text \<open>
  Numbers that are divided: exact rationals with the infinities and NaN, as JavaScript combines them.
  Rounding and the sign of zero are left out.
\<close>

datatype xnum = Nan | Minf | Fin rat | Pinf

fun x_inf :: "rat \<Rightarrow> xnum" where
  "x_inf r = (if r = 0 then Nan else if 0 < r then Pinf else Minf)"

fun x_neg :: "xnum \<Rightarrow> xnum" where
  "x_neg Nan = Nan"
| "x_neg Minf = Pinf"
| "x_neg Pinf = Minf"
| "x_neg (Fin a) = Fin (- a)"

fun x_add :: "xnum \<Rightarrow> xnum \<Rightarrow> xnum" where
  "x_add (Fin a) (Fin b) = Fin (a + b)"
| "x_add Nan _ = Nan"
| "x_add _ Nan = Nan"
| "x_add (Fin a) y = y"
| "x_add x (Fin b) = x"
| "x_add x y = (if x = y then x else Nan)"

definition x_sub :: "xnum \<Rightarrow> xnum \<Rightarrow> xnum" where
  "x_sub x y = x_add x (x_neg y)"

fun x_mul :: "xnum \<Rightarrow> xnum \<Rightarrow> xnum" where
  "x_mul (Fin a) (Fin b) = Fin (a * b)"
| "x_mul Nan _ = Nan"
| "x_mul _ Nan = Nan"
| "x_mul (Fin a) Pinf = x_inf a"
| "x_mul (Fin a) Minf = x_inf (- a)"
| "x_mul Pinf (Fin b) = x_inf b"
| "x_mul Minf (Fin b) = x_inf (- b)"
| "x_mul x y = (if x = y then Pinf else Minf)"

fun x_div :: "xnum \<Rightarrow> xnum \<Rightarrow> xnum" where
  "x_div (Fin a) (Fin b) = (if b = 0 then x_inf a else Fin (a / b))"
| "x_div Nan _ = Nan"
| "x_div _ Nan = Nan"
| "x_div (Fin a) _ = Fin 0"
| "x_div Pinf (Fin b) = (if b < 0 then Minf else Pinf)"
| "x_div Minf (Fin b) = (if b < 0 then Pinf else Minf)"
| "x_div _ _ = Nan"

fun x_less :: "xnum \<Rightarrow> xnum \<Rightarrow> bool" where
  "x_less (Fin a) (Fin b) \<longleftrightarrow> a < b"
| "x_less Minf (Fin b) \<longleftrightarrow> True"
| "x_less Minf Pinf \<longleftrightarrow> True"
| "x_less (Fin a) Pinf \<longleftrightarrow> True"
| "x_less _ _ \<longleftrightarrow> False"

definition x_min :: "xnum \<Rightarrow> xnum \<Rightarrow> xnum" where
  "x_min x y = (if x = Nan \<or> y = Nan then Nan else if x_less y x then y else x)"

definition x_max :: "xnum \<Rightarrow> xnum \<Rightarrow> xnum" where
  "x_max x y = (if x = Nan \<or> y = Nan then Nan else if x_less x y then y else x)"

lemma x_min_Fin [simp]: "x_min (Fin a) (Fin b) = Fin (min a b)"
  by (simp add: x_min_def)

lemma x_max_Fin [simp]: "x_max (Fin a) (Fin b) = Fin (max a b)"
  by (simp add: x_max_def)

lemma x_sub_Fin [simp]: "x_sub (Fin a) (Fin b) = Fin (a - b)"
  by (simp add: x_sub_def)

text \<open>Clamping gives a number within its bounds, or NaN.\<close>

lemma x_clamp:
  assumes "a \<le> b"
  shows "x_min (x_max x (Fin a)) (Fin b) = (case x of Nan \<Rightarrow> Nan | Minf \<Rightarrow> Fin a | Pinf \<Rightarrow> Fin b
    | Fin r \<Rightarrow> Fin (min (max r a) b))"
  using assms by (cases x) (simp_all add: x_min_def x_max_def)

text \<open>A whole number, \<open>undefined\<close> or NaN; and the number a text stands for in a calculation: an optional
  sign, digits, and a fraction.\<close>

fun x_of :: "jsnum \<Rightarrow> xnum" where
  "x_of (Num n) = Fin (of_int n)"
| "x_of _ = Nan"

definition unsigned_of_text :: "string \<Rightarrow> xnum" where
  "unsigned_of_text s =
     (let ds = takeWhile is_digit s; rest = dropWhile is_digit s in
      case rest of
        [] \<Rightarrow> Fin (of_int (parse_digits 0 ds))
      | c # es \<Rightarrow>
          if c = CHR ''.'' \<and> list_all is_digit es \<and> (ds \<noteq> [] \<or> es \<noteq> [])
          then Fin (of_int (parse_digits 0 ds) + of_int (parse_digits 0 es) / 10 ^ length es) else Nan)"

definition x_of_text :: "string \<Rightarrow> xnum" where
  "x_of_text s =
     (case rev (dropWhile is_blank (rev (dropWhile is_blank s))) of
        [] \<Rightarrow> Fin 0
      | [c] \<Rightarrow> unsigned_of_text [c]
      | c # cs \<Rightarrow> if c = CHR ''-'' then x_neg (unsigned_of_text cs)
                 else if c = CHR ''+'' then unsigned_of_text cs else unsigned_of_text (c # cs))"

end
