(* ===== verification/Reveal_Page.thy ===== *)
theory Reveal_Page
  imports Reveal_Tree Js_Number
begin

text \<open>
  The page around a presentation: the rest of the configuration, the features of the browser, styles
  and listeners of elements, what the module keeps of its layout, and callbacks that touch the page
  alone.  The presentation of \<open>Reveal_State\<close> is one field of it.
\<close>

section \<open>Configuration\<close>

text \<open>The size of a slide is a number of pixels or a string such as a percentage.\<close>

datatype size = Pixels rat | Text string

text \<open>
  \<open>c_notesLayout\<close> is \<open>showNotes\<close> when it is a string; \<open>c_pdfMaxPages\<close> is \<open>None\<close> for infinity; the
  parallax steps are \<open>None\<close> when they are no numbers.
\<close>

record view_config =
  c_width :: size
  c_height :: size
  c_margin :: rat
  c_minScale :: rat
  c_maxScale :: rat
  c_controls :: bool
  c_controlsLayout :: string
  c_controlsBackArrows :: string
  c_showSlideNumber :: string
  c_keyboard :: bool
  c_center :: bool
  c_touch :: bool
  c_shuffle :: bool
  c_help :: bool
  c_notesLayout :: "string option"
  c_mouseWheel :: bool
  c_rollingLinks :: bool
  c_hideAddressBar :: bool
  c_previewLinks :: bool
  c_postMessage :: bool
  c_postMessageEvents :: bool
  c_focusBody :: bool
  c_transition :: string
  c_transitionSpeed :: string
  c_backgroundTransition :: string
  c_parallaxImage :: string
  c_parallaxSize :: string
  c_parallaxHorizontal :: "rat option"
  c_parallaxVertical :: "rat option"
  c_pdfMaxPages :: "int option"
  c_pdfOffset :: int

section \<open>The page\<close>

text \<open>
  The values of styles that the code writes: text, a number of pixels, a plain number, the transforms
  of the slides (the scale of the layout, and whether the overview has one of its own), and a position.
\<close>

datatype css = Css string | Px xnum | Plain xnum | Transforms "xnum option" bool | Position xnum xnum

text \<open>Whom a listener is registered with, its event, and the function it calls.\<close>

datatype target = Window | Document | Element node

type_synonym listener = "target \<times> string \<times> string"

text \<open>Callbacks of \<open>setTimeout\<close> that change the page, and calls of the browser's functions.\<close>

datatype page_timer = Timer_parallax | Timer_ready | Timer_overlay_visible | Timer_scroll

datatype page_call =
  Html node string
| Style_sheet string
| Frame_request
| Parent_message string
| Load_scripts "string list"
| Scroll_to int int
| Prevented
| Draw string

record browser =
  b_userAgent :: string
  b_styles :: "string list"
  b_canvas :: bool
  b_animationFrame :: bool
  b_pointerEnabled :: bool
  b_msPointerEnabled :: bool
  b_document :: "string list"
  b_inFrame :: bool
  b_complete :: bool
  b_search :: string
  b_offsetWidth :: "node \<Rightarrow> int"
  b_offsetHeight :: "node \<Rightarrow> int"
  b_scrollHeight :: "node \<Rightarrow> int"
  b_naturalSize :: "node \<Rightarrow> xnum \<times> xnum"
  b_backgroundColor :: "node \<Rightarrow> string"

record page =
  p_reveal :: reveal
  p_view :: view_config
  p_browser :: browser
  p_style :: "node \<Rightarrow> string \<Rightarrow> css"
  p_listeners :: "listener list"
  p_initialized :: bool
  p_loaded :: bool
  p_transforms2d :: bool
  p_zoom :: bool
  p_canvas :: bool
  p_requestAnimationFrame :: bool
  p_isChrome :: bool
  p_scroll :: "int \<times> int"
  p_scale :: xnum
  p_layoutTransform :: "xnum option"
  p_overviewTransform :: bool
  p_controls :: node
  p_progress :: "node option"
  p_overlay :: "node option"
  p_player :: "node option"
  p_shortcuts :: "(string \<times> string) list"
  p_timers :: "page_timer list"
  p_calls :: "page_call list"

definition on_reveal :: "(reveal \<Rightarrow> reveal) \<Rightarrow> page \<Rightarrow> page" where
  "on_reveal f p = p\<lparr>p_reveal := f (p_reveal p)\<rparr>"

definition on_dom :: "(dom \<Rightarrow> dom) \<Rightarrow> page \<Rightarrow> page" where
  "on_dom f p = on_reveal (upd_dom f) p"

definition page_dom :: "page \<Rightarrow> dom" where
  "page_dom p = r_dom (p_reveal p)"

definition set_style :: "string \<Rightarrow> css \<Rightarrow> node \<Rightarrow> page \<Rightarrow> page" where
  "set_style a v n p = p\<lparr>p_style := (p_style p)(n := (p_style p n)(a := v))\<rparr>"

definition call_page :: "page_call \<Rightarrow> page \<Rightarrow> page" where
  "call_page c p = p\<lparr>p_calls := p_calls p @ [c]\<rparr>"

definition later :: "page_timer \<Rightarrow> page \<Rightarrow> page" where
  "later t p = p\<lparr>p_timers := p_timers p @ [t]\<rparr>"

definition new_element :: "string \<Rightarrow> string list \<Rightarrow> page \<Rightarrow> node \<times> page" where
  "new_element tag classes p = (let (n, d) = create_element tag (page_dom p)
     in (n, on_dom (\<lambda>_. d\<lparr>d_class := (d_class d)(n := classes)\<rparr>) p))"

text \<open>\<open>addEventListener\<close> adds a listener once; \<open>removeEventListener\<close> of an unknown one does nothing.\<close>

definition addEventListener :: "target \<Rightarrow> string \<Rightarrow> string \<Rightarrow> page \<Rightarrow> page" where
  "addEventListener t ev f p =
     (if (t, ev, f) \<in> set (p_listeners p) then p else p\<lparr>p_listeners := p_listeners p @ [(t, ev, f)]\<rparr>)"

definition removeEventListener :: "target \<Rightarrow> string \<Rightarrow> string \<Rightarrow> page \<Rightarrow> page" where
  "removeEventListener t ev f p = p\<lparr>p_listeners := removeAll (t, ev, f) (p_listeners p)\<rparr>"

text \<open>\<open>x\<close> is a value that counts as true: a string that is there and not empty.\<close>

definition truthy :: "string option \<Rightarrow> bool" where
  "truthy x \<longleftrightarrow> x \<noteq> None \<and> x \<noteq> Some []"

section \<open>What the operations of the page leave alone\<close>

lemma page_dom_simps [simp]:
  "page_dom (on_dom f p) = f (page_dom p)" "page_dom (set_style a v n p) = page_dom p"
  "page_dom (call_page c p) = page_dom p" "page_dom (later t p) = page_dom p"
  "page_dom (addEventListener t' ev g p) = page_dom p" "page_dom (removeEventListener t' ev g p) = page_dom p"
  by (simp_all add: page_dom_def on_dom_def on_reveal_def upd_dom_def set_style_def call_page_def later_def
      addEventListener_def removeEventListener_def)

lemma p_reveal_simps [simp]:
  "p_reveal (on_reveal h p) = h (p_reveal p)" "p_reveal (on_dom f p) = upd_dom f (p_reveal p)"
  "p_reveal (set_style a v n p) = p_reveal p" "p_reveal (call_page c p) = p_reveal p"
  "p_reveal (later t p) = p_reveal p" "p_reveal (addEventListener t' ev g p) = p_reveal p"
  "p_reveal (removeEventListener t' ev g p) = p_reveal p"
  by (simp_all add: on_dom_def on_reveal_def set_style_def call_page_def later_def
      addEventListener_def removeEventListener_def)

end
