(* ===== verification/Reveal_Built.thy ===== *)
theory Reveal_Built
  imports Reveal_Page Reveal_Events
begin

text \<open>
  Changes of the document that leave the deck as it is: elements may come and go outside the slides.
  Each primitive change is such a change, and what the presentation's invariant says survives them.
\<close>

section \<open>The same deck\<close>

definition sections_of :: "dom \<Rightarrow> node \<Rightarrow> node list" where
  "sections_of d n = filter (is_section d) (d_desc d n)"

definition deck_node :: "dom \<Rightarrow> node \<Rightarrow> node \<Rightarrow> bool" where
  "deck_node d w m \<longleftrightarrow> m \<in> set (sections_of d w) \<or> (\<exists>n \<in> set (sections_of d w). d_parent d n = Some m)"

definition deck_same :: "node \<Rightarrow> node \<Rightarrow> dom \<Rightarrow> dom \<Rightarrow> bool" where
  "deck_same w r d d' \<longleftrightarrow> sections_of d' w = sections_of d w \<and>
     (\<forall>n \<in> set (sections_of d w). d_parent d' n = d_parent d n \<and> sections_of d' n = sections_of d n) \<and>
     (\<forall>m. deck_node d w m \<longrightarrow> is_section d' m = is_section d m \<and>
        (\<forall>c \<in> {''slides'', ''present''}. has_class c d' m = has_class c d m)) \<and>
     is_section d' r = is_section d r \<and>
     (\<forall>n a. a \<in> stack_attrs \<longrightarrow> index_attr (d_attr d n a) \<longrightarrow> index_attr (d_attr d' n a))"

lemma deck_sameD:
  assumes "deck_same w r d d'"
  shows "sections_of d' w = sections_of d w" "is_section d' r = is_section d r"
    "n \<in> set (sections_of d w) \<Longrightarrow> d_parent d' n = d_parent d n"
    "n \<in> set (sections_of d w) \<Longrightarrow> sections_of d' n = sections_of d n"
    "deck_node d w m \<Longrightarrow> is_section d' m = is_section d m"
    "deck_node d w m \<Longrightarrow> has_class ''slides'' d' m = has_class ''slides'' d m"
    "deck_node d w m \<Longrightarrow> has_class ''present'' d' m = has_class ''present'' d m"
    "a \<in> stack_attrs \<Longrightarrow> index_attr (d_attr d k a) \<Longrightarrow> index_attr (d_attr d' k a)"
  using assms unfolding deck_same_def by auto

lemma deck_same_refl [simp]: "deck_same w r d d"
  by (simp add: deck_same_def)

lemma deck_node_same: "deck_same w r d d' \<Longrightarrow> deck_node d' w m = deck_node d w m"
  unfolding deck_node_def using deck_sameD(1,3) [of w r d d'] by auto

lemma deck_same_trans:
  assumes "deck_same w r d e" "deck_same w r e f"
  shows "deck_same w r d f"
  unfolding deck_same_def
  using deck_sameD [OF assms(1)] deck_sameD [OF assms(2)] deck_node_same [OF assms(1)] by auto

section \<open>Changes that keep it\<close>

text \<open>Updates that write no class a selector of slides rests on, or at least neither of the two above.\<close>

definition keep_keys :: keep where
  "keep_keys c n \<longleftrightarrow> c \<in> key_classes"

definition keep_deck :: keep where
  "keep_deck c n \<longleftrightarrow> c \<in> {''slides'', ''present''}"

lemma keep_other [simp]: "c \<notin> key_classes \<Longrightarrow> \<not> keep_keys c n" "c \<notin> {''slides'', ''present''} \<Longrightarrow> \<not> keep_deck c n"
  by (simp_all add: keep_keys_def keep_deck_def)

lemma keep_keys_deck: "dom_keep keep_keys d d' \<Longrightarrow> dom_keep keep_deck d d'"
  by (auto simp: dom_keep_def keep_keys_def keep_deck_def)

lemma deck_same_keep:
  assumes "dom_keep keep_deck d d'"
  shows "deck_same w r d d'"
proof -
  have "same_shape d d'" using assms by (simp add: dom_keep_def)
  then have "is_section d' = is_section d" "d_desc d' = d_desc d" "d_parent d' = d_parent d"
    by (auto simp: same_shape_def is_section_def)
  then show ?thesis using assms by (simp add: deck_same_def sections_of_def dom_keep_def keep_deck_def)
qed

lemma tree_ok_shape: "same_shape d d' \<Longrightarrow> tree_ok d' = tree_ok d"
  by (simp add: same_shape_def tree_ok_def)

lemma desc_nodes:
  assumes "tree_ok d" "x \<in> set (d_desc d n)"
  shows "x \<in> set (d_nodes d)"
proof (rule ccontr)
  assume "x \<notin> set (d_nodes d)"
  then show False using tree_okD(2) [OF assms(1), of x] desc_up [OF assms(1), of x n] assms(2) by simp
qed

lemma parent_nodes:
  assumes "tree_ok d" "d_parent d n = Some p"
  shows "p \<in> set (d_nodes d)" "n \<in> set (d_nodes d)"
  using tree_okD(1) [OF assms(1), of p] tree_okD(2) [OF assms(1), of n] tree_okD(4) [OF assms(1), of n p] assms(2)
  by (cases "p \<in> set (d_nodes d)"; cases "n \<in> set (d_nodes d)"; simp)+

lemma deck_node_nodes: "tree_ok d \<Longrightarrow> deck_node d w m \<Longrightarrow> m \<in> set (d_nodes d)"
  by (auto simp: deck_node_def sections_of_def dest: desc_nodes parent_nodes)

lemma deck_same_create:
  assumes "tree_ok d" "create_element tag d = (n, d')" "n \<noteq> r" "r \<in> set (d_nodes d)"
  shows "deck_same w r d (d'\<lparr>d_class := (d_class d')(n := cs)\<rparr>)"
proof -
  note c = create_element_ok [OF assms(1,2)]
  let ?d = "d'\<lparr>d_class := (d_class d')(n := cs)\<rparr>"
  have sec: "is_section ?d m = is_section d m" "has_class k ?d m = has_class k d m" if "m \<in> set (d_nodes d)" for m k
  proof -
    have "m \<noteq> n" using that c(2) by blast
    then show "is_section ?d m = is_section d m" "has_class k ?d m = has_class k d m"
      using assms(2) by (auto simp: create_element_def Let_def is_section_def has_class_def)
  qed
  have "filter (is_section ?d) (d_desc d m) = filter (is_section d) (d_desc d m)" for m
    by (rule filter_cong [OF refl]) (use sec(1) desc_nodes [OF assms(1)] in blast)
  then have sections: "sections_of ?d m = sections_of d m" for m using c(7) by (simp add: sections_of_def)
  moreover have "index_attr (d_attr ?d m a)" if "index_attr (d_attr d m a)" for m a
    using that assms(2) by (auto simp: create_element_def Let_def)
  moreover have "is_section ?d r = is_section d r" by (rule sec(1) [OF assms(4)])
  ultimately show ?thesis
    using sec deck_node_nodes [OF assms(1)] c(9) by (simp add: deck_same_def)
qed

lemma deck_same_append:
  assumes "tree_ok d" "p \<in> set (d_nodes d)" "n \<in> set (d_nodes d)" "n \<noteq> p" "d_parent d n = None"
    "d_kids d n = []" "\<not> is_section d n"
  shows "deck_same w r d (append_child p n d)"
proof -
  let ?d = "append_child p n d"
  have sec: "is_section ?d = is_section d" "has_class c ?d = has_class c d" "d_attr ?d = d_attr d" for c
    by (auto simp: append_child_def is_section_def has_class_def Let_def fun_eq_iff)
  have sections: "sections_of ?d a = sections_of d a" for a
  proof -
    have "sections_of ?d a = filter (is_section d) (filter (\<lambda>x. x \<noteq> n) (d_desc ?d a))"
      using assms(7) by (auto simp: sections_of_def sec intro: filter_cong)
    then show ?thesis by (simp only: append_leaf_desc(1) [OF assms(1-6)] sections_of_def)
  qed
  have "d_parent ?d m = d_parent d m" if "m \<in> set (sections_of d w)" for m
    using that append_leaf_fields(2) [OF assms(1,5), of p] assms(7) by (auto simp: sections_of_def)
  with sections show ?thesis by (simp add: deck_same_def sec)
qed

lemma deck_same_clear:
  assumes "tree_ok d" "\<And>x. x \<in> set (d_desc d b) \<Longrightarrow> \<not> is_section d x" "\<not> is_section d b" "w \<notin> set (d_desc d b)"
  shows "deck_same w r d (clear_children b d)"
proof -
  let ?d = "clear_children b d"
  have sec: "is_section ?d = is_section d" "has_class c ?d = has_class c d" "d_attr ?d = d_attr d" for c
    by (auto simp: clear_children_def is_section_def has_class_def fun_eq_iff)
  have none: "sections_of d b = []" using assms(2) by (simp add: sections_of_def filter_empty_conv)
  have sections: "sections_of ?d a = sections_of d a" if "a \<notin> set (d_desc d b)" for a
  proof (cases "a = b")
    case True
    then show ?thesis using none clear_children_desc(2) [OF assms(1), of b] by (simp add: sections_of_def sec)
  next
    case False
    have "filter (\<lambda>x. is_section d x \<and> x \<notin> set (d_desc d b)) (d_desc d a) = filter (is_section d) (d_desc d a)"
      using assms(2) by (intro filter_cong) auto
    then show ?thesis
      unfolding sections_of_def sec clear_children_desc(1) [OF assms(1) False that] filter_filter
      by (simp add: conj_commute)
  qed
  have "d_parent ?d m = d_parent d m" if m: "is_section d m" for m
  proof -
    have "m \<notin> set (d_desc d b)" using m assms(2) by blast
    then have "d_parent d m \<noteq> Some b" using desc_up [OF assms(1), of m b] by auto
    then show ?thesis by (simp add: clear_children_def)
  qed
  with sections assms(2,4) show ?thesis by (auto simp: deck_same_def sec sections_of_def)
qed

section \<open>What survives\<close>

lemma sections_in_of: "sections_in s n = sections_of (r_dom s) n"
  by (simp add: sections_in_def sections_of_def query_all_def)

lemma horizontal_of: "horizontalSlides s = filter (parent_has_class ''slides'' (r_dom s)) (sections_of (r_dom s) (r_wrapper s))"
  unfolding horizontalSlides_def query_all_def sections_of_def filter_filter
  by (rule filter_cong) (auto simp: horizontal_sel_def)

text \<open>The state around the document.\<close>

definition around :: "reveal \<Rightarrow> reveal \<Rightarrow> bool" where
  "around s s' \<longleftrightarrow> r_wrapper s' = r_wrapper s \<and> r_root s' = r_root s \<and> r_background s' = r_background s \<and>
     r_slides s' = r_slides s \<and> r_printing s' = r_printing s \<and> indexh s' = indexh s \<and> indexv s' = indexv s \<and>
     currentSlide s' = currentSlide s \<and> overview s' = overview s \<and> timer_frame s s'"

definition rebuilt :: "reveal \<Rightarrow> reveal \<Rightarrow> bool" where
  "rebuilt s s' \<longleftrightarrow> deck_same (r_wrapper s) (r_root s) (r_dom s) (r_dom s') \<and> around s s'"

lemma around_refl [simp]: "around s s"
  by (simp add: around_def timer_frame_def)

lemma around_trans: "around s t \<Longrightarrow> around t u \<Longrightarrow> around s u"
  by (simp add: around_def timer_frame_def)

lemma rebuilt_refl [simp]: "rebuilt s s"
  by (simp add: rebuilt_def)

lemma rebuilt_trans: "rebuilt s t \<Longrightarrow> rebuilt t u \<Longrightarrow> rebuilt s u"
  unfolding rebuilt_def by (auto intro: deck_same_trans around_trans) (auto simp: around_def intro: deck_same_trans)

lemma rebuilt_slides:
  assumes "rebuilt s s'"
  shows "horizontalSlides s' = horizontalSlides s"
    "h \<in> set (horizontalSlides s) \<Longrightarrow> sections_in s' h = sections_in s h"
proof -
  have d: "deck_same (r_wrapper s) (r_root s) (r_dom s) (r_dom s')" and w: "r_wrapper s' = r_wrapper s"
    using assms by (auto simp: rebuilt_def around_def)
  note D = deck_sameD [OF d]
  have "parent_has_class ''slides'' (r_dom s') n = parent_has_class ''slides'' (r_dom s) n"
    if "n \<in> set (sections_of (r_dom s) (r_wrapper s))" for n
    using that D(3) [OF that] D(6) by (auto simp: parent_has_class_def deck_node_def split: option.splits)
  then show "horizontalSlides s' = horizontalSlides s"
    unfolding horizontal_of w D(1) by (rule filter_cong [OF refl])
  show "sections_in s' h = sections_in s h" if "h \<in> set (horizontalSlides s)"
    using that D(4) [of h] by (simp add: sections_in_of horizontal_of)
qed

lemma rebuilt_deck:
  assumes "rebuilt s s'" "deck_ok s" "tree_ok (r_dom s')"
    "\<And>b. b \<in> set (d_kids (r_dom s') (r_background s)) \<Longrightarrow> background_ok (r_dom s') b"
  shows "deck_ok s'"
proof -
  have same: "deck_same (r_wrapper s) (r_root s) (r_dom s) (r_dom s')" and f: "around s s'"
    using assms(1) by (auto simp: rebuilt_def)
  note D = deck_sameD [OF same] and d = deck_okD [OF assms(2)]
  let ?w = "r_wrapper s" and ?S = "sections_of (r_dom s) (r_wrapper s)"
  have S: "set ?S = {n \<in> set (d_desc (r_dom s) ?w). is_section (r_dom s) n}"
    "set ?S = {n \<in> set (d_desc (r_dom s') ?w). is_section (r_dom s') n}"
    using arg_cong [OF D(1), of set] by (auto simp: sections_of_def)
  have node: "deck_node (r_dom s) ?w n" if "n \<in> set ?S" for n using that by (simp add: deck_node_def)
  have sec: "section_ok (r_dom s') ?w (r_root s) n" if n: "n \<in> set ?S" for n
  proof (cases "d_parent (r_dom s) n")
    case None
    then show ?thesis using d(3) [of n] n S(1) D(3) [OF n] D(6) [OF node [OF n]] by (simp add: section_ok_def)
  next
    case (Some p)
    then have p: "deck_node (r_dom s) ?w p" using n by (auto simp: deck_node_def)
    have "section_ok (r_dom s) ?w (r_root s) n" using d(3) [of n] n S(1) by simp
    moreover from this have "p \<in> set (d_desc (r_dom s') ?w)" if "is_section (r_dom s) p"
      using that Some S by (auto simp: section_ok_def)
    ultimately show ?thesis
      using Some D(3) [OF n] D(5) [OF p] D(6) [OF node [OF n]] by (simp add: section_ok_def)
  qed
  have nest: "sections_in s' h = filter (nested_in (r_dom s') h) (d_desc (r_dom s') ?w)"
    if h: "h \<in> set (horizontalSlides s)" for h
  proof -
    have "filter (nested_in (r_dom s') h) (d_desc (r_dom s') ?w) = filter (\<lambda>n. d_parent (r_dom s') n = Some h) ?S"
      unfolding D(1) [symmetric] unfolding sections_of_def filter_filter nested_in_def by (rule filter_cong) auto
    also have "\<dots> = filter (\<lambda>n. d_parent (r_dom s) n = Some h) ?S"
      by (rule filter_cong [OF refl]) (simp add: D(3))
    also have "\<dots> = filter (nested_in (r_dom s) h) (d_desc (r_dom s) ?w)"
      unfolding sections_of_def filter_filter nested_in_def by (rule filter_cong) auto
    finally show ?thesis using d(4) [OF h] rebuilt_slides(2) [OF assms(1) h] by simp
  qed
  have "distinct (d_desc (r_dom s') ?w)" by (rule desc_distinct [OF assms(3)])
  moreover have "index_attr (d_attr (r_dom s') n a)" if "a \<in> stack_attrs" for n a
    by (rule D(8) [OF that d(6) [OF that]])
  ultimately show ?thesis
    using f d(2,7) D(2) assms(4) sec nest S(2) unfolding deck_ok_def Let_def rebuilt_slides(1) [OF assms(1)]
    by (auto simp: around_def)
qed

lemma rebuilt_at:
  assumes "rebuilt s s'" "deck_ok s" "at_slide s h v"
  shows "at_slide s' h v"
proof -
  have same: "deck_same (r_wrapper s) (r_root s) (r_dom s) (r_dom s')" and f: "around s s'"
    using assms(1) by (auto simp: rebuilt_def)
  let ?x = "horizontalSlides s ! nat h"
  note hs = rebuilt_slides(1) [OF assms(1)]
  have vp: "valid_position s h v" using assms(3) by (simp add: at_slide_def)
  have x: "?x \<in> set (horizontalSlides s)" by (rule valid_slide_at(1) [OF assms(2) vp])
  note sx = rebuilt_slides(2) [OF assms(1) x]
  have "n \<in> set (sections_of (r_dom s) (r_wrapper s))"
    if "n \<in> set (horizontalSlides s) \<or> n \<in> set (sections_in s ?x)" for n
    using that deck_okD(4) [OF assms(2) x] by (auto simp: horizontal_of sections_of_def nested_in_def)
  then have "has_class ''present'' (r_dom s') n = has_class ''present'' (r_dom s) n"
    if "n \<in> set (horizontalSlides s) \<or> n \<in> set (sections_in s ?x)" for n
    using that deck_sameD(7) [OF same, of n] by (auto simp: deck_node_def)
  then have "present_at (horizontalSlides s) h (r_dom s')" "present_at (sections_in s ?x) v (r_dom s')"
    using assms(3) present_at_cong [of "horizontalSlides s" "r_dom s'" "r_dom s"]
      present_at_cong [of "sections_in s ?x" "r_dom s'" "r_dom s"] by (auto simp: at_slide_def)
  moreover have "valid_position s' h v" using vp by (simp add: valid_position_def hs sx)
  moreover have "slide_at s' h v = slide_at s h v" by (simp add: slide_at_def hs sx Let_def)
  ultimately show ?thesis using assms(3) f by (simp add: at_slide_def hs sx around_def)
qed

lemma rebuilt_inv:
  assumes "rebuilt s s'" "reveal_inv s" "tree_ok (r_dom s')"
    "\<And>b. b \<in> set (d_kids (r_dom s') (r_background s)) \<Longrightarrow> background_ok (r_dom s') b"
  shows "reveal_inv s'"
proof -
  have d: "deck_ok s" "\<not> isPrintingPDF s" "placed s" "timers_ok s" using assms(2) by (simp_all add: reveal_inv_def)
  have "placed s'" using rebuilt_at [OF assms(1) d(1)] d(3) by (auto simp: placed_def)
  moreover have "timers_ok s'" "isPrintingPDF s' = isPrintingPDF s"
    using assms(1) d(4) timer_frame_ok [of s s'] by (auto simp: rebuilt_def around_def isPrintingPDF_def)
  ultimately show ?thesis using rebuilt_deck [OF assms(1) d(1) assms(3,4)] d by (simp add: reveal_inv_def)
qed

end
