(* ===== verification/Reveal_Color.thy ===== *)
theory Reveal_Color
  imports Reveal_Media "HOL-Library.Monad_Syntax"
begin

text \<open>
  Reading a CSS color: \<open>colorToRgb\<close>, \<open>colorBrightness\<close>.  The four regular expressions are the
  functions \<open>hex_color\<close> and \<open>channels\<close> with \<open>alpha_value\<close>; their only choice, in the alpha value, is
  made as the matcher makes it.  Numbers are exact.
\<close>

section \<open>Parsing\<close>

definition hex_char :: "char \<Rightarrow> bool" where
  "hex_char c \<longleftrightarrow> is_digit c \<or> (let n = (of_char c :: nat) in (97 \<le> n \<and> n \<le> 102) \<or> (65 \<le> n \<and> n \<le> 70))"

definition hex_val :: "char \<Rightarrow> int" where
  "hex_val c = (if is_digit c then digit_val c
     else (let n = (of_char c :: int) in if 97 \<le> n then n - 87 else n - 55))"

definition skip_blanks :: "string \<Rightarrow> string" where
  "skip_blanks s = dropWhile is_blank s"

definition read_char :: "char \<Rightarrow> string \<Rightarrow> string option" where
  "read_char c s = (case s of [] \<Rightarrow> None | x # xs \<Rightarrow> if x = c then Some xs else None)"

fun read_word :: "string \<Rightarrow> string \<Rightarrow> string option" where
  "read_word [] s = Some s"
| "read_word (w # ws) [] = None"
| "read_word (w # ws) (x # xs) = (if lower_char x = w then read_word ws xs else None)"

definition read_number :: "string \<Rightarrow> (int \<times> string) option" where
  "read_number s = (let ds = takeWhile is_digit s in
     if ds = [] then None else Some (parse_digits 0 ds, dropWhile is_digit s))"

text \<open>\<open>name\s*\(\s*(\d+)\s*,\s*(\d+)\s*,\s*(\d+)\<close>, and what follows.\<close>

definition channels :: "string \<Rightarrow> string \<Rightarrow> (int \<times> int \<times> int \<times> string) option" where
  "channels name s = do {
     s \<leftarrow> read_word name s;
     s \<leftarrow> read_char CHR ''('' (skip_blanks s);
     (r, s) \<leftarrow> read_number (skip_blanks s);
     s \<leftarrow> read_char CHR '','' (skip_blanks s);
     (g, s) \<leftarrow> read_number (skip_blanks s);
     s \<leftarrow> read_char CHR '','' (skip_blanks s);
     (b, s) \<leftarrow> read_number (skip_blanks s);
     Some (r, g, b, skip_blanks s)
   }"

datatype alpha = Alpha_nan | Alpha rat

text \<open>\<open>parseFloat\<close> of digits, one character and digits.\<close>

definition parse_float :: "string \<Rightarrow> char \<Rightarrow> string \<Rightarrow> alpha" where
  "parse_float ds c es =
     (let d = parse_digits 0 ds; e = parse_digits 0 es in
      if c = CHR ''.'' then Alpha (of_int d + of_int e / 10 ^ length es)
      else if ds = [] then
        if c = CHR ''-'' then Alpha (- of_int e)
        else if c = CHR ''+'' \<or> is_blank c then Alpha (of_int e) else Alpha_nan
      else if c = CHR ''e'' \<or> c = CHR ''E'' then Alpha (of_int d * 10 ^ nat e)
      else Alpha (of_int d))"

text \<open>
  \<open>([\d]+|[\d]*.[\d]+)\s*\)$\<close>: the dot stands for any character but a line break.  The second
  alternative is tried when the first one fails.
\<close>

definition alpha_value :: "string \<Rightarrow> alpha option" where
  "alpha_value s =
     (let ds = takeWhile is_digit s; rest = dropWhile is_digit s in
      if ds \<noteq> [] \<and> skip_blanks rest = '')'' then Some (Alpha (of_int (parse_digits 0 ds)))
      else case rest of
        [] \<Rightarrow> None
      | c # cs \<Rightarrow>
          if c \<noteq> CHR 10 \<and> c \<noteq> CHR 13 \<and> takeWhile is_digit cs \<noteq> [] \<and>
             skip_blanks (dropWhile is_digit cs) = '')''
          then Some (parse_float ds c (takeWhile is_digit cs)) else None)"

section \<open>\<open>colorToRgb\<close>\<close>

record rgb =
  red :: int
  green :: int
  blue :: int
  alpha_of :: "alpha option"

definition hex_color :: "string \<Rightarrow> rgb option" where
  "hex_color color =
     (case color of
        [h, a, b, c] \<Rightarrow>
          if h = CHR 0x23 \<and> list_all hex_char [a, b, c]
          then Some \<lparr>red = hex_val a * 17, green = hex_val b * 17, blue = hex_val c * 17, alpha_of = None\<rparr>
          else None
      | [h, a, b, c, d, e, f] \<Rightarrow>
          if h = CHR 0x23 \<and> list_all hex_char [a, b, c, d, e, f]
          then Some \<lparr>red = hex_val a * 16 + hex_val b, green = hex_val c * 16 + hex_val d,
                     blue = hex_val e * 16 + hex_val f, alpha_of = None\<rparr>
          else None
      | _ \<Rightarrow> None)"

definition colorToRgb :: "string \<Rightarrow> rgb option" where
  "colorToRgb color =
     (case hex_color color of
        Some x \<Rightarrow> Some x
      | None \<Rightarrow>
          (case channels ''rgb'' color of
             Some (r, g, b, '')'') \<Rightarrow> Some \<lparr>red = r, green = g, blue = b, alpha_of = None\<rparr>
           | _ \<Rightarrow> do {
               (r, g, b, s) \<leftarrow> channels ''rgba'' color;
               s \<leftarrow> read_char CHR '','' s;
               a \<leftarrow> alpha_value (skip_blanks s);
               Some \<lparr>red = r, green = g, blue = b, alpha_of = Some a\<rparr>
             }))"

definition brightness :: "rgb \<Rightarrow> rat" where
  "brightness c = (of_int (red c) * 299 + of_int (green c) * 587 + of_int (blue c) * 114) / 1000"

definition colorBrightness :: "string \<Rightarrow> rat option" where
  "colorBrightness color = map_option brightness (colorToRgb color)"

section \<open>Reading what was written\<close>

text \<open>The forms a browser gives a computed color in, and the hexadecimal form.\<close>

definition css_channels :: "int \<Rightarrow> int \<Rightarrow> int \<Rightarrow> string" where
  "css_channels r g b = js_show_int r @ '', '' @ js_show_int g @ '', '' @ js_show_int b"

definition hex_digit :: "int \<Rightarrow> char" where
  "hex_digit d = (if d < 10 then digit_char d else char_of (nat d + 87))"

definition hex_byte :: "int \<Rightarrow> string" where
  "hex_byte n = [hex_digit (n div 16), hex_digit (n mod 16)]"

lemma takeWhile_digits:
  assumes "list_all is_digit ds" "rest = [] \<or> \<not> is_digit (hd rest)"
  shows "takeWhile is_digit (ds @ rest) = ds" "dropWhile is_digit (ds @ rest) = rest"
  using assms by (induction ds) (cases rest; simp)+

lemma read_number_show:
  assumes "0 \<le> n" "rest = [] \<or> \<not> is_digit (hd rest)"
  shows "read_number (js_show_int n @ rest) = Some (n, rest)"
  using takeWhile_digits [OF _ assms(2)] show_nat_digits [OF assms(1)] assms(1)
  by (simp add: read_number_def js_show_int_def Let_def)

lemma skip_show:
  assumes "0 \<le> n"
  shows "skip_blanks (js_show_int n @ rest) = js_show_int n @ rest"
proof -
  obtain c cs where c: "show_nat n = c # cs" using show_nat_digits [OF assms] by (cases "show_nat n") auto
  then have "is_digit c" using show_nat_digits [OF assms] by simp
  then have "\<not> is_blank c" by (auto simp: is_digit_def is_blank_def)
  then show ?thesis using c assms by (simp add: skip_blanks_def js_show_int_def)
qed

lemma punctuation [simp]:
  "\<not> is_digit CHR '',''" "\<not> is_digit CHR '')''" "\<not> is_blank CHR '',''" "\<not> is_blank CHR '')''" "\<not> is_blank CHR ''(''"
  "is_blank CHR '' ''" "skip_blanks (CHR '' '' # s) = skip_blanks s" "skip_blanks (CHR '')'' # s) = CHR '')'' # s"
  "skip_blanks (CHR ''('' # s) = CHR ''('' # s" "skip_blanks (CHR '','' # s) = CHR '','' # s"
  by (simp_all add: is_digit_def is_blank_def skip_blanks_def)

lemma channels_read:
  assumes "0 \<le> r" "0 \<le> g" "0 \<le> b" "rest = [] \<or> \<not> is_digit (hd rest)"
    "read_word name (word @ ''('' @ css_channels r g b @ rest) = Some (''('' @ css_channels r g b @ rest)"
  shows "channels name (word @ ''('' @ css_channels r g b @ rest) = Some (r, g, b, skip_blanks rest)"
proof -
  have n: "read_number (skip_blanks (CHR '' '' # js_show_int m @ CHR '','' # x)) = Some (m, CHR '','' # x)"
    "read_number (skip_blanks (js_show_int m @ CHR '','' # x)) = Some (m, CHR '','' # x)"
    "read_number (skip_blanks (js_show_int m @ rest)) = Some (m, rest)" if "0 \<le> m" for m x
    using read_number_show [OF that, of "CHR '','' # x"] read_number_show [OF that assms(4)]
    by (simp_all add: skip_show that)
  have c: "read_char c (c # x) = Some x" for c x by (simp add: read_char_def)
  have css: "css_channels r g b @ rest =
      js_show_int r @ CHR '','' # CHR '' '' # js_show_int g @ CHR '','' # CHR '' '' # js_show_int b @ rest"
    by (simp add: css_channels_def)
  show ?thesis
    unfolding channels_def assms(5) bind.bind_lunit
    by (simp only: css append.simps punctuation c n assms(1-3) bind.bind_lunit prod.case)
qed

lemma of_char_int: "(of_char c :: int) = int (of_char c)"
  by (simp add: of_char_def)

lemma hex_letter:
  assumes "(of_char c :: nat) = nat d + 87" "10 \<le> d" "d < 16"
  shows "hex_char c" "hex_val c = d"
  unfolding hex_char_def hex_val_def is_digit_def Let_def of_char_int assms(1) using assms(2,3) by auto

lemma hex_digit_props:
  assumes "0 \<le> d" "d < 16"
  shows "hex_char (hex_digit d)" "hex_val (hex_digit d) = d"
proof -
  have "(of_char (char_of (nat d + 87) :: char) :: nat) = nat d + 87" using assms by simp
  from hex_letter [OF this] show "hex_char (hex_digit d)" "hex_val (hex_digit d) = d"
    using assms digit_char_props [of d] unfolding hex_digit_def
    by (cases "d < 10"; simp only: hex_char_def hex_val_def if_True if_False; simp)+
qed

lemma hex_read:
  assumes "0 \<le> r" "r \<le> 255" "0 \<le> g" "g \<le> 255" "0 \<le> b" "b \<le> 255"
  shows "hex_color (CHR 0x23 # hex_byte r @ hex_byte g @ hex_byte b) =
    Some \<lparr>red = r, green = g, blue = b, alpha_of = None\<rparr>"
proof -
  have "hex_char (hex_digit (n div 16))" "hex_char (hex_digit (n mod 16))"
      "hex_val (hex_digit (n div 16)) * 16 + hex_val (hex_digit (n mod 16)) = n" if "0 \<le> n" "n \<le> 255" for n
    using that hex_digit_props [of "n div 16"] hex_digit_props [of "n mod 16"] by simp_all
  then show ?thesis using assms by (simp add: hex_color_def hex_byte_def)
qed

lemma no_hex: "c \<noteq> CHR 0x23 \<Longrightarrow> hex_color (c # cs) = None"
  by (auto simp: hex_color_def split: list.split)

section \<open>Properties\<close>

text \<open>
  C25: a computed color, as browsers write it, and a hexadecimal color are read back channel by channel;
  the alpha value 0 of a transparent color is read as 0; and the brightness of such a color lies on the
  scale from 0 to 255, with black and white at its ends.
\<close>

theorem color_read:
  assumes "0 \<le> r" "r \<le> 255" "0 \<le> g" "g \<le> 255" "0 \<le> b" "b \<le> 255"
  shows "colorToRgb (''rgb('' @ css_channels r g b @ '')'') = Some \<lparr>red = r, green = g, blue = b, alpha_of = None\<rparr> \<and>
    colorToRgb (CHR 0x23 # hex_byte r @ hex_byte g @ hex_byte b) = Some \<lparr>red = r, green = g, blue = b, alpha_of = None\<rparr> \<and>
    colorToRgb (''rgba('' @ css_channels r g b @ '', 0)'') =
      Some \<lparr>red = r, green = g, blue = b, alpha_of = Some (Alpha 0)\<rparr> \<and>
    (\<exists>x. colorBrightness (''rgb('' @ css_channels r g b @ '')'') = Some x \<and> 0 \<le> x \<and> x \<le> 255 \<and>
      (x = 0 \<longleftrightarrow> r = 0 \<and> g = 0 \<and> b = 0) \<and> (x = 255 \<longleftrightarrow> r = 255 \<and> g = 255 \<and> b = 255))"
proof -
  have 1: "colorToRgb (''rgb('' @ css_channels r g b @ '')'') = Some \<lparr>red = r, green = g, blue = b, alpha_of = None\<rparr>"
    using channels_read [of r g b "'')''" "''rgb''" "''rgb''"] assms
    by (simp add: colorToRgb_def no_hex lower_char_def)
  have 2: "colorToRgb (CHR 0x23 # hex_byte r @ hex_byte g @ hex_byte b) = Some \<lparr>red = r, green = g, blue = b, alpha_of = None\<rparr>"
    using hex_read [OF assms] by (simp add: colorToRgb_def)
  have "channels ''rgb'' (''rgba('' @ css_channels r g b @ '', 0)'') = None"
    by (simp add: channels_def lower_char_def read_char_def skip_blanks_def is_blank_def)
  moreover have "alpha_value ''0)'' = Some (Alpha 0)"
    by (simp add: alpha_value_def is_digit_def skip_blanks_def is_blank_def digit_val_def of_char_def)
  ultimately have 3: "colorToRgb (''rgba('' @ css_channels r g b @ '', 0)'') =
      Some \<lparr>red = r, green = g, blue = b, alpha_of = Some (Alpha 0)\<rparr>"
    using channels_read [of r g b "'', 0)''" "''rgba''" "''rgba''"] assms
    by (simp add: colorToRgb_def no_hex lower_char_def read_char_def skip_blanks_def is_blank_def)
  define n where "n = r * 299 + g * 587 + b * 114"
  have n: "brightness \<lparr>red = r, green = g, blue = b, alpha_of = None\<rparr> = of_int n / 1000"
    by (simp add: brightness_def n_def)
  have "0 \<le> n" "n \<le> 255000" "n = 0 \<longleftrightarrow> r = 0 \<and> g = 0 \<and> b = 0"
      "n = 255000 \<longleftrightarrow> r = 255 \<and> g = 255 \<and> b = 255"
    using assms by (auto simp: n_def)
  moreover have "(of_int n :: rat) / 1000 \<le> 255 \<longleftrightarrow> n \<le> 255000" "(of_int n :: rat) / 1000 = 0 \<longleftrightarrow> n = 0"
      "(of_int n :: rat) / 1000 = 255 \<longleftrightarrow> n = 255000" for n
    by (simp_all add: field_simps)
  ultimately have "0 \<le> (of_int n :: rat) / 1000 \<and> (of_int n :: rat) / 1000 \<le> 255 \<and>
      ((of_int n :: rat) / 1000 = 0 \<longleftrightarrow> r = 0 \<and> g = 0 \<and> b = 0) \<and>
      ((of_int n :: rat) / 1000 = 255 \<longleftrightarrow> r = 255 \<and> g = 255 \<and> b = 255)" by simp
  then show ?thesis using 1 2 3 n by (simp only: colorBrightness_def option.map option.inject ex_simps) blast
qed

theorem color_read_witness:
  "colorToRgb (''rgb('' @ css_channels 255 128 0 @ '')'') = Some \<lparr>red = 255, green = 128, blue = 0, alpha_of = None\<rparr> \<and>
    colorToRgb (CHR 0x23 # hex_byte 255 @ hex_byte 128 @ hex_byte 0) =
      Some \<lparr>red = 255, green = 128, blue = 0, alpha_of = None\<rparr>"
  using color_read [of 255 128 0] by simp

end
