(* ===== verification/Reveal_Backdrop.thy ===== *)
theory Reveal_Backdrop
  imports Reveal_Built Reveal_Color
begin

text \<open>
  Background elements: \<open>createBackground\<close>, \<open>createBackgrounds\<close>, and that they mirror the slides
  and leave the presentation's invariant alone.
\<close>

section \<open>One background\<close>

text \<open>The sum of settings that gives the hash: \<open>null + null\<close> is the number 0, all else is text.\<close>

datatype setting_sum = Sum_null | Sum_zero | Sum_text string

fun js_plus :: "setting_sum \<Rightarrow> string option \<Rightarrow> setting_sum" where
  "js_plus Sum_null None = Sum_zero"
| "js_plus Sum_null (Some x) = Sum_text (''null'' @ x)"
| "js_plus Sum_zero None = Sum_zero"
| "js_plus Sum_zero (Some x) = Sum_text (''0'' @ x)"
| "js_plus (Sum_text a) None = Sum_text (a @ ''null'')"
| "js_plus (Sum_text a) (Some x) = Sum_text (a @ x)"

fun sum_text :: "setting_sum \<Rightarrow> string" where
  "sum_text Sum_null = ''null''"
| "sum_text Sum_zero = ''0''"
| "sum_text (Sum_text a) = a"

definition starts_with :: "string \<Rightarrow> string \<Rightarrow> bool" where
  "starts_with pat x \<longleftrightarrow> take (length pat) x = pat"

text \<open>\<open>/^(http|file|\/\/)/gi\<close> or \<open>/\.(svg|png|jpg|jpeg|gif|bmp)([?#]|$)/gi\<close>\<close>

definition image_address :: "string \<Rightarrow> bool" where
  "image_address x \<longleftrightarrow>
     (let x = map lower_char x in
      list_ex (\<lambda>pat. starts_with pat x) [''http'', ''file'', ''//''] \<or>
      list_ex (\<lambda>i. list_ex (\<lambda>pat. starts_with pat (drop i x) \<and>
          (case drop (i + length pat) x of [] \<Rightarrow> True | c # _ \<Rightarrow> c = CHR 0x3F \<or> c = CHR 0x23))
        [''.svg'', ''.png'', ''.jpg'', ''.jpeg'', ''.gif'', ''.bmp'']) [0..<length x])"

text \<open>\<open>className.replace(/present|past|future/, '')\<close> cuts out the first of these words, wherever it is.\<close>

fun cut_state :: "string \<Rightarrow> string" where
  "cut_state [] = []"
| "cut_state (c # cs) =
     (if starts_with ''present'' (c # cs) then drop 7 (c # cs)
      else if starts_with ''past'' (c # cs) then drop 4 (c # cs)
      else if starts_with ''future'' (c # cs) then drop 6 (c # cs)
      else c # cut_state cs)"

definition class_name :: "string list \<Rightarrow> string" where
  "class_name cs = concat (map (\<lambda>c. c @ '' '') cs)"

definition class_tokens :: "string \<Rightarrow> string list" where
  "class_tokens x = remdups (filter (\<lambda>t. t \<noteq> []) (split_on (CHR '' '') x))"

definition background_data :: "string list" where
  "background_data = [''data-background-size'', ''data-background-image'', ''data-background-video'',
     ''data-background-iframe'', ''data-background-color'', ''data-background-repeat'',
     ''data-background-position'', ''data-background-transition'']"

definition background_hash :: "(string \<Rightarrow> string option) \<Rightarrow> string" where
  "background_hash a =
     sum_text (fold (\<lambda>k acc. js_plus acc (a k)) background_data
       (case a ''data-background'' of None \<Rightarrow> Sum_null | Some b \<Rightarrow> Sum_text b))"

definition copy_style :: "string \<Rightarrow> string option \<Rightarrow> node \<Rightarrow> page \<Rightarrow> page" where
  "copy_style a v n p = (if truthy v then set_style a (Css (the v)) n p else p)"

definition copy_attr :: "string \<Rightarrow> string option \<Rightarrow> node \<Rightarrow> page \<Rightarrow> page" where
  "copy_attr a v n p = (if truthy v then on_dom (set_attr a (the v) n) p else p)"

text \<open>What the slide says of its background is written into the new element.\<close>

definition dress_background :: "node \<Rightarrow> node \<Rightarrow> page \<Rightarrow> page" where
  "dress_background sl el p =
     (let a = d_attr (page_dom p) sl;
          bg = a ''data-background'';
          p = (if \<not> truthy bg then p
               else if image_address (the bg) then on_dom (set_attr ''data-background-image'' (the bg) sl) p
               else set_style ''background'' (Css (the bg)) el p);
          p = (if truthy bg \<or> truthy (a ''data-background-color'') \<or> truthy (a ''data-background-image'') \<or>
                  truthy (a ''data-background-video'') \<or> truthy (a ''data-background-iframe'')
               then on_dom (set_attr ''data-background-hash'' (background_hash a) el) p else p);
          p = copy_style ''backgroundSize'' (a ''data-background-size'') el p;
          p = copy_attr ''data-background-size'' (a ''data-background-size'') el p;
          p = copy_style ''backgroundColor'' (a ''data-background-color'') el p;
          p = copy_style ''backgroundRepeat'' (a ''data-background-repeat'') el p;
          p = copy_style ''backgroundPosition'' (a ''data-background-position'') el p
      in copy_attr ''data-background-transition'' (a ''data-background-transition'') el p)"

text \<open>The slide is marked as dark or light by the computed color of its background.\<close>

definition contrast_class :: "string \<Rightarrow> string option" where
  "contrast_class color =
     (if color = [] then None
      else case colorToRgb color of
        None \<Rightarrow> None
      | Some c \<Rightarrow>
          if alpha_of c = Some (Alpha 0) then None
          else if brightness c < 128 then Some ''has-dark-background'' else Some ''has-light-background'')"

definition createBackground :: "node \<Rightarrow> node \<Rightarrow> page \<Rightarrow> node \<times> page" where
  "createBackground sl container p =
     (let classes = class_tokens (''slide-background '' @ cut_state (class_name (d_class (page_dom p) sl)));
          (el, p) = new_element ''div'' classes p;
          p = dress_background sl el p;
          p = on_dom (append_child container el) p;
          p = on_dom (remove_class ''has-dark-background'' sl) p;
          p = on_dom (remove_class ''has-light-background'' sl) p;
          p = on_reveal (\<lambda>s. s\<lparr>r_slideBackground := (r_slideBackground s)(sl := Some el)\<rparr>) p;
          p = (case contrast_class (b_backgroundColor (p_browser p) el) of
                 None \<Rightarrow> p | Some c \<Rightarrow> on_dom (add_class c sl) p)
      in (el, p))"

section \<open>All backgrounds\<close>

definition create_nested :: "node \<Rightarrow> node \<Rightarrow> page \<Rightarrow> page" where
  "create_nested stack v p =
     on_dom (add_class ''stack'' stack) (snd (createBackground v stack p))"

definition create_stack :: "node \<Rightarrow> page \<Rightarrow> page" where
  "create_stack h p =
     (let (stack, p) = createBackground h (r_background (p_reveal p)) p
      in fold (create_nested stack) (sections_in (p_reveal p) h) p)"

definition createBackgrounds :: "page \<Rightarrow> page" where
  "createBackgrounds p =
     (let b = r_background (p_reveal p);
          p = on_dom (clear_children b) p;
          p = on_dom (add_class ''no-transition'' b) p;
          p = fold create_stack (horizontalSlides (p_reveal p)) p
      in if c_parallaxImage (p_view p) \<noteq> [] then
           let p = set_style ''backgroundImage'' (Css (''url(\"'' @ c_parallaxImage (p_view p) @ ''\")'')) b p;
               p = set_style ''backgroundSize'' (Css (c_parallaxSize (p_view p))) b p
           in later Timer_parallax p
         else
           let p = set_style ''backgroundImage'' (Css []) b p
           in on_dom (remove_class ''has-parallax-background'' (r_wrapper (p_reveal p))) p)"

section \<open>One background is one new element\<close>

text \<open>What a run of \<open>createBackground\<close> leaves: the element \<open>el\<close>, last among the children of \<open>c\<close>.\<close>

definition added :: "node \<Rightarrow> node \<Rightarrow> node \<Rightarrow> page \<Rightarrow> page \<Rightarrow> bool" where
  "added sl c el p p' \<longleftrightarrow>
     (let d = page_dom p; d' = page_dom p' in
      el \<notin> set (d_nodes d) \<and> tree_ok d' \<and> set (d_nodes d') = insert el (set (d_nodes d)) \<and>
      d_kids d' = (d_kids d)(c := d_kids d c @ [el]) \<and>
      (\<forall>x. is_section d' x \<longleftrightarrow> x \<noteq> el \<and> is_section d x) \<and>
      (\<forall>m \<in> set (d_nodes d). has_class ''stack'' d' m = has_class ''stack'' d m) \<and>
      deck_same (r_wrapper (p_reveal p)) (r_root (p_reveal p)) d d' \<and>
      p_reveal p' = (p_reveal p)\<lparr>r_dom := d', r_slideBackground := (r_slideBackground (p_reveal p))(sl := Some el)\<rparr> \<and>
      p_view p' = p_view p \<and> p_browser p' = p_browser p)"

text \<open>Updates of attributes, styles and other classes.\<close>

definition dressed :: "page \<Rightarrow> page \<Rightarrow> bool" where
  "dressed p p' \<longleftrightarrow> dom_keep keep_keys (page_dom p) (page_dom p') \<and>
     p_reveal p' = (p_reveal p)\<lparr>r_dom := page_dom p'\<rparr> \<and> p_view p' = p_view p \<and> p_browser p' = p_browser p"

named_theorems dress

lemma dressed_refl [dress]: "dressed p p"
  by (simp add: dressed_def page_dom_def)

lemma dressed_trans: "dressed p q \<Longrightarrow> dressed q r \<Longrightarrow> dressed p r"
  by (auto simp: dressed_def intro: dom_keep_trans)

lemma dressed_style [dress]: "dressed p q \<Longrightarrow> dressed p (set_style a v n q)"
  by (simp add: dressed_def) (simp add: set_style_def)

lemma dressed_dom [dress]:
  assumes "dressed p q" "dom_keep keep_keys (page_dom q) (f (page_dom q))"
  shows "dressed p (on_dom f q)"
  by (rule dressed_trans [OF assms(1)])
    (use assms(2) in \<open>simp add: dressed_def on_dom_def on_reveal_def upd_dom_def page_dom_def\<close>)

lemma dressed_if [dress]: "(b \<Longrightarrow> dressed p q) \<Longrightarrow> (\<not> b \<Longrightarrow> dressed p r) \<Longrightarrow> dressed p (if b then q else r)"
  by simp

lemma dressed_option [dress]:
  "(x = None \<Longrightarrow> dressed p q) \<Longrightarrow> (\<And>y. x = Some y \<Longrightarrow> dressed p (f y)) \<Longrightarrow>
    dressed p (case x of None \<Rightarrow> q | Some y \<Rightarrow> f y)"
  by (cases x) simp_all

lemma dressed_copy [dress]:
  "dressed p q \<Longrightarrow> dressed p (copy_style a v n q)"
  "dressed p q \<Longrightarrow> a' \<notin> stack_attrs \<Longrightarrow> dressed p (copy_attr a' v n q)"
  unfolding copy_style_def copy_attr_def by (intro dress; simp add: attr_ok_def page)+

lemma dressed_background: "dressed p (dress_background sl el p)"
  unfolding dress_background_def Let_def by (intro dress page) (simp_all add: stack_attrs_def)

lemma dressed_contrast: "dressed p (case contrast_class color of None \<Rightarrow> p | Some c \<Rightarrow> on_dom (add_class c sl) p)"
  by (intro dress page) (auto simp: contrast_class_def split: if_splits option.splits)

lemma dressedD:
  assumes "dressed p q"
  shows "tree_ok (page_dom q) = tree_ok (page_dom p)" "d_nodes (page_dom q) = d_nodes (page_dom p)"
    "d_kids (page_dom q) = d_kids (page_dom p)" "d_parent (page_dom q) = d_parent (page_dom p)"
    "is_section (page_dom q) = is_section (page_dom p)"
    "c \<in> key_classes \<Longrightarrow> has_class c (page_dom q) m = has_class c (page_dom p) m"
    "deck_same w r (page_dom p) (page_dom q)"
    "p_reveal q = (p_reveal p)\<lparr>r_dom := page_dom q\<rparr>" "p_view q = p_view p" "p_browser q = p_browser p"
proof -
  have k: "dom_keep keep_keys (page_dom p) (page_dom q)" using assms by (simp add: dressed_def)
  then have sh: "same_shape (page_dom p) (page_dom q)" by (simp add: dom_keep_def)
  show "tree_ok (page_dom q) = tree_ok (page_dom p)" by (rule tree_ok_shape [OF sh])
  show "d_nodes (page_dom q) = d_nodes (page_dom p)" "d_kids (page_dom q) = d_kids (page_dom p)"
    "d_parent (page_dom q) = d_parent (page_dom p)" "is_section (page_dom q) = is_section (page_dom p)"
    using sh by (auto simp: same_shape_def is_section_def)
  show "has_class c (page_dom q) m = has_class c (page_dom p) m" if "c \<in> key_classes"
    using k that unfolding dom_keep_def keep_keys_def by blast
  show "deck_same w r (page_dom p) (page_dom q)" by (rule deck_same_keep [OF keep_keys_deck [OF k]])
qed (use assms in \<open>simp_all add: dressed_def\<close>)

lemma createBackground_added:
  assumes ok: "tree_ok (page_dom p)" and c: "c \<in> set (d_nodes (page_dom p))"
    and root: "r_root (p_reveal p) \<in> set (d_nodes (page_dom p))"
    and result: "createBackground sl c p = (el, p')"
  shows "added sl c el p p'"
proof -
  define classes where
    "classes = class_tokens (''slide-background '' @ cut_state (class_name (d_class (page_dom p) sl)))"
  obtain n d1 where n: "create_element ''div'' (page_dom p) = (n, d1)" by fastforce
  define p1 where "p1 = on_dom (\<lambda>_. d1\<lparr>d_class := (d_class d1)(n := classes)\<rparr>) p"
  define p2 where "p2 = dress_background sl n p1"
  define p3 where "p3 = on_dom (append_child c n) p2"
  define p4 where "p4 = on_dom (remove_class ''has-light-background'' sl) (on_dom (remove_class ''has-dark-background'' sl) p3)"
  define p5 where "p5 = on_reveal (\<lambda>s. s\<lparr>r_slideBackground := (r_slideBackground s)(sl := Some n)\<rparr>) p4"
  define p6 where "p6 = (case contrast_class (b_backgroundColor (p_browser p5) n) of None \<Rightarrow> p5
    | Some c \<Rightarrow> on_dom (add_class c sl) p5)"
  have "createBackground sl c p = (n, p6)"
    unfolding createBackground_def new_element_def n Let_def prod.case p6_def p5_def p4_def p3_def p2_def p1_def
      classes_def by (rule refl)
  then have el: "el = n" "p' = p6" using result by simp_all
  note create = create_element_ok [OF ok n]
  let ?w = "r_wrapper (p_reveal p)" and ?r = "r_root (p_reveal p)"
  have D1: "page_dom p1 = d1\<lparr>d_class := (d_class d1)(n := classes)\<rparr>" by (simp add: p1_def)
  have n_new: "n \<noteq> m" if "m \<in> set (d_nodes (page_dom p))" for m using create(2) that by blast
  have t1: "tree_ok (page_dom p1)"
    using create(1) tree_ok_shape [of d1 "page_dom p1"] by (simp add: D1 same_shape_def)
  have d1: "set (d_nodes (page_dom p1)) = insert n (set (d_nodes (page_dom p)))"
    "d_kids (page_dom p1) = d_kids (page_dom p)" "d_parent (page_dom p1) = d_parent (page_dom p)"
    "is_section (page_dom p1) x \<longleftrightarrow> x \<noteq> n \<and> is_section (page_dom p) x"
    "m \<in> set (d_nodes (page_dom p)) \<Longrightarrow> has_class k (page_dom p1) m = has_class k (page_dom p) m" for x m k
    using n n_new [of m]
    by (auto simp: D1 create_element_def Let_def is_section_def has_class_def split: if_splits)
  have same1: "deck_same ?w ?r (page_dom p) (page_dom p1)"
    unfolding D1 by (rule deck_same_create [OF ok n n_new [OF root] root])
  have dr2: "dressed p1 p2" unfolding p2_def by (rule dressed_background)
  note d2 = dressedD [OF dr2]
  have leaf: "tree_ok (page_dom p2)" "c \<in> set (d_nodes (page_dom p2))" "n \<in> set (d_nodes (page_dom p2))" "n \<noteq> c"
    "d_parent (page_dom p2) n = None" "d_kids (page_dom p2) n = []" "\<not> is_section (page_dom p2) n"
    unfolding d2(1-5) d1(1-4) using t1 c create(4,5) n_new [OF c] by simp_all
  have d3: "page_dom p3 = append_child c n (page_dom p2)" by (simp add: p3_def)
  have t3: "tree_ok (page_dom p3)" unfolding d3
    by (rule append_child_ok) (use leaf tree_okD(5) [OF leaf(1), of n] in auto)
  have same3: "deck_same ?w ?r (page_dom p2) (page_dom p3)" unfolding d3 by (rule deck_same_append [OF leaf])
  have f3: "d_nodes (page_dom p3) = d_nodes (page_dom p2)" "is_section (page_dom p3) = is_section (page_dom p2)"
    "has_class k (page_dom p3) = has_class k (page_dom p2)" for k
    by (auto simp: d3 append_child_def Let_def is_section_def has_class_def fun_eq_iff)
  have k3: "d_kids (page_dom p3) = (d_kids (page_dom p2))(c := d_kids (page_dom p2) c @ [n])"
    unfolding d3 using append_leaf_fields(1) [OF leaf(1,5), of c] by (auto simp: fun_eq_iff)
  have dr4: "dressed p3 p4" unfolding p4_def by (intro dress page) simp_all
  note d4 = dressedD [OF dr4]
  have d5: "page_dom p5 = page_dom p4" by (simp add: p5_def page_dom_def on_reveal_def)
  have dr6: "dressed p5 p6" unfolding p6_def by (rule dressed_contrast)
  note d6 = dressedD [OF dr6]
  have same: "deck_same ?w ?r (page_dom p) (page_dom p6)"
    using deck_same_trans [OF deck_same_trans [OF same1 d2(7)] same3] deck_same_trans [OF d4(7) d6(7) [unfolded d5]]
    by (rule deck_same_trans)
  have rev: "p_reveal p6 = (p_reveal p)\<lparr>r_dom := page_dom p6,
      r_slideBackground := (r_slideBackground (p_reveal p))(sl := Some n)\<rparr>"
    unfolding d6(8) by (simp add: p5_def d4(8) p3_def d2(8) p1_def on_dom_def on_reveal_def upd_dom_def)
  have env: "p_view p6 = p_view p" "p_browser p6 = p_browser p"
    using d6(9,10) d4(9,10) d2(9,10) by (simp_all add: p5_def p3_def p1_def on_dom_def on_reveal_def)
  have old: "has_class ''stack'' (page_dom p6) m = has_class ''stack'' (page_dom p) m" if "m \<in> set (d_nodes (page_dom p))" for m
    by (simp add: d6(6) d5 d4(6) f3(3) d2(6) d1(5) [OF that])
  have "tree_ok (page_dom p6)" using t3 by (simp only: d6(1) d5 d4(1))
  moreover have "set (d_nodes (page_dom p6)) = insert n (set (d_nodes (page_dom p)))"
    by (simp only: d6(2) d5 d4(2) f3(1) d2(2) d1(1))
  moreover have "d_kids (page_dom p6) = (d_kids (page_dom p))(c := d_kids (page_dom p) c @ [n])"
    by (simp only: d6(3) d5 d4(3) k3 d2(3) d1(2))
  moreover have "is_section (page_dom p6) x \<longleftrightarrow> x \<noteq> n \<and> is_section (page_dom p) x" for x
    by (simp only: d6(5) d5 d4(5) f3(2) d2(5) d1(4))
  ultimately show ?thesis
    unfolding added_def Let_def el using create(2) old same rev env by blast
qed

section \<open>The backgrounds mirror the slides\<close>

text \<open>
  The state while backgrounds are made: the deck is as it was in \<open>s0\<close>, nothing below the container is a
  section, and the slides in \<open>hs\<close> have their backgrounds.
\<close>

definition has_background :: "reveal \<Rightarrow> dom \<Rightarrow> reveal \<Rightarrow> node \<Rightarrow> bool" where
  "has_background s0 d s h \<longleftrightarrow> (\<exists>k. r_slideBackground s h = Some k \<and>
     map Some (d_kids d k) = map (r_slideBackground s) (sections_in s0 h) \<and>
     (sections_in s0 h \<noteq> [] \<longrightarrow> has_class ''stack'' d k))"

definition mirrored :: "reveal \<Rightarrow> node list \<Rightarrow> page \<Rightarrow> bool" where
  "mirrored s0 hs p \<longleftrightarrow>
     (let d = page_dom p; s = p_reveal p; b = r_background s in
      map Some (d_kids d b) = map (r_slideBackground s) hs \<and> (\<forall>h \<in> set hs. has_background s0 d s h))"

definition building :: "reveal \<Rightarrow> page \<Rightarrow> bool" where
  "building s0 p \<longleftrightarrow>
     (let d = page_dom p; s = p_reveal p in
      tree_ok d \<and> rebuilt s0 s \<and> r_root s \<in> set (d_nodes d) \<and> r_background s \<in> set (d_nodes d) \<and>
      r_wrapper s \<in> set (d_nodes d) \<and> \<not> is_section d (r_background s) \<and>
      r_wrapper s \<notin> set (d_desc d (r_background s)) \<and>
      (\<forall>x \<in> set (d_desc d (r_background s)). \<not> is_section d x))"

lemma desc_after_append:
  assumes "tree_ok d" "tree_ok d'" "d_kids d' = (d_kids d)(c := d_kids d c @ [el])" "el \<notin> set (d_nodes d)"
    "x \<in> set (d_desc d' n)"
  shows "x = el \<or> x \<in> set (d_desc d n)"
proof -
  have empty: "d_kids d el = []" using tree_okD(1) [OF assms(1,4)] .
  show ?thesis using assms(5)
  proof (induction n rule: desc_induct [OF assms(2)])
    case (1 n)
    then obtain k where k: "k \<in> set (d_kids d' n)" "x = k \<or> x \<in> set (d_desc d' k)"
      using desc_mem [OF assms(2), of x n] by blast
    show ?case
    proof (cases "k = el")
      case True
      then have "x = el \<or> x \<in> set (d_desc d el)" using k 1(1) [OF k(1)] by auto
      then show ?thesis using tree_okD(5) [OF assms(1), of el] empty by simp
    next
      case False
      then have "k \<in> set (d_kids d n)" using k(1) by (simp add: assms(3) split: if_splits)
      then show ?thesis using k(2) 1(1) [OF k(1)] desc_mem [OF assms(1), of x n] by auto
    qed
  qed
qed

lemma building_added:
  assumes "building s0 p" "added sl c el p p'"
  shows "building s0 p'"
proof -
  let ?d = "page_dom p" and ?d' = "page_dom p'" and ?s = "p_reveal p"
  have p': "p_reveal p' = ?s\<lparr>r_dom := ?d', r_slideBackground := (r_slideBackground ?s)(sl := Some el)\<rparr>"
    using assms(2) by (simp add: added_def Let_def)
  have same: "deck_same (r_wrapper ?s) (r_root ?s) ?d ?d'" using assms(2) by (simp add: added_def Let_def)
  then have "rebuilt ?s (p_reveal p')"
    unfolding rebuilt_def p' by (simp add: around_def timer_frame_def page_dom_def)
  then have "rebuilt s0 (p_reveal p')" using assms(1) by (auto simp: building_def Let_def intro: rebuilt_trans)
  moreover have "\<not> is_section ?d' x" if "x \<in> set (d_desc ?d' (r_background ?s))" for x
    using that assms desc_after_append [of ?d ?d' c el x "r_background ?s"]
    by (auto simp: added_def building_def Let_def)
  moreover have "r_wrapper ?s \<notin> set (d_desc ?d' (r_background ?s))"
    using assms desc_after_append [of ?d ?d' c el "r_wrapper ?s" "r_background ?s"]
    by (auto simp: added_def building_def Let_def)
  ultimately show ?thesis
    using assms unfolding building_def Let_def p' by (simp add: added_def Let_def)
qed

lemma create_nested_step:
  assumes "building s0 p" "stack \<in> set (d_nodes (page_dom p))" "stack \<noteq> r_background (p_reveal p)"
  shows "\<exists>el. el \<notin> set (d_nodes (page_dom p)) \<and> building s0 (create_nested stack v p) \<and>
    d_kids (page_dom (create_nested stack v p)) = (d_kids (page_dom p))(stack := d_kids (page_dom p) stack @ [el]) \<and>
    set (d_nodes (page_dom (create_nested stack v p))) = insert el (set (d_nodes (page_dom p))) \<and>
    (\<forall>m \<in> set (d_nodes (page_dom p)). has_class ''stack'' (page_dom p) m \<longrightarrow> has_class ''stack'' (page_dom (create_nested stack v p)) m) \<and>
    has_class ''stack'' (page_dom (create_nested stack v p)) stack \<and>
    p_reveal (create_nested stack v p) = (p_reveal p)\<lparr>r_dom := page_dom (create_nested stack v p),
      r_slideBackground := (r_slideBackground (p_reveal p))(v := Some el)\<rparr> \<and>
    p_view (create_nested stack v p) = p_view p"
proof -
  obtain el q where q: "createBackground v stack p = (el, q)" by fastforce
  have b: "tree_ok (page_dom p)" "r_root (p_reveal p) \<in> set (d_nodes (page_dom p))"
    using assms(1) by (simp_all add: building_def Let_def)
  have a: "added v stack el p q" by (rule createBackground_added [OF b(1) assms(2) b(2) q])
  have p': "create_nested stack v p = on_dom (add_class ''stack'' stack) q" by (simp add: create_nested_def q)
  have k: "dom_keep keep_deck (page_dom q) (add_class ''stack'' stack (page_dom q))" by (intro page) simp
  have sh: "same_shape (page_dom q) (add_class ''stack'' stack (page_dom q))" using k by (simp add: dom_keep_def)
  have fields: "d_nodes (add_class ''stack'' stack (page_dom q)) = d_nodes (page_dom q)"
    "d_kids (add_class ''stack'' stack (page_dom q)) = d_kids (page_dom q)"
    "d_desc (add_class ''stack'' stack (page_dom q)) = d_desc (page_dom q)"
    "is_section (add_class ''stack'' stack (page_dom q)) = is_section (page_dom q)"
    using sh by (auto simp: same_shape_def is_section_def)
  have bq: "building s0 q" by (rule building_added [OF assms(1) a])
  have "rebuilt (p_reveal q) (p_reveal (create_nested stack v p))"
    using deck_same_keep [OF k] by (simp add: p' rebuilt_def upd_dom_def around_def timer_frame_def page_dom_def)
  moreover have "rebuilt s0 (p_reveal q)" using bq by (simp add: building_def Let_def)
  ultimately have "rebuilt s0 (p_reveal (create_nested stack v p))" by (rule rebuilt_trans [rotated])
  then have "building s0 (create_nested stack v p)"
    using bq tree_ok_shape [OF sh]
    by (simp add: building_def Let_def p' fields sections_of_def) (simp add: upd_dom_def)
  then show ?thesis
    using a unfolding added_def Let_def
    by (intro exI [of _ el]) (simp add: p' fields, simp add: upd_dom_def on_dom_def on_reveal_def)
qed

text \<open>All backgrounds of a stack.\<close>

definition nested_done :: "reveal \<Rightarrow> node \<Rightarrow> node list \<Rightarrow> node list \<Rightarrow> page \<Rightarrow> page \<Rightarrow> bool" where
  "nested_done s0 stack vs els p p' \<longleftrightarrow>
     (let d = page_dom p; d' = page_dom p'; m = r_slideBackground (p_reveal p') in
      building s0 p' \<and> set els \<inter> set (d_nodes d) = {} \<and>
      d_kids d' = (d_kids d)(stack := d_kids d stack @ els) \<and> set (d_nodes d') = set (d_nodes d) \<union> set els \<and>
      (\<forall>k \<in> set (d_nodes d). has_class ''stack'' d k \<longrightarrow> has_class ''stack'' d' k) \<and>
      (vs \<noteq> [] \<longrightarrow> has_class ''stack'' d' stack) \<and> map m vs = map Some els \<and>
      (\<forall>x. x \<notin> set vs \<longrightarrow> m x = r_slideBackground (p_reveal p) x) \<and>
      p_reveal p' = (p_reveal p)\<lparr>r_dom := d', r_slideBackground := m\<rparr> \<and> p_view p' = p_view p)"

lemma create_nested_fold:
  assumes "building s0 p" "stack \<in> set (d_nodes (page_dom p))" "stack \<noteq> r_background (p_reveal p)" "distinct vs"
  shows "\<exists>els. nested_done s0 stack vs els p (fold (create_nested stack) vs p)"
  using assms
proof (induction vs arbitrary: p)
  case Nil
  have "p_reveal p = (p_reveal p)\<lparr>r_dom := page_dom p, r_slideBackground := r_slideBackground (p_reveal p)\<rparr>"
    by (simp add: page_dom_def)
  with Nil show ?case by (intro exI [of _ "[]"]) (simp add: nested_done_def Let_def)
next
  case (Cons v vs)
  define q where "q = create_nested stack v p"
  obtain el where el: "el \<notin> set (d_nodes (page_dom p))" "building s0 q"
    "d_kids (page_dom q) = (d_kids (page_dom p))(stack := d_kids (page_dom p) stack @ [el])"
    "set (d_nodes (page_dom q)) = insert el (set (d_nodes (page_dom p)))"
    "\<forall>m \<in> set (d_nodes (page_dom p)). has_class ''stack'' (page_dom p) m \<longrightarrow> has_class ''stack'' (page_dom q) m"
    "has_class ''stack'' (page_dom q) stack" "p_view q = p_view p"
    "p_reveal q = (p_reveal p)\<lparr>r_dom := page_dom q, r_slideBackground := (r_slideBackground (p_reveal p))(v := Some el)\<rparr>"
    using create_nested_step [OF Cons.prems(1-3), of v] unfolding q_def by blast
  have st: "stack \<in> set (d_nodes (page_dom q))" "stack \<noteq> r_background (p_reveal q)"
    using Cons.prems(2,3) by (simp_all add: el(4,8))
  obtain els where els: "nested_done s0 stack vs els q (fold (create_nested stack) vs q)"
    using Cons.IH [OF el(2) st] Cons.prems(4) by auto
  have "nested_done s0 stack (v # vs) (el # els) p (fold (create_nested stack) vs q)"
    using els el Cons.prems(2,4) unfolding nested_done_def Let_def by auto
  then show ?case by (auto simp: q_def)
qed

lemma nested_doneD:
  assumes "nested_done s0 stack vs els p p'"
  shows "building s0 p'" "d_kids (page_dom p') = (d_kids (page_dom p))(stack := d_kids (page_dom p) stack @ els)"
    "k \<in> set (d_nodes (page_dom p)) \<Longrightarrow> has_class ''stack'' (page_dom p) k \<Longrightarrow> has_class ''stack'' (page_dom p') k"
    "vs \<noteq> [] \<Longrightarrow> has_class ''stack'' (page_dom p') stack"
    "map (r_slideBackground (p_reveal p')) vs = map Some els"
    "x \<notin> set vs \<Longrightarrow> r_slideBackground (p_reveal p') x = r_slideBackground (p_reveal p) x"
    "r_background (p_reveal p') = r_background (p_reveal p)" "p_view p' = p_view p"
proof -
  have "p_reveal p' = (p_reveal p)\<lparr>r_dom := page_dom p', r_slideBackground := r_slideBackground (p_reveal p')\<rparr>"
    using assms unfolding nested_done_def Let_def by blast
  then have "r_background (p_reveal p') = r_background ((p_reveal p)
      \<lparr>r_dom := page_dom p', r_slideBackground := r_slideBackground (p_reveal p')\<rparr>)" by (rule arg_cong)
  then show "r_background (p_reveal p') = r_background (p_reveal p)" by simp
qed (use assms in \<open>unfold nested_done_def Let_def, blast\<close>)+

lemma deck_stacks_apart:
  assumes "deck_ok s" "h \<in> set (horizontalSlides s)" "h' \<in> set (horizontalSlides s)" "h \<noteq> h'"
  shows "h' \<notin> set (sections_in s h)" "h \<notin> set (sections_in s h)" "set (sections_in s h) \<inter> set (sections_in s h') = {}"
proof -
  show "h' \<notin> set (sections_in s h)" "h \<notin> set (sections_in s h)"
    using deck_distinct(3) [OF assms(1,2)] assms(2,3) by blast+
  have "v \<notin> set (sections_in s h')" if "v \<in> set (sections_in s h)" for v
    using deck_distinct(4) [OF assms(1,2) that] deck_distinct(4) [OF assms(1,3), of v] assms(4)
    by (auto simp: nested_in_def)
  then show "set (sections_in s h) \<inter> set (sections_in s h') = {}" by blast
qed

lemma create_stack_step:
  assumes "building s0 p" "mirrored s0 hs p" "deck_ok s0" "set hs \<subseteq> set (horizontalSlides s0)"
    "h \<in> set (horizontalSlides s0)" "h \<notin> set hs"
  shows "building s0 (create_stack h p)" "mirrored s0 (hs @ [h]) (create_stack h p)"
    "p_view (create_stack h p) = p_view p" "r_background (p_reveal (create_stack h p)) = r_background (p_reveal p)"
proof -
  let ?d = "page_dom p" and ?b = "r_background (p_reveal p)"
  have ok: "tree_ok ?d" "?b \<in> set (d_nodes ?d)" "r_root (p_reveal p) \<in> set (d_nodes ?d)"
    using assms(1) by (simp_all add: building_def Let_def)
  obtain stack q where q: "createBackground h ?b p = (stack, q)" by fastforce
  have a: "added h ?b stack p q" by (rule createBackground_added [OF ok q])
  have bq: "building s0 q" by (rule building_added [OF assms(1) a])
  then have "rebuilt s0 (p_reveal q)" unfolding building_def Let_def by blast
  note vs = rebuilt_slides(2) [OF this assms(5)]
  define r where "r = fold (create_nested stack) (sections_in s0 h) q"
  have p': "create_stack h p = r" by (simp add: create_stack_def q vs r_def)
  have new: "stack \<notin> set (d_nodes ?d)" "set (d_nodes (page_dom q)) = insert stack (set (d_nodes ?d))"
    and kq: "d_kids (page_dom q) = (d_kids ?d)(?b := d_kids ?d ?b @ [stack])"
    and sq: "p_reveal q = (p_reveal p)\<lparr>r_dom := page_dom q, r_slideBackground := (r_slideBackground (p_reveal p))(h := Some stack)\<rparr>"
    and cq: "\<forall>m \<in> set (d_nodes ?d). has_class ''stack'' (page_dom q) m = has_class ''stack'' ?d m" and "p_view q = p_view p"
    using a by (simp_all add: added_def Let_def)
  have sb: "stack \<noteq> ?b" using new(1) ok(2) by blast
  obtain els where els: "nested_done s0 stack (sections_in s0 h) els q r"
    using create_nested_fold [OF bq, of stack "sections_in s0 h"] new(2) sb sq deck_distinct(2) [OF assms(3,5)]
    by (auto simp: r_def)
  note N = nested_doneD [OF els]
  have no_kids: "d_kids ?d stack = []" by (rule tree_okD(1) [OF ok(1) new(1)])
  let ?m = "r_slideBackground (p_reveal p)" and ?m' = "r_slideBackground (p_reveal r)"
  have apart: "?m' x = ?m x" if "h' \<in> set hs" "x = h' \<or> x \<in> set (sections_in s0 h')" for h' x
  proof -
    have h': "h' \<in> set (horizontalSlides s0)" "h \<noteq> h'" using that(1) assms(4,6) by auto
    note D = deck_stacks_apart [OF assms(3,5) h'] deck_stacks_apart [OF assms(3) h'(1) assms(5) not_sym [OF h'(2)]]
    have "x \<notin> set (sections_in s0 h)" "x \<noteq> h" using that(2) h'(2) D by auto
    then show ?thesis using N(6) [of x] by (simp add: sq)
  qed
  have "h \<notin> set (sections_in s0 h)" using deck_distinct(3) [OF assms(3,5), of h] assms(5) by blast
  then have h_self: "?m' h = Some stack" using N(6) [of h] by (simp add: sq)
  have kids: "d_kids (page_dom r) = (d_kids ?d)(?b := d_kids ?d ?b @ [stack], stack := els)"
    unfolding N(2) kq using no_kids sb by (simp add: fun_eq_iff)
  have old: "map Some (d_kids ?d ?b) = map ?m hs" "\<And>h'. h' \<in> set hs \<Longrightarrow> has_background s0 ?d (p_reveal p) h'"
    using assms(2) by (simp_all add: mirrored_def Let_def)
  have stays_old: "has_background s0 (page_dom r) (p_reveal r) h'" if h': "h' \<in> set hs" for h'
  proof -
    obtain k where k: "?m h' = Some k" "map Some (d_kids ?d k) = map ?m (sections_in s0 h')"
      "sections_in s0 h' \<noteq> [] \<longrightarrow> has_class ''stack'' ?d k" using old(2) [OF h'] by (auto simp: has_background_def)
    have "Some k \<in> set (map Some (d_kids ?d ?b))" unfolding old(1) using h' k(1) by (metis image_eqI set_map)
    then have kb: "k \<in> set (d_kids ?d ?b)" by auto
    then have "k \<noteq> ?b" using kid_length [OF ok(1) kb] by auto
    have kn: "k \<in> set (d_nodes ?d)" using kb tree_okD(4) [OF ok(1), of k ?b] parent_nodes [OF ok(1)] by blast
    then have "k \<noteq> stack" using new(1) by blast
    have "map ?m' (sections_in s0 h') = map ?m (sections_in s0 h')" using apart [OF h'] by simp
    moreover have "sections_in s0 h' \<noteq> [] \<longrightarrow> has_class ''stack'' (page_dom r) k"
      using k(3) N(3) [of k] cq kn new(2) by simp
    moreover have "?m' h' = Some k" using apart [OF h', of h'] k(1) by simp
    moreover have "d_kids (page_dom r) k = d_kids ?d k" using kids \<open>k \<noteq> ?b\<close> \<open>k \<noteq> stack\<close> by simp
    ultimately show ?thesis unfolding has_background_def using k(2) by metis
  qed
  have "has_background s0 (page_dom r) (p_reveal r) h"
    unfolding has_background_def using N(4,5) h_self kids by (intro exI [of _ stack]) simp
  moreover have "map ?m' hs = map ?m hs" using apart by simp
  moreover have bb: "r_background (p_reveal r) = ?b" using N(7) by (simp add: sq)
  ultimately show "mirrored s0 (hs @ [h]) (create_stack h p)"
    unfolding p' mirrored_def Let_def bb using old(1) stays_old h_self kids sb by simp
  show "building s0 (create_stack h p)" "p_view (create_stack h p) = p_view p"
    "r_background (p_reveal (create_stack h p)) = ?b"
    unfolding p' using N(1,8) \<open>p_view q = p_view p\<close> bb by simp_all
qed

lemma create_stacks:
  assumes "building s0 p" "mirrored s0 hs0 p" "deck_ok s0" "set hs0 \<union> set hs \<subseteq> set (horizontalSlides s0)"
    "distinct hs" "set hs0 \<inter> set hs = {}"
  shows "building s0 (fold create_stack hs p) \<and> mirrored s0 (hs0 @ hs) (fold create_stack hs p) \<and>
    p_view (fold create_stack hs p) = p_view p \<and>
    r_background (p_reveal (fold create_stack hs p)) = r_background (p_reveal p)"
  using assms
proof (induction hs arbitrary: p hs0)
  case (Cons h hs)
  note st = create_stack_step [OF Cons.prems(1-3), of h]
  have "building s0 (create_stack h p)" "mirrored s0 (hs0 @ [h]) (create_stack h p)"
    using st Cons.prems(4-6) by auto
  from Cons.IH [OF this Cons.prems(3)] st(3,4) Cons.prems(4-6) show ?case by auto
qed simp

section \<open>What is assumed of the page\<close>

text \<open>
  The document is a tree, the container of the backgrounds is in it and is neither a section nor around
  the presentation.
\<close>

definition page_ok :: "page \<Rightarrow> bool" where
  "page_ok p \<longleftrightarrow>
     (let d = page_dom p; s = p_reveal p in
      tree_ok d \<and> r_root s \<in> set (d_nodes d) \<and> r_background s \<in> set (d_nodes d) \<and>
      r_wrapper s \<in> set (d_nodes d) \<and> \<not> is_section d (r_background s) \<and> r_wrapper s \<notin> set (d_desc d (r_background s)))"

lemma backgrounds_bare:
  assumes "tree_ok (r_dom s)" "deck_ok s" "x \<in> set (d_desc (r_dom s) (r_background s))"
  shows "\<not> is_section (r_dom s) x"
  using assms(3) deck_okD(5) [OF assms(2)] desc_mem [OF assms(1), of x "r_background s"]
  by (auto simp: background_ok_def)

lemma clear_building:
  assumes "page_ok p" "deck_ok (p_reveal p)"
  defines "b \<equiv> r_background (p_reveal p)"
  defines "q \<equiv> on_dom (add_class ''no-transition'' b) (on_dom (clear_children b) p)"
  shows "building (p_reveal p) q" "mirrored (p_reveal p) [] q" "p_view q = p_view p" "r_background (p_reveal q) = b"
proof -
  let ?d = "page_dom p" and ?s = "p_reveal p"
  have ok: "tree_ok ?d" "r_root ?s \<in> set (d_nodes ?d)" "b \<in> set (d_nodes ?d)" "\<not> is_section ?d b"
    "r_wrapper ?s \<notin> set (d_desc ?d b)" "r_wrapper ?s \<in> set (d_nodes ?d)"
    using assms(1) by (simp_all add: page_ok_def Let_def b_def)
  have bare: "\<not> is_section ?d x" if "x \<in> set (d_desc ?d b)" for x
    using that backgrounds_bare [of ?s x] ok(1) assms(2) by (simp add: page_dom_def b_def)
  let ?c = "clear_children b ?d"
  have D: "page_dom q = add_class ''no-transition'' b ?c" by (simp add: q_def)
  have k: "dom_keep keep_keys ?c (page_dom q)" unfolding D by (intro page) simp
  then have sh: "same_shape ?c (page_dom q)" by (simp add: dom_keep_def)
  have t: "tree_ok (page_dom q)" using tree_ok_shape [OF sh] clear_children_ok [OF ok(1)] by simp
  have "deck_same (r_wrapper ?s) (r_root ?s) ?d (page_dom q)"
    by (rule deck_same_trans [OF deck_same_clear [OF ok(1) bare ok(4,5)] deck_same_keep [OF keep_keys_deck [OF k]]])
  then have "rebuilt ?s (p_reveal q)"
    by (simp add: rebuilt_def q_def around_def timer_frame_def upd_dom_def page_dom_def)
  moreover have "d_desc (page_dom q) = d_desc ?c" "d_kids (page_dom q) = d_kids ?c" "d_nodes (page_dom q) = d_nodes ?c"
    "is_section (page_dom q) = is_section ?c"
    using sh by (auto simp: same_shape_def is_section_def)
  then have f: "d_nodes (page_dom q) = d_nodes ?d" "d_desc (page_dom q) b = []" "d_kids (page_dom q) b = []"
    "is_section (page_dom q) b = is_section ?d b"
    using clear_children_desc(2) [OF ok(1), of b] by (auto simp: clear_children_def is_section_def)
  moreover show "r_background (p_reveal q) = b" "p_view q = p_view p"
    by (simp_all add: q_def b_def upd_dom_def on_dom_def on_reveal_def)
  moreover have "r_root (p_reveal q) = r_root ?s" "r_wrapper (p_reveal q) = r_wrapper ?s" by (simp_all add: q_def upd_dom_def)
  ultimately show "building ?s q" "mirrored ?s [] q"
    using t f ok(2-4,6) by (simp_all add: building_def mirrored_def Let_def)
qed

text \<open>What a run of \<open>createBackgrounds\<close> gives.\<close>

lemma createBackgrounds_result:
  assumes "page_ok p" "deck_ok (p_reveal p)"
  shows "building (p_reveal p) (createBackgrounds p)"
    "mirrored (p_reveal p) (horizontalSlides (p_reveal p)) (createBackgrounds p)" "p_view (createBackgrounds p) = p_view p"
proof -
  let ?s = "p_reveal p"
  define b where "b = r_background ?s"
  define q where "q = on_dom (add_class ''no-transition'' b) (on_dom (clear_children b) p)"
  note c = clear_building [OF assms, folded b_def, folded q_def]
  have hs: "horizontalSlides (p_reveal q) = horizontalSlides ?s"
    using c(1) rebuilt_slides(1) [of ?s] unfolding building_def Let_def by blast
  define r where "r = fold create_stack (horizontalSlides ?s) q"
  have R: "building ?s r" "mirrored ?s (horizontalSlides ?s) r" "p_view r = p_view p" "r_background (p_reveal r) = b"
    using create_stacks [OF c(1,2) assms(2), of "horizontalSlides ?s"] deck_distinct(1) [OF assms(2)] c(3,4)
    by (simp_all add: r_def)
  define e where "e = createBackgrounds p"
  have e: "e = (if c_parallaxImage (p_view r) \<noteq> [] then later Timer_parallax
      (set_style ''backgroundSize'' (Css (c_parallaxSize (p_view r))) b
        (set_style ''backgroundImage'' (Css (''url(\"'' @ c_parallaxImage (p_view r) @ ''\")'')) b r))
    else on_dom (remove_class ''has-parallax-background'' (r_wrapper (p_reveal r))) (set_style ''backgroundImage'' (Css []) b r))"
    unfolding e_def createBackgrounds_def Let_def b_def [symmetric] q_def [symmetric] hs r_def [symmetric]
    by (simp add: set_style_def)
  have k: "dom_keep keep_keys (page_dom r) (page_dom e)" unfolding e by (auto intro!: page)
  then have sh: "same_shape (page_dom r) (page_dom e)" by (simp add: dom_keep_def)
  have rev: "p_reveal e = (p_reveal r)\<lparr>r_dom := page_dom e\<rparr>"
    unfolding e by (simp add: upd_dom_def page_dom_def)
  have f: "d_nodes (page_dom e) = d_nodes (page_dom r)" "d_desc (page_dom e) = d_desc (page_dom r)"
    "d_kids (page_dom e) = d_kids (page_dom r)" "is_section (page_dom e) = is_section (page_dom r)"
    "tree_ok (page_dom e) = tree_ok (page_dom r)"
    using sh tree_ok_shape [OF sh] by (auto simp: same_shape_def is_section_def)
  have st: "has_class ''stack'' (page_dom e) m = has_class ''stack'' (page_dom r) m" for m
    using k unfolding dom_keep_def keep_keys_def by blast
  have "rebuilt (p_reveal r) (p_reveal e)"
    using deck_same_keep [OF keep_keys_deck [OF k]] unfolding rebuilt_def rev
    by (simp add: around_def timer_frame_def page_dom_def)
  moreover have "rebuilt ?s (p_reveal r)" using R(1) unfolding building_def Let_def by blast
  ultimately have "rebuilt ?s (p_reveal e)" by (rule rebuilt_trans [rotated])
  moreover have "r_root (p_reveal e) = r_root (p_reveal r)" "r_background (p_reveal e) = r_background (p_reveal r)"
    "r_wrapper (p_reveal e) = r_wrapper (p_reveal r)" "r_slideBackground (p_reveal e) = r_slideBackground (p_reveal r)"
    unfolding rev by simp_all
  ultimately show "building ?s (createBackgrounds p)" "mirrored ?s (horizontalSlides ?s) (createBackgrounds p)"
    using R(1,2) unfolding e_def [symmetric] building_def mirrored_def has_background_def Let_def f sections_of_def st
    by auto
  show "p_view (createBackgrounds p) = p_view p"
    unfolding e_def [symmetric] e using R(3) by (simp add: later_def set_style_def on_dom_def on_reveal_def)
qed

lemma building_ok:
  assumes "building s p" "page_ok p0" "s = p_reveal p0" "deck_ok s"
  shows "page_ok p" "deck_ok (p_reveal p)" "reveal_inv s \<Longrightarrow> reveal_inv (p_reveal p)"
proof -
  let ?d = "page_dom p" and ?s = "p_reveal p"
  have b: "tree_ok ?d" "rebuilt s ?s" "r_root ?s \<in> set (d_nodes ?d)" "r_background ?s \<in> set (d_nodes ?d)"
    "\<And>x. x \<in> set (d_desc ?d (r_background ?s)) \<Longrightarrow> \<not> is_section ?d x"
    using assms(1) unfolding building_def Let_def by blast+
  have f: "r_background ?s = r_background s" "r_wrapper ?s = r_wrapper s"
    using b(2) by (auto simp: rebuilt_def around_def)
  have kid: "background_ok (r_dom ?s) k" if "k \<in> set (d_kids (r_dom ?s) (r_background s))" for k
  proof -
    have "k \<in> set (d_desc ?d (r_background ?s))" "set (d_desc ?d k) \<subseteq> set (d_desc ?d (r_background ?s))"
      using that desc_mem [OF b(1), of _ "r_background ?s"] f by (auto simp: page_dom_def)
    then show ?thesis using b(5) unfolding background_ok_def page_dom_def by blast
  qed
  have t: "tree_ok (r_dom ?s)" using b(1) by (simp add: page_dom_def)
  show "deck_ok ?s" by (rule rebuilt_deck [OF b(2) assms(4) t kid])
  show "reveal_inv ?s" if "reveal_inv s" by (rule rebuilt_inv [OF b(2) that t kid])
  show "page_ok p" using assms(1) unfolding building_def page_ok_def Let_def by blast
qed

section \<open>Properties\<close>

text \<open>
  C24: \<open>createBackgrounds\<close> makes the container mirror the slides: it holds one background per horizontal
  slide, in their order, which holds one per slide of its stack and is marked as a stack when there are
  any; each slide knows its own.  The slides stay as they were, and so do the shape of the deck and the
  invariant of the presentation.
\<close>

theorem backgrounds_mirror:
  assumes "page_ok p" "deck_ok (p_reveal p)"
  shows "let s = p_reveal p; s' = p_reveal (createBackgrounds p); d' = r_dom s' in
    horizontalSlides s' = horizontalSlides s \<and>
    map Some (d_kids d' (r_background s)) = map (r_slideBackground s') (horizontalSlides s) \<and>
    (\<forall>h \<in> set (horizontalSlides s). sections_in s' h = sections_in s h \<and>
       (\<exists>k. r_slideBackground s' h = Some k \<and>
          map Some (d_kids d' k) = map (r_slideBackground s') (sections_in s h) \<and>
          (sections_in s h \<noteq> [] \<longrightarrow> has_class ''stack'' d' k))) \<and>
    deck_ok s' \<and> (reveal_inv s \<longrightarrow> reveal_inv s')"
proof -
  let ?s = "p_reveal p" and ?s' = "p_reveal (createBackgrounds p)"
  note R = createBackgrounds_result [OF assms]
  have r: "rebuilt ?s ?s'" using R(1) unfolding building_def Let_def by blast
  then have "r_background ?s' = r_background ?s" by (simp add: rebuilt_def around_def)
  then have "map Some (d_kids (r_dom ?s') (r_background ?s)) = map (r_slideBackground ?s') (horizontalSlides ?s)"
    "\<And>h. h \<in> set (horizontalSlides ?s) \<Longrightarrow> has_background ?s (r_dom ?s') ?s' h"
    using R(2) by (simp_all add: mirrored_def Let_def page_dom_def)
  then show ?thesis
    unfolding Let_def using rebuilt_slides [OF r] building_ok(2,3) [OF R(1) assms(1) refl assms(2)]
    by (simp add: has_background_def)
qed

definition example_page :: page where
  "example_page = undefined\<lparr>p_reveal := example_deck undefined\<rparr>"

lemma example_tree: "tree_ok example_dom"
  unfolding tree_ok_def by (intro conjI allI; simp add: example_dom_def; linarith?)

lemma example_page_ok: "page_ok example_page" "deck_ok (p_reveal example_page)"
proof -
  have r: "p_reveal example_page = example_deck undefined" by (simp add: example_page_def)
  show "deck_ok (p_reveal example_page)" using example_initial unfolding r initial_ok_def by blast
  have "page_dom example_page = example_dom" by (simp add: page_dom_def r example_deck_def)
  then show "page_ok example_page"
    unfolding page_ok_def Let_def r
    by (simp add: example_tree) (simp add: example_deck_def example_dom_def is_section_def)
qed

theorem backgrounds_mirror_witness:
  "map Some (d_kids (r_dom (p_reveal (createBackgrounds example_page))) 7) =
      map (r_slideBackground (p_reveal (createBackgrounds example_page))) [3, 4] \<and>
    (\<exists>k. r_slideBackground (p_reveal (createBackgrounds example_page)) 4 = Some k \<and>
      map Some (d_kids (r_dom (p_reveal (createBackgrounds example_page))) k) =
        map (r_slideBackground (p_reveal (createBackgrounds example_page))) [5, 6] \<and>
      has_class ''stack'' (r_dom (p_reveal (createBackgrounds example_page))) k)"
proof -
  have "p_reveal example_page = example_deck undefined" by (simp add: example_page_def)
  moreover have "r_background (example_deck undefined) = 7" by (simp add: example_deck_def)
  ultimately show ?thesis
    using backgrounds_mirror [OF example_page_ok] by (simp add: Let_def example_slides)
qed

end
