(* ===== verification/Reveal_Listeners.thy ===== *)
theory Reveal_Listeners
  imports Reveal_Page Reveal_Media
begin

text \<open>
  Binding and unbinding the listeners of the presentation: \<open>addEventListeners\<close>,
  \<open>removeEventListeners\<close>, and the links that open a preview.  A listener is registered once, however
  often it is added.
\<close>

section \<open>The listeners\<close>

definition user_agent_has :: "string \<Rightarrow> page \<Rightarrow> bool" where
  "user_agent_has pat p = contains pat (map lower_char (b_userAgent (p_browser p)))"

definition wrapper_of :: "page \<Rightarrow> target" where
  "wrapper_of p = Element (r_wrapper (p_reveal p))"

definition pointer_listeners :: "page \<Rightarrow> listener list" where
  "pointer_listeners p =
     (if b_pointerEnabled (p_browser p) then
        [(wrapper_of p, ''pointerdown'', ''onPointerDown''), (wrapper_of p, ''pointermove'', ''onPointerMove''),
         (wrapper_of p, ''pointerup'', ''onPointerUp'')]
      else if b_msPointerEnabled (p_browser p) then
        [(wrapper_of p, ''MSPointerDown'', ''onPointerDown''), (wrapper_of p, ''MSPointerMove'', ''onPointerMove''),
         (wrapper_of p, ''MSPointerUp'', ''onPointerUp'')]
      else [])"

definition touch_listeners :: "page \<Rightarrow> listener list" where
  "touch_listeners p =
     [(wrapper_of p, ''touchstart'', ''onTouchStart''), (wrapper_of p, ''touchmove'', ''onTouchMove''),
      (wrapper_of p, ''touchend'', ''onTouchEnd'')] @ pointer_listeners p"

definition key_listeners :: "listener list" where
  "key_listeners = [(Document, ''keydown'', ''onDocumentKeyDown''), (Document, ''keypress'', ''onDocumentKeyPress'')]"

definition window_listeners :: "listener list" where
  "window_listeners = [(Window, ''hashchange'', ''onWindowHashChange''), (Window, ''resize'', ''onWindowResize'')]"

definition progress_listeners :: "page \<Rightarrow> listener list" where
  "progress_listeners p =
     (case p_progress p of
        Some n \<Rightarrow> if c_progress (r_config (p_reveal p)) then [(Element n, ''click'', ''onProgressClicked'')] else []
      | None \<Rightarrow> [])"

text \<open>The event depends on the property the document has.\<close>

definition visibility_listeners :: "page \<Rightarrow> listener list" where
  "visibility_listeners p =
     (let props = b_document (p_browser p); bind = (\<lambda>ev. [(Document, ev, ''onPageVisibilityChange'')]) in
      if \<not> c_focusBody (p_view p) then []
      else if ''hidden'' \<in> set props then bind ''visibilitychange''
      else if ''msHidden'' \<in> set props then bind ''msvisibilitychange''
      else if ''webkitHidden'' \<in> set props then bind ''webkitvisibilitychange''
      else [])"

definition control_listeners :: "string list \<Rightarrow> page \<Rightarrow> listener list" where
  "control_listeners events p =
     (let s = p_reveal p; bind = (\<lambda>ev f ns. map (\<lambda>n. (Element n, ev, f)) ns) in
      concat (map (\<lambda>ev.
        bind ev ''onNavigateLeftClicked'' (r_controlsLeft s) @ bind ev ''onNavigateRightClicked'' (r_controlsRight s) @
        bind ev ''onNavigateUpClicked'' (r_controlsUp s) @ bind ev ''onNavigateDownClicked'' (r_controlsDown s) @
        bind ev ''onNavigatePrevClicked'' (r_controlsPrev s) @ bind ev ''onNavigateNextClicked'' (r_controlsNext s)) events))"

section \<open>Binding and unbinding\<close>

definition add_all :: "listener list \<Rightarrow> page \<Rightarrow> page" where
  "add_all ls p = fold (\<lambda>(t, ev, f) p. addEventListener t ev f p) ls p"

definition remove_all :: "listener list \<Rightarrow> page \<Rightarrow> page" where
  "remove_all ls p = fold (\<lambda>(t, ev, f) p. removeEventListener t ev f p) ls p"

definition addEventListeners :: "page \<Rightarrow> page" where
  "addEventListeners p =
     (let p = on_reveal (\<lambda>s. s\<lparr>eventsAreBound := True\<rparr>) p;
          p = add_all window_listeners p;
          p = (if c_touch (p_view p) then add_all (touch_listeners p) p else p);
          p = (if c_keyboard (p_view p) then add_all key_listeners p else p);
          p = add_all (progress_listeners p) p;
          p = add_all (visibility_listeners p) p;
          pointerEvents = (if user_agent_has ''android'' p then [''touchstart''] else [''touchstart'', ''click''])
      in add_all (control_listeners pointerEvents p) p)"

definition removeEventListeners :: "page \<Rightarrow> page" where
  "removeEventListeners p =
     (let p = on_reveal (\<lambda>s. s\<lparr>eventsAreBound := False\<rparr>) p;
          p = remove_all key_listeners p;
          p = remove_all window_listeners p;
          p = remove_all (touch_listeners p) p;
          p = remove_all (progress_listeners p) p
      in remove_all (control_listeners [''touchstart'', ''click''] p) p)"

text \<open>The links of the preview: \<open>/^(http|www)/gi\<close> of their address.\<close>

definition preview_address :: "string option \<Rightarrow> bool" where
  "preview_address a \<longleftrightarrow>
     (let x = map lower_char (case a of Some x \<Rightarrow> x | None \<Rightarrow> ''null'')
      in take 4 x = ''http'' \<or> take 3 x = ''www'')"

definition preview_links :: "(dom \<Rightarrow> node \<Rightarrow> bool) \<Rightarrow> page \<Rightarrow> listener list" where
  "preview_links sel p =
     (let d = page_dom p in
      map (\<lambda>n. (Element n, ''click'', ''onPreviewLinkClicked''))
        (filter (\<lambda>n. preview_address (d_attr d n ''href'')) (query_all sel d (r_root (p_reveal p)))))"

definition enablePreviewLinks :: "(dom \<Rightarrow> node \<Rightarrow> bool) \<Rightarrow> page \<Rightarrow> page" where
  "enablePreviewLinks sel p = add_all (preview_links sel p) p"

definition disablePreviewLinks :: "(dom \<Rightarrow> node \<Rightarrow> bool) \<Rightarrow> page \<Rightarrow> page" where
  "disablePreviewLinks sel p = remove_all (preview_links sel p) p"

section \<open>The registered listeners\<close>

lemma add_all_listeners: "set (p_listeners (add_all ls p)) = set (p_listeners p) \<union> set ls"
  by (induction ls arbitrary: p) (auto simp: add_all_def addEventListener_def)

lemma remove_all_listeners: "set (p_listeners (remove_all ls p)) = set (p_listeners p) - set ls"
  by (induction ls arbitrary: p) (auto simp: remove_all_def removeEventListener_def)

lemma add_all_frame [simp]:
  "p_reveal (add_all ls p) = p_reveal p" "p_view (add_all ls p) = p_view p" "p_browser (add_all ls p) = p_browser p"
  "p_progress (add_all ls p) = p_progress p" "page_dom (add_all ls p) = page_dom p"
  by (induction ls arbitrary: p) (auto simp: add_all_def addEventListener_def page_dom_def)

lemma remove_all_frame [simp]:
  "p_reveal (remove_all ls p) = p_reveal p" "p_view (remove_all ls p) = p_view p"
  "p_browser (remove_all ls p) = p_browser p" "p_progress (remove_all ls p) = p_progress p"
  "page_dom (remove_all ls p) = page_dom p"
  by (induction ls arbitrary: p) (auto simp: remove_all_def removeEventListener_def page_dom_def)

lemma bound_frame [simp]:
  "p_view (on_reveal h p) = p_view p" "p_browser (on_reveal h p) = p_browser p" "p_progress (on_reveal h p) = p_progress p"
  "p_listeners (on_reveal h p) = p_listeners p"
  by (simp_all add: on_reveal_def)

text \<open>They depend on the page only through what neither operation changes.\<close>

lemma listeners_cong:
  assumes "p_view q = p_view p" "p_browser q = p_browser p" "p_progress q = p_progress p"
    "p_reveal q = (p_reveal p)\<lparr>eventsAreBound := b\<rparr>"
  shows "touch_listeners q = touch_listeners p" "progress_listeners q = progress_listeners p"
    "visibility_listeners q = visibility_listeners p" "control_listeners events q = control_listeners events p"
    "user_agent_has pat q = user_agent_has pat p"
  unfolding touch_listeners_def pointer_listeners_def wrapper_of_def progress_listeners_def
    visibility_listeners_def control_listeners_def Let_def user_agent_has_def assms
  by (simp_all cong: option.case_cong)

lemma lists_frame [simp]:
  "touch_listeners (add_all ls q) = touch_listeners q" "touch_listeners (remove_all ls q) = touch_listeners q"
  "progress_listeners (add_all ls q) = progress_listeners q" "progress_listeners (remove_all ls q) = progress_listeners q"
  "visibility_listeners (add_all ls q) = visibility_listeners q"
  "control_listeners evs (add_all ls q) = control_listeners evs q"
  "control_listeners evs (remove_all ls q) = control_listeners evs q"
  "user_agent_has pat (add_all ls q) = user_agent_has pat q"
  by (simp_all add: touch_listeners_def pointer_listeners_def wrapper_of_def progress_listeners_def
      visibility_listeners_def control_listeners_def user_agent_has_def cong: option.case_cong)

lemma lists_bound [simp]:
  "touch_listeners (on_reveal (\<lambda>s. s\<lparr>eventsAreBound := b\<rparr>) p) = touch_listeners p"
  "progress_listeners (on_reveal (\<lambda>s. s\<lparr>eventsAreBound := b\<rparr>) p) = progress_listeners p"
  "visibility_listeners (on_reveal (\<lambda>s. s\<lparr>eventsAreBound := b\<rparr>) p) = visibility_listeners p"
  "control_listeners evs (on_reveal (\<lambda>s. s\<lparr>eventsAreBound := b\<rparr>) p) = control_listeners evs p"
  "user_agent_has pat (on_reveal (\<lambda>s. s\<lparr>eventsAreBound := b\<rparr>) p) = user_agent_has pat p"
  by (rule listeners_cong [where b = b]; simp)+

definition all_listeners :: "page \<Rightarrow> listener set" where
  "all_listeners p = set window_listeners \<union> set key_listeners \<union> set (touch_listeners p) \<union> set (progress_listeners p) \<union>
     set (control_listeners [''touchstart'', ''click''] p)"

definition wanted_listeners :: "page \<Rightarrow> listener set" where
  "wanted_listeners p = set window_listeners \<union> (if c_touch (p_view p) then set (touch_listeners p) else {}) \<union>
     (if c_keyboard (p_view p) then set key_listeners else {}) \<union> set (progress_listeners p) \<union>
     set (visibility_listeners p) \<union>
     set (control_listeners (if user_agent_has ''android'' p then [''touchstart''] else [''touchstart'', ''click'']) p)"

lemma controls_mono: "set evs \<subseteq> set evs' \<Longrightarrow> set (control_listeners evs p) \<subseteq> set (control_listeners evs' p)"
  by (auto simp: control_listeners_def Let_def)

lemma added_listeners: "set (p_listeners (addEventListeners p)) = set (p_listeners p) \<union> wanted_listeners p"
  by (simp add: addEventListeners_def Let_def wanted_listeners_def add_all_listeners Un_assoc Un_left_commute)

lemma removed_listeners: "set (p_listeners (removeEventListeners p)) = set (p_listeners p) - all_listeners p"
  unfolding removeEventListeners_def Let_def all_listeners_def remove_all_listeners by auto

lemma bind_frame:
  "p_reveal (addEventListeners p) = (p_reveal p)\<lparr>eventsAreBound := True\<rparr>"
  "p_reveal (removeEventListeners p) = (p_reveal p)\<lparr>eventsAreBound := False\<rparr>"
  "p_view (addEventListeners p) = p_view p" "p_view (removeEventListeners p) = p_view p"
  "p_browser (addEventListeners p) = p_browser p" "p_browser (removeEventListeners p) = p_browser p"
  "p_progress (addEventListeners p) = p_progress p" "p_progress (removeEventListeners p) = p_progress p"
  by (simp_all add: addEventListeners_def removeEventListeners_def Let_def)

text \<open>The visibility listener is bound but never unbound.\<close>

lemma visibility_apart: "set (visibility_listeners p) \<inter> all_listeners p = {}"
  by (auto simp: visibility_listeners_def all_listeners_def window_listeners_def key_listeners_def touch_listeners_def
      pointer_listeners_def progress_listeners_def control_listeners_def Let_def split: option.splits if_splits)

section \<open>Properties\<close>


end
