(* ===== verification/Reveal_Layout.thy ===== *)
theory Reveal_Layout
  imports Reveal_Page Reveal_Input
begin

text \<open>
  The layout in pixels: the size of slides, their scale, stretched elements, centering, and the
  parallax background.  What the browser measures are fields of \<open>browser\<close>.
\<close>

section \<open>The size of slides\<close>

definition size_number :: "size \<Rightarrow> xnum" where
  "size_number x = (case x of Pixels r \<Rightarrow> Fin r | Text t \<Rightarrow> x_of_text t)"

definition percentage :: "size \<Rightarrow> xnum \<Rightarrow> xnum" where
  "percentage x whole = (case x of
     Text t \<Rightarrow> x_mul (x_div (x_of (js_parse_int t)) (Fin 100)) whole | Pixels r \<Rightarrow> Fin r)"

definition is_percentage :: "size \<Rightarrow> bool" where
  "is_percentage x = (case x of Text t \<Rightarrow> t \<noteq> [] \<and> last t = CHR 0x25 | Pixels _ \<Rightarrow> False)"

text \<open>
  \<open>getComputedSlideSize\<close>; an argument that is missing or 0 is replaced by what the wrapper measures.
  A width that is a percentage becomes a number, any other text stays.
\<close>

datatype measure = Given size | Computed xnum

fun measured :: "measure \<Rightarrow> xnum" where
  "measured (Given x) = size_number x"
| "measured (Computed x) = x"

definition available :: "int option \<Rightarrow> int \<Rightarrow> rat \<Rightarrow> xnum" where
  "available arg offset margin =
     (let r = (case arg of Some n \<Rightarrow> if n = 0 then of_int offset else of_int n | None \<Rightarrow> of_int offset)
      in Fin (r - r * margin))"

definition measure_of :: "size \<Rightarrow> xnum \<Rightarrow> measure" where
  "measure_of x whole = (if is_percentage x then Computed (percentage x whole) else Given x)"

definition getComputedSlideSize ::
  "int option \<Rightarrow> int option \<Rightarrow> page \<Rightarrow> measure \<times> measure \<times> xnum \<times> xnum" where
  "getComputedSlideSize pw ph p =
     (let v = p_view p; w = r_wrapper (p_reveal p); b = p_browser p;
          presentationWidth = available pw (b_offsetWidth b w) (c_margin v);
          presentationHeight = available ph (b_offsetHeight b w) (c_margin v)
      in (measure_of (c_width v) presentationWidth, measure_of (c_height v) presentationHeight,
          presentationWidth, presentationHeight))"

section \<open>Stretched elements\<close>

text \<open>
  \<open>style.height = oldHeight + 'px'\<close>: the old value is a text that already has its unit, unless it is a
  bare number; a value the browser cannot read is ignored.
\<close>

definition restore_height :: "css \<Rightarrow> node \<Rightarrow> page \<Rightarrow> page" where
  "restore_height old n p =
     (case old of
        Css t \<Rightarrow> if t \<noteq> [] \<and> list_all is_digit t
                 then set_style ''height'' (Px (Fin (of_int (parse_digits 0 t)))) n p else p
      | _ \<Rightarrow> p)"

definition getRemainingHeight :: "node option \<Rightarrow> xnum \<Rightarrow> page \<Rightarrow> xnum \<times> page" where
  "getRemainingHeight el height p =
     (case el of
        None \<Rightarrow> (height, p)
      | Some n \<Rightarrow>
          let old = p_style p n ''height'';
              p = set_style ''height'' (Px (Fin 0)) n p;
              taken = (case d_parent (page_dom p) n of Some q \<Rightarrow> b_offsetHeight (p_browser p) q | None \<Rightarrow> 0)
          in (x_sub height (Fin (of_int taken)), restore_height old n p))"

definition stretch_sel :: "dom \<Rightarrow> node \<Rightarrow> bool" where
  "stretch_sel d n \<longleftrightarrow> has_class ''stretch'' d n \<and> parent_is_section d n"

definition stretch_element :: "xnum \<Rightarrow> xnum \<Rightarrow> node \<Rightarrow> page \<Rightarrow> page" where
  "stretch_element width height n p =
     (let (remaining, p) = getRemainingHeight (Some n) height p
      in if contains ''img'' (d_tag (page_dom p) n) \<or> contains ''video'' (d_tag (page_dom p) n) then
           let (nw, nh) = b_naturalSize (p_browser p) n;
               es = x_min (x_div width nw) (x_div remaining nh)
           in set_style ''height'' (Px (x_mul nh es)) n (set_style ''width'' (Px (x_mul nw es)) n p)
         else set_style ''height'' (Px remaining) n (set_style ''width'' (Px width) n p))"

definition layoutSlideContents :: "xnum \<Rightarrow> xnum \<Rightarrow> page \<Rightarrow> page" where
  "layoutSlideContents width height p =
     fold (stretch_element width height) (query_all stretch_sel (page_dom p) (r_slides (p_reveal p))) p"

section \<open>Transforms and parallax\<close>

definition transformSlides :: "xnum option option \<Rightarrow> bool option \<Rightarrow> page \<Rightarrow> page" where
  "transformSlides lay ov p =
     (let p = (case lay of Some x \<Rightarrow> p\<lparr>p_layoutTransform := x\<rparr> | None \<Rightarrow> p);
          p = (case ov of Some x \<Rightarrow> p\<lparr>p_overviewTransform := x\<rparr> | None \<Rightarrow> p)
      in set_style ''transform'' (Transforms (p_layoutTransform p) (p_overviewTransform p)) (r_slides (p_reveal p)) p)"

definition background_size :: "css \<Rightarrow> xnum \<times> xnum" where
  "background_size x =
     (let parts = split_on (CHR '' '') (case x of Css t \<Rightarrow> t | _ \<Rightarrow> []);
          num = (\<lambda>i. x_of (js_parse_int (parts ! i)))
      in if length parts = 1 then (num 0, num 0) else (num 0, num 1))"

definition parallax_step :: "rat option \<Rightarrow> bool \<Rightarrow> xnum \<Rightarrow> int \<Rightarrow> int \<Rightarrow> xnum" where
  "parallax_step configured guarded extent shown count =
     (case configured of
        Some r \<Rightarrow> Fin r
      | None \<Rightarrow> if guarded \<and> count \<le> 1 then Fin 0
                else x_div (x_sub extent (Fin (of_int shown))) (Fin (of_int (count - 1))))"

definition updateParallax :: "page \<Rightarrow> page" where
  "updateParallax p =
     (if c_parallaxImage (p_view p) \<noteq> [] then
        let s = p_reveal p; b = r_background s;
            (width, height) = background_size (p_style p b ''backgroundSize'');
            hcount = int (length (horizontalSlides s)); vcount = int (length (verticalSlides s));
            hstep = parallax_step (c_parallaxHorizontal (p_view p)) True width (b_offsetWidth (p_browser p) b) hcount;
            x = x_mul (x_mul hstep (x_of (indexh s))) (Fin (-1));
            vstep = parallax_step (c_parallaxVertical (p_view p)) False height (b_offsetHeight (p_browser p) b) vcount;
            y = (if vcount > 0 then x_mul vstep (x_of (indexv s)) else Fin 0)
        in set_style ''backgroundPosition'' (Position x (x_neg y)) b p
      else p)"

section \<open>\<open>layout\<close>\<close>

definition content_scale :: "xnum \<Rightarrow> xnum \<Rightarrow> xnum \<Rightarrow> xnum \<Rightarrow> view_config \<Rightarrow> xnum" where
  "content_scale width height pw ph v =
     x_min (x_max (x_min (x_div pw width) (x_div ph height)) (Fin (c_minScale v))) (Fin (c_maxScale v))"

definition clear_place :: "node \<Rightarrow> page \<Rightarrow> page" where
  "clear_place n p = fold (\<lambda>a. set_style a (Css []) n) [''left'', ''top'', ''bottom'', ''right''] p"

text \<open>The scale is applied by zooming, by a transform, or not at all.\<close>

definition apply_scale :: "page \<Rightarrow> page" where
  "apply_scale p =
     (let n = r_slides (p_reveal p) in
      if p_scale p = Fin 1 then
        transformSlides (Some None) None (clear_place n (set_style ''zoom'' (Css []) n p))
      else if x_less (Fin 1) (p_scale p) \<and> p_zoom p then
        transformSlides (Some None) None (clear_place n (set_style ''zoom'' (Plain (p_scale p)) n p))
      else
        let p = set_style ''zoom'' (Css []) n p;
            p = set_style ''left'' (Css ''50%'') n p;
            p = set_style ''top'' (Css ''50%'') n p;
            p = set_style ''bottom'' (Css ''auto'') n p;
            p = set_style ''right'' (Css ''auto'') n p
        in transformSlides (Some (Some (p_scale p))) None p)"

definition place_slide :: "xnum \<Rightarrow> node \<Rightarrow> page \<Rightarrow> page" where
  "place_slide height n p =
     (let d = page_dom p in
      if d_display d n = ''none'' then p
      else if c_center (p_view p) \<or> has_class ''center'' d n then
        if has_class ''stack'' d n then set_style ''top'' (Plain (Fin 0)) n p
        else set_style ''top'' (Px (x_max (x_div (x_sub height (Fin (of_int (b_scrollHeight (p_browser p) n)))) (Fin 2)) (Fin 0))) n p
      else set_style ''top'' (Css []) n p)"

definition layout :: "page \<Rightarrow> page" where
  "layout p =
     (if isPrintingPDF (p_reveal p) then p
      else
        let (w, h, pw, ph) = getComputedSlideSize None None p;
            p = layoutSlideContents (size_number (c_width (p_view p))) (size_number (c_height (p_view p))) p;
            n = r_slides (p_reveal p);
            p = set_style ''width'' (Px (measured w)) n p;
            p = set_style ''height'' (Px (measured h)) n p;
            p = p\<lparr>p_scale := content_scale (measured w) (measured h) pw ph (p_view p)\<rparr>;
            p = apply_scale p;
            p = fold (place_slide (measured h)) (query_all slides_sel (page_dom p) (r_wrapper (p_reveal p))) p;
            p = on_reveal updateProgress p;
            p = updateParallax p
        in if isOverview (p_reveal p) then on_reveal updateOverview p else p)"

section \<open>What the layout leaves alone\<close>

text \<open>Until it reports to the presentation, the layout changes styles and its own variables only.\<close>

definition laid_out :: "page \<Rightarrow> page \<Rightarrow> bool" where
  "laid_out p q \<longleftrightarrow> p_reveal q = p_reveal p \<and> p_view q = p_view p \<and> p_browser q = p_browser p \<and>
     p_listeners q = p_listeners p \<and> p_progress q = p_progress p \<and> p_zoom q = p_zoom p \<and> p_loaded q = p_loaded p \<and>
     p_player q = p_player p"

lemma laid_out_refl [simp]: "laid_out p p"
  by (simp add: laid_out_def)

lemma laid_out_trans: "laid_out p q \<Longrightarrow> laid_out q r \<Longrightarrow> laid_out p r"
  by (simp add: laid_out_def)

lemma laid_out_style [simp]: "laid_out p (set_style a v n q) = laid_out p q" "laid_out p (q\<lparr>p_scale := x\<rparr>) = laid_out p q"
  by (simp_all add: laid_out_def) (simp_all add: set_style_def)

lemma laid_out_fold: "(\<And>x q. laid_out q (f x q)) \<Longrightarrow> laid_out p (fold f xs p)"
  by (induction xs arbitrary: p) (auto intro: laid_out_trans)

lemma laid_out_transform: "laid_out p (transformSlides a b p)"
  unfolding transformSlides_def Let_def by (auto simp: laid_out_def set_style_def split: option.split)

lemma laid_out_height: "laid_out p (snd (getRemainingHeight el h p))"
  by (simp add: getRemainingHeight_def restore_height_def Let_def split: option.split css.split)

lemma laid_out_stretch: "laid_out p (stretch_element w h n p)"
proof -
  obtain r q where "getRemainingHeight (Some n) h p = (r, q)" by fastforce
  with laid_out_height [of p "Some n" h] show ?thesis
    by (simp add: stretch_element_def Let_def split: prod.split)
qed

lemma laid_out_apply: "laid_out p (apply_scale p)"
proof -
  have "laid_out p (clear_place n (set_style a v n p))" for n a v by (simp add: clear_place_def)
  then show ?thesis
    unfolding apply_scale_def Let_def by (auto intro!: laid_out_trans [OF _ laid_out_transform])
qed

lemma laid_out_place: "laid_out p (place_slide h n p)"
  by (simp add: place_slide_def Let_def)

lemma laid_out_parallax: "laid_out p (updateParallax p)"
  by (simp add: updateParallax_def Let_def split: prod.split)

lemma scale_kept [simp]:
  "p_scale (set_style a v n q) = p_scale q" "p_scale (transformSlides x y q) = p_scale q"
  "p_scale (on_reveal f q) = p_scale q" "p_scale (updateParallax q) = p_scale q" "p_scale (place_slide h n q) = p_scale q"
  by (simp_all add: set_style_def transformSlides_def on_reveal_def updateParallax_def place_slide_def Let_def
      split: option.split prod.split)

lemma scale_fold [simp]: "p_scale (fold (place_slide h) ns q) = p_scale q"
  by (induction ns arbitrary: q) simp_all

lemma scale_apply [simp]: "p_scale (apply_scale q) = p_scale q"
  by (simp add: apply_scale_def clear_place_def Let_def)

text \<open>The presentation sees its progress and, in the overview, its transform, as it would without.\<close>

lemma layout_reveal:
  "p_reveal (layout p) =
     (if isPrintingPDF (p_reveal p) then p_reveal p
      else let s = updateProgress (p_reveal p) in if isOverview s then updateOverview s else s)"
proof (cases "isPrintingPDF (p_reveal p)")
  case False
  obtain w h pw ph where g: "getComputedSlideSize None None p = (w, h, pw, ph)" by (metis prod_cases4)
  define q where "q = layoutSlideContents (size_number (c_width (p_view p))) (size_number (c_height (p_view p))) p"
  have q: "laid_out p q" unfolding q_def layoutSlideContents_def by (rule laid_out_fold [OF laid_out_stretch])
  define u where "u = set_style ''height'' (Px (measured h)) (r_slides (p_reveal q))
      (set_style ''width'' (Px (measured w)) (r_slides (p_reveal q)) q)"
  define r where "r = apply_scale (u\<lparr>p_scale := content_scale (measured w) (measured h) pw ph (p_view u)\<rparr>)"
  have r: "laid_out p r" unfolding r_def by (rule laid_out_trans [OF _ laid_out_apply]) (simp add: q u_def)
  define t where "t = fold (place_slide (measured h)) (query_all slides_sel (page_dom r) (r_wrapper (p_reveal r))) r"
  have t: "p_reveal t = p_reveal p"
    using laid_out_trans [OF r laid_out_fold [where f = "place_slide (measured h)", OF laid_out_place]]
    by (simp add: t_def laid_out_def)
  have "layout p = (let p = updateParallax (on_reveal updateProgress t)
      in if isOverview (p_reveal p) then on_reveal updateOverview p else p)"
    unfolding layout_def g prod.case Let_def q_def [symmetric] u_def [symmetric] r_def [symmetric] t_def [symmetric]
    using False by simp
  moreover have "p_reveal (updateParallax (on_reveal updateProgress t)) = updateProgress (p_reveal p)"
    using laid_out_parallax [of "on_reveal updateProgress t"] t by (simp add: laid_out_def)
  ultimately show ?thesis using False by (simp add: Let_def)
qed (simp add: layout_def)

lemma layout_scale:
  assumes "\<not> isPrintingPDF (p_reveal p)" "getComputedSlideSize None None p = (w, h, pw, ph)"
  shows "p_scale (layout p) = content_scale (measured w) (measured h) pw ph (p_view p)"
proof -
  define q where "q = layoutSlideContents (size_number (c_width (p_view p))) (size_number (c_height (p_view p))) p"
  have "laid_out p q" unfolding q_def layoutSlideContents_def by (rule laid_out_fold [OF laid_out_stretch])
  then have "p_view q = p_view p" by (simp add: laid_out_def)
  then show ?thesis
    using assms unfolding layout_def assms(2) prod.case Let_def q_def [symmetric] by (simp add: set_style_def)
qed

lemma layout_player: "p_player (layout p) = p_player p"
proof -
  have laid: "laid_out p (apply_scale (q\<lparr>p_scale := x\<rparr>))" if "laid_out p q" for q x
    by (rule laid_out_trans [OF _ laid_out_apply]) (simp add: that)
  have "p_player (updateParallax (on_reveal f q)) = p_player q" for f q
    using laid_out_parallax [of "on_reveal f q"] by (simp add: laid_out_def) (simp add: on_reveal_def)
  moreover have "p_player (fold (place_slide h) ns q) = p_player q" for h ns q
    using laid_out_fold [where f = "place_slide h", OF laid_out_place] by (simp add: laid_out_def)
  moreover have "p_player (apply_scale (q\<lparr>p_scale := x\<rparr>)) = p_player p" if "laid_out p q" for q x
    using laid [OF that] by (simp add: laid_out_def)
  moreover have "laid_out p (set_style a v n (set_style a' v' n' (layoutSlideContents w h p)))" for a v n a' v' n' w h
    unfolding laid_out_style layoutSlideContents_def by (rule laid_out_fold [OF laid_out_stretch])
  ultimately show ?thesis
    unfolding layout_def Let_def by (auto split: prod.split) (simp_all add: on_reveal_def)
qed

text \<open>The old height of an element that is measured is not restored.\<close>

lemma height_lost:
  "p_style p n ''height'' = Px (Fin h) \<Longrightarrow>
    p_style (snd (getRemainingHeight (Some n) x p)) n ''height'' = Px (Fin 0)"
  by (simp add: getRemainingHeight_def restore_height_def set_style_def Let_def)

text \<open>With a single vertical slide the parallax background is placed at no number.\<close>

lemma parallax_one_vertical:
  assumes "c_parallaxImage (p_view p) \<noteq> []" "c_parallaxVertical (p_view p) = None"
    "length (verticalSlides (p_reveal p)) = 1" "indexv (p_reveal p) = Num 0"
  shows "\<exists>x. p_style (updateParallax p) (r_background (p_reveal p)) ''backgroundPosition'' = Position x Nan"
proof -
  have "x_mul (x_div a (Fin 0)) (Fin 0) = Nan" for a by (cases a) simp_all
  moreover obtain a b where "background_size (p_style p (r_background (p_reveal p)) ''backgroundSize'') = (a, b)"
    by fastforce
  moreover have "verticalSlides (p_reveal p) \<noteq> []" using assms(3) by auto
  ultimately show ?thesis
    using assms by (simp add: updateParallax_def parallax_step_def Let_def set_style_def)
qed

section \<open>Properties\<close>

text \<open>
  C26: when the slides have a size, \<open>layout\<close> scales them to a number within the configured bounds; the
  scaled slide fits the available space, unless the smallest scale is too large for it, and fills it in
  one direction, unless the largest scale is too small.
\<close>

theorem layout_fits:
  assumes "\<not> isPrintingPDF (p_reveal p)" "c_minScale (p_view p) \<le> c_maxScale (p_view p)"
    "getComputedSlideSize None None p = (mw, mh, Fin pw, Fin ph)"
    "measured mw = Fin w" "measured mh = Fin h" "0 < w" "0 < h"
  shows "\<exists>z. p_scale (layout p) = Fin z \<and> c_minScale (p_view p) \<le> z \<and> z \<le> c_maxScale (p_view p) \<and>
    (z = c_minScale (p_view p) \<or> z * w \<le> pw \<and> z * h \<le> ph) \<and>
    (z = c_maxScale (p_view p) \<or> pw \<le> z * w \<or> ph \<le> z * h)"
proof -
  let ?f = "min (pw / w) (ph / h)"
  define z where "z = min (max ?f (c_minScale (p_view p))) (c_maxScale (p_view p))"
  have "p_scale (layout p) = Fin z"
    unfolding layout_scale [OF assms(1,3)] using assms(2,4-7) by (simp add: content_scale_def z_def)
  moreover have "c_minScale (p_view p) \<le> z" "z \<le> c_maxScale (p_view p)" using assms(2) by (simp_all add: z_def)
  moreover have "z = c_minScale (p_view p) \<or> z \<le> ?f" "z = c_maxScale (p_view p) \<or> ?f \<le> z"
    using assms(2) by (auto simp: z_def min_def max_def)
  moreover have "z \<le> ?f \<longleftrightarrow> z * w \<le> pw \<and> z * h \<le> ph" "?f \<le> z \<longleftrightarrow> pw \<le> z * w \<or> ph \<le> z * h"
    using assms(6,7) by (simp_all add: pos_le_divide_eq pos_divide_le_eq min_le_iff_disj)
  ultimately show ?thesis by blast
qed

definition layout_example :: page where
  "layout_example = undefined\<lparr>p_reveal := undefined\<lparr>r_printing := False, r_wrapper := 1\<rparr>,
     p_view := undefined\<lparr>c_width := Pixels 960, c_height := Pixels 700, c_margin := 1 / 25, c_minScale := 1 / 5,
       c_maxScale := 2\<rparr>,
     p_browser := undefined\<lparr>b_offsetWidth := \<lambda>_. 1000, b_offsetHeight := \<lambda>_. 500\<rparr>\<rparr>"

theorem layout_fits_witness:
  "\<exists>z. p_scale (layout layout_example) = Fin z \<and> 1 / 5 \<le> z \<and> z \<le> 2 \<and>
    (z = 1 / 5 \<or> z * 960 \<le> 960 \<and> z * 700 \<le> 480) \<and> (z = 2 \<or> 960 \<le> z * 960 \<or> 480 \<le> z * 700)"
proof -
  have v: "c_minScale (p_view layout_example) = 1 / 5" "c_maxScale (p_view layout_example) = 2"
    "\<not> isPrintingPDF (p_reveal layout_example)"
    by (simp_all add: layout_example_def isPrintingPDF_def)
  have g: "getComputedSlideSize None None layout_example =
      (Given (Pixels 960), Given (Pixels 700), Fin 960, Fin 480)"
    by (simp add: getComputedSlideSize_def available_def measure_of_def is_percentage_def layout_example_def)
  show ?thesis using layout_fits [OF v(3) _ g, of 960 700] by (simp add: v size_number_def)
qed

end
