(* ===== verification/Reveal_Setup.thy ===== *)
theory Reveal_Setup
  imports Reveal_Backdrop Reveal_Listeners Reveal_Layout
begin

text \<open>
  Starting and configuring a presentation: the elements it needs, \<open>configure\<close>, \<open>sync\<close> on the whole
  page, \<open>shuffle\<close>, and \<open>start\<close>.
\<close>

section \<open>Elements\<close>

text \<open>Markup: tag, classes, attributes, text, children.\<close>

datatype html = El string "string list" "(string \<times> string) list" string "html list"

fun add_html :: "node \<Rightarrow> html \<Rightarrow> page \<Rightarrow> page" where
  "add_html container (El tag classes attrs txt kids) p =
     (let (n, p) = new_element tag classes p;
          p = on_dom (set_text txt n) (fold (\<lambda>(a, v). on_dom (set_attr a v n)) attrs p);
          p = on_dom (append_child container n) p
      in fold (add_html n) kids p)"

text \<open>
  \<open>createSingletonNode\<close>: the child of the container with the class, made when there is none.  It is put
  into the container before its content, which gives the same tree.
\<close>

definition createSingletonNode :: "node \<Rightarrow> string \<Rightarrow> string \<Rightarrow> html list \<Rightarrow> page \<Rightarrow> node \<times> page" where
  "createSingletonNode container tag cls content p =
     (let d = page_dom p in
      case List.find (\<lambda>n. d_parent d n = Some container) (query_all (has_class cls) d container) of
        Some n \<Rightarrow> (n, p)
      | None \<Rightarrow>
          let (n, p) = new_element tag [cls] p;
              p = on_dom (append_child container n) p
          in (n, fold (add_html n) content p))"

definition createStatusDiv :: "page \<Rightarrow> node \<times> page" where
  "createStatusDiv p =
     (let d = page_dom p in
      case List.find (\<lambda>n. d_attr d n ''id'' = Some ''aria-status-div'') (d_nodes d) of
        Some n \<Rightarrow> (n, p)
      | None \<Rightarrow>
          let (n, p) = new_element ''div'' [] p;
              p = set_style ''position'' (Css ''absolute'') n p;
              p = set_style ''height'' (Px (Fin 1)) n p;
              p = set_style ''width'' (Px (Fin 1)) n p;
              p = set_style ''overflow'' (Css ''hidden'') n p;
              p = set_style ''clip'' (Css ''rect( 1px, 1px, 1px, 1px )'') n p;
              p = on_dom (set_attr ''id'' ''aria-status-div'' n) p;
              p = on_dom (set_attr ''aria-live'' ''polite'' n) p;
              p = on_dom (set_attr ''aria-atomic'' ''true'' n) p
          in (n, on_dom (append_child (r_wrapper (p_reveal p)) n) p))"

definition arrow_button :: "string \<Rightarrow> string \<Rightarrow> html" where
  "arrow_button cls label =
     El ''button'' [cls] [(''aria-label'', label)] [] [El ''div'' [''controls-arrow''] [] [] []]"

definition flag_wrapper :: "bool \<Rightarrow> string \<Rightarrow> page \<Rightarrow> page" where
  "flag_wrapper b c p = on_dom (flag_class b c (r_wrapper (p_reveal p))) p"

definition all_of_class :: "string \<Rightarrow> page \<Rightarrow> node list" where
  "all_of_class c p = query_all (has_class c) (page_dom p) (r_root (p_reveal p))"

text \<open>\<open>setupDOM\<close>, one element after the other.\<close>

definition setup_flags :: "page \<Rightarrow> page" where
  "setup_flags p =
     (let p = on_dom (add_class ''no-transition'' (r_slides (p_reveal p))) p;
          p = flag_wrapper (r_mobile (p_reveal p)) ''no-hover'' p
      in flag_wrapper (user_agent_has ''iphone'' p) ''ua-iphone'' p)"

definition setup_background :: "page \<Rightarrow> page" where
  "setup_background p =
     (let (background, p) = createSingletonNode (r_wrapper (p_reveal p)) ''div'' ''backgrounds'' [] p
      in on_reveal (\<lambda>s. s\<lparr>r_background := background\<rparr>) p)"

definition setup_progress :: "page \<Rightarrow> page" where
  "setup_progress p =
     (let (progress, p) = createSingletonNode (r_wrapper (p_reveal p)) ''div'' ''progress'' [El ''span'' [] [] [] []] p;
          p = p\<lparr>p_progress := Some progress\<rparr>
      in on_reveal (\<lambda>s. s\<lparr>r_progressbar := query (tag_sel [''span'']) (r_dom s) progress\<rparr>) p)"

definition arrow_buttons :: "html list" where
  "arrow_buttons =
     [arrow_button ''navigate-left'' ''previous slide'', arrow_button ''navigate-right'' ''next slide'',
      arrow_button ''navigate-up'' ''above slide'', arrow_button ''navigate-down'' ''below slide'']"

definition setup_controls :: "page \<Rightarrow> page" where
  "setup_controls p =
     (let (controls, p) = createSingletonNode (r_wrapper (p_reveal p)) ''aside'' ''controls'' arrow_buttons p
      in p\<lparr>p_controls := controls\<rparr>)"

definition setup_slideNumber :: "page \<Rightarrow> page" where
  "setup_slideNumber p =
     (let (slideNumber, p) = createSingletonNode (r_wrapper (p_reveal p)) ''div'' ''slide-number'' [] p
      in on_reveal (\<lambda>s. s\<lparr>r_slideNumber := Some slideNumber\<rparr>) p)"

definition setup_notes :: "page \<Rightarrow> page" where
  "setup_notes p =
     (let (notes, p) = createSingletonNode (r_wrapper (p_reveal p)) ''div'' ''speaker-notes'' [] p;
          p = on_reveal (\<lambda>s. s\<lparr>r_speakerNotes := Some notes\<rparr>) p;
          p = on_dom (set_attr ''data-prevent-swipe'' [] notes) p
      in on_dom (set_attr ''tabindex'' ''0'' notes) p)"

definition setup_overlay :: "page \<Rightarrow> page" where
  "setup_overlay p =
     (let p = snd (createSingletonNode (r_wrapper (p_reveal p)) ''div'' ''pause-overlay'' [] p)
      in on_dom (set_attr ''role'' ''application'' (r_wrapper (p_reveal p))) p)"

definition find_controls :: "page \<Rightarrow> page" where
  "find_controls p =
     on_reveal (\<lambda>s. s\<lparr>r_controlsLeft := all_of_class ''navigate-left'' p,
       r_controlsRight := all_of_class ''navigate-right'' p, r_controlsUp := all_of_class ''navigate-up'' p,
       r_controlsDown := all_of_class ''navigate-down'' p, r_controlsPrev := all_of_class ''navigate-prev'' p,
       r_controlsNext := all_of_class ''navigate-next'' p\<rparr>) p"

definition setup_status :: "page \<Rightarrow> page" where
  "setup_status p = (let (status, p) = createStatusDiv p in on_reveal (\<lambda>s. s\<lparr>r_statusDiv := status\<rparr>) p)"

text \<open>
  Controls that the page brings along without the two arrows are outside the model: their null would
  make a later \<open>updateControls\<close> fail.
\<close>

definition setupDOM :: "page \<Rightarrow> page option" where
  "setupDOM p =
     (let p = setup_flags p;
          p = setup_background p;
          p = setup_progress p;
          p = setup_controls p;
          p = setup_slideNumber p;
          p = setup_notes p;
          p = setup_overlay p;
          p = find_controls p
      in case (query (has_class ''navigate-right'') (page_dom p) (p_controls p),
               query (has_class ''navigate-down'') (page_dom p) (p_controls p)) of
           (Some rightArrow, Some downArrow) \<Rightarrow>
             Some (setup_status
               (on_reveal (\<lambda>s. s\<lparr>r_controlsRightArrow := rightArrow, r_controlsDownArrow := downArrow\<rparr>) p))
         | _ \<Rightarrow> None)"

section \<open>Links\<close>

definition roll_sel :: "dom \<Rightarrow> node \<Rightarrow> bool" where
  "roll_sel d n \<longleftrightarrow> d_tag d n = ''a'' \<and> has_class ''roll'' d n"

text \<open>
  \<open>slides a\<close> below a section of the deck.  The second argument of \<open>classList.contains( anchor, 'roll' )\<close>
  is ignored: what is asked is whether the address of the link is one of its classes.
\<close>

definition below_slide :: "dom \<Rightarrow> node \<Rightarrow> bool" where
  "below_slide d n \<longleftrightarrow> list_ex (\<lambda>m. slides_sel d m \<and> n \<in> set (d_desc d m)) (d_nodes d)"

definition roll_link :: "node \<Rightarrow> page \<Rightarrow> page" where
  "roll_link n p =
     (let d = page_dom p in
      if d_text d n \<noteq> [] \<and> d_desc d n = [] \<and>
         (d_class d n = [] \<or> \<not> has_class (case d_attr d n ''href'' of Some x \<Rightarrow> x | None \<Rightarrow> []) d n) then
        let (inner, p) = new_element ''span'' [] p;
            p = on_dom (set_attr ''data-title'' (d_text d n) inner) p;
            p = on_dom (set_text (d_text d n) inner) p;
            p = on_dom (add_class ''roll'' n) p
        in on_dom (append_child n inner) p
      else p)"

definition enableRollingLinks :: "page \<Rightarrow> page" where
  "enableRollingLinks p =
     (if r_transforms3d (p_reveal p) \<and> ''msPerspective'' \<notin> set (b_styles (p_browser p)) then
        fold roll_link (query_all (\<lambda>d n. d_tag d n = ''a'' \<and> below_slide d n) (page_dom p) (r_wrapper (p_reveal p))) p
      else p)"

text \<open>The markup of the span becomes the content of the link.\<close>

definition unroll_link :: "node \<Rightarrow> page \<Rightarrow> page" where
  "unroll_link n p =
     (case query (tag_sel [''span'']) (page_dom p) n of
        None \<Rightarrow> p
      | Some inner \<Rightarrow>
          let p = on_dom (remove_class ''roll'' n) p;
              p = call_page (Html n (d_text (page_dom p) inner)) p
          in on_dom (clear_children n) p)"

definition disableRollingLinks :: "page \<Rightarrow> page" where
  "disableRollingLinks p =
     fold unroll_link (query_all (\<lambda>d n. roll_sel d n \<and> below_slide d n) (page_dom p) (r_wrapper (p_reveal p))) p"

section \<open>Synchronising the page\<close>

definition sync_page :: "page \<Rightarrow> page" where
  "sync_page p =
     (let p = addEventListeners (removeEventListeners p);
          p = layout p;
          p = on_reveal (\<lambda>s. s\<lparr>autoSlide := configured_autoSlide s\<rparr>) p;
          p = on_reveal cueAutoSlide p;
          p = createBackgrounds p;
          p = on_reveal (writeURL None) p;
          p = on_reveal sortAllFragments p;
          p = on_reveal updateControls p;
          p = on_reveal updateProgress p;
          p = on_reveal updateSlideNumber p;
          p = on_reveal updateSlidesVisibility p;
          p = on_reveal (updateBackground True) p;
          p = on_reveal updateNotesVisibility p;
          p = on_reveal updateNotes p;
          p = on_reveal formatEmbeddedContent p;
          p = on_reveal (\<lambda>s.
                if c_autoPlayMedia (r_config s) = Some False then stopEmbeddedContent False (currentSlide s) s
                else (case currentSlide s of None \<Rightarrow> s | Some n \<Rightarrow> startEmbeddedContent n s)) p
      in if isOverview (p_reveal p) then on_reveal layoutOverview p else p)"

section \<open>Shuffling\<close>

text \<open>One value of \<open>Math.random()\<close> per slide, at least 0 and less than 1.\<close>

fun shuffle_from :: "node list \<Rightarrow> node list \<Rightarrow> rat list \<Rightarrow> node \<Rightarrow> dom \<Rightarrow> dom option" where
  "shuffle_from all (x # xs) (r # rs) container d =
     (case insert_before container x (all ! nat \<lfloor>r * of_nat (length all)\<rfloor>) d of
        None \<Rightarrow> None | Some d \<Rightarrow> shuffle_from all xs rs container d)"
| "shuffle_from all _ _ container d = Some d"

definition shuffle :: "rat list \<Rightarrow> page \<Rightarrow> page option" where
  "shuffle rs p =
     (let slides = horizontalSlides (p_reveal p) in
      map_option (\<lambda>d. on_dom (\<lambda>_. d) p) (shuffle_from slides slides rs (r_slides (p_reveal p)) (page_dom p)))"

section \<open>\<open>configure\<close>\<close>

text \<open>New options are what they make of the configuration.\<close>

type_synonym options = "(config \<Rightarrow> config) \<times> (view_config \<Rightarrow> view_config)"

definition extend_config :: "options \<Rightarrow> page \<Rightarrow> page" where
  "extend_config opts p =
     (let p = on_reveal (\<lambda>s. s\<lparr>r_config := fst opts (r_config s)\<rparr>) p
      in p\<lparr>p_view := snd opts (p_view p)\<rparr>)"

definition show_if_block :: "bool \<Rightarrow> node \<Rightarrow> page \<Rightarrow> page" where
  "show_if_block b n p = on_dom (set_display (if b then ''block'' else ''none'') n) p"

text \<open>Classes, attributes and visibility that follow the configuration.\<close>

definition configure_look :: "string \<Rightarrow> page \<Rightarrow> page" where
  "configure_look oldTransition p =
     (let w = r_wrapper (p_reveal p);
          p = on_dom (remove_class oldTransition w) p;
          p = (if \<not> r_transforms3d (p_reveal p) then p\<lparr>p_view := (p_view p)\<lparr>c_transition := ''linear''\<rparr>\<rparr> else p);
          p = on_dom (add_class (c_transition (p_view p)) w) p;
          p = on_dom (set_attr ''data-transition-speed'' (c_transitionSpeed (p_view p)) w) p;
          p = on_dom (set_attr ''data-background-transition'' (c_backgroundTransition (p_view p)) w) p;
          p = show_if_block (c_controls (p_view p)) (p_controls p) p;
          p = (case p_progress p of None \<Rightarrow> p
               | Some n \<Rightarrow> show_if_block (c_progress (r_config (p_reveal p))) n p);
          p = on_dom (set_attr ''data-controls-layout'' (c_controlsLayout (p_view p)) (p_controls p)) p
      in on_dom (set_attr ''data-controls-back-arrows'' (c_controlsBackArrows (p_view p)) (p_controls p)) p)"

definition configure_direction :: "page \<Rightarrow> page" where
  "configure_direction p =
     (let p = flag_wrapper (c_rtl (r_config (p_reveal p))) ''rtl'' p;
          p = flag_wrapper (c_center (p_view p)) ''center'' p;
          p = (if \<not> c_pause (r_config (p_reveal p)) then on_reveal resume p else p)
      in case r_speakerNotes (p_reveal p) of
           Some n \<Rightarrow>
             if c_showNotes (r_config (p_reveal p)) then
               on_dom (set_attr ''data-layout'' (case c_notesLayout (p_view p) of Some x \<Rightarrow> x | None \<Rightarrow> ''inline'') n) p
             else p
         | None \<Rightarrow> p)"

definition wheel_listeners :: "listener list" where
  "wheel_listeners = [(Document, ''DOMMouseScroll'', ''onDocumentMouseScroll''),
     (Document, ''mousewheel'', ''onDocumentMouseScroll'')]"

definition any_link :: "dom \<Rightarrow> node \<Rightarrow> bool" where
  "any_link d n \<longleftrightarrow> d_tag d n = ''a''"

definition configure_links :: "page \<Rightarrow> page" where
  "configure_links p =
     (let p = (if c_mouseWheel (p_view p) then add_all wheel_listeners p else remove_all wheel_listeners p);
          p = (if c_rollingLinks (p_view p) then enableRollingLinks p else disableRollingLinks p)
      in if c_previewLinks (p_view p) then
           disablePreviewLinks (\<lambda>d n. d_attr d n ''data-preview-link'' = Some ''false'') (enablePreviewLinks any_link p)
         else
           enablePreviewLinks (\<lambda>d n. has_attr ''data-preview-link'' d n \<and>
               d_attr d n ''data-preview-link'' \<noteq> Some ''false'') (disablePreviewLinks any_link p))"

text \<open>The controls of auto-sliding: a canvas in the wrapper.\<close>

definition destroy_player :: "page \<Rightarrow> page" where
  "destroy_player p =
     (case p_player p of
        None \<Rightarrow> p
      | Some n \<Rightarrow> (on_reveal (\<lambda>s. s\<lparr>r_autoSlidePlayer := False\<rparr>)
          (if d_parent (page_dom p) n \<noteq> None then on_dom (remove_child n) p else p))\<lparr>p_player := None\<rparr>)"

definition create_player :: "page \<Rightarrow> page" where
  "create_player p =
     (let (n, p) = new_element ''canvas'' [''playback''] p;
          p = on_dom (append_child (r_wrapper (p_reveal p)) n) p;
          p = addEventListener (Element n) ''click'' ''onAutoSlidePlayerClick'' (p\<lparr>p_player := Some n\<rparr>)
      in on_reveal (\<lambda>s. s\<lparr>r_autoSlidePlayer := True, autoSlidePaused := False\<rparr>) p)"

definition configure_player :: "int \<Rightarrow> page \<Rightarrow> page" where
  "configure_player numberOfSlides p =
     (let p = destroy_player p; c = r_config (p_reveal p) in
      if numberOfSlides > 1 \<and> c_autoSlide c \<noteq> None \<and> c_autoSlide c \<noteq> Some 0 \<and> c_autoSlideStoppable c \<and>
         p_canvas p \<and> p_requestAnimationFrame p
      then create_player p else p)"

definition show_all_fragments :: "page \<Rightarrow> page" where
  "show_all_fragments p =
     fold (\<lambda>n p. on_dom (remove_class ''current-fragment'' n) (on_dom (add_class ''visible'' n) p))
       (query_all fragment_sel (page_dom p) (r_slides (p_reveal p))) p"

definition slide_number_shown :: "page \<Rightarrow> bool" where
  "slide_number_shown p \<longleftrightarrow> c_slideNumber (r_config (p_reveal p)) \<noteq> Number_off \<and> \<not> isPrintingPDF (p_reveal p) \<and>
     (c_showSlideNumber (p_view p) = ''all'' \<or>
      c_showSlideNumber (p_view p) = ''speaker'' \<and> isSpeakerNotes (p_reveal p))"

definition configure :: "options option \<Rightarrow> rat list \<Rightarrow> page \<Rightarrow> page option" where
  "configure opts random p =
     (let oldTransition = c_transition (p_view p);
          p = (case opts of None \<Rightarrow> p | Some f \<Rightarrow> extend_config f p)
      in if \<not> p_loaded p then Some p
         else
           let numberOfSlides = int (length (query_all slides_sel (page_dom p) (r_wrapper (p_reveal p))));
               p = configure_look oldTransition p
           in case (if c_shuffle (p_view p) then shuffle random p else Some p) of
                None \<Rightarrow> None
              | Some p \<Rightarrow>
                  let p = configure_direction p;
                      p = configure_links p;
                      p = configure_player numberOfSlides p;
                      p = (if \<not> c_fragments (r_config (p_reveal p)) then show_all_fragments p else p);
                      p = (case r_slideNumber (p_reveal p) of
                             None \<Rightarrow> p | Some n \<Rightarrow> show_if_block (slide_number_shown p) n p)
                  in Some (sync_page p))"

section \<open>\<open>start\<close>\<close>

definition setupPostMessage :: "page \<Rightarrow> page" where
  "setupPostMessage p =
     (if c_postMessage (p_view p) then addEventListener Window ''message'' ''onMessage'' p else p)"

text \<open>Every second, scrolling of the wrapper is undone.\<close>

definition setupScrollPrevention :: "page \<Rightarrow> page" where
  "setupScrollPrevention p = later Timer_scroll p"

definition scroll_callback :: "page \<Rightarrow> page" where
  "scroll_callback p = (if p_scroll p \<noteq> (0, 0) then p\<lparr>p_scroll := (0, 0)\<rparr> else p)"

text \<open>An event is announced to the listeners of the wrapper and, from within a frame, to the parent.\<close>

definition dispatchEvent :: "string \<Rightarrow> page \<Rightarrow> page" where
  "dispatchEvent typ p =
     (let p = on_reveal (log_effect (Dispatch typ)) p
      in if c_postMessageEvents (p_view p) \<and> b_inFrame (p_browser p) then call_page (Parent_message typ) p else p)"

definition start :: "rat list \<Rightarrow> page \<Rightarrow> page option" where
  "start random p =
     (case setupDOM (p\<lparr>p_loaded := True\<rparr>) of
        None \<Rightarrow> None
      | Some p \<Rightarrow>
          let p = setupPostMessage p;
              p = setupScrollPrevention p;
              p = on_reveal resetVerticalSlides p
          in case configure None random p of
               None \<Rightarrow> None
             | Some p \<Rightarrow>
                 (case readURL (p_reveal p) of
                    None \<Rightarrow> None
                  | Some s \<Rightarrow>
                      let p = on_reveal (\<lambda>_. updateBackground True s) p;
                          p = later Timer_ready p
                      in Some (if isPrintingPDF (p_reveal p) then
                                 let p = removeEventListeners p
                                 in if b_complete (p_browser p) then call_page (Draw ''setupPDF'') p
                                    else addEventListener Window ''load'' ''setupPDF'' p
                               else p)))"

definition ready_callback :: "page \<Rightarrow> page" where
  "ready_callback p =
     (let p = on_dom (remove_class ''no-transition'' (r_slides (p_reveal p))) p;
          p = on_dom (add_class ''ready'' (r_wrapper (p_reveal p))) p
      in dispatchEvent ''ready'' p)"

end
