(* ===== verification/Reveal_Growth.thy ===== *)
theory Reveal_Growth
  imports Reveal_Setup
begin

text \<open>
  Changes of the page that leave the deck alone, though they create, add and remove elements: controls,
  the progress bar, spans of rolling links, the player.  What is changed is described by one relation,
  closed under the operations of the page, and every invariant of the deck survives it.
\<close>

section \<open>Documents\<close>

text \<open>
  New nodes are no sections and no links, old ones stay what they are, and get no descendants among the
  old ones.
\<close>

definition reshaped :: "node \<Rightarrow> node \<Rightarrow> dom \<Rightarrow> dom \<Rightarrow> bool" where
  "reshaped w r d d' \<longleftrightarrow> tree_ok d' \<and> set (d_nodes d) \<subseteq> set (d_nodes d') \<and> deck_same w r d d' \<and>
     (\<forall>a x. x \<in> set (d_nodes d) \<longrightarrow> x \<in> set (d_desc d' a) \<longrightarrow> x \<in> set (d_desc d a)) \<and>
     (\<forall>x \<in> set (d_nodes d'). if x \<in> set (d_nodes d) then d_tag d' x = d_tag d x else d_tag d' x \<notin> {''section'', ''a''})"

lemma reshapedD:
  assumes "reshaped w r d d'"
  shows "tree_ok d'" "x \<in> set (d_nodes d) \<Longrightarrow> x \<in> set (d_nodes d')" "deck_same w r d d'"
    "x \<in> set (d_nodes d) \<Longrightarrow> x \<in> set (d_desc d' a) \<Longrightarrow> x \<in> set (d_desc d a)"
    "x \<in> set (d_nodes d) \<Longrightarrow> d_tag d' x = d_tag d x"
    "x \<in> set (d_nodes d') \<Longrightarrow> x \<notin> set (d_nodes d) \<Longrightarrow> d_tag d' x \<notin> {''section'', ''a''}"
proof -
  have *: "tree_ok d'" "set (d_nodes d) \<subseteq> set (d_nodes d')" "deck_same w r d d'"
    "\<And>a x. x \<in> set (d_nodes d) \<Longrightarrow> x \<in> set (d_desc d' a) \<Longrightarrow> x \<in> set (d_desc d a)"
    "\<And>x. x \<in> set (d_nodes d') \<Longrightarrow>
      if x \<in> set (d_nodes d) then d_tag d' x = d_tag d x else d_tag d' x \<notin> {''section'', ''a''}"
    using assms unfolding reshaped_def by blast+
  show "tree_ok d'" "x \<in> set (d_nodes d) \<Longrightarrow> x \<in> set (d_nodes d')" "deck_same w r d d'"
    "x \<in> set (d_nodes d) \<Longrightarrow> x \<in> set (d_desc d' a) \<Longrightarrow> x \<in> set (d_desc d a)" using * by blast+
  show "d_tag d' x = d_tag d x" if "x \<in> set (d_nodes d)" using *(5) [of x] *(2) that by auto
  show "d_tag d' x \<notin> {''section'', ''a''}" if "x \<in> set (d_nodes d')" "x \<notin> set (d_nodes d)"
    using *(5) [OF that(1)] that(2) by simp
qed

lemma reshapedI:
  assumes "tree_ok d'" "set (d_nodes d) \<subseteq> set (d_nodes d')" "deck_same w r d d'"
    "\<And>a x. x \<in> set (d_nodes d) \<Longrightarrow> x \<in> set (d_desc d' a) \<Longrightarrow> x \<in> set (d_desc d a)"
    "\<And>x. x \<in> set (d_nodes d) \<Longrightarrow> d_tag d' x = d_tag d x"
    "\<And>x. x \<in> set (d_nodes d') \<Longrightarrow> x \<notin> set (d_nodes d) \<Longrightarrow> d_tag d' x \<notin> {''section'', ''a''}"
  shows "reshaped w r d d'"
  unfolding reshaped_def using assms by (intro conjI allI impI ballI; simp split del: if_split) (simp split: if_split)

lemma reshaped_section:
  assumes "reshaped w r d d'" "x \<in> set (d_nodes d')"
  shows "is_section d' x \<longleftrightarrow> x \<in> set (d_nodes d) \<and> is_section d x"
  using reshapedD(5,6) [OF assms(1), of x] assms(2) by (cases "x \<in> set (d_nodes d)") (auto simp: is_section_def)

lemma reshaped_refl: "tree_ok d \<Longrightarrow> reshaped w r d d"
  by (simp add: reshaped_def)

lemma reshaped_trans:
  assumes "reshaped w r d e" "reshaped w r e f"
  shows "reshaped w r d f"
proof (rule reshapedI)
  note D = reshapedD [OF assms(1)] and E = reshapedD [OF assms(2)]
  show "tree_ok f" by (rule E(1))
  show "set (d_nodes d) \<subseteq> set (d_nodes f)" using D(2) E(2) by blast
  show "deck_same w r d f" by (rule deck_same_trans [OF D(3) E(3)])
  show "x \<in> set (d_desc d a)" if "x \<in> set (d_nodes d)" "x \<in> set (d_desc f a)" for a x
    using that D(2,4) E(4) by blast
  show "d_tag f x = d_tag d x" if "x \<in> set (d_nodes d)" for x using that D(2,5) [of x] E(5) [of x] by simp
  show "d_tag f x \<notin> {''section'', ''a''}" if "x \<in> set (d_nodes f)" "x \<notin> set (d_nodes d)" for x
    using that D(6) [of x] E(5,6) [of x] by (cases "x \<in> set (d_nodes e)") auto
qed

text \<open>Nodes that hold no section and do not hold the presentation stay so.\<close>

definition bare :: "dom \<Rightarrow> node \<Rightarrow> node \<Rightarrow> bool" where
  "bare d w n \<longleftrightarrow> n \<in> set (d_nodes d) \<and> \<not> is_section d n \<and> (\<forall>x \<in> set (d_desc d n). \<not> is_section d x) \<and>
     w \<noteq> n \<and> w \<notin> set (d_desc d n)"

lemma reshaped_bare:
  assumes "reshaped w r d d'" "\<And>x. x \<in> set (d_desc d b) \<Longrightarrow> \<not> is_section d x" "x \<in> set (d_desc d' b)"
  shows "\<not> is_section d' x"
  using assms(2) reshapedD(4) [OF assms(1), of x b] assms(3)
    reshaped_section [OF assms(1) desc_nodes [OF reshapedD(1) [OF assms(1)] assms(3)]] by blast

lemma bare_kept:
  assumes "reshaped w r d d'" "bare d w n" "w \<in> set (d_nodes d)"
  shows "bare d' w n"
proof -
  have n: "n \<in> set (d_nodes d')" using assms(2) reshapedD(2) [OF assms(1)] by (simp add: bare_def)
  moreover have "\<not> is_section d' x" if "x \<in> set (d_desc d' n)" for x
    using reshaped_bare [OF assms(1) _ that] assms(2) by (auto simp: bare_def)
  ultimately show ?thesis
    using assms(2) reshapedD(4) [OF assms(1,3)] reshaped_section [OF assms(1) n] by (auto simp: bare_def)
qed

lemma reshaped_keep:
  assumes "tree_ok d" "dom_keep keep_deck d d'"
  shows "reshaped w r d d'"
proof -
  have sh: "same_shape d d'" using assms(2) by (simp add: dom_keep_def)
  then have "d_nodes d' = d_nodes d" "d_desc d' = d_desc d" "d_tag d' = d_tag d" by (auto simp: same_shape_def)
  then show ?thesis
    using assms(1) tree_ok_shape [OF sh] deck_same_keep [OF assms(2)] by (simp add: reshaped_def)
qed

lemma reshaped_create:
  assumes "tree_ok d" "create_element tag d = (n, d')" "r \<in> set (d_nodes d)" "tag \<notin> {''section'', ''a''}"
  shows "reshaped w r d (d'\<lparr>d_class := (d_class d')(n := cs)\<rparr>)"
proof (rule reshapedI)
  let ?d = "d'\<lparr>d_class := (d_class d')(n := cs)\<rparr>"
  note c = create_element_ok [OF assms(1,2)]
  have n: "set (d_nodes ?d) = insert n (set (d_nodes d))" using assms(2) by (auto simp: create_element_def Let_def)
  then show "set (d_nodes d) \<subseteq> set (d_nodes ?d)" by blast
  show "tree_ok ?d" using c(1) tree_ok_shape [of d' ?d] by (simp add: same_shape_def)
  have "n \<noteq> r" using assms(3) c(2) by blast
  then show "deck_same w r d ?d" by (rule deck_same_create [OF assms(1,2) _ assms(3)])
  show "x \<in> set (d_desc d a)" if "x \<in> set (d_desc ?d a)" for a x using that c(7) by simp
  show "d_tag ?d x = d_tag d x" if "x \<in> set (d_nodes d)" for x
    using that assms(2) c(2) by (auto simp: create_element_def Let_def)
  show "d_tag ?d x \<notin> {''section'', ''a''}" if "x \<in> set (d_nodes ?d)" "x \<notin> set (d_nodes d)" for x
    using that n assms(2,4) by (auto simp: create_element_def Let_def)
qed

text \<open>A new element without children is put into the tree.\<close>

lemma reshaped_append:
  assumes "reshaped w r d0 d" "n \<notin> set (d_nodes d0)" "p \<in> set (d_nodes d)" "n \<in> set (d_nodes d)" "n \<noteq> p"
    "d_parent d n = None" "d_kids d n = []"
  shows "reshaped w r d0 (append_child p n d)"
proof (rule reshapedI)
  let ?d = "append_child p n d"
  note D = reshapedD [OF assms(1)]
  have sec: "\<not> is_section d n" using reshaped_section [OF assms(1,4)] assms(2) by blast
  have f: "d_nodes ?d = d_nodes d" "d_tag ?d = d_tag d" by (simp_all add: append_child_def Let_def)
  show "tree_ok ?d"
    by (rule append_child_ok [OF D(1) assms(3-5)]) (use tree_okD(5) [OF D(1), of n] assms(7) in simp)
  show "set (d_nodes d0) \<subseteq> set (d_nodes ?d)" unfolding f using D(2) by blast
  show "deck_same w r d0 ?d" by (rule deck_same_trans [OF D(3) deck_same_append [OF D(1) assms(3-7) sec]])
  show "x \<in> set (d_desc d0 a)" if "x \<in> set (d_nodes d0)" "x \<in> set (d_desc ?d a)" for a x
  proof -
    have "x \<noteq> n" using that assms(2) by blast
    then have "x \<in> set (filter (\<lambda>x. x \<noteq> n) (d_desc ?d a))" using that by simp
    then have "x \<in> set (d_desc d a)" using append_leaf_desc(1) [OF D(1) assms(3-7), of a] by simp
    then show ?thesis using D(4) that by blast
  qed
  show "d_tag ?d x = d_tag d0 x" if "x \<in> set (d_nodes d0)" for x unfolding f by (rule D(5) [OF that])
  show "d_tag ?d x \<notin> {''section'', ''a''}" if "x \<in> set (d_nodes ?d)" "x \<notin> set (d_nodes d0)" for x
    using that D(6) unfolding f by blast
qed

text \<open>Removing nodes that hold no section.\<close>

lemma reshaped_clear:
  assumes "tree_ok d" "bare d w b"
  shows "reshaped w r d (clear_children b d)"
proof (rule reshapedI)
  have B: "\<And>x. x \<in> set (d_desc d b) \<Longrightarrow> \<not> is_section d x" "\<not> is_section d b" "w \<notin> set (d_desc d b)"
    using assms(2) by (simp_all add: bare_def)
  show "deck_same w r d (clear_children b d)" by (rule deck_same_clear [OF assms(1) B])
  show "x \<in> set (d_desc d a)" if "x \<in> set (d_desc (clear_children b d) a)" for a x
    using that clear_children_desc(1,3) [OF assms(1), of a b] clear_children_desc(2) [OF assms(1), of b]
    by (cases "a = b"; cases "a \<in> set (d_desc d b)") auto
qed (use clear_children_ok [OF assms(1)] in \<open>auto simp: clear_children_def\<close>)

lemma remove_child_desc:
  assumes "tree_ok d" "x \<in> set (d_desc (remove_child n d) a)"
  shows "x \<in> set (d_desc d a)"
  using assms(2)
proof (induction a rule: desc_induct [OF assms(1)])
  case (1 a)
  have "set (d_kids (remove_child n d) a) \<subseteq> set (d_kids d a)" by (auto simp: remove_child_def detach_kids [OF assms(1)])
  with 1 desc_mem [OF remove_child_ok [OF assms(1), of n], of x a] desc_mem [OF assms(1), of x a] show ?case by blast
qed

lemma remove_child_sections:
  assumes "tree_ok d" "bare d w n" "a \<noteq> n" "a \<notin> set (d_desc d n)"
  shows "sections_of (remove_child n d) a = sections_of d a"
  using assms(3,4)
proof (induction a rule: desc_induct [OF assms(1)])
  case (1 a)
  let ?d = "remove_child n d"
  have ok: "tree_ok ?d" by (rule remove_child_ok [OF assms(1)])
  have sec: "is_section ?d = is_section d" by (simp add: remove_child_def is_section_def fun_eq_iff)
  have kids: "d_kids ?d a = filter (\<lambda>x. x \<noteq> n) (d_kids d a)" by (simp add: remove_child_def detach_kids [OF assms(1)])
  let ?f = "filter (is_section d)"
  have gone: "?f (n # d_desc d n) = []" using assms(2) by (simp add: bare_def filter_empty_conv)
  have same: "?f (k # d_desc ?d k) = ?f (k # d_desc d k)" if "k \<in> set (d_kids d a)" "k \<noteq> n" for k
  proof -
    have "d_parent d k = Some a" using that(1) tree_okD(4) [OF assms(1)] by blast
    then have "k \<notin> set (d_desc d n)" using 1(2,3) desc_up [OF assms(1), of k n] by auto
    then show ?thesis using 1(1) [OF that] by (simp add: sections_of_def sec)
  qed
  have "concat (map (\<lambda>k. ?f (k # d_desc ?d k)) (filter (\<lambda>x. x \<noteq> n) ks)) = concat (map (\<lambda>k. ?f (k # d_desc d k)) ks)"
    if "set ks \<subseteq> set (d_kids d a)" for ks
    using that
  proof (induction ks)
    case (Cons k ks)
    then show ?case using same [of k] gone by (cases "k = n") (simp_all add: filter.simps(2) [of "\<lambda>x. x \<noteq> n"] del: filter.simps)
  qed simp
  from this [OF order_refl] show ?case
    unfolding sections_of_def sec
    by (subst tree_okD(5) [OF ok], subst tree_okD(5) [OF assms(1), of a]) (simp only: kids filter_concat map_map comp_def)
qed

lemma reshaped_remove:
  assumes "tree_ok d" "bare d w n"
  shows "reshaped w r d (remove_child n d)"
proof (rule reshapedI)
  let ?d = "remove_child n d"
  have f: "is_section ?d = is_section d" "d_attr ?d = d_attr d" "has_class c ?d = has_class c d"
    "d_parent ?d = (d_parent d)(n := None)" for c
    by (auto simp: remove_child_def is_section_def has_class_def fun_eq_iff)
  have "sections_of ?d w = sections_of d w"
    by (rule remove_child_sections [OF assms]) (use assms(2) in \<open>auto simp: bare_def\<close>)
  moreover have "d_parent ?d m = d_parent d m \<and> sections_of ?d m = sections_of d m" if "m \<in> set (sections_of d w)" for m
  proof -
    have "m \<noteq> n" "m \<notin> set (d_desc d n)" using that assms(2) by (auto simp: bare_def sections_of_def)
    then show ?thesis using remove_child_sections [OF assms] by (simp add: f)
  qed
  ultimately show "deck_same w r d ?d" by (simp add: deck_same_def f)
qed (use remove_child_ok [OF assms(1)] remove_child_desc [OF assms(1)] in \<open>auto simp: remove_child_def\<close>)

section \<open>Pages\<close>

definition grown :: "page \<Rightarrow> page \<Rightarrow> bool" where
  "grown p q \<longleftrightarrow>
     reshaped (r_wrapper (p_reveal p)) (r_root (p_reveal p)) (page_dom p) (page_dom q) \<and> around (p_reveal p) (p_reveal q)"

named_theorems grow

lemma grown_refl: "tree_ok (page_dom p) \<Longrightarrow> grown p p"
  by (simp add: grown_def reshaped_refl)

lemma grown_trans [trans]: "grown p q \<Longrightarrow> grown q r \<Longrightarrow> grown p r"
  unfolding grown_def by (auto intro: around_trans) (auto simp: around_def intro: reshaped_trans)

lemma grownD:
  assumes "grown p q"
  shows "tree_ok (page_dom q)" "rebuilt (p_reveal p) (p_reveal q)"
    "n \<in> set (d_nodes (page_dom p)) \<Longrightarrow> n \<in> set (d_nodes (page_dom q))"
    "r_wrapper (p_reveal q) = r_wrapper (p_reveal p)" "r_root (p_reveal q) = r_root (p_reveal p)"
    "r_background (p_reveal q) = r_background (p_reveal p)"
  using assms reshapedD(1,2,3) [of "r_wrapper (p_reveal p)" "r_root (p_reveal p)" "page_dom p" "page_dom q"]
  by (auto simp: grown_def rebuilt_def around_def page_dom_def)

lemma grown_same: "grown p q \<Longrightarrow> p_reveal q' = p_reveal q \<Longrightarrow> grown p q'"
  by (simp add: grown_def page_dom_def)

lemma grown_calls [grow]:
  "grown p q \<Longrightarrow> grown p (set_style a v n q)" "grown p q \<Longrightarrow> grown p (call_page c q)"
  "grown p q \<Longrightarrow> grown p (later t q)" "grown p q \<Longrightarrow> grown p (addEventListener u ev g q)"
  "grown p q \<Longrightarrow> grown p (removeEventListener u ev g q)" "grown p q \<Longrightarrow> grown p (add_all ls q)"
  "grown p q \<Longrightarrow> grown p (remove_all ls q)"
  by (erule grown_same; simp)+

lemma grown_dom [grow]:
  assumes "grown p q" "dom_keep keep_deck (page_dom q) (f (page_dom q))"
  shows "grown p (on_dom f q)"
proof (rule grown_trans [OF assms(1)])
  show "grown q (on_dom f q)"
    using reshaped_keep [OF grownD(1) [OF assms(1)] assms(2)]
    by (simp add: grown_def) (simp add: on_dom_def on_reveal_def upd_dom_def around_def timer_frame_def)
qed

lemma grown_reveal [grow]:
  assumes "grown p q" "r_dom (f (p_reveal q)) = r_dom (p_reveal q)" "around (p_reveal q) (f (p_reveal q))"
  shows "grown p (on_reveal f q)"
  using assms by (auto simp: grown_def page_dom_def intro: around_trans)

lemma grown_if [grow]: "(b \<Longrightarrow> grown p q) \<Longrightarrow> (\<not> b \<Longrightarrow> grown p r) \<Longrightarrow> grown p (if b then q else r)"
  by simp

lemma grown_option [grow]:
  "(x = None \<Longrightarrow> grown p q) \<Longrightarrow> (\<And>y. x = Some y \<Longrightarrow> grown p (f y)) \<Longrightarrow>
    grown p (case x of None \<Rightarrow> q | Some y \<Rightarrow> f y)"
  by (cases x) simp_all

lemma grown_fold:
  assumes "grown p q" "\<And>y r. y \<in> set ys \<Longrightarrow> grown p r \<Longrightarrow> grown p (f y r)"
  shows "grown p (fold f ys q)"
  using assms by (induction ys arbitrary: q) simp_all

section \<open>New elements\<close>

definition budding :: "page \<Rightarrow> node \<Rightarrow> page \<Rightarrow> bool" where
  "budding p n q \<longleftrightarrow> grown p q \<and> n \<in> set (d_nodes (page_dom q)) \<and> n \<notin> set (d_nodes (page_dom p)) \<and>
     d_parent (page_dom q) n = None \<and> d_kids (page_dom q) n = []"

lemma budding_new:
  assumes "grown p q" "r_root (p_reveal p) \<in> set (d_nodes (page_dom p))" "new_element tag cs q = (n, r)"
    "tag \<notin> {''section'', ''a''}"
  shows "budding p n r"
proof -
  obtain d where c: "create_element tag (page_dom q) = (n, d)" and r: "r = on_dom (\<lambda>_. d\<lparr>d_class := (d_class d)(n := cs)\<rparr>) q"
    using assms(3) by (auto simp: new_element_def split: prod.splits)
  note g = grownD [OF assms(1)] and e = create_element_ok [OF grownD(1) [OF assms(1)] c]
  have "reshaped (r_wrapper (p_reveal q)) (r_root (p_reveal q)) (page_dom q) (page_dom r)"
    unfolding r page_dom_simps by (rule reshaped_create [OF g(1) c _ assms(4)]) (use g assms(2) in simp)
  moreover have "around (p_reveal q) (p_reveal r)" by (simp add: r upd_dom_def around_def timer_frame_def)
  ultimately have "grown q r" by (simp add: grown_def)
  moreover have "n \<notin> set (d_nodes (page_dom p))" using e(2) g(3) by blast
  ultimately show ?thesis
    using grown_trans [OF assms(1)] e by (simp add: budding_def r)
qed

lemma budding_dom:
  assumes "budding p n q" "dom_keep keep_deck (page_dom q) (f (page_dom q))"
  shows "budding p n (on_dom f q)"
  using assms grown_dom [of p q f] by (auto simp: budding_def dom_keep_def same_shape_def)

lemma budding_style: "budding p n q \<Longrightarrow> budding p n (set_style a v m q)"
  by (auto simp: budding_def intro: grow)

text \<open>It is put under an old node.\<close>

lemma budding_append:
  assumes "budding p n q" "c \<in> set (d_nodes (page_dom p))"
  shows "grown p (on_dom (append_child c n) q)" "n \<in> set (d_nodes (page_dom (on_dom (append_child c n) q)))"
proof -
  note b = assms(1) [unfolded budding_def]
  have c: "c \<in> set (d_nodes (page_dom q))" "n \<noteq> c" using b assms(2) grownD(3) by blast+
  show "n \<in> set (d_nodes (page_dom (on_dom (append_child c n) q)))" using b by (simp add: append_child_def Let_def)
  show "grown p (on_dom (append_child c n) q)"
    using b c reshaped_append [of _ _ _ "page_dom q" n c]
    by (auto simp: grown_def upd_dom_def around_def timer_frame_def)
qed

lemma grown_append:
  assumes "grown p q" "budding q n r" "c \<in> set (d_nodes (page_dom q))"
  shows "grown p (on_dom (append_child c n) r)"
  by (rule grown_trans [OF assms(1) budding_append(1) [OF assms(2,3)]])

end
