(* ===== verification/Reveal_Start.thy ===== *)
theory Reveal_Start
  imports Reveal_Growth
begin

text \<open>
  What the operations of \<open>Reveal_Setup\<close> keep: the document stays a tree, the deck and the position stay
  as they are, through \<open>setupDOM\<close>, \<open>createBackgrounds\<close>, \<open>sync\<close> and \<open>configure\<close>; and \<open>start\<close>
  establishes the invariant that every event keeps.
\<close>

section \<open>Backgrounds\<close>

lemma grown_dressed:
  assumes "grown p q" "dressed q r"
  shows "grown p r"
proof -
  have "around (p_reveal q) (p_reveal r)"
    by (subst dressedD(8) [OF assms(2)]) (simp add: around_def timer_frame_def)
  moreover have "dom_keep keep_deck (page_dom q) (page_dom r)"
    using assms(2) unfolding dressed_def by (blast intro: keep_keys_deck)
  then have "reshaped w t (page_dom q) (page_dom r)" for w t
    by (rule reshaped_keep [OF grownD(1) [OF assms(1)]])
  ultimately have "grown q r" unfolding grown_def by blast
  then show ?thesis by (rule grown_trans [OF assms(1)])
qed

lemma budding_dressed: "budding p n q \<Longrightarrow> dressed q r \<Longrightarrow> budding p n r"
  using dressedD(2,3,4) [of q r] grown_dressed [of p q r] by (simp add: budding_def)

lemma grown_background:
  assumes "grown p q" "r_root (p_reveal p) \<in> set (d_nodes (page_dom p))" "c \<in> set (d_nodes (page_dom q))"
    "createBackground sl c q = (el, r)"
  shows "grown p r" "el \<in> set (d_nodes (page_dom r))"
proof -
  define classes where "classes = class_tokens (''slide-background '' @ cut_state (class_name (d_class (page_dom q) sl)))"
  obtain n q1 where n: "new_element ''div'' classes q = (n, q1)" by fastforce
  define q2 where "q2 = on_dom (append_child c n) (dress_background sl n q1)"
  define q3 where "q3 = on_reveal (\<lambda>s. s\<lparr>r_slideBackground := (r_slideBackground s)(sl := Some n)\<rparr>)
    (on_dom (remove_class ''has-light-background'' sl) (on_dom (remove_class ''has-dark-background'' sl) q2))"
  have "createBackground sl c q = (n, case contrast_class (b_backgroundColor (p_browser q3) n) of None \<Rightarrow> q3
      | Some c \<Rightarrow> on_dom (add_class c sl) q3)"
    unfolding createBackground_def classes_def [symmetric] n Let_def prod.case q3_def q2_def by (rule refl)
  then have r: "r = (case contrast_class (b_backgroundColor (p_browser q3) n) of None \<Rightarrow> q3
      | Some c \<Rightarrow> on_dom (add_class c sl) q3)" "el = n"
    using assms(4) by simp_all
  have tq: "tree_ok (page_dom q)" and rq: "r_root (p_reveal q) \<in> set (d_nodes (page_dom q))"
    using grownD [OF assms(1)] assms(2) by simp_all
  have b: "budding q n (dress_background sl n q1)"
    by (rule budding_dressed [OF budding_new [OF grown_refl [OF tq] rq n] dressed_background]) simp
  have g2: "grown q q2" "n \<in> set (d_nodes (page_dom q2))" unfolding q2_def by (rule budding_append [OF b assms(3)])+
  have g3: "grown q2 q3"
    unfolding q3_def by (intro grow page grown_refl grownD(1) [OF g2(1)]) (simp_all add: around_def timer_frame_def)
  have g4: "grown q3 r" unfolding r by (rule grown_dressed [OF grown_refl [OF grownD(1) [OF g3]] dressed_contrast])
  show "grown p r" by (rule grown_trans [OF assms(1) grown_trans [OF g2(1) grown_trans [OF g3 g4]]])
  show "el \<in> set (d_nodes (page_dom r))" using g2(2) grownD(3) [OF g3] grownD(3) [OF g4] r(2) by blast
qed

lemma grown_nested:
  assumes "grown p q" "r_root (p_reveal p) \<in> set (d_nodes (page_dom p))" "k \<in> set (d_nodes (page_dom q))"
  shows "grown p (create_nested k v q) \<and> k \<in> set (d_nodes (page_dom (create_nested k v q)))"
proof -
  obtain el r where c: "createBackground v k q = (el, r)" by fastforce
  have gq: "grown q q" "r_root (p_reveal q) \<in> set (d_nodes (page_dom q))"
    using grownD [OF assms(1)] assms(2) by (auto intro: grown_refl)
  have "grown q (create_nested k v q)"
    unfolding create_nested_def c snd_conv by (intro grow page grown_background(1) [OF gq assms(3) c]) simp
  then show ?thesis using grown_trans [OF assms(1)] grownD(3) assms(3) by blast
qed

lemma grown_stack:
  assumes "grown p q" "r_root (p_reveal p) \<in> set (d_nodes (page_dom p))"
    "r_background (p_reveal p) \<in> set (d_nodes (page_dom p))"
  shows "grown p (create_stack h q)"
proof -
  note g = grownD [OF assms(1)]
  obtain k r where c: "createBackground h (r_background (p_reveal q)) q = (k, r)" by fastforce
  have r: "grown p r" "k \<in> set (d_nodes (page_dom r))"
    by (rule grown_background [OF assms(1,2) _ c], use g assms(3) in simp)+
  have "grown p (fold (create_nested k) vs r) \<and> k \<in> set (d_nodes (page_dom (fold (create_nested k) vs r)))" for vs
    using r
  proof (induction vs arbitrary: r)
    case (Cons v vs)
    then show ?case using grown_nested [OF Cons.prems(1) assms(2) Cons.prems(2)] by simp
  qed simp
  then show ?thesis by (simp add: create_stack_def c)
qed

lemma grown_createBackgrounds:
  assumes "page_ok p" "deck_ok (p_reveal p)" "bare (page_dom p) (r_wrapper (p_reveal p)) (r_background (p_reveal p))"
  shows "grown p (createBackgrounds p)"
proof -
  have ok: "tree_ok (page_dom p)" "r_root (p_reveal p) \<in> set (d_nodes (page_dom p))"
    "r_background (p_reveal p) \<in> set (d_nodes (page_dom p))"
    using assms(1) by (simp_all add: page_ok_def Let_def)
  define b where "b = r_background (p_reveal p)"
  have c: "grown p (on_dom (clear_children b) p)"
    using reshaped_clear [OF ok(1), of "r_wrapper (p_reveal p)" b] assms(3)
    by (simp add: grown_def b_def upd_dom_def around_def timer_frame_def)
  define q where "q = on_dom (add_class ''no-transition'' b) (on_dom (clear_children b) p)"
  have q: "grown p q" unfolding q_def by (intro grow page c) simp
  have "grown p (fold create_stack hs r)" if "grown p r" for hs r
    using that by (rule grown_fold) (rule grown_stack [OF _ ok(2,3)])
  from this [OF q] show ?thesis
    unfolding createBackgrounds_def Let_def b_def [symmetric] q_def [symmetric]
    by (intro grow page) (simp_all add: q)
qed

section \<open>New elements\<close>

text \<open>Only additions: no node loses a descendant, moves, or changes its classes.\<close>

definition grew :: "page \<Rightarrow> page \<Rightarrow> bool" where
  "grew p q \<longleftrightarrow> grown p q \<and> (\<forall>a. set (d_desc (page_dom p) a) \<subseteq> set (d_desc (page_dom q) a)) \<and>
     (\<forall>n \<in> set (d_nodes (page_dom p)). d_parent (page_dom q) n = d_parent (page_dom p) n \<and>
        (\<forall>c. has_class c (page_dom q) n = has_class c (page_dom p) n))"

text \<open>The classes of the new nodes.\<close>

definition new_classes :: "page \<Rightarrow> page \<Rightarrow> string set" where
  "new_classes p q = {c. \<exists>n \<in> set (d_nodes (page_dom q)) - set (d_nodes (page_dom p)). has_class c (page_dom q) n}"

definition keep_all :: keep where
  "keep_all c n \<longleftrightarrow> True"

lemma grewD:
  assumes "grew p q"
  shows "grown p q" "x \<in> set (d_desc (page_dom p) a) \<Longrightarrow> x \<in> set (d_desc (page_dom q) a)"
    "n \<in> set (d_nodes (page_dom p)) \<Longrightarrow> has_class c (page_dom q) n = has_class c (page_dom p) n"
    "n \<in> set (d_nodes (page_dom p)) \<Longrightarrow> d_parent (page_dom q) n = d_parent (page_dom p) n"
  using assms unfolding grew_def by blast+

lemma grew_refl: "tree_ok (page_dom p) \<Longrightarrow> grew p p"
  by (simp add: grew_def grown_refl)

lemma grew_trans:
  assumes "grew p q" "grew q r"
  shows "grew p r" "new_classes p r \<subseteq> new_classes p q \<union> new_classes q r"
proof -
  note P = grewD [OF assms(1)] and Q = grewD [OF assms(2)]
  note n = grownD(3) [OF P(1)]
  show "grew p r" unfolding grew_def
    using grown_trans [OF P(1) Q(1)] P(2) Q(2) P(3,4) Q(3,4) n by (simp add: subset_iff)
  show "new_classes p r \<subseteq> new_classes p q \<union> new_classes q r"
  proof
    fix c assume "c \<in> new_classes p r"
    then obtain m where m: "m \<in> set (d_nodes (page_dom r))" "m \<notin> set (d_nodes (page_dom p))" "has_class c (page_dom r) m"
      by (auto simp: new_classes_def)
    show "c \<in> new_classes p q \<union> new_classes q r"
    proof (cases "m \<in> set (d_nodes (page_dom q))")
      case True
      then show ?thesis using m Q(3) by (auto simp: new_classes_def)
    next
      case False
      then show ?thesis using m by (auto simp: new_classes_def)
    qed
  qed
qed

lemma new_classes_refl [simp]: "new_classes p p = {}"
  by (simp add: new_classes_def)

lemma grew_dom:
  assumes "grew p q" "dom_keep keep_all (page_dom q) (f (page_dom q))"
  shows "grew p (on_dom f q)"
proof (rule grew_trans(1) [OF assms(1)])
  have "dom_keep keep_deck (page_dom q) (f (page_dom q))"
    using assms(2) by (simp add: dom_keep_def keep_all_def)
  moreover have "tree_ok (page_dom q)" by (rule grownD(1) [OF grewD(1) [OF assms(1)]])
  ultimately have "grown q (on_dom f q)" by (intro grown_dom grown_refl)
  then show "grew q (on_dom f q)"
    using assms(2) by (simp add: grew_def dom_keep_def keep_all_def same_shape_def)
qed

lemma grew_reveal:
  assumes "grew p q" "r_dom (f (p_reveal q)) = r_dom (p_reveal q)" "around (p_reveal q) (f (p_reveal q))"
  shows "grew p (on_reveal f q)"
  using assms grown_reveal [of p q f] by (simp add: grew_def page_dom_def)

lemma grew_same: "grew p q \<Longrightarrow> p_reveal q' = p_reveal q \<Longrightarrow> grew p q'"
  using grown_same [of p q q'] by (simp add: grew_def page_dom_def)

text \<open>An element that is made and not yet in the tree, with what has been written to it.\<close>

definition sprout :: "page \<Rightarrow> node \<Rightarrow> string list \<Rightarrow> page \<Rightarrow> bool" where
  "sprout p n cs q \<longleftrightarrow> budding p n q \<and> (\<forall>a. d_desc (page_dom q) a = d_desc (page_dom p) a) \<and>
     (\<forall>m \<in> set (d_nodes (page_dom p)). d_parent (page_dom q) m = d_parent (page_dom p) m \<and>
        (\<forall>c. has_class c (page_dom q) m = has_class c (page_dom p) m)) \<and>
     set (d_nodes (page_dom q)) = insert n (set (d_nodes (page_dom p))) \<and>
     (\<forall>c. has_class c (page_dom q) n \<longleftrightarrow> c \<in> set cs)"

lemma sprout_new:
  assumes "tree_ok (page_dom p)" "r_root (p_reveal p) \<in> set (d_nodes (page_dom p))" "new_element tag cs p = (n, q)"
    "tag \<notin> {''section'', ''a''}"
  shows "sprout p n cs q"
proof -
  have b: "budding p n q" by (rule budding_new [OF grown_refl [OF assms(1)] assms(2-4)])
  obtain d where c: "create_element tag (page_dom p) = (n, d)" and q: "q = on_dom (\<lambda>_. d\<lparr>d_class := (d_class d)(n := cs)\<rparr>) p"
    using assms(3) by (auto simp: new_element_def split: prod.splits)
  have "m \<noteq> n" if "m \<in> set (d_nodes (page_dom p))" for m using that b by (auto simp: budding_def)
  then show ?thesis
    using b c create_element_ok(7,9) [OF assms(1) c]
    by (auto simp: sprout_def q has_class_def create_element_def Let_def)
qed

lemma sprout_dom:
  assumes "sprout p n cs q" "dom_keep keep_all (page_dom q) (f (page_dom q))"
  shows "sprout p n cs (on_dom f q)"
proof -
  have "dom_keep keep_deck (page_dom q) (f (page_dom q))"
    using assms(2) by (simp add: dom_keep_def keep_all_def)
  then have "budding p n (on_dom f q)" by (intro budding_dom) (use assms(1) in \<open>simp_all add: sprout_def\<close>)
  then show ?thesis
    using assms by (simp add: sprout_def dom_keep_def keep_all_def same_shape_def)
qed

lemma sprout_style: "sprout p n cs q \<Longrightarrow> sprout p n cs (set_style a v m q)"
  by (simp add: sprout_def budding_style)

lemma sprout_append:
  assumes "sprout p n cs q" "k \<in> set (d_nodes (page_dom p))"
  defines "r \<equiv> on_dom (append_child k n) q"
  shows "grew p r" "n \<in> set (d_nodes (page_dom r))" "n \<in> set (d_desc (page_dom r) k)"
    "c \<in> set cs \<Longrightarrow> has_class c (page_dom r) n" "d_desc (page_dom r) n = []" "new_classes p r = set cs"
proof -
  have b: "budding p n q" using assms(1) by (simp add: sprout_def)
  note B = b [unfolded budding_def]
  have t: "tree_ok (page_dom q)" "k \<in> set (d_nodes (page_dom q))" "n \<in> set (d_nodes (page_dom q))" "n \<noteq> k"
    "d_parent (page_dom q) n = None" "d_kids (page_dom q) n = []"
    using B assms(2) grownD(1,3) by blast+
  have g: "grown p r" "n \<in> set (d_nodes (page_dom r))"
    unfolding r_def by (rule budding_append [OF b assms(2)])+
  then show "n \<in> set (d_nodes (page_dom r))" by blast
  have D: "page_dom r = append_child k n (page_dom q)" by (simp add: r_def)
  show "n \<in> set (d_desc (page_dom r) k)" unfolding D using append_leaf_desc(2) [OF t, of k] by simp
  have cls: "has_class c (page_dom r) m = has_class c (page_dom q) m" for c m
    by (simp add: D append_child_def has_class_def Let_def)
  then show "c \<in> set cs \<Longrightarrow> has_class c (page_dom r) n" using assms(1) by (simp add: sprout_def)
  have "d_kids (page_dom r) n = []" unfolding D using append_leaf_fields(1) [OF t(1,5), of k n] t(4,6) by simp
  then show "d_desc (page_dom r) n = []" using tree_okD(5) [OF grownD(1) [OF g(1)], of n] by simp
  have "set (d_desc (page_dom p) a) \<subseteq> set (d_desc (page_dom r) a)" for a
  proof -
    have "set (d_desc (page_dom p) a) = set (filter (\<lambda>x. x \<noteq> n) (d_desc (page_dom r) a))"
      unfolding D append_leaf_desc(1) [OF t] using assms(1) by (simp add: sprout_def)
    then show ?thesis by auto
  qed
  moreover have "d_parent (page_dom r) m = d_parent (page_dom p) m" if "m \<in> set (d_nodes (page_dom p))" for m
  proof -
    have "m \<noteq> n" using B that by blast
    then show ?thesis using assms(1) that append_leaf_fields(2) [OF t(1,5), of k] by (simp add: D sprout_def)
  qed
  ultimately show "grew p r" using g cls assms(1) by (simp add: grew_def sprout_def)
  have "set (d_nodes (page_dom r)) = insert n (set (d_nodes (page_dom p)))"
    using assms(1) by (simp add: D append_child_def Let_def sprout_def)
  then show "new_classes p r = set cs"
    using cls assms(1) B by (auto simp: new_classes_def sprout_def)
qed

section \<open>Markup\<close>

fun plain_html :: "html \<Rightarrow> bool" where
  "plain_html (El tag cs attrs txt kids) \<longleftrightarrow> tag \<notin> {''section'', ''a''} \<and> fst ` set attrs \<inter> stack_attrs = {} \<and>
     (\<forall>k \<in> set kids. plain_html k)"

fun html_classes :: "html \<Rightarrow> string set" where
  "html_classes (El tag cs attrs tx kids) = set cs \<union> (\<Union>k \<in> set kids. html_classes k)"

definition based :: "page \<Rightarrow> bool" where
  "based p \<longleftrightarrow> tree_ok (page_dom p) \<and> r_root (p_reveal p) \<in> set (d_nodes (page_dom p))"

lemma based_grew: "based p \<Longrightarrow> grew p q \<Longrightarrow> based q"
  using grewD(1) [of p q] grownD [of p q] by (auto simp: based_def)

lemma add_html_grew:
  assumes "based p" "k \<in> set (d_nodes (page_dom p))" "plain_html h"
  shows "grew p (add_html k h p) \<and> new_classes p (add_html k h p) \<subseteq> html_classes h \<and>
    (\<forall>tag cs attrs tx kids. h = El tag cs attrs tx kids \<longrightarrow>
       (\<exists>n \<in> set (d_desc (page_dom (add_html k h p)) k). \<forall>c \<in> set cs. has_class c (page_dom (add_html k h p)) n))"
  using assms
proof (induction h arbitrary: k p)
  case (El tag cs attrs tx kids)
  obtain n p1 where n: "new_element tag cs p = (n, p1)" by fastforce
  define p2 where "p2 = on_dom (set_text tx n) (fold (\<lambda>(a, v). on_dom (set_attr a v n)) attrs p1)"
  define p3 where "p3 = on_dom (append_child k n) p2"
  have s1: "sprout p n cs p1" by (rule sprout_new [OF _ _ n]) (use El.prems in \<open>auto simp: based_def\<close>)
  have "sprout p n cs (fold (\<lambda>(a, v). on_dom (set_attr a v n)) ats q)"
    if "sprout p n cs q" "fst ` set ats \<inter> stack_attrs = {}" for ats q
    using that
  proof (induction ats arbitrary: q)
    case (Cons av ats)
    obtain a v where av: "av = (a, v)" by (cases av)
    have "sprout p n cs (on_dom (set_attr a v n) q)"
      by (rule sprout_dom [OF Cons.prems(1)], intro page) (use Cons.prems(2) av in \<open>auto simp: attr_ok_def\<close>)
    with Cons av show ?case by simp
  qed simp
  from this [OF s1] have "sprout p n cs p2" unfolding p2_def using El.prems(3) by (auto intro!: sprout_dom page)
  note s3 = sprout_append [OF this El.prems(2), folded p3_def]
  have kids: "grew p q \<and> n \<in> set (d_nodes (page_dom q)) \<Longrightarrow> set ks \<subseteq> set kids \<Longrightarrow>
      grew q (fold (add_html n) ks q) \<and> new_classes q (fold (add_html n) ks q) \<subseteq> (\<Union>k \<in> set ks. html_classes k)" for ks q
  proof (induction ks arbitrary: q)
    case Nil
    then show ?case using grewD(1) [of p q] grownD(1) [of p q] by (auto intro: grew_refl)
  next
    case (Cons h ks)
    have b: "based q" using based_grew El.prems(1) Cons.prems(1) by blast
    have h: "grew q (add_html n h q)" "new_classes q (add_html n h q) \<subseteq> html_classes h"
      using El.IH [of h q n] b Cons.prems El.prems(3) by auto
    have "grew p (add_html n h q) \<and> n \<in> set (d_nodes (page_dom (add_html n h q)))"
      using h Cons.prems(1) grew_trans(1) grownD(3) [OF grewD(1)] by blast
    then have r: "grew (add_html n h q) (fold (add_html n) ks (add_html n h q))"
      "new_classes (add_html n h q) (fold (add_html n) ks (add_html n h q)) \<subseteq> (\<Union>k \<in> set ks. html_classes k)"
      using Cons.IH [of "add_html n h q"] Cons.prems(2) by simp_all
    show ?case using grew_trans [OF h(1) r(1)] h(2) r(2) by auto
  qed
  define q where "q = fold (add_html n) kids p3"
  have eq: "add_html k (El tag cs attrs tx kids) p = q"
    by (simp add: n p2_def [symmetric] p3_def [symmetric] q_def Let_def)
  have q: "grew p3 q" "new_classes p3 q \<subseteq> (\<Union>k \<in> set kids. html_classes k)"
    unfolding q_def using kids [of p3 kids] s3(1,2) by blast+
  have "grew p q" "new_classes p q \<subseteq> html_classes (El tag cs attrs tx kids)"
    using grew_trans [OF s3(1) q(1)] q(2) s3(6) by auto
  moreover have "n \<in> set (d_desc (page_dom q) k)" "c \<in> set cs \<Longrightarrow> has_class c (page_dom q) n" for c
    using grewD(2,3) [OF q(1)] s3(2-4) by blast+
  ultimately show ?case unfolding eq by blast
qed

lemma add_htmls_grew:
  assumes "based p" "k \<in> set (d_nodes (page_dom p))" "\<forall>h \<in> set hs. plain_html h"
  shows "grew p (fold (add_html k) hs p)"
    "El tag cs attrs tx kids \<in> set hs \<Longrightarrow> c \<in> set cs \<Longrightarrow>
      \<exists>n \<in> set (d_desc (page_dom (fold (add_html k) hs p)) k). has_class c (page_dom (fold (add_html k) hs p)) n"
    "new_classes p (fold (add_html k) hs p) \<subseteq> (\<Union>h \<in> set hs. html_classes h)"
proof -
  have "grew p (fold (add_html k) hs p) \<and> new_classes p (fold (add_html k) hs p) \<subseteq> (\<Union>h \<in> set hs. html_classes h) \<and> (El tag cs attrs tx kids \<in> set hs \<longrightarrow> c \<in> set cs \<longrightarrow>
      (\<exists>n \<in> set (d_desc (page_dom (fold (add_html k) hs p)) k). has_class c (page_dom (fold (add_html k) hs p)) n))"
    using assms
  proof (induction hs arbitrary: p)
    case Nil
    then show ?case by (simp add: grew_refl based_def)
  next
    case (Cons h hs)
    let ?q = "add_html k h p"
    let ?r = "fold (add_html k) hs ?q"
    have h: "grew p ?q" "new_classes p ?q \<subseteq> html_classes h" "h = El tag cs attrs tx kids \<Longrightarrow> \<exists>n \<in> set (d_desc (page_dom ?q) k). \<forall>c \<in> set cs. has_class c (page_dom ?q) n"
      using add_html_grew [OF Cons.prems(1,2), of h] Cons.prems(3) by auto
    have q: "based ?q" "k \<in> set (d_nodes (page_dom ?q))"
      using based_grew [OF Cons.prems(1) h(1)] grownD(3) [OF grewD(1) [OF h(1)] Cons.prems(2)] by blast+
    note IH = Cons.IH [OF q]
    have r: "grew ?q ?r" "new_classes ?q ?r \<subseteq> (\<Union>h \<in> set hs. html_classes h)" using IH Cons.prems(3) by simp_all
    have "\<exists>n \<in> set (d_desc (page_dom ?r) k). has_class c (page_dom ?r) n" if he: "h = El tag cs attrs tx kids" and ce: "c \<in> set cs"
    proof -
      obtain n where n: "n \<in> set (d_desc (page_dom ?q) k)" "has_class c (page_dom ?q) n" using h(3) [OF he] ce by blast
      moreover have "n \<in> set (d_nodes (page_dom ?q))" using desc_nodes n(1) q(1) unfolding based_def by blast
      ultimately show ?thesis using grewD(2,3) [OF r(1)] by blast
    qed
    then show ?case using grew_trans [OF h(1) r(1)] r(2) h(2) IH Cons.prems(3) by auto
  qed
  then show "grew p (fold (add_html k) hs p)"
    "El tag cs attrs tx kids \<in> set hs \<Longrightarrow> c \<in> set cs \<Longrightarrow>
      \<exists>n \<in> set (d_desc (page_dom (fold (add_html k) hs p)) k). has_class c (page_dom (fold (add_html k) hs p)) n"
    "new_classes p (fold (add_html k) hs p) \<subseteq> (\<Union>h \<in> set hs. html_classes h)"
    by blast+
qed

section \<open>Elements of the presentation\<close>

lemma based_nodes: "based p \<Longrightarrow> x \<in> set (d_desc (page_dom p) n) \<Longrightarrow> x \<in> set (d_nodes (page_dom p))"
  unfolding based_def using desc_nodes by blast

lemma find_child:
  assumes "List.find (\<lambda>n. d_parent d n = Some k) (query_all (has_class cls) d k) = Some n"
  shows "d_parent d n = Some k" "has_class cls d n" "n \<in> set (d_desc d k)"
proof -
  obtain i where "i < length (query_all (has_class cls) d k)" "query_all (has_class cls) d k ! i = n" "d_parent d n = Some k"
    using assms unfolding find_Some_iff by auto
  then have "n \<in> set (query_all (has_class cls) d k)" "d_parent d n = Some k" using nth_mem by blast+
  then show "d_parent d n = Some k" "has_class cls d n" "n \<in> set (d_desc d k)" by (auto simp: query_all_def)
qed

text \<open>The child found, or a new one with the content.\<close>

lemma singleton_grew:
  assumes "based p" "k \<in> set (d_nodes (page_dom p))" "tag \<notin> {''section'', ''a''}" "\<forall>h \<in> set content. plain_html h"
    "createSingletonNode k tag cls content p = (n, q)"
  shows "grew p q" "n \<in> set (d_nodes (page_dom q))"
    "new_classes p q \<subseteq> insert cls (\<Union>h \<in> set content. html_classes h)"
    "q = p \<and> d_parent (page_dom p) n = Some k \<and> has_class cls (page_dom p) n \<or>
     n \<notin> set (d_nodes (page_dom p)) \<and> (content = [] \<longrightarrow> d_desc (page_dom q) n = []) \<and>
     (\<forall>tag cs attrs tx kids c. El tag cs attrs tx kids \<in> set content \<longrightarrow> c \<in> set cs \<longrightarrow>
        (\<exists>m \<in> set (d_desc (page_dom q) n). has_class c (page_dom q) m))"
proof -
  let ?found = "List.find (\<lambda>n. d_parent (page_dom p) n = Some k) (query_all (has_class cls) (page_dom p) k)"
  have "grew p q \<and> n \<in> set (d_nodes (page_dom q)) \<and>
     new_classes p q \<subseteq> insert cls (\<Union>h \<in> set content. html_classes h) \<and> (q = p \<and> d_parent (page_dom p) n = Some k \<and> has_class cls (page_dom p) n \<or>
     n \<notin> set (d_nodes (page_dom p)) \<and> (content = [] \<longrightarrow> d_desc (page_dom q) n = []) \<and>
     (\<forall>tag cs attrs tx kids c. El tag cs attrs tx kids \<in> set content \<longrightarrow> c \<in> set cs \<longrightarrow>
        (\<exists>m \<in> set (d_desc (page_dom q) n). has_class c (page_dom q) m)))"
  proof (cases ?found)
    case (Some m)
    then have "q = p" "m = n" using assms(5) by (simp_all add: createSingletonNode_def Let_def)
    with find_child [OF Some] based_nodes [OF assms(1)] show ?thesis
      using assms(1) by (auto simp: grew_refl based_def)
  next
    case None
    obtain m p1 where m: "new_element tag [cls] p = (m, p1)" by fastforce
    define p2 where "p2 = on_dom (append_child k m) p1"
    have eq: "n = m" "q = fold (add_html m) content p2"
      using assms(5) None by (auto simp: createSingletonNode_def Let_def m p2_def)
    have sp: "sprout p m [cls] p1" by (rule sprout_new [OF _ _ m assms(3)]) (use assms(1) in \<open>simp_all add: based_def\<close>)
    note s = sprout_append [OF sp assms(2), folded p2_def]
    have b2: "based p2" by (rule based_grew [OF assms(1) s(1)])
    note h = add_htmls_grew [OF b2 s(2) assms(4), folded eq(2)]
    have "m \<notin> set (d_nodes (page_dom p))" using sp by (simp add: sprout_def budding_def)
    moreover have "m \<in> set (d_nodes (page_dom q))" using grownD(3) [OF grewD(1) [OF h(1)] s(2)] .
    moreover have "content = [] \<longrightarrow> d_desc (page_dom q) m = []" using s(5) by (simp add: eq(2))
    moreover have "new_classes p q \<subseteq> insert cls (\<Union>h \<in> set content. html_classes h)"
      using grew_trans(2) [OF s(1) h(1)] h(3) s(6) by auto
    ultimately show ?thesis using grew_trans(1) [OF s(1) h(1)] h(2) unfolding eq(1) by blast
  qed
  then show "grew p q" "n \<in> set (d_nodes (page_dom q))"
    "new_classes p q \<subseteq> insert cls (\<Union>h \<in> set content. html_classes h)"
    "q = p \<and> d_parent (page_dom p) n = Some k \<and> has_class cls (page_dom p) n \<or>
     n \<notin> set (d_nodes (page_dom p)) \<and> (content = [] \<longrightarrow> d_desc (page_dom q) n = []) \<and>
     (\<forall>tag cs attrs tx kids c. El tag cs attrs tx kids \<in> set content \<longrightarrow> c \<in> set cs \<longrightarrow>
        (\<exists>m \<in> set (d_desc (page_dom q) n). has_class c (page_dom q) m))"
    by blast+
qed

lemma status_grew:
  assumes "based p" "r_wrapper (p_reveal p) \<in> set (d_nodes (page_dom p))" "createStatusDiv p = (n, q)"
  shows "grew p q"
proof (cases "List.find (\<lambda>n. d_attr (page_dom p) n ''id'' = Some ''aria-status-div'') (d_nodes (page_dom p))")
  case (Some m)
  then show ?thesis using assms by (simp add: createStatusDiv_def Let_def grew_refl based_def)
next
  case None
  obtain m p1 where m: "new_element ''div'' [] p = (m, p1)" by fastforce
  have sp: "sprout p m [] p1" by (rule sprout_new [OF _ _ m]) (use assms(1) in \<open>simp_all add: based_def\<close>)
  define p2 where "p2 = on_dom (set_attr ''aria-atomic'' ''true'' m) (on_dom (set_attr ''aria-live'' ''polite'' m)
    (on_dom (set_attr ''id'' ''aria-status-div'' m) (set_style ''clip'' (Css ''rect( 1px, 1px, 1px, 1px )'') m
    (set_style ''overflow'' (Css ''hidden'') m (set_style ''width'' (Px (Fin 1)) m (set_style ''height'' (Px (Fin 1)) m
    (set_style ''position'' (Css ''absolute'') m p1)))))))"
  have w: "r_wrapper (p_reveal p2) = r_wrapper (p_reveal p)"
  proof -
    have "grown p p2" using sp unfolding p2_def
      by (intro grow page) (simp_all add: sprout_def budding_def)
    then show ?thesis by (rule grownD(4))
  qed
  have "q = on_dom (append_child (r_wrapper (p_reveal p)) m) p2"
    using assms(3) None unfolding w [symmetric] by (auto simp: createStatusDiv_def Let_def m p2_def)
  moreover have "sprout p m [] p2" unfolding p2_def by (intro sprout_dom sprout_style sp page) simp_all
  ultimately show ?thesis using sprout_append(1) assms(2) by blast
qed

section \<open>The player\<close>

lemma player_same [simp]:
  "p_player (on_reveal h p) = p_player p" "p_player (on_dom f p) = p_player p" "p_player (set_style a v n p) = p_player p"
  "p_player (call_page c p) = p_player p" "p_player (later t p) = p_player p"
  "p_player (addEventListener u ev g p) = p_player p" "p_player (removeEventListener u ev g p) = p_player p"
  by (simp_all add: on_reveal_def on_dom_def set_style_def call_page_def later_def addEventListener_def removeEventListener_def)

lemma player_fold: "(\<And>x p. p_player (f x p) = p_player p) \<Longrightarrow> p_player (fold f xs p) = p_player p"
  by (induction xs arbitrary: p) simp_all

lemma player_add_all [simp]: "p_player (add_all ls p) = p_player p" "p_player (remove_all ls p) = p_player p"
  unfolding add_all_def remove_all_def by (rule player_fold; simp split: prod.split)+

lemma player_new: "new_element tag cs p = (n, q) \<Longrightarrow> p_player q = p_player p"
  by (auto simp: new_element_def split: prod.splits)

lemma player_background: "createBackground sl c p = (el, q) \<Longrightarrow> p_player q = p_player p"
proof -
  have copy: "p_player (copy_style a v n p) = p_player p" "p_player (copy_attr a v n p) = p_player p" for a v n p
    by (simp_all add: copy_style_def copy_attr_def)
  have "p_player (dress_background sl n p) = p_player p" for n p
    by (simp add: dress_background_def Let_def copy)
  then show "createBackground sl c p = (el, q) \<Longrightarrow> p_player q = p_player p"
    by (auto simp: createBackground_def Let_def player_new split: prod.splits option.splits)
qed

lemma player_backgrounds: "p_player (createBackgrounds p) = p_player p"
proof -
  have nested: "p_player (create_nested k v p) = p_player p" for k v p
    by (cases "createBackground v k p") (simp add: create_nested_def player_background)
  have "p_player (create_stack h p) = p_player p" for h p
    by (cases "createBackground h (r_background (p_reveal p)) p")
      (simp add: create_stack_def player_fold [OF nested] player_background)
  then show ?thesis by (simp add: createBackgrounds_def Let_def player_fold)
qed

section \<open>The invariant of a page\<close>

text \<open>The player and the links hold no slides.\<close>

definition steady :: "page \<Rightarrow> bool" where
  "steady p \<longleftrightarrow> based p \<and> r_wrapper (p_reveal p) \<in> set (d_nodes (page_dom p)) \<and>
     bare (page_dom p) (r_wrapper (p_reveal p)) (r_background (p_reveal p)) \<and>
     (\<forall>n. p_player p = Some n \<longrightarrow> bare (page_dom p) (r_wrapper (p_reveal p)) n) \<and>
     (\<forall>n \<in> set (d_nodes (page_dom p)). d_tag (page_dom p) n = ''a'' \<longrightarrow> bare (page_dom p) (r_wrapper (p_reveal p)) n)"

definition page_inv :: "(reveal \<Rightarrow> bool) \<Rightarrow> page \<Rightarrow> bool" where
  "page_inv I p \<longleftrightarrow> steady p \<and> I (p_reveal p)"

lemma steadyD:
  assumes "steady p"
  shows "based p" "tree_ok (page_dom p)" "r_root (p_reveal p) \<in> set (d_nodes (page_dom p))"
    "r_wrapper (p_reveal p) \<in> set (d_nodes (page_dom p))" "r_background (p_reveal p) \<in> set (d_nodes (page_dom p))"
    "bare (page_dom p) (r_wrapper (p_reveal p)) (r_background (p_reveal p))"
    "p_player p = Some n \<Longrightarrow> bare (page_dom p) (r_wrapper (p_reveal p)) n"
    "n \<in> set (d_nodes (page_dom p)) \<Longrightarrow> d_tag (page_dom p) n = ''a'' \<Longrightarrow> bare (page_dom p) (r_wrapper (p_reveal p)) n"
  using assms by (simp_all add: steady_def based_def bare_def)

lemma steady_page: "steady p \<Longrightarrow> page_ok p"
  using steadyD [of p] by (simp add: page_ok_def Let_def bare_def)

lemma steady_grown:
  assumes "steady p" "grown p q" "p_player q = p_player p \<or> p_player q = None"
  shows "steady q"
proof -
  note g = grownD [OF assms(2)] and S = steadyD [OF assms(1)]
  have r: "reshaped (r_wrapper (p_reveal p)) (r_root (p_reveal p)) (page_dom p) (page_dom q)"
    using assms(2) by (simp add: grown_def)
  note D = reshapedD [OF r] and B = bare_kept [OF r _ S(4)]
  have "bare (page_dom q) (r_wrapper (p_reveal p)) n" if n: "n \<in> set (d_nodes (page_dom q))" "d_tag (page_dom q) n = ''a''" for n
  proof -
    have "n \<in> set (d_nodes (page_dom p))" using D(6) [OF n(1)] n(2) by auto
    then show ?thesis using B [OF S(8)] D(5) n(2) by simp
  qed
  moreover have "bare (page_dom q) (r_wrapper (p_reveal p)) n" if "p_player q = Some n" for n
    using that assms(3) B [OF S(7)] by auto
  ultimately show ?thesis
    using g S(3,4) B [OF S(6)] unfolding steady_def based_def by simp
qed

lemma steady_shape:
  assumes "steady p" "same_shape (page_dom p) (page_dom q)" "p_player q = p_player p"
    "r_wrapper (p_reveal q) = r_wrapper (p_reveal p)" "r_root (p_reveal q) = r_root (p_reveal p)"
    "r_background (p_reveal q) = r_background (p_reveal p)"
  shows "steady q"
proof -
  have sh: "d_nodes (page_dom q) = d_nodes (page_dom p)" "d_desc (page_dom q) = d_desc (page_dom p)"
    "d_tag (page_dom q) = d_tag (page_dom p)" "is_section (page_dom q) = is_section (page_dom p)"
    using assms(2) by (auto simp: same_shape_def is_section_def)
  have "bare (page_dom q) w n = bare (page_dom p) w n" for w n unfolding bare_def sh by (rule refl)
  then show ?thesis
    using assms(1) tree_ok_shape [OF assms(2)] unfolding steady_def based_def assms(3-6) sh by simp
qed

lemma steady_cong: "p_reveal q = p_reveal p \<Longrightarrow> p_player q = p_player p \<Longrightarrow> steady q = steady p"
  by (simp add: steady_def based_def page_dom_def)

text \<open>The look of the page is a matter of classes and attributes.\<close>

lemma grown_look:
  assumes "tree_ok (page_dom p)" "old \<notin> {''slides'', ''present''}" "c_transition (p_view p) \<notin> {''slides'', ''present''}"
  shows "grown p (configure_look old p)" "p_player (configure_look old p) = p_player p"
    "c_shuffle (p_view (configure_look old p)) = c_shuffle (p_view p)"
proof -
  define q where "q = on_dom (remove_class old (r_wrapper (p_reveal p))) p"
  define r where "r = (if \<not> r_transforms3d (p_reveal q) then q\<lparr>p_view := (p_view q)\<lparr>c_transition := ''linear''\<rparr>\<rparr> else q)"
  have v: "p_view q = p_view p" by (simp add: q_def on_dom_def on_reveal_def)
  have q: "grown p q" unfolding q_def by (intro grow page grown_refl [OF assms(1)]) (use assms(2) in simp)
  have r: "grown p r" by (rule grown_same [OF q]) (simp add: r_def)
  have t: "c_transition (p_view r) \<notin> {''slides'', ''present''}" using assms(3) v by (simp add: r_def)
  have c: "p_controls (on_dom f x) = p_controls x" "p_view (on_dom f x) = p_view x" for f x
    by (simp_all add: on_dom_def on_reveal_def)
  show "grown p (configure_look old p)"
    unfolding configure_look_def Let_def q_def [symmetric] r_def [symmetric] show_if_block_def
    by (intro grow page r) (use t in \<open>simp_all add: c\<close>)
  have "p_player r = p_player q" by (simp add: r_def)
  then show "p_player (configure_look old p) = p_player p"
    unfolding configure_look_def Let_def q_def [symmetric] r_def [symmetric] show_if_block_def
    by (simp add: q_def split: option.split)
  have "c_shuffle (p_view r) = c_shuffle (p_view p)" by (simp add: r_def v)
  then show "c_shuffle (p_view (configure_look old p)) = c_shuffle (p_view p)"
    unfolding configure_look_def Let_def q_def [symmetric] r_def [symmetric] show_if_block_def
    by (simp add: c split: option.split)
qed

text \<open>What an invariant of the presentation needs to be one of the page.\<close>

locale page_invariant =
  fixes I :: "reveal \<Rightarrow> bool"
  assumes deck: "I s \<Longrightarrow> deck_ok s \<and> timers_ok s"
    and frame: "I s \<Longrightarrow> pos_frame (keep_slides (r_dom s) (r_root s)) s s' \<Longrightarrow> timers_ok s' \<Longrightarrow> I s'"
    and built: "I s \<Longrightarrow> rebuilt s s' \<Longrightarrow> tree_ok (r_dom s') \<Longrightarrow>
      (\<And>b. b \<in> set (d_kids (r_dom s') (r_background s)) \<Longrightarrow> background_ok (r_dom s') b) \<Longrightarrow> I s'"
    and paused: "I s \<Longrightarrow> I (resume s)"
begin

lemma grown_inv:
  assumes "I (p_reveal p)" "tree_ok (page_dom p)" "grown p q"
  shows "I (p_reveal q)"
proof (rule built [OF assms(1)])
  have r: "reshaped (r_wrapper (p_reveal p)) (r_root (p_reveal p)) (page_dom p) (page_dom q)"
    using assms(3) by (simp add: grown_def)
  have t: "tree_ok (r_dom (p_reveal q))" using grownD(1) [OF assms(3)] by (simp add: page_dom_def)
  then show "tree_ok (r_dom (p_reveal q))" .
  show "rebuilt (p_reveal p) (p_reveal q)" by (rule grownD(2) [OF assms(3)])
  fix b
  assume b: "b \<in> set (d_kids (r_dom (p_reveal q)) (r_background (p_reveal p)))"
  have "\<not> is_section (page_dom q) x" if "x \<in> set (d_desc (page_dom q) (r_background (p_reveal p)))" for x
    using reshaped_bare [OF r _ that] backgrounds_bare [of "p_reveal p"] assms(1,2) deck by (simp add: page_dom_def)
  moreover have "b \<in> set (d_desc (page_dom q) (r_background (p_reveal p)))"
    "set (d_desc (page_dom q) b) \<subseteq> set (d_desc (page_dom q) (r_background (p_reveal p)))"
    using b desc_mem [OF t, of _ "r_background (p_reveal p)"] by (auto simp: page_dom_def)
  ultimately show "background_ok (r_dom (p_reveal q)) b" unfolding background_ok_def page_dom_def by blast
qed

lemma keep_grown:
  "page_inv I p \<Longrightarrow> grown p q \<Longrightarrow> p_player q = p_player p \<or> p_player q = None \<Longrightarrow> page_inv I q"
  unfolding page_inv_def using steady_grown [of p q] grown_inv [of p q] steadyD(2) [of p] by blast

lemma keep_frame:
  assumes "page_inv I p" "pos_frame (keep_slides (page_dom p) (r_root (p_reveal p))) (p_reveal p) (f (p_reveal p))"
    "timers_ok (f (p_reveal p))"
  shows "page_inv I (on_reveal f p)"
proof -
  have S: "steady p" "I (p_reveal p)" using assms(1) by (simp_all add: page_inv_def)
  have f: "doc_frame (keep_slides (page_dom p) (r_root (p_reveal p))) (p_reveal p) (f (p_reveal p))"
    using assms(2) by (simp add: pos_frame_def)
  have "same_shape (page_dom p) (page_dom (on_reveal f p))"
    using f by (simp add: doc_frame_def dom_keep_def page_dom_def)
  then have "steady (on_reveal f p)"
    by (rule steady_shape [OF S(1)]) (use f in \<open>simp_all add: doc_frame_def\<close>)
  moreover have "I (f (p_reveal p))" using frame [OF S(2) _ assms(3)] assms(2) by (simp add: page_dom_def)
  ultimately show ?thesis by (simp add: page_inv_def)
qed

lemma keep_page:
  assumes "page_inv I p"
    "page_frame (keep_slides (page_dom p) (r_root (p_reveal p))) (p_reveal p) (f (p_reveal p))"
  shows "page_inv I (on_reveal f p)"
  by (rule keep_frame [where f = f, OF assms(1) page_pos_frame [OF assms(2)]])
    (use assms(1) deck timer_frame_ok [OF page_timer_frame [OF assms(2)]] in \<open>simp add: page_inv_def\<close>)

section \<open>\<open>sync\<close>\<close>

lemma hold_cong: "p_reveal q = p_reveal p \<Longrightarrow> p_player q = p_player p \<Longrightarrow> page_inv I q = page_inv I p"
  using steady_cong [of q p] by (simp add: page_inv_def)

lemma hold_page:
  assumes "page_inv I p"
  shows "page_inv I (on_reveal sortAllFragments p)" "page_inv I (on_reveal updateControls p)"
    "page_inv I (on_reveal updateProgress p)" "page_inv I (on_reveal updateSlideNumber p)"
    "page_inv I (on_reveal updateSlidesVisibility p)" "page_inv I (on_reveal updateNotesVisibility p)"
    "page_inv I (on_reveal updateNotes p)" "page_inv I (on_reveal formatEmbeddedContent p)"
    "page_inv I (on_reveal layoutOverview p)" "page_inv I (on_reveal updateOverview p)"
    "page_inv I (on_reveal (stopEmbeddedContent b e) p)" "page_inv I (on_reveal (startEmbeddedContent n) p)"
  by (rule keep_page [OF assms], intro page; simp)+

lemma hold_time:
  assumes "page_inv I p"
  shows "page_inv I (on_reveal cueAutoSlide p)" "page_inv I (on_reveal (writeURL delay) p)"
    "page_inv I (on_reveal (updateBackground b) p)" "page_inv I (on_reveal (\<lambda>s. s\<lparr>autoSlide := configured_autoSlide s\<rparr>) p)"
proof -
  have d: "deck_ok (p_reveal p)" "timers_ok (p_reveal p)" using assms deck by (simp_all add: page_inv_def)
  show "page_inv I (on_reveal cueAutoSlide p)" "page_inv I (on_reveal (writeURL delay) p)"
    by (rule keep_frame [OF assms]; simp add: pos_cueAutoSlide pos_writeURL timers_cue timers_writeURL d)+
  show "page_inv I (on_reveal (updateBackground b) p)"
    by (rule keep_frame [OF assms]) (use pos_updateBackground [OF d(1), of b] timers_updateBackground [OF d(2)]
      in \<open>simp_all add: page_dom_def\<close>)
  show "page_inv I (on_reveal (\<lambda>s. s\<lparr>autoSlide := configured_autoSlide s\<rparr>) p)"
    by (rule keep_frame [OF assms]) (simp_all add: pos_frame_fields d)
qed

lemma hold_layout:
  assumes "page_inv I p"
  shows "page_inv I (layout p)"
proof (cases "isPrintingPDF (p_reveal p)")
  case True
  have "page_inv I (layout p) = page_inv I p"
    by (rule hold_cong [OF _ layout_player]) (simp add: layout_reveal True)
  then show ?thesis using assms by simp
next
  case False
  let ?q = "on_reveal (\<lambda>s. if isOverview s then updateOverview s else s) (on_reveal updateProgress p)"
  have "page_inv I ?q" by (rule keep_page [OF hold_page(3) [OF assms]]) (intro page; simp)
  moreover have "page_inv I (layout p) = page_inv I ?q"
    by (rule hold_cong) (simp_all add: layout_reveal layout_player False Let_def)
  ultimately show ?thesis by simp
qed

lemma hold_bind:
  assumes "page_inv I p"
  shows "page_inv I (addEventListeners (removeEventListeners p))"
proof (rule keep_grown [OF assms])
  have "tree_ok (page_dom p)" using assms steadyD(2) by (simp add: page_inv_def)
  then show "grown p (addEventListeners (removeEventListeners p))"
    unfolding addEventListeners_def removeEventListeners_def Let_def
    by (intro grow grown_refl) (simp_all add: around_def timer_frame_def)
qed (simp add: addEventListeners_def removeEventListeners_def Let_def)

lemma hold_backgrounds:
  assumes "page_inv I p"
  shows "page_inv I (createBackgrounds p)"
proof (rule keep_grown [OF assms])
  have S: "steady p" "deck_ok (p_reveal p)" using assms deck by (simp_all add: page_inv_def)
  show "grown p (createBackgrounds p)"
    by (rule grown_createBackgrounds [OF steady_page [OF S(1)] S(2) steadyD(6) [OF S(1)]])
qed (simp add: player_backgrounds)

lemma hold_sync:
  assumes "page_inv I p"
  shows "page_inv I (sync_page p)"
proof -
  define media where "media = (\<lambda>s. if c_autoPlayMedia (r_config s) = Some False then stopEmbeddedContent False (currentSlide s) s
    else (case currentSlide s of None \<Rightarrow> s | Some n \<Rightarrow> startEmbeddedContent n s))"
  have media: "page_inv I (on_reveal media q)" if "page_inv I q" for q
    by (rule keep_page [OF that]) (unfold media_def, intro page; simp)
  define q where "q = on_reveal media (on_reveal formatEmbeddedContent (on_reveal updateNotes
    (on_reveal updateNotesVisibility (on_reveal (updateBackground True) (on_reveal updateSlidesVisibility
    (on_reveal updateSlideNumber (on_reveal updateProgress (on_reveal updateControls (on_reveal sortAllFragments
    (on_reveal (writeURL None) (createBackgrounds (on_reveal cueAutoSlide
    (on_reveal (\<lambda>s. s\<lparr>autoSlide := configured_autoSlide s\<rparr>)
      (layout (addEventListeners (removeEventListeners p))))))))))))))))"
  have "sync_page p = (if isOverview (p_reveal q) then on_reveal layoutOverview q else q)"
    unfolding sync_page_def Let_def q_def media_def by (rule refl)
  moreover have "page_inv I q"
    unfolding q_def by (intro media hold_page hold_time hold_backgrounds hold_layout hold_bind assms)
  ultimately show ?thesis by (simp add: hold_page)
qed

section \<open>\<open>configure\<close>\<close>

lemma hold_grown: "page_inv I p \<Longrightarrow> grown p q \<Longrightarrow> p_player q = p_player p \<Longrightarrow> page_inv I q"
  using keep_grown by blast

lemma hold_refl: "page_inv I p \<Longrightarrow> grown p p"
  using steadyD(2) by (auto simp: page_inv_def intro: grown_refl)

lemma hold_extend:
  assumes "page_inv I p"
  shows "page_inv I (extend_config opts p)"
proof -
  define q where "q = on_reveal (\<lambda>s. s\<lparr>r_config := fst opts (r_config s)\<rparr>) p"
  have "grown p q" unfolding q_def
    by (intro grown_reveal hold_refl [OF assms]) (simp_all add: around_def timer_frame_def)
  then have "page_inv I q" by (rule hold_grown [OF assms]) (simp add: q_def)
  moreover have "page_inv I (extend_config opts p) = page_inv I q"
    by (rule hold_cong) (simp_all add: extend_config_def q_def)
  ultimately show ?thesis by simp
qed

lemma hold_look:
  assumes "page_inv I p" "old \<notin> {''slides'', ''present''}" "c_transition (p_view p) \<notin> {''slides'', ''present''}"
  shows "page_inv I (configure_look old p)"
proof -
  have "tree_ok (page_dom p)" using assms(1) steadyD(2) by (auto simp: page_inv_def)
  note g = grown_look [OF this assms(2,3)]
  show ?thesis by (rule hold_grown [OF assms(1) g(1,2)])
qed

lemma hold_resume:
  assumes "page_inv I p"
  shows "page_inv I (on_reveal resume p)"
proof -
  have S: "steady p" "I (p_reveal p)" using assms by (simp_all add: page_inv_def)
  let ?s = "p_reveal p"
  define t where "t = upd_dom (remove_class ''paused'' (r_wrapper ?s)) ?s"
  have r: "resume ?s = (if has_class ''paused'' (r_dom ?s) (r_wrapper ?s) then log_effect (Dispatch ''resumed'') (cueAutoSlide t)
      else cueAutoSlide t)" by (simp add: resume_def Let_def t_def)
  have "pos_frame (\<lambda>_ _. False) t (cueAutoSlide t)" by (rule pos_cueAutoSlide)
  then have "doc_frame (\<lambda>_ _. False) t (resume ?s)"
    unfolding r by (auto simp: pos_frame_def doc_frame_def log_effect_def)
  then have d: "same_shape (r_dom t) (r_dom (resume ?s))" "r_wrapper (resume ?s) = r_wrapper ?s"
    "r_root (resume ?s) = r_root ?s" "r_background (resume ?s) = r_background ?s"
    by (simp_all add: doc_frame_def dom_keep_def t_def upd_dom_def)
  have "same_shape (r_dom ?s) (r_dom t)" by (simp add: t_def upd_dom_def same_shape_sym)
  then have "same_shape (page_dom p) (page_dom (on_reveal resume p))"
    using d(1) same_shape_trans by (simp add: page_dom_def)
  then have "steady (on_reveal resume p)" by (rule steady_shape [OF S(1)]) (simp_all add: d)
  then show ?thesis using paused [OF S(2)] by (simp add: page_inv_def)
qed

lemma hold_direction:
  assumes "page_inv I p"
  shows "page_inv I (configure_direction p)"
proof -
  have flag: "page_inv I (flag_wrapper b c q)" if "page_inv I q" "c \<notin> {''slides'', ''present''}" for b c q
    by (rule hold_grown [OF that(1)], unfold flag_wrapper_def flag_class_def, intro grow page hold_refl [OF that(1)])
      (use that(2) in simp_all)
  define q where "q = flag_wrapper (c_center (p_view (flag_wrapper (c_rtl (r_config (p_reveal p))) ''rtl'' p))) ''center''
    (flag_wrapper (c_rtl (r_config (p_reveal p))) ''rtl'' p)"
  define r where "r = (if \<not> c_pause (r_config (p_reveal q)) then on_reveal resume q else q)"
  have q: "page_inv I q" unfolding q_def by (intro flag assms) simp_all
  have r: "page_inv I r" using q hold_resume [OF q] by (simp add: r_def)
  have "page_inv I (on_dom (set_attr ''data-layout'' v n) r)" for v n
    by (rule hold_grown [OF r], intro grow page hold_refl [OF r]) simp_all
  then show ?thesis
    unfolding configure_direction_def Let_def q_def [symmetric] r_def [symmetric]
    using r by (simp split: option.split)
qed

lemma grown_roll:
  assumes "grown p q" "r_root (p_reveal p) \<in> set (d_nodes (page_dom p))" "n \<in> set (d_nodes (page_dom p))"
  shows "grown p (roll_link n q)" "p_player (roll_link n q) = p_player q"
proof -
  let ?b = "d_text (page_dom q) n \<noteq> [] \<and> d_desc (page_dom q) n = [] \<and> (d_class (page_dom q) n = [] \<or>
    \<not> has_class (case d_attr (page_dom q) n ''href'' of Some x \<Rightarrow> x | None \<Rightarrow> []) (page_dom q) n)"
  obtain m r where m: "new_element ''span'' [] q = (m, r)" by fastforce
  define t where "t = on_dom (add_class ''roll'' n) (on_dom (set_text (d_text (page_dom q) n) m)
    (on_dom (set_attr ''data-title'' (d_text (page_dom q) n) m) r))"
  have eq: "roll_link n q = (if ?b then on_dom (append_child n m) t else q)"
    unfolding roll_link_def Let_def m prod.case t_def by (rule refl)
  have g: "grown q q" "r_root (p_reveal q) \<in> set (d_nodes (page_dom q))" "n \<in> set (d_nodes (page_dom q))"
    using grownD [OF assms(1)] assms(2,3) by (auto intro: grown_refl)
  have "budding q m t"
    unfolding t_def by (intro budding_dom budding_new [OF g(1,2) m] page) simp_all
  then have "grown p (on_dom (append_child n m) t)" by (rule grown_append [OF assms(1) _ g(3)])
  then show "grown p (roll_link n q)" using assms(1) by (simp add: eq)
  show "p_player (roll_link n q) = p_player q" using player_new [OF m] by (simp add: eq t_def)
qed

lemma grown_unroll:
  assumes "grown p q" "bare (page_dom p) (r_wrapper (p_reveal p)) n" "r_wrapper (p_reveal p) \<in> set (d_nodes (page_dom p))"
  shows "grown p (unroll_link n q)" "p_player (unroll_link n q) = p_player q"
proof -
  show "p_player (unroll_link n q) = p_player q" by (simp add: unroll_link_def Let_def split: option.split)
  have "grown p (on_dom (clear_children n) (call_page c (on_dom (remove_class ''roll'' n) q)))" for c
  proof -
    define r where "r = call_page c (on_dom (remove_class ''roll'' n) q)"
    have r: "grown p r" unfolding r_def by (intro grow page assms(1)) simp
    have "bare (page_dom r) (r_wrapper (p_reveal r)) n"
      using r bare_kept [OF _ assms(2,3)] unfolding grownD(4) [OF r] grown_def by blast
    then have "grown r (on_dom (clear_children n) r)"
      using reshaped_clear [OF grownD(1) [OF r]] by (simp add: grown_def upd_dom_def around_def timer_frame_def)
    then show ?thesis using grown_trans [OF r] by (simp add: r_def)
  qed
  then show "grown p (unroll_link n q)"
    using assms(1) by (simp add: unroll_link_def Let_def split: option.split)
qed

lemma hold_links:
  assumes "page_inv I p"
  shows "page_inv I (configure_links p)"
proof -
  have roll: "page_inv I (enableRollingLinks q)" if q: "page_inv I q" for q
  proof -
    have S: "steady q" using q by (simp add: page_inv_def)
    note sd = steadyD [OF S]
    define ns where "ns = query_all (\<lambda>d n. d_tag d n = ''a'' \<and> below_slide d n) (page_dom q) (r_wrapper (p_reveal q))"
    have "set ns \<subseteq> set (d_nodes (page_dom q))" using based_nodes [OF sd(1)] by (auto simp: ns_def query_all_def)
    then have "grown q (fold roll_link ns q)"
      by (intro grown_fold hold_refl [OF q] grown_roll(1)) (use sd(3) in auto)
    moreover have "p_player (fold roll_link ms r) = p_player r" if "set ms \<subseteq> set (d_nodes (page_dom q))" "grown q r" for ms r
      using that by (induction ms arbitrary: r) (simp_all add: grown_roll [OF _ sd(3)])
    ultimately show ?thesis
      unfolding enableRollingLinks_def ns_def [symmetric]
      using q \<open>set ns \<subseteq> _\<close> by (auto intro!: hold_grown [OF q] hold_refl)
  qed
  have unroll: "page_inv I (disableRollingLinks q)" if q: "page_inv I q" for q
  proof -
    have S: "steady q" using q by (simp add: page_inv_def)
    note sd = steadyD [OF S]
    define ns where "ns = query_all (\<lambda>d n. roll_sel d n \<and> below_slide d n) (page_dom q) (r_wrapper (p_reveal q))"
    have ns: "bare (page_dom q) (r_wrapper (p_reveal q)) n" if "n \<in> set ns" for n
      using that based_nodes [OF sd(1)] sd(8) by (auto simp: ns_def query_all_def roll_sel_def)
    have "grown q (fold unroll_link ns q)"
      by (intro grown_fold hold_refl [OF q] grown_unroll(1)) (use ns sd(4) in auto)
    moreover have "p_player (fold unroll_link ms r) = p_player r" if "set ms \<subseteq> set ns" "grown q r" for ms r
      using that by (induction ms arbitrary: r) (simp_all add: grown_unroll [OF _ ns sd(4)])
    ultimately show ?thesis
      unfolding disableRollingLinks_def ns_def [symmetric] by (auto intro!: hold_grown [OF q] hold_refl [OF q])
  qed
  have listen: "page_inv I (add_all ls q)" "page_inv I (remove_all ls q)" if "page_inv I q" for ls q
    using that hold_cong [of "add_all ls q" q] hold_cong [of "remove_all ls q" q] by simp_all
  show ?thesis
    unfolding configure_links_def Let_def enablePreviewLinks_def disablePreviewLinks_def
    using assms by (simp add: listen roll unroll)
qed

lemma hold_player:
  assumes "page_inv I p"
  shows "page_inv I (configure_player k p)"
proof -
  have destroy: "page_inv I (destroy_player p)"
  proof (cases "p_player p")
    case None
    then show ?thesis using assms by (simp add: destroy_player_def)
  next
    case (Some n)
    have S: "steady p" using assms by (simp add: page_inv_def)
    have b: "bare (page_dom p) (r_wrapper (p_reveal p)) n" by (rule steadyD(7) [OF S Some])
    have "grown p (on_dom (remove_child n) p)"
      using reshaped_remove [OF steadyD(2) [OF S] b] by (simp add: grown_def upd_dom_def around_def timer_frame_def)
    then have "grown p (if d_parent (page_dom p) n \<noteq> None then on_dom (remove_child n) p else p)"
      using hold_refl [OF assms] by simp
    then have "grown p (on_reveal (\<lambda>s. s\<lparr>r_autoSlidePlayer := False\<rparr>)
        (if d_parent (page_dom p) n \<noteq> None then on_dom (remove_child n) p else p))"
      by (rule grown_reveal) (simp_all add: around_def timer_frame_def)
    then have "grown p (destroy_player p)" by (rule grown_same) (simp add: destroy_player_def Some)
    then show ?thesis by (rule keep_grown [OF assms]) (simp add: destroy_player_def Some)
  qed
  have create: "page_inv I (create_player q)" if q: "page_inv I q" for q
  proof -
    have S: "steady q" "I (p_reveal q)" using q by (simp_all add: page_inv_def)
    note sd = steadyD [OF S(1)]
    obtain n r where n: "new_element ''canvas'' [''playback''] q = (n, r)" by fastforce
    have sp: "sprout q n [''playback''] r" by (rule sprout_new [OF sd(2,3) n]) simp
    have w: "r_wrapper (p_reveal r) = r_wrapper (p_reveal q)" using sp grownD(4) by (simp add: sprout_def budding_def)
    define t where "t = on_dom (append_child (r_wrapper (p_reveal q)) n) r"
    note a = sprout_append [OF sp sd(4), folded t_def]
    define u where "u = create_player q"
    have u: "u = on_reveal (\<lambda>s. s\<lparr>r_autoSlidePlayer := True, autoSlidePaused := False\<rparr>)
        (addEventListener (Element n) ''click'' ''onAutoSlidePlayerClick'' (t\<lparr>p_player := Some n\<rparr>))"
      by (simp add: u_def create_player_def Let_def n w t_def)
    have gt: "grown q (t\<lparr>p_player := Some n\<rparr>)" by (rule grown_same [OF grewD(1) [OF a(1)]]) simp
    have g: "grown q u" unfolding u by (intro grow gt) (simp_all add: around_def timer_frame_def)
    have "page_inv I (u\<lparr>p_player := None\<rparr>)"
      by (rule keep_grown [OF q grown_same [OF g]]) simp_all
    then have s0: "steady (u\<lparr>p_player := None\<rparr>)" "I (p_reveal u)" by (simp_all add: page_inv_def)
    have d: "page_dom u = page_dom t" "r_wrapper (p_reveal u) = r_wrapper (p_reveal q)"
      using grownD(4) [OF g] by (simp_all add: u page_dom_def)
    have "n \<notin> set (d_nodes (page_dom q))" using sp by (simp add: sprout_def budding_def)
    then have "bare (page_dom u) (r_wrapper (p_reveal u)) n"
      using a(2,5) sd(4) reshaped_section [of _ _ "page_dom q" "page_dom t" n] grewD(1) [OF a(1)]
      unfolding bare_def d grown_def by auto
    moreover have "p_player u = Some n" by (simp add: u)
    ultimately have "steady u" using s0(1) by (simp add: steady_def based_def page_dom_def)
    then show ?thesis using s0(2) by (simp add: page_inv_def u_def)
  qed
  show ?thesis unfolding configure_player_def Let_def using destroy create [OF destroy] by simp
qed

lemma hold_configure:
  fixes opts :: "options option"
  assumes "page_inv I p" "c_transition (p_view p) \<notin> {''slides'', ''present''}"
  defines "p' \<equiv> (case opts of None \<Rightarrow> p | Some f \<Rightarrow> extend_config f p)"
  assumes "c_transition (p_view p') \<notin> {''slides'', ''present''}"
    and shuffled: "c_shuffle (p_view p') \<Longrightarrow> \<exists>r. shuffle random (configure_look (c_transition (p_view p)) p') = Some r \<and> page_inv I r"
  shows "\<exists>q. configure opts random p = Some q \<and> page_inv I q"
proof -
  have p': "page_inv I p'" using assms(1) hold_extend by (simp add: p'_def split: option.split)
  define q where "q = configure_look (c_transition (p_view p)) p'"
  have "tree_ok (page_dom p')" using p' steadyD(2) by (auto simp: page_inv_def)
  then have "c_shuffle (p_view q) = c_shuffle (p_view p')" unfolding q_def by (rule grown_look(3) [OF _ assms(2,4)])
  moreover have "page_inv I q" unfolding q_def by (intro hold_look p' assms(2,4))
  ultimately obtain q' where q': "(if c_shuffle (p_view q) then shuffle random q else Some q) = Some q'" "page_inv I q'"
    using shuffled unfolding q_def by auto
  define r where "r = configure_player (int (length (query_all slides_sel (page_dom p') (r_wrapper (p_reveal p')))))
    (configure_links (configure_direction q'))"
  have r: "page_inv I r"
    unfolding r_def by (intro hold_player hold_links hold_direction q'(2))
  define t where "t = (if \<not> c_fragments (r_config (p_reveal r)) then show_all_fragments r else r)"
  have frag: "grown r (show_all_fragments r) \<and> p_player (show_all_fragments r) = p_player r"
  proof -
    have "grown r x \<and> p_player x = p_player r \<Longrightarrow>
        grown r (fold (\<lambda>n p. on_dom (remove_class ''current-fragment'' n) (on_dom (add_class ''visible'' n) p)) ns x) \<and>
        p_player (fold (\<lambda>n p. on_dom (remove_class ''current-fragment'' n) (on_dom (add_class ''visible'' n) p)) ns x) = p_player r"
      for ns x
    proof (induction ns arbitrary: x)
      case (Cons n ns)
      have "grown r (on_dom (remove_class ''current-fragment'' n) (on_dom (add_class ''visible'' n) x))"
        using Cons.prems by (intro grow page) simp_all
      with Cons show ?case by simp
    qed simp
    from this [of r] hold_refl [OF r] show ?thesis by (simp add: show_all_fragments_def)
  qed
  have t: "page_inv I t" using r frag hold_grown [OF r] by (simp add: t_def)
  define u where "u = (case r_slideNumber (p_reveal t) of None \<Rightarrow> t | Some n \<Rightarrow> show_if_block (slide_number_shown t) n t)"
  have "grown t u" unfolding u_def show_if_block_def by (intro grow page hold_refl [OF t])
  then have "page_inv I u" by (rule hold_grown [OF t]) (simp add: u_def show_if_block_def split: option.split)
  moreover have "configure opts random p = (if \<not> p_loaded p' then Some p' else Some (sync_page u))"
    unfolding configure_def Let_def p'_def [symmetric] q_def [symmetric] q'(1) option.case
      r_def [symmetric] t_def [symmetric] u_def [symmetric] by (rule refl)
  ultimately show ?thesis using p' hold_sync by simp
qed

end

end
