(* ===== verification/Reveal_Shuffle.thy ===== *)
theory Reveal_Shuffle
  imports Reveal_Start "HOL-Library.Multiset"
begin

text \<open>
  Shuffling the slides: whatever the random numbers, the horizontal slides are permuted, each keeps its
  stack, and the deck stays well-shaped.
\<close>

section \<open>The children of one node are permuted\<close>

definition permuted :: "node \<Rightarrow> dom \<Rightarrow> dom \<Rightarrow> bool" where
  "permuted c d d' \<longleftrightarrow> tree_ok d' \<and> d_nodes d' = d_nodes d \<and> d_tag d' = d_tag d \<and> d_parent d' = d_parent d \<and>
     d_class d' = d_class d \<and> d_attr d' = d_attr d \<and> (\<forall>m. m \<noteq> c \<longrightarrow> d_kids d' m = d_kids d m)"

lemma permuted_refl: "tree_ok d \<Longrightarrow> permuted c d d"
  by (simp add: permuted_def)

lemma permuted_trans: "permuted c d e \<Longrightarrow> permuted c e f \<Longrightarrow> permuted c d f"
  by (simp add: permuted_def)

lemma permutedD:
  assumes "permuted c d d'"
  shows "tree_ok d'" "d_nodes d' = d_nodes d" "d_tag d' = d_tag d" "d_parent d' = d_parent d"
    "d_attr d' = d_attr d" "m \<noteq> c \<Longrightarrow> d_kids d' m = d_kids d m"
    "has_class k d' = has_class k d" "is_section d' = is_section d" "parent_has_class k d' = parent_has_class k d"
    "horizontal_sel d' = horizontal_sel d"
  using assms
  by (auto simp: permuted_def has_class_def is_section_def parent_has_class_def horizontal_sel_def fun_eq_iff split: option.split)

lemma permuted_desc:
  assumes "permuted c d d'" "tree_ok d"
  shows "set (d_desc d' n) = set (d_desc d n)"
proof -
  note D = permutedD [OF assms(1)]
  have kids: "set (d_kids d' m) = set (d_kids d m)" for m
    using tree_okD(4) [OF assms(2)] tree_okD(4) [OF D(1)] D(4) by auto
  have "x \<in> set (d_desc d' n) \<longleftrightarrow> x \<in> set (d_desc d n)" for x
  proof (induction n rule: desc_induct [OF assms(2)])
    case (1 n)
    show ?case unfolding desc_mem [OF D(1), of x n] desc_mem [OF assms(2), of x n] kids using 1 by blast
  qed
  then show ?thesis by blast
qed

text \<open>Below a child of the node nothing changes.\<close>

lemma permuted_below:
  assumes "permuted c d d'" "tree_ok d" "h \<noteq> c" "c \<notin> set (d_desc d h)"
  shows "d_desc d' h = d_desc d h"
  using assms(3,4)
proof (induction h rule: desc_induct [OF assms(2)])
  case (1 h)
  note D = permutedD [OF assms(1)]
  have "k # d_desc d' k = k # d_desc d k" if k: "k \<in> set (d_kids d h)" for k
    using 1(1) [OF k] 1(3) desc_mem [OF assms(2), of c h] k by auto
  then have "map (\<lambda>k. k # d_desc d' k) (d_kids d h) = map (\<lambda>k. k # d_desc d k) (d_kids d h)" by simp
  then show ?case
    by (subst tree_okD(5) [OF D(1)], subst tree_okD(5) [OF assms(2), of h]) (simp only: D(6) [OF 1(2)])
qed

lemma permuted_insert:
  assumes "tree_ok d" "d_parent d x = Some c" "d_parent d ref = Some c"
  shows "\<exists>d'. insert_before c x ref d = Some d' \<and> permuted c d d'"
proof (cases "x = ref")
  case True
  then show ?thesis using assms by (simp add: insert_before_def permuted_refl)
next
  case False
  have n: "c \<in> set (d_nodes d)" "x \<in> set (d_nodes d)" using parent_nodes [OF assms(1,2)] by simp_all
  have "x \<in> set (d_desc d c)" using desc_up [OF assms(1)] assms(2) by blast
  then have out: "x \<noteq> c" "c \<notin> set (d_desc d x)"
    using desc_irrefl [OF assms(1), of c] desc_length [OF assms(1), of x c] desc_length [OF assms(1), of c x] by auto
  obtain d' where d': "insert_before c x ref d = Some d'" using assms(3) False by (simp add: insert_before_def Let_def)
  have ok: "tree_ok d'" by (rule insert_before_ok [OF assms(1) d' n out])
  have "d_kids d' m = d_kids d m" if "m \<noteq> c" for m
  proof -
    have "x \<notin> set (d_kids d m)" using tree_okD(4) [OF assms(1), of x m] assms(2) that by auto
    then have "filter (\<lambda>k. k \<noteq> x) (d_kids d m) = d_kids d m" by (auto simp: filter_id_conv)
    then show ?thesis using d' False assms(3) that by (auto simp: insert_before_def Let_def detach_kids [OF assms(1)])
  qed
  then have "permuted c d d'"
    using d' ok False assms(2,3) by (auto simp: permuted_def insert_before_def Let_def)
  then show ?thesis using d' by blast
qed

section \<open>Slides\<close>

text \<open>All horizontal slides are children of the container, and there is a random number for each.\<close>

definition random_ok :: "rat list \<Rightarrow> nat \<Rightarrow> bool" where
  "random_ok rs n \<longleftrightarrow> n \<le> length rs \<and> (\<forall>r \<in> set rs. 0 \<le> r \<and> r < 1)"

lemma shuffle_permutes:
  assumes "tree_ok d" "\<And>x. x \<in> set all \<Longrightarrow> d_parent d x = Some c" "set xs \<subseteq> set all" "random_ok rs (length xs)"
  shows "\<exists>d'. shuffle_from all xs rs c d = Some d' \<and> permuted c d d'"
  using assms
proof (induction xs arbitrary: rs d)
  case Nil
  then show ?case by (simp add: permuted_refl)
next
  case (Cons x xs)
  then obtain r rs' where rs: "rs = r # rs'" "0 \<le> r" "r < 1" "random_ok rs' (length xs)"
    by (cases rs) (auto simp: random_ok_def)
  let ?n = "of_nat (length all) :: rat"
  have pos: "0 < ?n" using Cons.prems(3) by (cases all) auto
  have "0 \<le> r * ?n" "r * ?n < ?n" using rs(2,3) pos by simp_all
  then have "0 \<le> \<lfloor>r * ?n\<rfloor>" "\<lfloor>r * ?n\<rfloor> < int (length all)" by (simp_all add: floor_less_iff)
  then have "nat \<lfloor>r * ?n\<rfloor> < length all" by linarith
  then have ref: "all ! nat \<lfloor>r * ?n\<rfloor> \<in> set all" by simp
  obtain e where e: "insert_before c x (all ! nat \<lfloor>r * ?n\<rfloor>) d = Some e" "permuted c d e"
    using permuted_insert [OF Cons.prems(1,2) Cons.prems(2) [OF ref], of x] Cons.prems(3) by auto
  have "\<exists>d'. shuffle_from all xs rs' c e = Some d' \<and> permuted c e d'"
    by (rule Cons.IH) (use Cons.prems(2,3) rs(4) permutedD(1,4) [OF e(2)] in auto)
  then show ?case using e permuted_trans by (auto simp: rs(1))
qed

lemma permuted_deck:
  assumes "permuted c (r_dom s) d'" "tree_ok (r_dom s)" "deck_ok s"
    "\<And>h. h \<in> set (horizontalSlides s) \<Longrightarrow> d_parent (r_dom s) h = Some c"
  defines "s' \<equiv> s\<lparr>r_dom := d'\<rparr>"
  shows "mset (horizontalSlides s') = mset (horizontalSlides s)"
    "h \<in> set (horizontalSlides s) \<Longrightarrow> sections_in s' h = sections_in s h" "deck_ok s'"
proof -
  note D = permutedD [OF assms(1)] and P = permuted_desc [OF assms(1,2)] and d = deck_okD [OF assms(3)]
  let ?w = "r_wrapper s"
  have hs: "horizontalSlides s' = filter (horizontal_sel (r_dom s)) (d_desc d' ?w)"
    by (simp add: s'_def horizontalSlides_def query_all_def D(10))
  have set_hs: "set (horizontalSlides s') = set (horizontalSlides s)"
    unfolding hs using P [of ?w] by (simp add: horizontalSlides_def query_all_def)
  moreover have dist: "distinct (d_desc d' ?w)" by (rule desc_distinct [OF D(1)])
  then have "distinct (horizontalSlides s')" by (simp add: hs)
  ultimately show m: "mset (horizontalSlides s') = mset (horizontalSlides s)"
    using deck_distinct(1) [OF assms(3)] set_eq_iff_mset_eq_distinct by blast
  have below: "d_desc d' h = d_desc (r_dom s) h" if h: "h \<in> set (horizontalSlides s)" for h
  proof -
    have "h \<in> set (d_desc (r_dom s) c)" using desc_up [OF assms(2)] assms(4) [OF h] by blast
    then have "h \<noteq> c" "c \<notin> set (d_desc (r_dom s) h)"
      using desc_irrefl [OF assms(2), of c] desc_length [OF assms(2), of h c] desc_length [OF assms(2), of c h] by auto
    then show ?thesis by (rule permuted_below [OF assms(1,2)])
  qed
  show sec: "sections_in s' h = sections_in s h" if "h \<in> set (horizontalSlides s)" for h
    using below [OF that] by (simp add: s'_def sections_in_def query_all_def D(8))
  have nest: "sections_in s' h = filter (nested_in d' h) (d_desc d' ?w)" if h: "h \<in> set (horizontalSlides s)" for h
  proof -
    have hw: "h \<in> set (d_desc (r_dom s) ?w)" using horizontal_in [OF h] by blast
    have "h \<noteq> c"
      using below [OF h] desc_up [OF assms(2), of h c] assms(4) [OF h] desc_irrefl [OF assms(2)] by auto
    then have "filter (is_section d') (d_kids d' h) = filter (is_section (r_dom s)) (d_kids (r_dom s) h)"
      by (simp add: D(6,8))
    moreover have "filter (nested_in d' h) (d_desc d' ?w) = filter (is_section d') (d_kids d' h)"
      unfolding nested_in_def by (rule filter_kids [OF D(1)]) (use hw P in simp)
    moreover have "filter (nested_in (r_dom s) h) (d_desc (r_dom s) ?w) = filter (is_section (r_dom s)) (d_kids (r_dom s) h)"
      unfolding nested_in_def by (rule filter_kids [OF assms(2)]) (use hw in simp)
    ultimately show ?thesis using d(4) [OF h] sec [OF h] by simp
  qed
  have "section_ok d' w r n = section_ok (r_dom s) w r n" for w r n
    unfolding section_ok_def D(4,7,8) P by (rule refl)
  moreover have "background_ok d' b = background_ok (r_dom s) b" for b unfolding background_ok_def D(8) P by (rule refl)
  moreover have "set (d_kids d' b) = set (d_kids (r_dom s) b)" for b
    using tree_okD(4) [OF assms(2)] tree_okD(4) [OF D(1)] D(4) by auto
  ultimately show "deck_ok s'"
    using d(2,3,5,6,7) dist nest set_hs unfolding deck_ok_def Let_def
    by (simp add: s'_def D(5,8) P)
qed

end
