(* ===== verification/Reveal_Ready.thy ===== *)
theory Reveal_Ready
  imports Reveal_Shuffle
begin

text \<open>
  From the document to a running presentation: \<open>setupDOM\<close> and \<open>start\<close> on a document whose deck is
  well-shaped, and that the invariants of before and after the start are invariants of the page.
\<close>

section \<open>Two invariants\<close>

lemma fresh_frame:
  assumes "fresh_ok s" "doc_frame (keep_names (r_root s)) s s'" "indexh s' = indexh s" "indexv s' = indexv s"
    "currentSlide s' = currentSlide s" "overview s' = overview s" "timers_ok s'"
  shows "fresh_ok s'"
proof -
  have d: "deck_ok s" using assms(1) by (simp add: fresh_ok_def)
  have "isPrintingPDF s' = isPrintingPDF s" using doc_frame_shape(10) [OF assms(2)] by (simp add: isPrintingPDF_def)
  then show ?thesis
    using assms deck_ok_frame [OF d assms(2)] horizontalSlides_frame [OF d assms(2)] by (simp add: fresh_ok_def)
qed

lemma fresh_rebuilt:
  assumes "fresh_ok s" "rebuilt s s'" "tree_ok (r_dom s')"
    "\<And>b. b \<in> set (d_kids (r_dom s') (r_background s)) \<Longrightarrow> background_ok (r_dom s') b"
  shows "fresh_ok s'"
proof -
  have "deck_ok s'" using rebuilt_deck [OF assms(2) _ assms(3,4)] assms(1) by (simp add: fresh_ok_def)
  then show ?thesis
    using assms(1,2) rebuilt_slides(1) [OF assms(2)] timer_frame_ok [of s s']
    by (simp add: fresh_ok_def rebuilt_def around_def isPrintingPDF_def)
qed

lemma fresh_resume:
  assumes "fresh_ok s"
  shows "fresh_ok (resume s)"
proof -
  let ?t = "upd_dom (remove_class ''paused'' (r_wrapper s)) s"
  have t: "fresh_ok ?t"
    using assms unfolding fresh_ok_def pause_class_position timers_ok_fields by (simp add: isPrintingPDF_def upd_dom_def)
  have "fresh_ok (cueAutoSlide ?t)"
    using pos_cueAutoSlide [of "keep_names (r_root ?t)" ?t] t timers_cue [of ?t]
    by (intro fresh_frame [OF t]) (simp_all add: pos_frame_def fresh_ok_def)
  moreover have "fresh_ok (log_effect e u) = fresh_ok u" for e u
  proof -
    have "horizontalSlides (log_effect e u) = horizontalSlides u" "deck_ok (log_effect e u) = deck_ok u"
      by (simp_all add: horizontalSlides_def deck_ok_def sections_in_def log_effect_def)
    then show ?thesis unfolding fresh_ok_def by (simp add: isPrintingPDF_def log_effect_def timers_ok_def)
  qed
  ultimately show ?thesis by (simp add: resume_def Let_def)
qed

text \<open>
  The invariants of the page: before the first slide is shown, with the horizontal slides in the
  container \<open>dom.slides\<close>, and while the presentation runs.  Either says which slides there are.
\<close>

definition seated :: "reveal \<Rightarrow> bool" where
  "seated s \<longleftrightarrow> (\<forall>h \<in> set (horizontalSlides s). d_parent (r_dom s) h = Some (r_slides s))"

definition ready_ok :: "node multiset \<Rightarrow> reveal \<Rightarrow> bool" where
  "ready_ok M s \<longleftrightarrow> fresh_ok s \<and> seated s \<and> mset (horizontalSlides s) = M"

definition running_ok :: "node list \<Rightarrow> reveal \<Rightarrow> bool" where
  "running_ok hs s \<longleftrightarrow> reveal_inv s \<and> horizontalSlides s = hs"

lemma seated_frame: "deck_ok s \<Longrightarrow> doc_frame (keep_names (r_root s)) s s' \<Longrightarrow> seated s' = seated s"
  using horizontalSlides_frame [of s s'] doc_frame_shape(3) [of _ s s'] by (auto simp: seated_def doc_frame_def)

lemma seated_rebuilt:
  assumes "seated s" "rebuilt s s'"
  shows "seated s'"
proof -
  have d: "deck_same (r_wrapper s) (r_root s) (r_dom s) (r_dom s')" "r_slides s' = r_slides s"
    using assms(2) by (simp_all add: rebuilt_def around_def)
  have "h \<in> set (sections_of (r_dom s) (r_wrapper s))" if "h \<in> set (horizontalSlides s)" for h
    using that by (simp add: horizontal_of)
  then show ?thesis
    using assms(1) deck_sameD(3) [OF d(1)] rebuilt_slides(1) [OF assms(2)] d(2) by (simp add: seated_def)
qed

lemma ready_frame:
  assumes "ready_ok M s" "doc_frame (keep_names (r_root s)) s s'" "indexh s' = indexh s" "indexv s' = indexv s"
    "currentSlide s' = currentSlide s" "overview s' = overview s" "timers_ok s'"
  shows "ready_ok M s'"
proof -
  have s: "fresh_ok s" "deck_ok s" using assms(1) by (simp_all add: ready_ok_def fresh_ok_def)
  show ?thesis
    using assms(1) fresh_frame [OF s(1) assms(2-7)] seated_frame [OF s(2) assms(2)]
      horizontalSlides_frame [OF s(2) assms(2)] by (simp add: ready_ok_def)
qed

lemma resume_slides:
  assumes "deck_ok s"
  shows "horizontalSlides (resume s) = horizontalSlides s" "seated (resume s) = seated s"
proof -
  let ?t = "upd_dom (remove_class ''paused'' (r_wrapper s)) s"
  have log: "horizontalSlides (log_effect e u) = horizontalSlides u" "seated (log_effect e u) = seated u" for e u
    by (simp_all add: horizontalSlides_def seated_def log_effect_def)
  have t: "deck_ok ?t" "horizontalSlides ?t = horizontalSlides s" using assms by simp_all
  have seat: "seated ?t = seated s"
    unfolding seated_def t(2) by (simp add: upd_dom_def remove_class_def)
  have f: "doc_frame (keep_names (r_root ?t)) ?t (cueAutoSlide ?t)" by (rule pos_doc_frame [OF pos_cueAutoSlide])
  have "horizontalSlides (cueAutoSlide ?t) = horizontalSlides s" "seated (cueAutoSlide ?t) = seated s"
    using horizontalSlides_frame [OF t(1) f] seated_frame [OF t(1) f] t(2) seat by (simp_all only:)
  then show "horizontalSlides (resume s) = horizontalSlides s" "seated (resume s) = seated s"
    by (simp_all add: resume_def Let_def log)
qed

interpretation pf: page_invariant "ready_ok M" for M
proof unfold_locales
  fix s s'
  assume s: "ready_ok M s"
  then have f: "fresh_ok s" "deck_ok s" by (simp_all add: ready_ok_def fresh_ok_def)
  show "deck_ok s \<and> timers_ok s" using f by (simp add: fresh_ok_def)
  show "ready_ok M (resume s)" using s fresh_resume [OF f(1)] resume_slides [OF f(2)] by (simp add: ready_ok_def)
  show "ready_ok M s'" if "pos_frame (keep_slides (r_dom s) (r_root s)) s s'" "timers_ok s'"
    using that(1) doc_frame_names
    by (intro ready_frame [OF s _ _ _ _ _ that(2)]) (auto simp: pos_frame_def)
  show "ready_ok M s'" if "rebuilt s s'" "tree_ok (r_dom s')"
    "\<And>b. b \<in> set (d_kids (r_dom s') (r_background s)) \<Longrightarrow> background_ok (r_dom s') b"
    using s fresh_rebuilt [OF f(1) that] seated_rebuilt [OF _ that(1)] rebuilt_slides(1) [OF that(1)]
    by (simp add: ready_ok_def)
qed

interpretation pr: page_invariant "running_ok hs" for hs
proof unfold_locales
  fix s s'
  assume s: "running_ok hs s"
  then have r: "reveal_inv s" "deck_ok s" by (simp_all add: running_ok_def reveal_inv_def)
  show "deck_ok s \<and> timers_ok s" using r by (simp add: reveal_inv_def)
  show "running_ok hs (resume s)" using s inv_resume [OF r(1)] resume_slides [OF r(2)] by (simp add: running_ok_def)
  show "running_ok hs s'" if p: "pos_frame (keep_slides (r_dom s) (r_root s)) s s'" "timers_ok s'"
    using s inv_pos [OF r(1) p] horizontalSlides_frame [OF r(2) doc_frame_names [OF pos_doc_frame [OF p(1)]]]
    by (simp add: running_ok_def)
  show "running_ok hs s'" if "rebuilt s s'" "tree_ok (r_dom s')"
    "\<And>b. b \<in> set (d_kids (r_dom s') (r_background s)) \<Longrightarrow> background_ok (r_dom s') b"
    using s rebuilt_inv [OF that(1) r(1) that(2,3)] rebuilt_slides(1) [OF that(1)] by (simp add: running_ok_def)
qed

section \<open>\<open>setupDOM\<close>\<close>

text \<open>Controls that are there already have their arrows.\<close>

definition arrowed :: "node \<Rightarrow> page \<Rightarrow> bool" where
  "arrowed n p \<longleftrightarrow> (\<forall>c \<in> {''navigate-right'', ''navigate-down''}. \<exists>m \<in> set (d_desc (page_dom p) n). has_class c (page_dom p) m)"

definition controls_ok :: "page \<Rightarrow> bool" where
  "controls_ok p \<longleftrightarrow> (\<forall>n \<in> set (d_nodes (page_dom p)). d_parent (page_dom p) n = Some (r_wrapper (p_reveal p)) \<longrightarrow>
     has_class ''controls'' (page_dom p) n \<longrightarrow> arrowed n p)"

text \<open>
  What is asked of the document: it is a tree that holds the presentation; a container of backgrounds or
  a link holds no slide; controls that are there already have their arrows; and the deck is well-shaped.
\<close>

definition start_ok :: "page \<Rightarrow> bool" where
  "start_ok p \<longleftrightarrow>
     (let s = p_reveal p; d = page_dom p; w = r_wrapper s in
      based p \<and> w \<in> set (d_nodes d) \<and> p_player p = None \<and>
      (\<forall>n \<in> set (d_nodes d). d_tag d n = ''a'' \<or> d_parent d n = Some w \<and> has_class ''backgrounds'' d n \<longrightarrow> bare d w n) \<and>
      controls_ok p \<and> seated s \<and>
      fresh_ok (s\<lparr>r_background := fresh_node d\<rparr>))"

lemma start_okD:
  assumes "start_ok p"
  shows "based p" "r_wrapper (p_reveal p) \<in> set (d_nodes (page_dom p))" "p_player p = None"
    "n \<in> set (d_nodes (page_dom p)) \<Longrightarrow> d_tag (page_dom p) n = ''a'' \<Longrightarrow> bare (page_dom p) (r_wrapper (p_reveal p)) n"
    "n \<in> set (d_nodes (page_dom p)) \<Longrightarrow> d_parent (page_dom p) n = Some (r_wrapper (p_reveal p)) \<Longrightarrow>
      has_class ''backgrounds'' (page_dom p) n \<Longrightarrow> bare (page_dom p) (r_wrapper (p_reveal p)) n"
    "controls_ok p"
    "fresh_ok ((p_reveal p)\<lparr>r_background := fresh_node (page_dom p)\<rparr>)" "seated (p_reveal p)"
  using assms unfolding start_ok_def Let_def by blast+

text \<open>The container of the backgrounds changes.\<close>

definition with_background :: "node \<Rightarrow> page \<Rightarrow> page" where
  "with_background b p = on_reveal (\<lambda>s. s\<lparr>r_background := b\<rparr>) p"

lemma with_background_simps [simp]:
  "page_dom (with_background b p) = page_dom p" "r_background (p_reveal (with_background b p)) = b"
  "r_wrapper (p_reveal (with_background b p)) = r_wrapper (p_reveal p)"
  "r_root (p_reveal (with_background b p)) = r_root (p_reveal p)" "p_player (with_background b p) = p_player p"
  by (simp_all add: with_background_def page_dom_def)

lemma grown_background_kept: "grown p q \<Longrightarrow> grown (with_background b p) (with_background b q)"
  by (simp add: grown_def) (simp add: with_background_def around_def timer_frame_def)

lemma ready_background:
  assumes "ready_ok M (p_reveal (with_background a p))" "\<And>k. k \<in> set (d_kids (page_dom p) b) \<Longrightarrow> background_ok (page_dom p) k"
  shows "ready_ok M (p_reveal (with_background b p))"
proof -
  have h: "horizontalSlides (s\<lparr>r_background := x\<rparr>) = horizontalSlides s"
    "sections_in (s\<lparr>r_background := x\<rparr>) n = sections_in s n" for s x n
    by (simp_all add: horizontalSlides_def sections_in_def)
  show ?thesis
    using assms unfolding ready_ok_def seated_def fresh_ok_def deck_ok_def Let_def with_background_def p_reveal_simps h
    by (simp add: isPrintingPDF_def timers_ok_def page_dom_def)
qed

lemma background_container:
  assumes "start_ok p" "grown p p1" "same_shape (page_dom p) (page_dom p1)" "p_player p1 = None"
    "\<And>n. has_class ''backgrounds'' (page_dom p1) n = has_class ''backgrounds'' (page_dom p) n"
    "createSingletonNode (r_wrapper (p_reveal p)) ''div'' ''backgrounds'' [] p1 = (b, p2)" "p_player p2 = None"
  shows "page_inv (ready_ok (mset (horizontalSlides (p_reveal p)))) (with_background b p2)" "grew p1 p2" "new_classes p1 p2 \<subseteq> {''backgrounds''}"
proof -
  note S = start_okD [OF assms(1)] and g1 = grownD [OF assms(2)]
  let ?w = "r_wrapper (p_reveal p)"
  have sh: "d_nodes (page_dom p1) = d_nodes (page_dom p)" "d_parent (page_dom p1) = d_parent (page_dom p)"
    using assms(3) by (simp_all add: same_shape_def)
  have b1: "based p1" "?w \<in> set (d_nodes (page_dom p1))" using g1 S(1,2) by (simp_all add: based_def)
  note s = singleton_grew [OF b1 _ _ assms(6), simplified]
  show "grew p1 p2" "new_classes p1 p2 \<subseteq> {''backgrounds''}" by (rule s(1), rule s(3))
  have g2: "grown p p2" by (rule grown_trans [OF assms(2) grewD(1) [OF s(1)]])
  have r: "reshaped ?w (r_root (p_reveal p)) (page_dom p) (page_dom p2)" using g2 by (simp add: grown_def)
  have bare: "bare (page_dom p2) ?w b"
    using s(4)
  proof
    assume "p2 = p1 \<and> d_parent (page_dom p1) b = Some ?w \<and> has_class ''backgrounds'' (page_dom p1) b"
    then have "bare (page_dom p) ?w b" using S(5) [of b] s(2) assms(5) by (simp add: sh)
    then show ?thesis by (rule bare_kept [OF r _ S(2)])
  next
    assume n: "b \<notin> set (d_nodes (page_dom p1)) \<and> d_desc (page_dom p2) b = []"
    then show ?thesis
      using s(2) S(2) reshaped_section [OF r s(2)] unfolding sh bare_def by auto
  qed
  let ?M = "mset (horizontalSlides (p_reveal p))"
  have "ready_ok ?M (p_reveal (with_background (fresh_node (page_dom p)) p))"
    using S(7,8) by (simp add: with_background_def ready_ok_def seated_def horizontalSlides_def)
  then have "ready_ok ?M (p_reveal (with_background (fresh_node (page_dom p)) p2))"
    by (rule pf.grown_inv [OF _ _ grown_background_kept [OF g2]]) (use S(1) in \<open>simp add: based_def\<close>)
  moreover have "background_ok (page_dom p2) k" if "k \<in> set (d_kids (page_dom p2) b)" for k
  proof -
    have "k \<in> set (d_desc (page_dom p2) b)" "set (d_desc (page_dom p2) k) \<subseteq> set (d_desc (page_dom p2) b)"
      using that desc_mem [OF reshapedD(1) [OF r], of _ b] by auto
    then show ?thesis using bare unfolding bare_def background_ok_def by blast
  qed
  ultimately have "ready_ok ?M (p_reveal (with_background b p2))" by (rule ready_background)
  moreover have "bare (page_dom p2) ?w n" if n: "n \<in> set (d_nodes (page_dom p2))" "d_tag (page_dom p2) n = ''a''" for n
  proof -
    have "n \<in> set (d_nodes (page_dom p))" using reshapedD(6) [OF r n(1)] n(2) by auto
    then show ?thesis using bare_kept [OF r S(4) S(2)] reshapedD(5) [OF r] n(2) by simp
  qed
  ultimately show "page_inv (ready_ok ?M) (with_background b p2)"
    using grownD [OF g2] S(1,2) bare assms(7) unfolding page_inv_def steady_def by (simp add: based_def)
qed

text \<open>Making elements changes the presentation's document only.\<close>

definition only_reveal :: "page \<Rightarrow> page \<Rightarrow> bool" where
  "only_reveal p q \<longleftrightarrow> (\<exists>s. q = p\<lparr>p_reveal := s\<rparr>)"

lemma only_reveal_refl: "only_reveal p p"
  unfolding only_reveal_def by (rule exI [of _ "p_reveal p"]) simp

lemma only_reveal_trans: "only_reveal p q \<Longrightarrow> only_reveal q r \<Longrightarrow> only_reveal p r"
  by (auto simp: only_reveal_def)

lemma only_on_reveal [simp]: "only_reveal p (on_reveal h p)" "only_reveal p (on_dom f p)"
  unfolding only_reveal_def on_dom_def on_reveal_def by blast+

lemma only_new: "new_element tag cs p = (n, q) \<Longrightarrow> only_reveal p q"
  by (auto simp: new_element_def split: prod.splits)

lemma only_fold: "(\<And>x p. x \<in> set xs \<Longrightarrow> only_reveal p (f x p)) \<Longrightarrow> only_reveal p (fold f xs p)"
proof (induction xs arbitrary: p)
  case Nil
  show ?case by (simp add: only_reveal_refl)
next
  case (Cons x xs)
  then have "only_reveal p (f x p)" "only_reveal (f x p) (fold f xs (f x p))" by simp_all
  then show ?case using only_reveal_trans by simp
qed

lemma only_html: "only_reveal p (add_html k h p)"
proof (induction h arbitrary: k p)
  case (El tag cs attrs tx kids)
  obtain n q where n: "new_element tag cs p = (n, q)" by fastforce
  define r where "r = fold (\<lambda>(a, v). on_dom (set_attr a v n)) attrs q"
  have "only_reveal q r" unfolding r_def by (rule only_fold) (simp split: prod.split)
  then have "only_reveal p (on_dom (append_child k n) (on_dom (set_text tx n) r))"
    using only_new [OF n] only_reveal_trans only_on_reveal(2) by meson
  moreover have "only_reveal t (fold (add_html n) kids t)" for t by (rule only_fold) (rule El)
  ultimately show ?case using only_reveal_trans by (simp add: n r_def [symmetric] Let_def)
qed

lemma only_singleton:
  assumes "createSingletonNode k tag cls content p = (n, q)"
  shows "only_reveal p q"
proof (cases "List.find (\<lambda>n. d_parent (page_dom p) n = Some k) (query_all (has_class cls) (page_dom p) k)")
  case (Some m)
  then show ?thesis using assms by (simp add: createSingletonNode_def Let_def only_reveal_refl)
next
  case None
  obtain m p1 where m: "new_element tag [cls] p = (m, p1)" by fastforce
  have "q = fold (add_html m) content (on_dom (append_child k m) p1)"
    using assms None by (auto simp: createSingletonNode_def Let_def m)
  moreover have "only_reveal t (fold (add_html m) content t)" for t by (rule only_fold) (rule only_html)
  ultimately show ?thesis using only_new [OF m] only_reveal_trans only_on_reveal(2) by metis
qed

lemma only_fields:
  assumes "only_reveal p q"
  shows "p_player q = p_player p" "p_controls q = p_controls p" "p_view q = p_view p" "p_loaded q = p_loaded p"
    "p_progress q = p_progress p" "p_browser q = p_browser p"
  using assms by (auto simp: only_reveal_def)

lemmas player_singleton = only_fields(1) [OF only_singleton]

lemma status_fields:
  assumes "createStatusDiv p = (n, q)"
  shows "p_player q = p_player p" "p_view q = p_view p" "p_loaded q = p_loaded p"
proof -
  have style: "p_view (set_style a v m r) = p_view r" "p_loaded (set_style a v m r) = p_loaded r"
    "p_view (on_dom f r) = p_view r" "p_loaded (on_dom f r) = p_loaded r" for a v m r f
    by (simp_all add: set_style_def on_dom_def on_reveal_def)
  show "p_player q = p_player p" "p_view q = p_view p" "p_loaded q = p_loaded p"
    using assms
    by (auto simp: createStatusDiv_def Let_def style only_fields [OF only_new] split: option.splits prod.splits)
qed

text \<open>What has been fitted into the page: additions with certain classes.\<close>

definition fitted :: "string set \<Rightarrow> page \<Rightarrow> page \<Rightarrow> bool" where
  "fitted C p q \<longleftrightarrow> grew p q \<and> p_player q = p_player p \<and> new_classes p q \<subseteq> C"

lemma fitted_trans: "fitted C p q \<Longrightarrow> fitted D q r \<Longrightarrow> fitted (C \<union> D) p r"
  unfolding fitted_def using grew_trans [of p q r] by auto

lemma fitted_refl: "based p \<Longrightarrow> fitted C p p"
  by (simp add: fitted_def based_def grew_refl)

lemma fitted_reveal:
  assumes "fitted C p q" "around (p_reveal q) (f (p_reveal q))" "r_dom (f (p_reveal q)) = r_dom (p_reveal q)"
  shows "fitted C p (on_reveal f q)"
  using assms grew_reveal [of p q f] by (simp add: fitted_def new_classes_def page_dom_def)

lemma fitted_same: "fitted C p q \<Longrightarrow> p_reveal r = p_reveal q \<Longrightarrow> p_player r = p_player q \<Longrightarrow> fitted C p r"
  using grew_same [of p q r] by (simp add: fitted_def new_classes_def page_dom_def)

lemma fitted_attr:
  assumes "fitted C p q" "a \<notin> stack_attrs"
  shows "fitted C p (on_dom (set_attr a v n) q)"
proof -
  have "grew p (on_dom (set_attr a v n) q)"
    by (rule grew_dom, use assms(1) in \<open>simp add: fitted_def\<close>, intro page) (simp add: assms(2) attr_ok_def)
  moreover have "new_classes p (on_dom (set_attr a v n) q) = new_classes p q"
    by (simp add: new_classes_def) (simp add: set_attr_def)
  ultimately show ?thesis using assms(1) by (simp add: fitted_def)
qed

text \<open>A page that holds its wrapper, before and after.\<close>

definition wrapped :: "page \<Rightarrow> bool" where
  "wrapped p \<longleftrightarrow> based p \<and> r_wrapper (p_reveal p) \<in> set (d_nodes (page_dom p))"

lemma wrapped_fitted: "wrapped p \<Longrightarrow> fitted C p q \<Longrightarrow> wrapped q"
  unfolding wrapped_def fitted_def using based_grew grewD(1) grownD(3,4) by metis

lemma fitted_singleton:
  assumes "wrapped p" "createSingletonNode (r_wrapper (p_reveal p)) tag cls content p = (n, q)"
    "tag \<notin> {''section'', ''a''}" "\<forall>h \<in> set content. plain_html h"
  shows "fitted (insert cls (\<Union>h \<in> set content. html_classes h)) p q"
  using singleton_grew [OF _ _ assms(3,4,2)] assms(1) player_singleton [OF assms(2)]
  by (simp add: fitted_def wrapped_def)

lemma fitted_progress:
  assumes "wrapped p"
  shows "fitted {''progress''} p (setup_progress p)"
proof -
  obtain g q where c: "createSingletonNode (r_wrapper (p_reveal p)) ''div'' ''progress'' [El ''span'' [] [] [] []] p = (g, q)"
    by fastforce
  have "fitted {''progress''} p q" using fitted_singleton [OF assms c] by simp
  then show ?thesis
    unfolding setup_progress_def c Let_def prod.case
    by (intro fitted_reveal) (auto intro: fitted_same simp: around_def timer_frame_def)
qed

lemma fitted_controls:
  assumes "wrapped p"
  shows "fitted (insert ''controls'' (\<Union>h \<in> set arrow_buttons. html_classes h)) p (setup_controls p)"
proof -
  obtain g q where c: "createSingletonNode (r_wrapper (p_reveal p)) ''aside'' ''controls'' arrow_buttons p = (g, q)"
    by fastforce
  have "fitted (insert ''controls'' (\<Union>h \<in> set arrow_buttons. html_classes h)) p q"
    by (rule fitted_singleton [OF assms c]) (simp_all add: arrow_buttons_def arrow_button_def stack_attrs_def)
  then show ?thesis unfolding setup_controls_def c Let_def prod.case by (rule fitted_same) simp_all
qed

lemma fitted_rest:
  assumes "wrapped p"
  shows "fitted {''slide-number''} p (setup_slideNumber p)" "fitted {''speaker-notes''} p (setup_notes p)"
    "fitted {''pause-overlay''} p (setup_overlay p)" "fitted {} p (find_controls p)"
proof -
  let ?make = "\<lambda>cls. createSingletonNode (r_wrapper (p_reveal p)) ''div'' cls [] p"
  have make: "fitted {cls} p q" if "?make cls = (n, q)" for cls n q using fitted_singleton [OF assms that] by simp
  obtain n q where c: "?make ''slide-number'' = (n, q)" by fastforce
  show "fitted {''slide-number''} p (setup_slideNumber p)"
    unfolding setup_slideNumber_def c Let_def prod.case
    by (rule fitted_reveal [OF make [OF c]]) (simp_all add: around_def timer_frame_def)
  obtain n q where c: "?make ''speaker-notes'' = (n, q)" by fastforce
  show "fitted {''speaker-notes''} p (setup_notes p)"
    unfolding setup_notes_def c Let_def prod.case
    by (intro fitted_attr fitted_reveal make [OF c]) (simp_all add: around_def timer_frame_def stack_attrs_def)
  obtain n q where c: "?make ''pause-overlay'' = (n, q)" by fastforce
  show "fitted {''pause-overlay''} p (setup_overlay p)"
    unfolding setup_overlay_def c Let_def snd_conv
    by (intro fitted_attr make [OF c]) (simp add: stack_attrs_def)
  have "fitted {} p p" using assms by (simp add: fitted_refl wrapped_def)
  then show "fitted {} p (find_controls p)"
    unfolding find_controls_def by (rule fitted_reveal) (simp_all add: around_def timer_frame_def)
qed

lemma fitted_status:
  assumes "wrapped p"
  shows "grown p (setup_status p)" "p_player (setup_status p) = p_player p"
proof -
  obtain n q where c: "createStatusDiv p = (n, q)" by fastforce
  have "grown p q" using status_grew [OF _ _ c] assms by (simp add: wrapped_def grewD(1))
  then show "grown p (setup_status p)"
    unfolding setup_status_def c Let_def prod.case by (rule grown_reveal) (simp_all add: around_def timer_frame_def)
  show "p_player (setup_status p) = p_player p" using status_fields(1) [OF c] by (simp add: setup_status_def c)
qed

text \<open>The arrows of the controls are found, made or there already.\<close>

lemma arrowed_fitted:
  assumes "arrowed n p" "fitted C p q" "based p"
  shows "arrowed n q"
  unfolding arrowed_def
proof
  fix c assume "c \<in> {''navigate-right'', ''navigate-down''}"
  then obtain m where m: "m \<in> set (d_desc (page_dom p) n)" "has_class c (page_dom p) m" using assms(1) unfolding arrowed_def by blast
  have "m \<in> set (d_nodes (page_dom p))" by (rule based_nodes [OF assms(3) m(1)])
  with m show "\<exists>m \<in> set (d_desc (page_dom q) n). has_class c (page_dom q) m"
    using assms(2) grewD(2,3) [of p q] unfolding fitted_def by blast
qed

lemma controls_fitted:
  assumes "controls_ok p" "fitted C p q" "''controls'' \<notin> C" "based p"
  shows "controls_ok q"
  unfolding controls_ok_def
proof (intro ballI impI)
  have g: "grew p q" and c: "new_classes p q \<subseteq> C" using assms(2) by (simp_all add: fitted_def)
  fix n assume n: "n \<in> set (d_nodes (page_dom q))" "d_parent (page_dom q) n = Some (r_wrapper (p_reveal q))"
    "has_class ''controls'' (page_dom q) n"
  have old: "n \<in> set (d_nodes (page_dom p))" using n c assms(3) by (auto simp: new_classes_def)
  have "arrowed n p"
    using assms(1) n old grewD(3,4) [OF g old] grownD(4) [OF grewD(1) [OF g]] by (simp add: controls_ok_def)
  then show "arrowed n q" by (rule arrowed_fitted [OF _ assms(2,4)])
qed

lemma setup_controls_arrowed:
  assumes "wrapped p" "controls_ok p"
  shows "arrowed (p_controls (setup_controls p)) (setup_controls p)"
proof -
  obtain n q where c: "createSingletonNode (r_wrapper (p_reveal p)) ''aside'' ''controls'' arrow_buttons p = (n, q)"
    by fastforce
  have plain: "\<forall>h \<in> set arrow_buttons. plain_html h" by (simp add: arrow_buttons_def arrow_button_def stack_attrs_def)
  have w: "based p" "r_wrapper (p_reveal p) \<in> set (d_nodes (page_dom p))" using assms(1) by (simp_all add: wrapped_def)
  have tag: "''aside'' \<notin> {''section'', ''a''}" by simp
  note s = singleton_grew [OF w tag plain c]
  have "arrowed n q"
  proof (cases "q = p \<and> d_parent (page_dom p) n = Some (r_wrapper (p_reveal p)) \<and> has_class ''controls'' (page_dom p) n")
    case True
    then show ?thesis using assms(2) s(2) by (simp add: controls_ok_def)
  next
    case False
    then have new: "\<exists>m \<in> set (d_desc (page_dom q) n). has_class cls (page_dom q) m"
      if "El tag cs attrs tx kids \<in> set arrow_buttons" "cls \<in> set cs" for tag cs attrs tx kids cls
      using s(4) that by blast
    show ?thesis
      unfolding arrowed_def
    proof
      fix cls :: string
      assume "cls \<in> {''navigate-right'', ''navigate-down''}"
      then obtain lab where "arrow_button cls lab \<in> set arrow_buttons" by (auto simp: arrow_buttons_def)
      then show "\<exists>m \<in> set (d_desc (page_dom q) n). has_class cls (page_dom q) m"
        unfolding arrow_button_def by (rule new) simp
    qed
  qed
  then show ?thesis by (simp add: setup_controls_def c arrowed_def page_dom_def)
qed

lemma arrowed_query:
  assumes "arrowed n p" "c \<in> {''navigate-right'', ''navigate-down''}"
  shows "\<exists>m. query (has_class c) (page_dom p) n = Some m"
proof -
  obtain m where "m \<in> set (d_desc (page_dom p) n)" "has_class c (page_dom p) m"
    using assms unfolding arrowed_def by blast
  then show ?thesis by (cases "query (has_class c) (page_dom p) n") (auto simp: query_def find_None_iff)
qed

lemma setup_flags_grown:
  assumes "tree_ok (page_dom p)"
  shows "grown p (setup_flags p)" "same_shape (page_dom p) (page_dom (setup_flags p))" "p_player (setup_flags p) = p_player p"
    "c \<notin> {''no-transition'', ''no-hover'', ''ua-iphone''} \<Longrightarrow>
      has_class c (page_dom (setup_flags p)) n = has_class c (page_dom p) n"
proof -
  show g: "grown p (setup_flags p)"
    unfolding setup_flags_def Let_def flag_wrapper_def flag_class_def
    by (intro grow page grown_refl assms) simp_all
  have k: "dom_keep (\<lambda>c n. c \<notin> {''no-transition'', ''no-hover'', ''ua-iphone''}) (page_dom p) (page_dom (setup_flags p))"
    unfolding setup_flags_def Let_def flag_wrapper_def flag_class_def page_dom_simps if_distrib [of page_dom]
    by (intro page) simp_all
  then show "same_shape (page_dom p) (page_dom (setup_flags p))"
    "c \<notin> {''no-transition'', ''no-hover'', ''ua-iphone''} \<Longrightarrow>
      has_class c (page_dom (setup_flags p)) n = has_class c (page_dom p) n"
    unfolding dom_keep_def by blast+
  show "p_player (setup_flags p) = p_player p" by (simp add: setup_flags_def Let_def flag_wrapper_def)
qed

lemma controls_with:
  assumes "controls_ok p"
  shows "controls_ok (with_background b p)"
proof -
  have "arrowed n (with_background b p) = arrowed n p" for n
    unfolding arrowed_def with_background_simps by (rule refl)
  then show ?thesis unfolding controls_ok_def with_background_simps using assms unfolding controls_ok_def by simp
qed

text \<open>The first steps make the page one with the invariant of a start.\<close>

lemma setup_background_inv:
  assumes "start_ok p"
  defines "q \<equiv> setup_background (setup_flags p)"
  shows "page_inv (ready_ok (mset (horizontalSlides (p_reveal p)))) q" "controls_ok q"
proof -
  note S = start_okD [OF assms(1)]
  let ?w = "r_wrapper (p_reveal p)"
  define p1 where "p1 = setup_flags p"
  have tp: "tree_ok (page_dom p)" using S(1) by (simp add: based_def)
  note f = setup_flags_grown [OF tp, folded p1_def]
  have w1: "r_wrapper (p_reveal p1) = ?w" by (rule grownD(4) [OF f(1)])
  obtain b p2 where c: "createSingletonNode ?w ''div'' ''backgrounds'' [] p1 = (b, p2)" by fastforce
  have q: "q = with_background b p2"
    by (simp add: q_def setup_background_def p1_def [symmetric] w1 c with_background_def)
  have pl: "p_player p1 = None" "p_player p2 = None" using player_singleton [OF c] f(3) S(3) by simp_all
  have cls: "has_class ''backgrounds'' (page_dom p1) n = has_class ''backgrounds'' (page_dom p) n" for n by (rule f(4)) simp
  note B = background_container [OF assms(1) f(1,2) pl(1) cls c pl(2)]
  show "page_inv (ready_ok (mset (horizontalSlides (p_reveal p)))) q" unfolding q by (rule B(1))
  have sh: "d_nodes (page_dom p1) = d_nodes (page_dom p)" "d_parent (page_dom p1) = d_parent (page_dom p)"
    "d_desc (page_dom p1) = d_desc (page_dom p)" using f(2) by (simp_all add: same_shape_def)
  have arrow: "arrowed n p1" if a: "arrowed n p" for n
    unfolding arrowed_def
  proof
    fix c assume c: "c \<in> {''navigate-right'', ''navigate-down''}"
    then obtain m where m: "m \<in> set (d_desc (page_dom p) n)" "has_class c (page_dom p) m"
      using a unfolding arrowed_def by blast
    have "has_class c (page_dom p1) m" using f(4) [of c m] c m(2) by auto
    then show "\<exists>m \<in> set (d_desc (page_dom p1) n). has_class c (page_dom p1) m" using m(1) unfolding sh by blast
  qed
  have c1: "controls_ok p1"
    unfolding controls_ok_def sh w1
  proof (intro ballI impI arrow)
    fix n assume n: "n \<in> set (d_nodes (page_dom p))" "d_parent (page_dom p) n = Some ?w"
      "has_class ''controls'' (page_dom p1) n"
    then have "has_class ''controls'' (page_dom p) n" using f(4) [of "''controls''" n] by simp
    then show "arrowed n p" using S(6) n(1,2) unfolding controls_ok_def by blast
  qed
  have f2: "fitted {''backgrounds''} p1 p2" using B(2,3) pl by (simp add: fitted_def)
  have b1: "based p1" using S(1) grownD(1,3,5) [OF f(1)] by (simp add: based_def)
  have p2: "controls_ok p2" by (rule controls_fitted [OF c1 f2 _ b1]) simp
  show "controls_ok q" unfolding q by (rule controls_with [OF p2])
qed

lemma controls_later:
  "p_controls (setup_slideNumber p) = p_controls p" "p_controls (setup_notes p) = p_controls p"
  "p_controls (setup_overlay p) = p_controls p" "p_controls (find_controls p) = p_controls p"
proof -
  have on: "p_controls (on_reveal h q) = p_controls q" "p_controls (on_dom f q) = p_controls q" for h f q
    by (simp_all add: on_dom_def on_reveal_def)
  let ?make = "\<lambda>cls. createSingletonNode (r_wrapper (p_reveal p)) ''div'' cls [] p"
  obtain n q where c: "?make ''slide-number'' = (n, q)" by fastforce
  show "p_controls (setup_slideNumber p) = p_controls p"
    unfolding setup_slideNumber_def c Let_def prod.case on by (rule only_fields(2) [OF only_singleton [OF c]])
  obtain n q where c: "?make ''speaker-notes'' = (n, q)" by fastforce
  show "p_controls (setup_notes p) = p_controls p"
    unfolding setup_notes_def c Let_def prod.case on by (rule only_fields(2) [OF only_singleton [OF c]])
  obtain n q where c: "?make ''pause-overlay'' = (n, q)" by fastforce
  show "p_controls (setup_overlay p) = p_controls p"
    unfolding setup_overlay_def c Let_def snd_conv on by (rule only_fields(2) [OF only_singleton [OF c]])
  show "p_controls (find_controls p) = p_controls p" unfolding find_controls_def on by (rule refl)
qed

lemma setupDOM_result:
  assumes "start_ok p"
  shows "\<exists>q. setupDOM p = Some q \<and> page_inv (ready_ok (mset (horizontalSlides (p_reveal p)))) q"
proof -
  define q where "q = setup_background (setup_flags p)"
  note i = setup_background_inv [OF assms, folded q_def]
  have w: "wrapped q" using i(1) steadyD(1,4) [of q] by (simp add: page_inv_def wrapped_def)
  define r where "r = setup_progress q"
  define t where "t = setup_controls r"
  define u where "u = find_controls (setup_overlay (setup_notes (setup_slideNumber t)))"
  have fr: "fitted {''progress''} q r" unfolding r_def by (rule fitted_progress [OF w])
  have wr: "wrapped r" by (rule wrapped_fitted [OF w fr])
  obtain C where ft: "fitted C r t" unfolding t_def using fitted_controls [OF wr] by blast
  have wt: "wrapped t" by (rule wrapped_fitted [OF wr ft])
  define t1 where "t1 = setup_slideNumber t"
  define t2 where "t2 = setup_notes t1"
  define t3 where "t3 = setup_overlay t2"
  have u: "u = find_controls t3" by (simp add: u_def t1_def t2_def t3_def)
  have f1: "fitted {''slide-number''} t t1" unfolding t1_def by (rule fitted_rest(1) [OF wt])
  have w1: "wrapped t1" by (rule wrapped_fitted [OF wt f1])
  have f2: "fitted {''speaker-notes''} t1 t2" unfolding t2_def by (rule fitted_rest(2) [OF w1])
  have w2: "wrapped t2" by (rule wrapped_fitted [OF w1 f2])
  have f3: "fitted {''pause-overlay''} t2 t3" unfolding t3_def by (rule fitted_rest(3) [OF w2])
  have w3: "wrapped t3" by (rule wrapped_fitted [OF w2 f3])
  have f4: "fitted {} t3 u" unfolding u by (rule fitted_rest(4) [OF w3])
  obtain D where fu: "fitted D t u"
    using fitted_trans [OF fitted_trans [OF fitted_trans [OF f1 f2] f3] f4] by blast
  have "arrowed (p_controls t) t"
    unfolding t_def
    by (rule setup_controls_arrowed [OF wr controls_fitted [OF i(2) fr]]) (use w in \<open>simp_all add: wrapped_def\<close>)
  then have "arrowed (p_controls t) u" by (rule arrowed_fitted [OF _ fu]) (use wt in \<open>simp add: wrapped_def\<close>)
  moreover have "p_controls u = p_controls t"
    unfolding u t3_def t2_def t1_def controls_later by (rule refl)
  ultimately have au: "arrowed (p_controls u) u" by simp
  obtain right_arrow where a1: "query (has_class ''navigate-right'') (page_dom u) (p_controls u) = Some right_arrow"
    using arrowed_query [OF au, of "''navigate-right''"] by auto
  obtain down_arrow where a2: "query (has_class ''navigate-down'') (page_dom u) (p_controls u) = Some down_arrow"
    using arrowed_query [OF au, of "''navigate-down''"] by auto
  define x where "x = on_reveal (\<lambda>s. s\<lparr>r_controlsRightArrow := right_arrow, r_controlsDownArrow := down_arrow\<rparr>) u"
  have eq: "setupDOM p = Some (setup_status x)"
    unfolding setupDOM_def Let_def q_def [symmetric] r_def [symmetric] t_def [symmetric] u_def [symmetric] a1 a2 x_def
    by (simp only: prod.case option.case)
  have fx: "fitted D t x" unfolding x_def by (rule fitted_reveal [OF fu]) (simp_all add: around_def timer_frame_def)
  have "grown q x" "p_player x = p_player q"
    using fitted_trans [OF fitted_trans [OF fr ft] fx] by (simp_all add: fitted_def grewD(1))
  moreover have "wrapped x" by (rule wrapped_fitted [OF wt fx])
  ultimately have "page_inv (ready_ok (mset (horizontalSlides (p_reveal p)))) (setup_status x)"
    using pf.hold_grown [OF i(1) grown_trans [of q x "setup_status x"]] fitted_status [of x] by simp
  then show ?thesis using eq by blast
qed

text \<open>The rest of the page stays as it is.\<close>

definition same_view :: "page \<Rightarrow> page \<Rightarrow> bool" where
  "same_view p q \<longleftrightarrow> p_view q = p_view p \<and> p_loaded q = p_loaded p"

lemma same_view_trans: "same_view p q \<Longrightarrow> same_view q r \<Longrightarrow> same_view p r"
  by (simp add: same_view_def)

lemma same_view_on:
  "same_view p (on_reveal h q) = same_view p q" "same_view p (on_dom f q) = same_view p q"
  by (simp_all add: same_view_def on_dom_def on_reveal_def)

lemma same_view_singleton: "createSingletonNode k t c h p = (n, q) \<Longrightarrow> same_view p q"
  using only_fields(3,4) [OF only_singleton] by (simp add: same_view_def)

lemma same_view_status: "createStatusDiv p = (n, q) \<Longrightarrow> same_view p q"
  using status_fields(2,3) by (simp add: same_view_def)

lemma same_view_steps:
  "same_view p (setup_flags p)" "same_view p (setup_background p)" "same_view p (setup_progress p)"
  "same_view p (setup_controls p)" "same_view p (setup_slideNumber p)" "same_view p (setup_notes p)"
  "same_view p (setup_overlay p)" "same_view p (find_controls p)" "same_view p (setup_status p)"
proof -
  let ?make = "\<lambda>t c h. createSingletonNode (r_wrapper (p_reveal p)) t c h p"
  have refl: "same_view p p" by (simp add: same_view_def)
  show "same_view p (setup_flags p)" "same_view p (find_controls p)"
    unfolding setup_flags_def find_controls_def Let_def flag_wrapper_def same_view_on by (rule refl)+
  have make: "same_view p (snd (?make t c h))" for t c h by (rule same_view_singleton [of _ t c h p "fst (?make t c h)"]) simp
  note split = prod.case_eq_if Let_def
  show "same_view p (setup_background p)" "same_view p (setup_slideNumber p)" "same_view p (setup_notes p)"
    "same_view p (setup_overlay p)"
    unfolding setup_background_def setup_slideNumber_def setup_notes_def setup_overlay_def split same_view_on
    by (rule make)+
  show "same_view p (setup_progress p)" "same_view p (setup_controls p)"
    using make unfolding setup_progress_def setup_controls_def split same_view_on by (simp_all add: same_view_def)
  show "same_view p (setup_status p)"
    unfolding setup_status_def split same_view_on by (rule same_view_status [of p "fst (createStatusDiv p)"]) simp
qed

lemma setup_views:
  assumes "setupDOM p = Some q"
  shows "same_view p q"
proof -
  define r where "r = find_controls (setup_overlay (setup_notes (setup_slideNumber (setup_controls (setup_progress
    (setup_background (setup_flags p)))))))"
  have r: "same_view p r" unfolding r_def by (rule same_view_trans [OF _ same_view_steps(8)]
    same_view_trans [OF _ same_view_steps(7)] same_view_trans [OF _ same_view_steps(6)]
    same_view_trans [OF _ same_view_steps(5)] same_view_trans [OF _ same_view_steps(4)]
    same_view_trans [OF _ same_view_steps(3)] same_view_trans [OF _ same_view_steps(2)] same_view_steps(1))+
  obtain t where "q = setup_status t" "same_view r t"
    using assms same_view_on(1) [of r _ r] unfolding setupDOM_def Let_def r_def [symmetric]
    by (auto simp: same_view_def split: option.splits)
  then show ?thesis using same_view_trans [OF r] same_view_trans [OF _ same_view_steps(9)] by blast
qed

section \<open>\<open>start\<close>\<close>

lemma page_resetVertical [page]:
  assumes "page_frame (keep_names r) s x"
  shows "page_frame (keep_names r) s (resetVerticalSlides x)"
proof -
  have inner: "page_frame (keep_names r) s (fold (\<lambda>(y, v) s.
      if y > 0 then
        upd_dom (set_attr ''aria-hidden'' ''true'' v) (upd_dom (add_class ''future'' v)
          (upd_dom (remove_class ''past'' v) (upd_dom (remove_class ''present'' v) s)))
      else s) ys u)" if "page_frame (keep_names r) s u" for ys :: "(int \<times> node) list" and u
    using that
  proof (induction ys arbitrary: u)
    case (Cons y ys)
    show ?case
      by (cases y) (simp only: fold_Cons o_apply prod.case, rule Cons.IH, intro page Cons.prems;
        simp add: keep_names_def attr_ok_def stack_attrs_def)
  qed simp
  show ?thesis unfolding resetVerticalSlides_def by (rule page_fold [OF assms inner])
qed

lemma ready_reset:
  assumes "page_inv (ready_ok M) p"
  shows "page_inv (ready_ok M) (on_reveal resetVerticalSlides p)"
proof -
  let ?s = "p_reveal p"
  have S: "steady p" "ready_ok M ?s" using assms by (simp_all add: page_inv_def)
  have f: "page_frame (keep_names (r_root ?s)) ?s (resetVerticalSlides ?s)" by (intro page)
  have t: "timers_ok ?s" using S(2) by (simp add: ready_ok_def fresh_ok_def)
  note pf = page_pos_frame [OF f]
  have "ready_ok M (resetVerticalSlides ?s)"
    by (rule ready_frame [OF S(2) pos_doc_frame [OF pf]])
      (use pf timer_frame_ok [OF page_timer_frame [OF f]] t in \<open>simp_all add: pos_frame_def\<close>)
  moreover have "steady (on_reveal resetVerticalSlides p)"
    by (rule steady_shape [OF S(1)])
      (use pos_doc_frame [OF pf] in \<open>simp_all add: doc_frame_def dom_keep_def page_dom_def\<close>)
  ultimately show ?thesis by (simp add: page_inv_def)
qed

text \<open>Shuffling.\<close>

lemma steady_permuted:
  assumes "steady p" "permuted c (page_dom p) d"
  shows "steady (on_dom (\<lambda>_. d) p)"
proof -
  note D = permutedD [OF assms(2)] and P = permuted_desc [OF assms(2) steadyD(2) [OF assms(1)]]
  have "bare d w n = bare (page_dom p) w n" for w n unfolding bare_def D(2,8) P by (rule refl)
  then show ?thesis
    using assms(1) D(1) unfolding steady_def based_def by (simp add: D(2,3) upd_dom_def)
qed

lemma shuffle_result:
  assumes "tree_ok (page_dom p)" "seated (p_reveal p)" "random_ok random (length (horizontalSlides (p_reveal p)))"
  shows "\<exists>d. shuffle random p = Some (on_dom (\<lambda>_. d) p) \<and> permuted (r_slides (p_reveal p)) (page_dom p) d"
  using shuffle_permutes [OF assms(1) _ order_refl assms(3), of "r_slides (p_reveal p)"] assms(2)
  by (auto simp: seated_def page_dom_def shuffle_def)

lemma shuffled_deck:
  assumes "permuted (r_slides (p_reveal p)) (page_dom p) d" "tree_ok (page_dom p)" "deck_ok (p_reveal p)" "seated (p_reveal p)"
  defines "q \<equiv> on_dom (\<lambda>_. d) p"
  shows "mset (horizontalSlides (p_reveal q)) = mset (horizontalSlides (p_reveal p))"
    "h \<in> set (horizontalSlides (p_reveal p)) \<Longrightarrow> sections_in (p_reveal q) h = sections_in (p_reveal p) h"
    "deck_ok (p_reveal q)" "seated (p_reveal q)"
proof -
  have q: "p_reveal q = (p_reveal p)\<lparr>r_dom := d\<rparr>" by (simp add: q_def upd_dom_def)
  have P: "permuted (r_slides (p_reveal p)) (r_dom (p_reveal p)) d" "tree_ok (r_dom (p_reveal p))"
    using assms(1,2) by (simp_all add: page_dom_def)
  have seat: "d_parent (r_dom (p_reveal p)) h = Some (r_slides (p_reveal p))"
    if "h \<in> set (horizontalSlides (p_reveal p))" for h
    using assms(4) that by (simp add: seated_def)
  note pd = permuted_deck [OF P assms(3) seat, folded q]
  show m: "mset (horizontalSlides (p_reveal q)) = mset (horizontalSlides (p_reveal p))" by (rule pd(1))
  show "sections_in (p_reveal q) h = sections_in (p_reveal p) h" if "h \<in> set (horizontalSlides (p_reveal p))"
    by (rule pd(2) [OF _ that])
  show "deck_ok (p_reveal q)" by (rule pd(3))
  show "seated (p_reveal q)"
    unfolding seated_def mset_eq_setD [OF m]
    using seat permutedD(4) [OF P(1)] by (simp add: q)
qed

lemma ready_shuffle:
  assumes "page_inv (ready_ok M) p" "random_ok random (size M)"
  shows "\<exists>q. shuffle random p = Some q \<and> page_inv (ready_ok M) q"
proof -
  let ?s = "p_reveal p"
  have S: "steady p" "fresh_ok ?s" "seated ?s" "mset (horizontalSlides ?s) = M" "deck_ok ?s"
    using assms(1) by (simp_all add: page_inv_def ready_ok_def fresh_ok_def)
  have "length (horizontalSlides ?s) = size M" using S(4) by (metis size_mset)
  then obtain d where d: "shuffle random p = Some (on_dom (\<lambda>_. d) p)" "permuted (r_slides ?s) (page_dom p) d"
    using shuffle_result [OF steadyD(2) [OF S(1)] S(3), of random] assms(2) by auto
  define q where "q = on_dom (\<lambda>_. d) p"
  note P = shuffled_deck [OF d(2) steadyD(2) [OF S(1)] S(5,3), folded q_def]
  have "horizontalSlides (p_reveal q) \<noteq> []" using S(2) P(1) unfolding fresh_ok_def by auto
  then have "fresh_ok (p_reveal q)"
    using S(2) P(3) unfolding fresh_ok_def q_def by (simp add: isPrintingPDF_def timers_ok_def upd_dom_def)
  moreover have "steady q" unfolding q_def by (rule steady_permuted [OF S(1) d(2)])
  ultimately have "page_inv (ready_ok M) q" using P(1,4) S(4) by (simp add: page_inv_def ready_ok_def)
  then show ?thesis using d(1) by (simp add: q_def)
qed

lemma start_ok_loaded: "start_ok (p\<lparr>p_loaded := b\<rparr>) = start_ok p"
  by (simp add: start_ok_def based_def controls_ok_def arrowed_def page_dom_def)

lemma ready_readURL:
  assumes "page_inv (ready_ok M) p"
  shows "\<exists>s. readURL (p_reveal p) = Some s \<and>
    page_inv (running_ok (horizontalSlides (p_reveal p))) (on_reveal (\<lambda>_. updateBackground True s) p)"
proof -
  have S: "steady p" "fresh_ok (p_reveal p)" using assms by (simp_all add: page_inv_def ready_ok_def)
  obtain s where s: "readURL (p_reveal p) = Some s" "reveal_inv s"
      "doc_frame (keep_names (r_root (p_reveal p))) (p_reveal p) s"
    using fresh_readURL [OF S(2)] by blast
  let ?q = "on_reveal (\<lambda>_. s) p"
  have "horizontalSlides s = horizontalSlides (p_reveal p)"
    using horizontalSlides_frame [OF _ s(3)] S(2) by (simp add: fresh_ok_def)
  moreover have "steady ?q"
    by (rule steady_shape [OF S(1)]) (use s(3) in \<open>simp_all add: doc_frame_def dom_keep_def page_dom_def\<close>)
  ultimately have "page_inv (running_ok (horizontalSlides (p_reveal p))) ?q"
    using s(2) by (simp add: page_inv_def running_ok_def)
  from pr.hold_time(3) [OF this, of True] show ?thesis using s(1) by (auto simp: on_reveal_def)
qed

lemma start_result:
  assumes "start_ok p" "random_ok random (length (horizontalSlides (p_reveal p)))"
    "c_transition (p_view p) \<notin> {''slides'', ''present''}"
  shows "\<exists>q hs. start random p = Some q \<and> page_inv (running_ok hs) q \<and> mset hs = mset (horizontalSlides (p_reveal p))"
proof -
  let ?M = "mset (horizontalSlides (p_reveal p))"
  obtain p1 where p1: "setupDOM (p\<lparr>p_loaded := True\<rparr>) = Some p1" "page_inv (ready_ok ?M) p1"
    using setupDOM_result [of "p\<lparr>p_loaded := True\<rparr>"] assms(1) by (auto simp: start_ok_loaded)
  define p2 where "p2 = setupScrollPrevention (setupPostMessage p1)"
  have "page_inv (ready_ok ?M) p2 = page_inv (ready_ok ?M) p1"
    by (rule pf.hold_cong) (simp_all add: p2_def setupScrollPrevention_def setupPostMessage_def later_def)
  then have i2: "page_inv (ready_ok ?M) p2" using p1(2) by simp
  define p3 where "p3 = on_reveal resetVerticalSlides p2"
  have i3: "page_inv (ready_ok ?M) p3" unfolding p3_def by (rule ready_reset [OF i2])
  have v: "p_view p3 = p_view p"
    using setup_views [OF p1(1)]
    by (simp add: same_view_def p3_def p2_def setupScrollPrevention_def setupPostMessage_def later_def on_reveal_def addEventListener_def)
  have tr: "c_transition (p_view p3) \<notin> {''slides'', ''present''}" using assms(3) v by simp
  define opts where "opts = (None :: options option)"
  have "\<exists>p4. configure opts random p3 = Some p4 \<and> page_inv (ready_ok ?M) p4"
  proof (rule pf.hold_configure [OF i3 tr])
    show "c_transition (p_view (case opts of None \<Rightarrow> p3 | Some f \<Rightarrow> extend_config f p3)) \<notin> {''slides'', ''present''}"
      using tr by (simp add: opts_def)
    show "\<exists>r. shuffle random (configure_look (c_transition (p_view p3)) (case opts of None \<Rightarrow> p3 | Some f \<Rightarrow> extend_config f p3)) =
        Some r \<and> page_inv (ready_ok ?M) r"
      by (rule ready_shuffle) (use assms(2) in \<open>simp_all add: opts_def pf.hold_look i3 tr [simplified]\<close>)
  qed
  then obtain p4 where p4: "configure None random p3 = Some p4" "page_inv (ready_ok ?M) p4" by (auto simp: opts_def)
  obtain s where s: "readURL (p_reveal p4) = Some s"
      "page_inv (running_ok (horizontalSlides (p_reveal p4))) (on_reveal (\<lambda>_. updateBackground True s) p4)"
    using ready_readURL [OF p4(2)] by blast
  define p5 where "p5 = later Timer_ready (on_reveal (\<lambda>_. updateBackground True s) p4)"
  define q where "q = (if isPrintingPDF (p_reveal p5) then
      let p = removeEventListeners p5
      in if b_complete (p_browser p) then call_page (Draw ''setupPDF'') p else addEventListener Window ''load'' ''setupPDF'' p
    else p5)"
  have "start random p = Some q"
    unfolding start_def Let_def p1(1) option.case p2_def [symmetric] p3_def [symmetric] p4(1) s(1) p5_def [symmetric] q_def
    by (rule refl)
  moreover have "page_inv (running_ok (horizontalSlides (p_reveal p4))) p5"
    using s(2) pr.hold_cong [of p5 "on_reveal (\<lambda>_. updateBackground True s) p4"] by (simp add: p5_def later_def)
  then have "q = p5 \<and> page_inv (running_ok (horizontalSlides (p_reveal p4))) p5"
    by (simp add: q_def page_inv_def running_ok_def reveal_inv_def)
  moreover have "mset (horizontalSlides (p_reveal p4)) = ?M" using p4(2) by (simp add: page_inv_def ready_ok_def)
  ultimately show ?thesis by blast
qed

section \<open>An example\<close>

definition ready_page :: page where
  "ready_page = example_page\<lparr>p_player := None, p_view := (p_view example_page)\<lparr>c_transition := ''slide''\<rparr>\<rparr>"

lemma ready_page_simps:
  "p_reveal ready_page = example_deck undefined" "page_dom ready_page = example_dom" "p_player ready_page = None"
  "c_transition (p_view ready_page) = ''slide''"
  by (simp_all add: ready_page_def example_page_def page_dom_def example_deck_def)

lemma example_names:
  "r_wrapper (example_deck s) = 1" "r_root (example_deck s) = 0" "r_background (example_deck s) = 7"
  "r_slides (example_deck s) = 2" "r_dom (example_deck s) = example_dom"
  by (simp_all add: example_deck_def)

lemma ready_page_inv: "page_inv (ready_ok {#3, 4#}) ready_page"
proof -
  have "seated (example_deck undefined)"
    by (simp add: seated_def example_slides example_names) (simp add: example_dom_def)
  moreover have "steady ready_page"
    unfolding steady_def based_def ready_page_simps example_names
    by (simp add: example_tree) (simp add: example_dom_def bare_def is_section_def)
  ultimately show ?thesis
    using initial_fresh [OF example_initial] by (simp add: page_inv_def ready_ok_def ready_page_simps example_slides)
qed

lemma ready_page_start: "start_ok ready_page"
proof -
  have d: "d_desc example_dom 8 = []" "d_kids example_dom 8 = []" "fresh_node example_dom = 8"
    by (simp_all add: example_dom_def fresh_node_def)
  have r: "ready_ok {#3, 4#} (p_reveal ready_page)" using ready_page_inv by (simp add: page_inv_def)
  then have "ready_ok {#3, 4#} (p_reveal (with_background (r_background (p_reveal ready_page)) ready_page))"
    by (simp add: with_background_def)
  then have "ready_ok {#3, 4#} (p_reveal (with_background 8 ready_page))"
    by (rule ready_background) (simp add: ready_page_simps d)
  then have "fresh_ok ((example_deck undefined)\<lparr>r_background := 8\<rparr>)" "seated (example_deck undefined)"
    using r by (simp_all add: ready_ok_def with_background_def ready_page_simps)
  moreover have "based ready_page" using ready_page_inv steadyD(1) by (simp add: page_inv_def)
  moreover have "\<forall>n \<in> set (d_nodes example_dom). d_tag example_dom n \<noteq> ''a'' \<and> \<not> has_class ''backgrounds'' example_dom n \<and>
      \<not> has_class ''controls'' example_dom n" "1 \<in> set (d_nodes example_dom)"
    by (simp_all add: example_dom_def has_class_def)
  ultimately show ?thesis
    unfolding start_ok_def controls_ok_def Let_def ready_page_simps example_names d(3) by simp
qed

section \<open>Properties\<close>

text \<open>
  C22: \<open>start\<close> brings up any well-shaped deck: it does not fail, and whatever the configuration (short of a
  transition named like a class of slides), the random numbers and the URL, the presentation is then in a state that satisfies the invariant of
  running presentations: exactly one slide is present, the indices name it, and at most one timer that
  advances it is pending; the document is a tree whose links, backgrounds and player hold no slide
  (\<open>steady\<close>); and the slides are those of the document, possibly in another order.
\<close>

theorem start_establishes:
  assumes "start_ok p" "random_ok random (length (horizontalSlides (p_reveal p)))"
    "c_transition (p_view p) \<notin> {''slides'', ''present''}"
  shows "\<exists>q. start random p = Some q \<and> reveal_inv (p_reveal q) \<and> steady q \<and>
    mset (horizontalSlides (p_reveal q)) = mset (horizontalSlides (p_reveal p))"
  using start_result [OF assms] by (auto simp: page_inv_def running_ok_def)

theorem start_establishes_witness:
  "\<exists>q. start [0, 1 / 2] ready_page = Some q \<and> reveal_inv (p_reveal q) \<and> steady q \<and>
    mset (horizontalSlides (p_reveal q)) = {#3, 4#}"
  using start_establishes [OF ready_page_start, of "[0, 1 / 2]"]
  by (simp add: ready_page_simps example_slides random_ok_def)

text \<open>
  C23: \<open>configure\<close> may be called at any time: from a running presentation it leads to a running
  presentation with the same slides in the same order, whatever options are set, unless they request
  shuffling or name a transition like a class of slides.
\<close>

theorem configure_keeps:
  assumes "steady p" "reveal_inv (p_reveal p)"
    "p' = (case opts of None \<Rightarrow> p | Some f \<Rightarrow> extend_config f p)"
    "\<not> c_shuffle (p_view p')"
    "{c_transition (p_view p), c_transition (p_view p')} \<inter> {''slides'', ''present''} = {}"
  shows "\<exists>q. configure opts random p = Some q \<and> steady q \<and> reveal_inv (p_reveal q) \<and>
    horizontalSlides (p_reveal q) = horizontalSlides (p_reveal p)"
proof -
  have "page_inv (running_ok (horizontalSlides (p_reveal p))) p"
    using assms(1,2) by (simp add: page_inv_def running_ok_def)
  from pr.hold_configure [OF this, of opts random] show ?thesis
    using assms(3-5) by (auto simp: page_inv_def running_ok_def)
qed

theorem configure_keeps_witness:
  "\<exists>p q. configure (Some (\<lambda>c. c\<lparr>c_loop := True\<rparr>, \<lambda>v. v\<lparr>c_shuffle := False\<rparr>)) [] p = Some q \<and> steady q \<and>
    reveal_inv (p_reveal q) \<and> horizontalSlides (p_reveal q) = [3, 4]"
proof -
  define f :: options where "f = (\<lambda>c. c\<lparr>c_loop := True\<rparr>, \<lambda>v. v\<lparr>c_shuffle := False\<rparr>)"
  obtain s where s: "page_inv (running_ok [3, 4]) (on_reveal (\<lambda>_. updateBackground True s) ready_page)"
    using ready_readURL [OF ready_page_inv] by (auto simp: ready_page_simps example_slides)
  define p where "p = on_reveal (\<lambda>_. updateBackground True s) ready_page"
  have p: "steady p" "reveal_inv (p_reveal p)" "horizontalSlides (p_reveal p) = [3, 4]"
    using s by (simp_all add: page_inv_def running_ok_def p_def)
  have "c_transition (p_view p) = ''slide''"
    using ready_page_simps(4) by (simp add: p_def on_reveal_def)
  then show ?thesis
    using configure_keeps [OF p(1,2) refl, of "Some f" "[]"] p(3) unfolding f_def
    by (auto simp: extend_config_def)
qed

text \<open>
  C28: \<open>shuffle\<close> only reorders: for every choice of random numbers the horizontal slides are permuted,
  the slides of every stack stay as they are, and the deck stays well-shaped.
\<close>

theorem shuffle_permutes_slides:
  assumes "tree_ok (page_dom p)" "deck_ok (p_reveal p)" "seated (p_reveal p)"
    "random_ok random (length (horizontalSlides (p_reveal p)))"
  shows "\<exists>q. shuffle random p = Some q \<and> deck_ok (p_reveal q) \<and>
    mset (horizontalSlides (p_reveal q)) = mset (horizontalSlides (p_reveal p)) \<and>
    (\<forall>h \<in> set (horizontalSlides (p_reveal p)). sections_in (p_reveal q) h = sections_in (p_reveal p) h)"
proof -
  obtain d where d: "shuffle random p = Some (on_dom (\<lambda>_. d) p)" "permuted (r_slides (p_reveal p)) (page_dom p) d"
    using shuffle_result [OF assms(1,3,4)] by blast
  with shuffled_deck [OF d(2) assms(1-3)] show ?thesis by blast
qed

theorem shuffle_permutes_slides_witness:
  "\<exists>q. shuffle [1 / 2, 0] ready_page = Some q \<and> deck_ok (p_reveal q) \<and>
    mset (horizontalSlides (p_reveal q)) = {#3, 4#} \<and> sections_in (p_reveal q) 4 = [5, 6]"
proof -
  have "steady ready_page" "ready_ok {#3, 4#} (p_reveal ready_page)" using ready_page_inv by (simp_all add: page_inv_def)
  then have "tree_ok (page_dom ready_page)" "deck_ok (p_reveal ready_page)" "seated (p_reveal ready_page)"
    by (simp_all add: steadyD(2) ready_ok_def fresh_ok_def)
  from shuffle_permutes_slides [OF this, of "[1 / 2, 0]"] show ?thesis
    by (auto simp: ready_page_simps example_slides random_ok_def)
qed

end
