(* ===== verification/Spec2Isabelle.thy ===== *)
theory Spec2Isabelle
  imports Deflate_Run Deflate_Inflate Plantuml Reveal_Quiet Reveal_Saved Reveal_Stepping Reveal_Ready
begin

text \<open>
  A verification library for the JavaScript of the factcast repository that carries logic of its own:
  the compressor \<open>static/js/deflate.js\<close> and the encoder \<open>assets/js/plantuml.js\<close> of the documentation
  site (they turn a PlantUML diagram into the path of an image), and the presentation engine
  \<open>revealjs/js/reveal.js\<close> of the schema registry's site theme.

  \<^bold>\<open>The compressor.\<close>  \<open>deflate(str, level)\<close> is one module with global variables.  Its state is one
  record, built up in layers so that each theory sees the variables it needs:
  \<^item> \<open>Js_Prelude\<close>: JavaScript's 32-bit operators on whole numbers, counting loops, bit lists.
  \<^item> \<open>Deflate_Output\<close> (\<open>out_state\<close>): the bit accumulator, the 8 KB output buffer and the queue of full
    buffers.  \<open>out_stream\<close> abstracts them to one list of bits; every operation is shown to append to it
    or to drain it.
  \<^item> \<open>Deflate_State\<close> (\<open>tree_state\<close>): constants, trees, descriptors.  Arrays are functions of the index;
    trees are named by \<open>tree_ref\<close>, as descriptors refer to them.
  \<^item> \<open>Deflate_Huffman\<close>: \<open>zip_pqdownheap\<close>, \<open>zip_gen_bitlen\<close>, \<open>zip_gen_codes\<close>, \<open>zip_build_tree\<close>;
    \<open>Deflate_Codes\<close>: the codes are canonical and prefix-free.
  \<^item> \<open>Deflate_Trees\<close> (\<open>block_state\<close>): \<open>zip_ct_init\<close>, \<open>zip_init_block\<close>, and the run-length coding of a
    tree's lengths; \<open>Deflate_Tables\<close>: the tables are those of RFC 1951.
  \<^item> \<open>Deflate_Block\<close>: the token buffers, \<open>zip_compress_block\<close>, \<open>zip_flush_block\<close>.
  \<^item> \<open>Deflate_Inflate\<close>: the decoder of RFC 1951 as a specification, and that it reads back what the
    compressor writes.
  \<^item> \<open>Deflate_Match\<close> (\<open>match_state\<close>): the sliding window, the hash chains, \<open>zip_longest_match\<close>;
    \<open>Deflate_Main\<close> (\<open>deflate_state\<close>): the two drivers and \<open>deflate\<close>.
  \<^item> \<open>Deflate_Hash\<close>: the rolling hash and the scan of a candidate; \<open>Deflate_Flush\<close>: what
    \<open>zip_flush_block\<close> leaves alone; \<open>Deflate_Window\<close>: the window shows the text, and the invariant of the
    hash chains; \<open>Deflate_Lz\<close>: the expansion of tokens as a specification; \<open>Deflate_Parse\<close>,
    \<open>Deflate_Lazy\<close>: one round of either matcher keeps tokens and text together.
  \<^item> \<open>Deflate_Total\<close>: all loops of the driver end; \<open>Deflate_Run\<close>: \<open>deflate\<close> returns, and what its blocks
    hold.  The proofs use no fuel: the measure is the text left to match.

  An element of an array that was never written is \<open>undefined\<close>; where the code reads such elements
  (the window, \<open>zip_match_available\<close>) the model has an option type.  Arrays the code only reads after
  writing are total functions.  Loops that count are \<open>for_up\<close>; loops with a measure are \<open>function\<close>s
  with a termination proof; the outer loops of the drivers, whose end depends on the whole state, are
  \<open>partial_function (option)\<close>, where not returning is \<open>None\<close>.

  \<^bold>\<open>The encoder.\<close>  \<open>Plantuml\<close>: \<open>encode64\<close> and its decoder.

  \<^bold>\<open>The presentation engine.\<close>  Its state is the record \<open>reveal\<close>: the document, the configuration, the
  module's variables, the pending timers and a log of calls whose effect is the browser's alone.
  \<^item> \<open>Js_Value\<close>: numbers that may be \<open>undefined\<close> or NaN, \<open>parseInt\<close>.
  \<^item> \<open>Reveal_State\<close>: document, queries, timers, state queries.
  \<^item> \<open>Reveal_Media\<close>: embedded media, lazy loading.
  \<^item> \<open>Reveal_Fragments\<close>: indices, routes, controls, progress, notes; \<open>sortFragments\<close>,
    \<open>navigateFragment\<close>.
  \<^item> \<open>Reveal_Slides\<close>: \<open>slide\<close> with all it calls, the URL, auto-sliding.
  \<^item> \<open>Reveal_Input\<close>: overview, pausing, navigation, keys, touch, mouse, timers, \<open>sync\<close>.
  \<^item> \<open>Reveal_Frame\<close>: which operations leave the position and the timers alone.
  \<^item> \<open>Reveal_Deck\<close>: \<open>updateSlides\<close> makes one slide present; \<open>Reveal_Position\<close>: \<open>slide\<close> keeps the indices
    in range and goes where it is asked to; \<open>Reveal_Timers\<close>: at most one auto-slide timer is pending.
  \<^item> \<open>Reveal_Events\<close>: the events of user, timers and page as a step relation, and what holds in every
    reachable state.
  \<^item> \<open>Reveal_Walk\<close>: where keys, clicks and URLs lead, and that going on arrives at the end;
    \<open>Reveal_Quiet\<close>: a paused presentation does not advance; \<open>Reveal_Saved\<close>: a saved state restores.
  \<^item> \<open>Reveal_Sorting\<close>, \<open>Reveal_Stepping\<close>: fragments are sorted stably and stepped through group by group.

  Starting, configuring and laying out a presentation touch more than that record: the record \<open>page\<close>
  holds it together with the rest of the configuration, styles, listeners and what the browser offers,
  and the document of a page grows.
  \<^item> \<open>Js_Number\<close>: exact quotients with the infinities and NaN.
  \<^item> \<open>Reveal_Tree\<close>: creating, appending, removing and moving elements, and the invariant \<open>tree_ok\<close>;
    \<open>Reveal_Page\<close>: the page; \<open>Reveal_Listeners\<close>: \<open>addEventListeners\<close> and its counterpart, and that
    nothing else is bound or unbound.
  \<^item> \<open>Reveal_Color\<close>: \<open>colorToRgb\<close>; \<open>Reveal_Built\<close>: changes of the document that leave the deck as it is;
    \<open>Reveal_Backdrop\<close>: \<open>createBackgrounds\<close> makes a background for every slide, in the slides' order.
  \<^item> \<open>Reveal_Layout\<close>: \<open>layout\<close>, the scale that makes a slide fit, stretched elements, the parallax.
  \<^item> \<open>Reveal_Setup\<close>: \<open>setupDOM\<close>, \<open>configure\<close>, \<open>sync\<close>, \<open>shuffle\<close>, \<open>start\<close>.
  \<^item> \<open>Reveal_Growth\<close>: the relation \<open>grown\<close> of pages whose deck is the same, closed under the operations;
    \<open>Reveal_Start\<close>: the locale \<open>page_invariant\<close>, the laws an invariant of the presentation needs so that
    every operation of the page keeps it; \<open>Reveal_Shuffle\<close>: shuffling permutes the horizontal slides;
    \<open>Reveal_Ready\<close>: the locale's two interpretations, before and after the start, and what
    \<open>setupDOM\<close> and \<open>start\<close> establish.

  A \<open>TypeError\<close> is the value \<open>None\<close> of an option.  Event handlers take the fields of the event they
  read as arguments.  Numbers are whole and exact; where the code divides in floating point
  (\<open>getProgress\<close>, the overview's scale, a click on the progress bar, the layout) the model has the exact
  quotient.  What the browser measures or computes (sizes, the background color of an element, the user
  agent) is a field of the record \<open>browser\<close>; the values of \<open>Math.random\<close> are an argument.  The markup
  that \<open>createSingletonNode\<close> writes through \<open>innerHTML\<close> is a tree of elements.

  \<^bold>\<open>Not modelled.\<close>  Of \<open>reveal.js\<close>: \<open>checkCapabilities\<close>, \<open>load\<close> and \<open>initialize\<close>, which load scripts
  before \<open>start\<close>; \<open>setupPDF\<close>, which is a logged call; the overlays \<open>showPreview\<close> and \<open>showHelp\<close>; the
  canvas that \<open>Playback\<close> draws; user-defined key bindings, which are callbacks of the page.  The jQuery
  glue around the encoder, third-party libraries, and the Java of the repository.
\<close>

end
